(* ===== verification/M2_Prelude.thy ===== *)
theory M2_Prelude
  imports "HOL-Library.Word" "HOL-Library.Multiset"
begin

text \<open>
  Shared ground of the development: the names of the C types, the macros of
  \<^verbatim>\<open>src/src/def.h\<close> and \<^verbatim>\<open>src/src/conf.h\<close>, and the facts on machine words, blocks of
  addresses and lists that the component theories rest on.

  Pointers and sizes are 64-bit words (the code is built for LP64 targets), so every
  addition and subtraction of the code wraps as the machine's does. A block of memory is
  the set of natural numbers its addresses denote, so overlap and containment are plain
  facts on sets of naturals.
\<close>

unbundle bit_operations_syntax

declare Let_def [simp]

section \<open>C types\<close>

type_synonym uptr = "64 word"
type_synonym usize = "64 word"
type_synonym u64 = "64 word"
type_synonym u32 = "32 word"
type_synonym u16 = "16 word"
type_synonym u8 = "8 word"

abbreviation NULL :: uptr where
  "NULL \<equiv> 0"

named_theorems m2_defs \<open>definitions of the model's small helpers, for unfolding\<close>
named_theorems m2_unat \<open>how the word operations of the model read as naturals\<close>

section \<open>Macros of def.h\<close>

text \<open>\<^verbatim>\<open>ALIGN(n, m)\<close>: round \<open>n\<close> up to the next multiple of \<open>m = 2 ^ k\<close>.\<close>

definition ALIGN :: "uptr \<Rightarrow> uptr \<Rightarrow> uptr" where
  "ALIGN n m = (n + m - 1) AND NOT (m - 1)"

section \<open>Words\<close>

lemma unat_exp [m2_unat]: "k < LENGTH('a) \<Longrightarrow> unat (2 ^ k :: 'a::len word) = 2 ^ k"
  by transfer (simp add: take_bit_eq_mod)

lemma unat_lt64: "unat (x :: 64 word) < 18446744073709551616"
  using unsigned_less [of x] by simp

lemma unat_lt32: "unat (x :: 32 word) < 4294967296"
  using unsigned_less [of x] by simp

lemma unat_lt16: "unat (x :: 16 word) < 65536"
  using unsigned_less [of x] by simp

lemma unat_lt8: "unat (x :: 8 word) < 256"
  using unsigned_less [of x] by simp

lemma unat_add_small:
  "unat x + unat y < 2 ^ LENGTH('a) \<Longrightarrow> unat (x + y :: 'a::len word) = unat x + unat y"
  by (simp add: unat_add_lem)

lemma unat_add64 [m2_unat]:
  "unat x + unat y < 18446744073709551616 \<Longrightarrow> unat (x + y :: 64 word) = unat x + unat y"
  by (rule unat_add_small) simp

lemma unat_add32 [m2_unat]:
  "unat x + unat y < 4294967296 \<Longrightarrow> unat (x + y :: 32 word) = unat x + unat y"
  by (rule unat_add_small) simp

lemma unat_of_nat_small:
  "x < 2 ^ LENGTH('a) \<Longrightarrow> unat (of_nat x :: 'a::len word) = x"
  by (simp add: unsigned_of_nat take_bit_nat_eq_self)

lemma and_not_mask_unat:
  fixes x :: "'a::len word"
  shows "unat (x AND NOT (mask k)) = unat x div 2 ^ k * 2 ^ k"
proof -
  have *: "x AND NOT (mask k) = push_bit k (drop_bit k x)"
    by (rule bit_word_eqI) (auto simp: bit_simps)
  have "unat (push_bit k (drop_bit k x)) = take_bit LENGTH('a) (unat x div 2 ^ k * 2 ^ k)"
    by (simp only: unsigned_push_bit_eq unsigned_drop_bit_eq)
      (simp only: push_bit_eq_mult drop_bit_eq_div take_bit_eq_mod, simp)
  also have "\<dots> = unat x div 2 ^ k * 2 ^ k"
    using div_times_less_eq_dividend [of "unat x" "2 ^ k"] unsigned_less [of x]
    by (intro take_bit_nat_eq_self) (rule le_less_trans)
  finally show ?thesis using * by simp
qed

lemma nat_log2:
  "0 < (n::nat) \<Longrightarrow> \<exists>k. 2 ^ k \<le> n \<and> n < 2 ^ Suc k"
  using ex_power_ivl1 [of 2 n] by auto

lemma and_minus_one_pow2:
  fixes x :: "'a::len word"
  assumes "x AND (x - 1) = 0" "x \<noteq> 0"
  shows "\<exists>k < LENGTH('a). x = 2 ^ k"
proof -
  have "0 < unat x" using assms(2) by (simp add: unat_gt_0)
  then obtain k where k: "2 ^ k \<le> unat x" "unat x < 2 ^ Suc k" using nat_log2 by blast
  have kl: "k < LENGTH('a)"
  proof (rule ccontr)
    assume "\<not> k < LENGTH('a)"
    then have "(2::nat) ^ LENGTH('a) \<le> 2 ^ k" by (intro power_increasing) auto
    then have "2 ^ LENGTH('a) \<le> unat x" using k(1) by (rule order_trans)
    then show False by (simp flip: not_less add: unsigned_less)
  qed
  have b: "bit y k" if "2 ^ k \<le> unat y" "unat y < 2 ^ Suc k" for y :: "'a word"
  proof -
    have "unat y div 2 ^ k = 1" using that by (intro div_nat_eqI) auto
    then have "bit (unat y) k" by (simp add: bit_iff_odd)
    then show ?thesis using kl by (simp add: bit_unsigned_iff)
  qed
  have "unat x = 2 ^ k"
  proof (rule ccontr)
    assume "unat x \<noteq> 2 ^ k"
    moreover have "unat (x - 1) = unat x - 1" using assms(2) by (simp add: unat_minus_one)
    ultimately have "bit (x - 1) k" using k by (intro b) auto
    moreover have "bit x k" using k by (rule b)
    ultimately have "bit (x AND (x - 1)) k" by (simp add: bit_and_iff)
    then show False using assms(1) by simp
  qed
  then have "x = 2 ^ k" using kl by (metis unat_exp word_unat_eq_iff)
  then show ?thesis using kl by blast
qed
lemma unat_mult_small:
  "unat x * unat y < 2 ^ LENGTH('a) \<Longrightarrow> unat (x * y :: 'a::len word) = unat x * unat y"
  by (simp add: unat_mult_lem)

lemma unat_ucast_32_64 [simp]: "unat (ucast (x :: u32) :: 64 word) = unat x"
  by (simp add: unsigned_ucast_eq unsigned_take_bit_eq take_bit_nat_eq_self_iff) (use unat_lt32[of x] in simp)

lemma unat_ucast_16_32 [simp]: "unat (ucast (x :: u16) :: u32) = unat x"
  by (simp add: unsigned_ucast_eq unsigned_take_bit_eq take_bit_nat_eq_self_iff) (use unat_lt16 [of x] in simp)

section \<open>Rounding up\<close>

text \<open>What \<^const>\<open>ALIGN\<close> computes on naturals, away from the end of the address space.\<close>

definition round_up :: "nat \<Rightarrow> nat \<Rightarrow> nat" where
  "round_up n m = (n + m - 1) div m * m"

lemma ALIGN_unat:
  assumes m: "m = 2 ^ k" and k: "k < 64" and n: "unat n + unat m \<le> 2 ^ 64"
  shows "unat (ALIGN n m) = round_up (unat n) (unat m)"
proof -
  have m1: "m - 1 = mask k" using m by (simp add: mask_eq_exp_minus_1)
  have mk: "unat m = 2 ^ k" using m k by (simp add: unat_exp)
  have um: "unat (m - 1) = 2 ^ k - 1"
    using m k by (simp add: unat_sub_if' unat_exp)
  have "unat n + unat (m - 1) < 2 ^ LENGTH(64)"
    using n um mk zero_less_power [of "2::nat" k] by simp
  then have "unat (n + (m - 1)) = unat n + unat (m - 1)"
    by (rule unat_add_small)
  then have "unat (n + m - 1) = unat n + 2 ^ k - 1"
    using um by (simp add: add_diff_eq)
  then show ?thesis unfolding ALIGN_def m1 and_not_mask_unat round_up_def mk by simp
qed

lemma round_up_ge: "0 < m \<Longrightarrow> n \<le> round_up n m"
proof -
  assume "0 < m"
  then have "(n + m - 1) mod m < m" by simp
  moreover have "(n + m - 1) = (n + m - 1) div m * m + (n + m - 1) mod m" by simp
  ultimately show ?thesis using \<open>0 < m\<close> unfolding round_up_def by linarith
qed

lemma round_up_less: "0 < m \<Longrightarrow> round_up n m < n + m"
  unfolding round_up_def
  using div_times_less_eq_dividend [of "n + m - 1" m] by linarith

lemma round_up_dvd [simp]: "m dvd round_up n m"
  by (simp add: round_up_def)

lemma round_up_id [simp]: "0 < m \<Longrightarrow> m dvd n \<Longrightarrow> round_up n m = n"
proof (elim dvdE)
  fix q assume "0 < m" "n = m * q"
  then have "n + m - 1 = (m - 1) + m * q" and "((m - 1) + m * q) div m = q"
    by (simp_all only: div_mult_self2) simp_all
  with \<open>n = m * q\<close> show ?thesis by (simp add: round_up_def)
qed

lemma round_up_mono_dvd: "0 < m \<Longrightarrow> m dvd e \<Longrightarrow> n \<le> e \<Longrightarrow> round_up n m \<le> e"
proof -
  assume "0 < m" "m dvd e" "n \<le> e"
  then obtain q where q: "e = m * q" by (auto elim: dvdE)
  have "(n + m - 1) div m \<le> q"
  proof (rule ccontr)
    assume "\<not> (n + m - 1) div m \<le> q"
    then have "Suc q \<le> (n + m - 1) div m" by simp
    then have "Suc q * m \<le> (n + m - 1) div m * m" by (rule mult_le_mono1)
    also have "\<dots> \<le> n + m - 1" by (rule div_times_less_eq_dividend)
    finally show False using q \<open>n \<le> e\<close> \<open>0 < m\<close> by (simp add: mult.commute)
  qed
  then show ?thesis unfolding round_up_def q by (simp add: mult.commute)
qed

section \<open>Blocks of addresses\<close>

definition blk :: "uptr \<Rightarrow> usize \<Rightarrow> nat set" where
  "blk p n = {unat p ..< unat p + unat n}"

lemma blk_empty [simp]: "blk p 0 = {}"
  by (simp add: blk_def)

section \<open>Copying\<close>

text \<open>\<^verbatim>\<open>memcpy\<close> on a byte-addressed memory.\<close>

definition memcpy :: "(uptr \<Rightarrow> u8) \<Rightarrow> uptr \<Rightarrow> uptr \<Rightarrow> usize \<Rightarrow> uptr \<Rightarrow> u8" where
  "memcpy st dst src n = (\<lambda>a. if a - dst < n then st (src + (a - dst)) else st a)"

lemma memcpy_at:
  assumes "unat d + unat n \<le> 2 ^ 64"
  shows "memcpy st d s n a = (if unat d \<le> unat a \<and> unat a < unat d + unat n then st (s + (a - d)) else st a)"
proof -
  have "a - d < n \<longleftrightarrow> unat d \<le> unat a \<and> unat a < unat d + unat n"
    using assms unat_lt64 [of a] unat_lt64 [of n] unat_lt64 [of d] unfolding word_less_nat_alt unat_sub_if' by auto
  then show ?thesis by (simp add: memcpy_def)
qed

section \<open>The first element with a property\<close>

lemma find_hd_filter: "find P xs = (if filter P xs = [] then None else Some (hd (filter P xs)))"
  by (induction xs) auto

lemma find_append_case: "find P (xs @ ys) = (case find P xs of None \<Rightarrow> find P ys | Some i \<Rightarrow> Some i)"
  by (induction xs) auto

lemma find_map_image: "find P (map f xs) = map_option f (find (\<lambda>x. P (f x)) xs)"
  by (induction xs) auto

lemma find_SomeD: "find P xs = Some x \<Longrightarrow> x \<in> set xs \<and> P x"
  by (auto simp: find_Some_iff)

lemma find_shift: "find P [a + s ..< a + t] = map_option (\<lambda>i. a + i) (find (\<lambda>i. P (a + i)) [s ..< t])"
proof -
  have "[a + s ..< a + t] = map (\<lambda>i. a + i) [s ..< t]" by (induction t) auto
  then show ?thesis by (simp add: find_map_image)
qed

lemma find_restrict: "s \<le> t \<Longrightarrow> find (\<lambda>i. s \<le> i \<and> P i) [0 ..< t] = find P [s ..< t]"
proof -
  assume "s \<le> t"
  then have "[0 ..< t] = [0 ..< s] @ [s ..< t]" using upt_add_eq_append [of 0 s "t - s"] by simp
  moreover have "find (\<lambda>i. s \<le> i \<and> P i) [0 ..< s] = None" by (auto simp: find_None_iff)
  moreover have "find (\<lambda>i. s \<le> i \<and> P i) [s ..< t] = find P [s ..< t]" by (rule find_cong) auto
  ultimately show ?thesis by (simp add: find_append_case)
qed

end
