(* ===== verification/M2_Mem.thy ===== *)
theory M2_Mem
  imports M2_Prelude
begin

text \<open>
  The memory layer, \<^verbatim>\<open>src/src/mem.c\<close>: the bump allocator and the two allocators built on
  it, regions (one contiguous block) and arenas (a chain of chunks that grows), and the
  probing of the address space for the simulator's mapping.

  The linked list of chunks is the list \<open>a_chunks\<close> in chain order with the position
  \<open>a_cur\<close> of \<^verbatim>\<open>arena->chunk\<close>: the code only ever appends after the last chunk and walks
  \<^verbatim>\<open>prev\<close>/\<^verbatim>\<open>next\<close>. \<^verbatim>\<open>malloc\<close> and \<^verbatim>\<open>mmap\<close> are arguments of the definitions that call them.
  Assertions are compiled out (\<^verbatim>\<open>-DNDEBUG\<close>), as in the release build.
\<close>

section \<open>Mapping probe\<close>

definition VM_MAP_ABOVE :: uptr where
  "VM_MAP_ABOVE = 0x100000000"

definition VM_PROBE_RETRIES :: nat where
  "VM_PROBE_RETRIES = 10"

text \<open>
  \<open>mmap hint tries live\<close> is what the system call returns in the given attempt
  (\<^const>\<open>None\<close> for \<^verbatim>\<open>MAP_FAILED\<close>); \<open>live\<close> lists the addresses the probe holds mapped. The
  result is the pointer and what stays mapped.
\<close>

function mmap_probe ::
  "(uptr \<Rightarrow> nat \<Rightarrow> uptr list \<Rightarrow> uptr option) \<Rightarrow> uptr \<Rightarrow> nat \<Rightarrow> uptr list \<Rightarrow> uptr \<times> uptr list"
where
  "mmap_probe mmap hint tries live =
     (case mmap hint tries live of
        None \<Rightarrow> (NULL, live)
      | Some p \<Rightarrow>
          if p > VM_MAP_ABOVE then (p, p # live)
          else if tries \<ge> VM_PROBE_RETRIES then (NULL, p # live)
          else let (r, live') = mmap_probe mmap (hint + VM_MAP_ABOVE) (Suc tries) (p # live)
               in (r, remove1 p live'))"
  by pat_completeness auto
termination
  by (relation "measure (\<lambda>(_, _, tries, _). VM_PROBE_RETRIES - tries)") auto

definition vm_map_probe ::
  "(uptr \<Rightarrow> nat \<Rightarrow> uptr list \<Rightarrow> uptr option) \<Rightarrow> uptr list \<Rightarrow> uptr \<times> uptr list" where
  "vm_map_probe mmap live = mmap_probe mmap VM_MAP_ABOVE 0 live"

section \<open>The bump allocator\<close>

text \<open>
  \<open>bump p sz align end\<close> returns the new value of the bump pointer and the result
  pointer. The comparison is on wrapped 64-bit values, as in the code.
\<close>

definition bump :: "uptr \<Rightarrow> usize \<Rightarrow> usize \<Rightarrow> uptr \<Rightarrow> uptr \<times> uptr" where
  "bump p sz align e =
     (let r = ALIGN p align
      in if r + sz < e then (r + sz, r) else (p, NULL))"

section \<open>Regions\<close>

record region =
  ptr :: uptr
  rend :: uptr
  mem :: uptr

definition reg_init :: "uptr \<Rightarrow> usize \<Rightarrow> region" where
  "reg_init m sz = \<lparr>ptr = m, rend = m + sz, mem = m\<rparr>"

definition REG_RESET :: "region \<Rightarrow> region" where
  "REG_RESET r = r\<lparr>ptr := mem r\<rparr>"

definition reg_alloc :: "region \<Rightarrow> usize \<Rightarrow> usize \<Rightarrow> region \<times> uptr" where
  "reg_alloc r sz align =
     (let (p', q) = bump (ptr r) sz align (rend r) in (r\<lparr>ptr := p'\<rparr>, q))"

section \<open>Arenas\<close>

text \<open>\<^verbatim>\<open>struct chunk\<close> has a header of three words before \<^verbatim>\<open>mem\<close>; \<^verbatim>\<open>struct arena\<close> is three
  words as well.\<close>

definition sizeof_chunk :: usize where
  "sizeof_chunk = 24"

definition sizeof_arena :: usize where
  "sizeof_arena = 24"

record chunk =
  c_addr :: uptr
  c_end :: uptr

definition c_mem :: "chunk \<Rightarrow> uptr" where
  "c_mem c = c_addr c + sizeof_chunk"

record arena =
  a_self :: uptr
  a_chunks :: "chunk list"
  a_cur :: nat
  a_mem :: uptr
  a_end :: uptr

definition arena_create :: "(usize \<Rightarrow> uptr) \<Rightarrow> usize \<Rightarrow> arena" where
  "arena_create malloc sz =
     (let p = malloc (sizeof_arena + sizeof_chunk + sz);
          a = p + sizeof_arena;
          m = a + sizeof_chunk;
          c = \<lparr>c_addr = a, c_end = m + sz\<rparr>
      in \<lparr>a_self = p, a_chunks = [c], a_cur = 0, a_mem = m, a_end = c_end c\<rparr>)"

text \<open>The pointers handed to \<^verbatim>\<open>free\<close>, in order: walk to the last chunk, free backwards down to
  the second one, then free the arena, which holds the first chunk.\<close>

definition arena_destroy :: "arena \<Rightarrow> uptr list" where
  "arena_destroy A = map c_addr (rev (tl (a_chunks A))) @ [a_self A]"

text \<open>The first loop of \<^verbatim>\<open>arena_alloc\<close>: try the chunks after the current one, in order.
  The result is the position reached and, on success, the new bump pointer and the
  block.\<close>

fun find_chunk :: "chunk list \<Rightarrow> nat \<Rightarrow> usize \<Rightarrow> usize \<Rightarrow> nat \<times> (uptr \<times> uptr) option" where
  "find_chunk [] i sz align = (i, None)"
| "find_chunk (c # cs) i sz align =
     (let (m, p) = bump (c_mem c) sz align (c_end c)
      in if p \<noteq> NULL then (Suc i, Some (m, p)) else find_chunk cs (Suc i) sz align)"

text \<open>The size of a new chunk: the loop \<^verbatim>\<open>while(newsz < size+align-1) newsz *= 2\<close>, which need
  not end.\<close>

partial_function (option) grow_newsz :: "usize \<Rightarrow> usize \<Rightarrow> usize option" where
  "grow_newsz newsz need =
     (if newsz < need then grow_newsz (newsz * 2) need else Some newsz)"

definition new_chunk :: "(usize \<Rightarrow> uptr) \<Rightarrow> arena \<Rightarrow> usize \<Rightarrow> usize \<Rightarrow> (arena \<times> uptr) option" where
  "new_chunk malloc A sz align =
     (let last_c = a_chunks A ! a_cur A in
      case grow_newsz ((c_end last_c - c_mem last_c) * 2) (sz + align - 1) of
        None \<Rightarrow> None
      | Some newsz \<Rightarrow>
          let a = malloc (sizeof_chunk + newsz);
              c = \<lparr>c_addr = a, c_end = a + sizeof_chunk + newsz\<rparr>;
              (m, p) = bump (c_mem c) sz align (c_end c)
          in Some (A\<lparr>a_chunks := a_chunks A @ [c], a_cur := Suc (a_cur A),
                     a_mem := m, a_end := c_end c\<rparr>, p))"

definition arena_alloc :: "(usize \<Rightarrow> uptr) \<Rightarrow> arena \<Rightarrow> usize \<Rightarrow> usize \<Rightarrow> (arena \<times> uptr) option" where
  "arena_alloc malloc A sz align =
     (let (m, p) = bump (a_mem A) sz align (a_end A); A1 = A\<lparr>a_mem := m\<rparr> in
      if p \<noteq> NULL then Some (A1, p)
      else case find_chunk (drop (Suc (a_cur A)) (a_chunks A)) (a_cur A) sz align of
        (i, Some (m', p')) \<Rightarrow>
          Some (A1\<lparr>a_cur := i, a_mem := m', a_end := c_end (a_chunks A ! i)\<rparr>, p')
      | (i, None) \<Rightarrow> new_chunk malloc (A1\<lparr>a_cur := i\<rparr>) sz align)"

text \<open>\<^verbatim>\<open>alignof(max_align_t)\<close> is 16.\<close>

definition arena_malloc :: "(usize \<Rightarrow> uptr) \<Rightarrow> arena \<Rightarrow> usize \<Rightarrow> (arena \<times> uptr) option" where
  "arena_malloc malloc A sz = arena_alloc malloc A sz 16"

definition arena_reset :: "arena \<Rightarrow> arena" where
  "arena_reset A =
     A\<lparr>a_cur := 0, a_mem := c_mem (a_chunks A ! 0), a_end := c_end (a_chunks A ! 0)\<rparr>"

section \<open>The probe\<close>

declare mmap_probe.simps [simp del]

text \<open>A successful probe leaves exactly the returned mapping behind. A failed one leaves
  nothing new, or the mapping of the last attempt, which the code does not unmap.\<close>

lemma mmap_probe_result:
  "mmap_probe mmap hint tries live = (r, live') \<Longrightarrow>
     (r \<noteq> NULL \<longrightarrow> r > VM_MAP_ABOVE \<and> mset live' = add_mset r (mset live)) \<and>
     (r = NULL \<longrightarrow> mset live' = mset live \<or>
        (\<exists>p \<le> VM_MAP_ABOVE. mset live' = add_mset p (mset live)))"
proof (induction mmap hint tries live arbitrary: r live' rule: mmap_probe.induct)
  case (1 mmap hint tries live)
  note unf = mmap_probe.simps [of mmap hint tries live]
  show ?case
  proof (cases "mmap hint tries live")
    case None
    then show ?thesis using 1(2) by (simp add: unf)
  next
    case (Some p)
    show ?thesis
    proof (cases "p > VM_MAP_ABOVE \<or> tries \<ge> VM_PROBE_RETRIES")
      case True
      then show ?thesis using 1(2) Some by (auto simp: unf not_less split: if_splits)
    next
      case False
      obtain q l where rec:
        "mmap_probe mmap (hint + VM_MAP_ABOVE) (Suc tries) (p # live) = (q, l)"
        by fastforce
      with 1(2) Some False have res: "r = q" "live' = remove1 p l"
        by (auto simp: unf)
      show ?thesis using 1(1) [OF Some _ _ rec] False res by auto
    qed
  qed
qed

section \<open>Bump allocation\<close>

text \<open>A request that cannot wrap: a power-of-two alignment, and the end of the block and the
  request together stay inside the address space.\<close>

definition bump_req :: "uptr \<Rightarrow> usize \<Rightarrow> usize \<Rightarrow> bool" where
  "bump_req e sz align \<longleftrightarrow>
     (\<exists>k < 64. align = 2 ^ k) \<and> unat e + unat sz + unat align \<le> 2 ^ 64"

lemma bump_req_pos: "bump_req e sz align \<Longrightarrow> 0 < unat align"
  by (auto simp: bump_req_def unat_exp)

lemma bump_align:
  assumes "bump_req e sz align" "unat p \<le> unat e"
  shows "unat (ALIGN p align) = round_up (unat p) (unat align)"
    and "unat (ALIGN p align + sz) = round_up (unat p) (unat align) + unat sz"
proof -
  from assms(1) obtain k where k: "align = 2 ^ k" "k < 64"
    and b: "unat e + unat sz + unat align \<le> 2 ^ 64" by (auto simp: bump_req_def)
  show a: "unat (ALIGN p align) = round_up (unat p) (unat align)"
    using k b assms(2) by (intro ALIGN_unat) auto
  have "round_up (unat p) (unat align) < unat p + unat align"
    using bump_req_pos [OF assms(1)] by (rule round_up_less)
  with a b assms(2) show "unat (ALIGN p align + sz) = round_up (unat p) (unat align) + unat sz"
    by (subst unat_add_small) auto
qed

text \<open>The whole behaviour of \<^const>\<open>bump\<close> on a request that does not wrap.\<close>

lemma bump_cases:
  assumes "bump_req e sz align" "unat p \<le> unat e" "bump p sz align e = (p', r)"
  obtains (ok) "unat r = round_up (unat p) (unat align)" "unat p' = unat r + unat sz"
      "unat p' < unat e" "unat p \<le> unat r"
  | (fail) "r = NULL" "p' = p" "unat e \<le> round_up (unat p) (unat align) + unat sz"
proof (cases "ALIGN p align + sz < e")
  case True
  then have "unat (ALIGN p align + sz) < unat e" by (simp add: word_less_nat_alt)
  with True assms(3) show thesis
    using bump_align [OF assms(1,2)] round_up_ge [OF bump_req_pos [OF assms(1)], of "unat p"]
    by (intro ok) (auto simp: bump_def)
next
  case False
  then have "unat e \<le> unat (ALIGN p align + sz)" by (simp add: word_less_nat_alt)
  with False assms(3) show thesis
    using bump_align [OF assms(1,2)] by (intro fail) (auto simp: bump_def)
qed

section \<open>What an allocator promises\<close>

text \<open>
  The contract of both allocators. \<open>used s\<close> is the memory that \<open>s\<close> no longer hands out. A
  block that is returned is aligned, is fresh, and is in use from then on.
\<close>

locale block_allocator =
  fixes alloc :: "'s \<Rightarrow> usize \<Rightarrow> usize \<Rightarrow> 's \<times> uptr"
    and inv :: "'s \<Rightarrow> bool"
    and used :: "'s \<Rightarrow> nat set"
    and req :: "'s \<Rightarrow> usize \<Rightarrow> usize \<Rightarrow> bool"
  assumes alloc_inv: "inv s \<Longrightarrow> req s n a \<Longrightarrow> alloc s n a = (s', p) \<Longrightarrow> inv s'"
    and alloc_mono: "inv s \<Longrightarrow> req s n a \<Longrightarrow> alloc s n a = (s', p) \<Longrightarrow> used s \<subseteq> used s'"
    and alloc_used: "inv s \<Longrightarrow> req s n a \<Longrightarrow> alloc s n a = (s', p) \<Longrightarrow> p \<noteq> NULL \<Longrightarrow>
      blk p n \<subseteq> used s'"
    and alloc_fresh: "inv s \<Longrightarrow> req s n a \<Longrightarrow> alloc s n a = (s', p) \<Longrightarrow> p \<noteq> NULL \<Longrightarrow>
      blk p n \<inter> used s = {}"
    and alloc_aligned: "inv s \<Longrightarrow> req s n a \<Longrightarrow> alloc s n a = (s', p) \<Longrightarrow> unat a dvd unat p"

text \<open>Serving a list of requests: the blocks returned, in order, and the final state.\<close>

fun serve :: "('s \<Rightarrow> usize \<Rightarrow> usize \<Rightarrow> 's \<times> uptr) \<Rightarrow> 's \<Rightarrow> (usize \<times> usize) list \<Rightarrow>
    (uptr \<times> usize) list \<times> 's" where
  "serve alloc s [] = ([], s)"
| "serve alloc s ((n, a) # rs) =
     (let (s1, p) = alloc s n a; (bs, s2) = serve alloc s1 rs
      in (if p \<noteq> NULL then (p, n) # bs else bs, s2))"

fun serve_ok :: "('s \<Rightarrow> usize \<Rightarrow> usize \<Rightarrow> 's \<times> uptr) \<Rightarrow> ('s \<Rightarrow> usize \<Rightarrow> usize \<Rightarrow> bool) \<Rightarrow> 's \<Rightarrow>
    (usize \<times> usize) list \<Rightarrow> bool" where
  "serve_ok alloc req s [] = True"
| "serve_ok alloc req s ((n, a) # rs) \<longleftrightarrow>
     req s n a \<and> serve_ok alloc req (fst (alloc s n a)) rs"

text \<open>Blocks that overlap pairwise nowhere.\<close>

fun separate :: "(uptr \<times> usize) list \<Rightarrow> bool" where
  "separate [] = True"
| "separate ((p, n) # bs) \<longleftrightarrow> (\<forall>(q, m) \<in> set bs. blk p n \<inter> blk q m = {}) \<and> separate bs"

context block_allocator
begin

lemma serve_separate:
  "inv s \<Longrightarrow> serve_ok alloc req s rs \<Longrightarrow> serve alloc s rs = (bs, s') \<Longrightarrow>
     inv s' \<and> used s \<subseteq> used s' \<and> separate bs \<and>
     (\<forall>(p, n) \<in> set bs. blk p n \<inter> used s = {} \<and> blk p n \<subseteq> used s')"
proof (induction rs arbitrary: s bs s')
  case Nil
  then show ?case by simp
next
  case (Cons r rs)
  obtain n a where r: "r = (n, a)" by (cases r)
  obtain s1 p where al: "alloc s n a = (s1, p)" by fastforce
  obtain bs1 s2 where sv: "serve alloc s1 rs = (bs1, s2)" by fastforce
  have q: "req s n a" and ok: "serve_ok alloc req s1 rs" using Cons.prems(2) r al by auto
  have res: "s' = s2" "bs = (if p \<noteq> NULL then (p, n) # bs1 else bs1)"
    using Cons.prems(3) r al sv by auto
  note i1 = alloc_inv [OF Cons.prems(1) q al] and m1 = alloc_mono [OF Cons.prems(1) q al]
  note IH = Cons.IH [OF i1 ok sv]
  show ?case
  proof (cases "p = NULL")
    case True
    then show ?thesis using IH res m1 by fastforce
  next
    case False
    note f = alloc_fresh [OF Cons.prems(1) q al False] and u = alloc_used [OF Cons.prems(1) q al False]
    have "\<forall>(q, m) \<in> set bs1. blk p n \<inter> blk q m = {}" using IH u by blast
    then show ?thesis using IH res m1 False f u by auto blast
  qed
qed

end

section \<open>Regions are allocators\<close>

definition reg_ok :: "region \<Rightarrow> bool" where
  "reg_ok r \<longleftrightarrow> 0 < unat (mem r) \<and> mem r \<le> ptr r \<and> ptr r \<le> rend r"

definition reg_used :: "region \<Rightarrow> nat set" where
  "reg_used r = {unat (mem r) ..< unat (ptr r)}"

definition reg_req :: "region \<Rightarrow> usize \<Rightarrow> usize \<Rightarrow> bool" where
  "reg_req r n a = bump_req (rend r) n a"

lemma reg_alloc_frame [simp]:
  "mem (fst (reg_alloc r n a)) = mem r" "rend (fst (reg_alloc r n a)) = rend r"
  by (simp_all add: reg_alloc_def split_beta)

lemma reg_alloc_cases:
  assumes "reg_ok r" "reg_req r n a" "reg_alloc r n a = (r', p)"
  obtains (ok) "unat p = round_up (unat (ptr r)) (unat a)" "p \<noteq> NULL"
      "unat (ptr r') = unat p + unat n" "unat (ptr r') < unat (rend r)"
      "unat (ptr r) \<le> unat p" "r' = r\<lparr>ptr := ptr r'\<rparr>"
  | (fail) "p = NULL" "r' = r"
      "unat (rend r) \<le> round_up (unat (ptr r)) (unat a) + unat n"
proof -
  obtain m where b: "bump (ptr r) n a (rend r) = (m, p)" and r': "r' = r\<lparr>ptr := m\<rparr>"
    using assms(3) by (auto simp: reg_alloc_def split: prod.splits)
  from assms(1) have o: "0 < unat (mem r)" "unat (mem r) \<le> unat (ptr r)"
    "unat (ptr r) \<le> unat (rend r)" by (auto simp: reg_ok_def word_le_nat_alt)
  from assms(2) have q: "bump_req (rend r) n a" by (simp add: reg_req_def)
  show thesis
  proof (rule bump_cases [OF q o(3) b], goal_cases)
    case 1
    then show ?case using o r' by (intro ok) auto
  next
    case 2
    then show ?case using r' by (intro fail) auto
  qed
qed

lemma reg_alloc_ok:
  assumes "reg_ok r" "reg_req r n a" "reg_alloc r n a = (r', p)"
  shows "reg_ok r'"
  using assms
proof (cases rule: reg_alloc_cases)
  case ok
  moreover have "mem r' = mem r" "rend r' = rend r"
    using assms(3) reg_alloc_frame [of r n a] by simp_all
  ultimately show ?thesis using assms(1) by (auto simp: reg_ok_def word_le_nat_alt)
qed (use assms in simp)

interpretation reg: block_allocator reg_alloc reg_ok reg_used reg_req
proof
  fix r r' :: region and n a p
  assume A: "reg_ok r" "reg_req r n a" "reg_alloc r n a = (r', p)"
  then show "reg_ok r'" by (rule reg_alloc_ok)
  have m: "mem r' = mem r" using A(3) reg_alloc_frame(1) [of r n a] by simp
  show "reg_used r \<subseteq> reg_used r'"
    using A by (cases rule: reg_alloc_cases) (auto simp: reg_used_def m)
  show "unat a dvd unat p"
    using A by (cases rule: reg_alloc_cases) auto
  assume p: "p \<noteq> NULL"
  have o: "unat (mem r) \<le> unat (ptr r)" using A(1) by (simp add: reg_ok_def word_le_nat_alt)
  show "blk p n \<subseteq> reg_used r'"
    using A p o by (cases rule: reg_alloc_cases) (auto simp: reg_used_def blk_def m)
  show "blk p n \<inter> reg_used r = {}"
    using A p by (cases rule: reg_alloc_cases) (auto simp: reg_used_def blk_def)
qed

section \<open>Arenas are allocators\<close>

definition chunk_ok :: "chunk \<Rightarrow> bool" where
  "chunk_ok c \<longleftrightarrow> 0 < unat (c_addr c) \<and> unat (c_addr c) + 24 \<le> unat (c_end c)"

definition chunk_span :: "chunk \<Rightarrow> nat set" where
  "chunk_span c = {unat (c_addr c) ..< unat (c_end c)}"

definition chunk_data :: "chunk \<Rightarrow> nat set" where
  "chunk_data c = {unat (c_mem c) ..< unat (c_end c)}"

definition chunks_ok :: "chunk list \<Rightarrow> bool" where
  "chunks_ok cs \<longleftrightarrow> (\<forall>c \<in> set cs. chunk_ok c) \<and>
     (\<forall>i < length cs. \<forall>j < length cs. i \<noteq> j \<longrightarrow> chunk_span (cs ! i) \<inter> chunk_span (cs ! j) = {})"

definition arena_ok :: "arena \<Rightarrow> bool" where
  "arena_ok A \<longleftrightarrow> chunks_ok (a_chunks A) \<and> a_cur A < length (a_chunks A) \<and>
     a_end A = c_end (a_chunks A ! a_cur A) \<and>
     c_mem (a_chunks A ! a_cur A) \<le> a_mem A \<and> a_mem A \<le> a_end A"

definition arena_used :: "arena \<Rightarrow> nat set" where
  "arena_used A = (\<Union>i < a_cur A. chunk_data (a_chunks A ! i)) \<union>
     {unat (c_mem (a_chunks A ! a_cur A)) ..< unat (a_mem A)}"

text \<open>What the code relies on from \<^verbatim>\<open>malloc\<close>: the new block does not wrap around the address
  space, is not at the null pointer, is aligned for any object, and overlaps no chunk the
  arena holds.\<close>

definition malloc_fresh :: "(usize \<Rightarrow> uptr) \<Rightarrow> chunk list \<Rightarrow> usize \<Rightarrow> bool" where
  "malloc_fresh malloc cs n \<longleftrightarrow>
     0 < unat (malloc n) \<and> 16 dvd unat (malloc n) \<and> unat (malloc n) + unat n < 2 ^ 64 \<and>
     (\<forall>c \<in> set cs. blk (malloc n) n \<inter> chunk_span c = {})"

lemma c_mem_unat [m2_unat]: "chunk_ok c \<Longrightarrow> unat (c_mem c) = unat (c_addr c) + 24"
proof -
  assume c: "chunk_ok c"
  have "unat (c_addr c) + unat (24 :: usize) < 2 ^ LENGTH(64)"
    using c unat_lt64 [of "c_end c"] unfolding chunk_ok_def by simp
  then have "unat (c_addr c + 24) = unat (c_addr c) + unat (24 :: usize)" by (rule unat_add_small)
  then show ?thesis by (simp add: c_mem_def sizeof_chunk_def)
qed

lemma chunk_data_span: "chunk_ok c \<Longrightarrow> chunk_data c \<subseteq> chunk_span c"
  by (auto simp: chunk_data_def chunk_span_def c_mem_unat)

lemma chunks_ok_nth: "chunks_ok cs \<Longrightarrow> i < length cs \<Longrightarrow> chunk_ok (cs ! i)"
  by (simp add: chunks_ok_def)

lemma chunks_ok_disjoint:
  "chunks_ok cs \<Longrightarrow> i < length cs \<Longrightarrow> j < length cs \<Longrightarrow> i \<noteq> j \<Longrightarrow>
     chunk_data (cs ! i) \<inter> chunk_data (cs ! j) = {}"
  using chunk_data_span [OF chunks_ok_nth [of cs i]] chunk_data_span [OF chunks_ok_nth [of cs j]]
  by (fastforce simp: chunks_ok_def)

lemma chunks_ok_snoc:
  "chunks_ok cs \<Longrightarrow> chunk_ok c \<Longrightarrow> \<forall>d \<in> set cs. chunk_span c \<inter> chunk_span d = {} \<Longrightarrow>
     chunks_ok (cs @ [c])"
  by (auto simp: chunks_ok_def nth_append less_Suc_eq Int_commute)

text \<open>Placing a block with \<^const>\<open>bump\<close> in chunk \<open>j\<close>, the current one or a later one, of a
  chain that may have been extended.\<close>

lemma arena_place:
  assumes ok: "arena_ok A" and cs: "chunks_ok cs" "cs = a_chunks A @ ds"
    and j: "a_cur A \<le> j" "j < length cs"
    and st: "start = (if j = a_cur A then a_mem A else c_mem (cs ! j))"
    and req: "bump_req (c_end (cs ! j)) n a"
    and b: "bump start n a (c_end (cs ! j)) = (m, p)"
    and A': "a_chunks A' = cs" "a_cur A' = j" "a_mem A' = m" "a_end A' = c_end (cs ! j)"
  shows "arena_ok A' \<and> arena_used A \<subseteq> arena_used A' \<and> unat a dvd unat p \<and>
    (p \<noteq> NULL \<longrightarrow> blk p n \<subseteq> arena_used A' \<and> blk p n \<inter> arena_used A = {})"
proof -
  let ?c = "cs ! j" and ?i = "a_cur A"
  have i: "?i < length (a_chunks A)" using ok by (simp add: arena_ok_def)
  then have pre: "\<And>x. x \<le> ?i \<Longrightarrow> a_chunks A ! x = cs ! x" using cs(2) by (simp add: nth_append)
  have curb: "unat (c_mem (cs ! ?i)) \<le> unat (a_mem A)" "unat (a_mem A) \<le> unat (c_end (cs ! ?i))"
    using ok pre [of ?i] by (auto simp: arena_ok_def word_le_nat_alt)
  have cok: "chunk_ok ?c" using cs(1) j(2) by (rule chunks_ok_nth)
  have bounds: "unat (c_mem ?c) \<le> unat start" "unat start \<le> unat (c_end ?c)"
    using st curb cok by (auto simp: c_mem_unat) (simp add: chunk_ok_def)
  have used: "arena_used A = (\<Union>x < ?i. chunk_data (cs ! x)) \<union> {unat (c_mem (cs ! ?i)) ..< unat (a_mem A)}"
    using pre by (auto simp: arena_used_def)
  have used': "arena_used A' = (\<Union>x < j. chunk_data (cs ! x)) \<union> {unat (c_mem ?c) ..< unat m}"
    using A' by (simp add: arena_used_def)
  have below: "arena_used A \<subseteq> (\<Union>x < j. chunk_data (cs ! x)) \<union> {unat (c_mem ?c) ..< unat start}"
  proof (cases "j = ?i")
    case True
    then show ?thesis using used st by auto
  next
    case False
    then have "{unat (c_mem (cs ! ?i)) ..< unat (a_mem A)} \<subseteq> chunk_data (cs ! ?i)"
      using curb by (auto simp: chunk_data_def)
    moreover have "(\<Union>x < ?i. chunk_data (cs ! x)) \<subseteq> (\<Union>x < j. chunk_data (cs ! x))"
      using j(1) by (intro UN_mono) auto
    ultimately show ?thesis using used j(1) False by (auto intro: le_neq_implies_less)
  qed
  have "chunk_data (cs ! x) \<inter> chunk_data ?c = {}" if "x < j" for x
    using chunks_ok_disjoint [OF cs(1), of x j] j(2) that by simp
  then have apart: "(\<Union>x < j. chunk_data (cs ! x)) \<inter> chunk_data ?c = {}" by blast
  show ?thesis using req bounds(2) b
  proof (cases rule: bump_cases)
    case ok
    have blk: "blk p n = {unat p ..< unat m}" using ok by (simp add: blk_def)
    then have "blk p n \<subseteq> chunk_data ?c" "blk p n \<inter> {unat (c_mem ?c) ..< unat start} = {}"
      using ok bounds by (auto simp: chunk_data_def)
    then have "blk p n \<inter> arena_used A = {}" using below apart by blast
    moreover have "arena_ok A'"
      using A' cs j ok bounds by (auto simp: arena_ok_def word_le_nat_alt)
    moreover have "arena_used A \<subseteq> arena_used A'" "blk p n \<subseteq> arena_used A'"
      using below used' blk ok bounds by (auto dest!: subsetD)
    ultimately show ?thesis using ok by simp
  next
    case fail
    then show ?thesis
      using A' cs j bounds below used' by (auto simp: arena_ok_def word_le_nat_alt)
  qed
qed

lemma find_chunk_result:
  "find_chunk cs i n a = (j, res) \<Longrightarrow>
     (case res of None \<Rightarrow> j = i + length cs
      | Some (m, p) \<Rightarrow> i < j \<and> j \<le> i + length cs \<and> p \<noteq> NULL \<and>
          bump (c_mem (cs ! (j - Suc i))) n a (c_end (cs ! (j - Suc i))) = (m, p))"
proof (induction cs i n a rule: find_chunk.induct)
  case (2 c cs i n a)
  obtain m p where b: "bump (c_mem c) n a (c_end c) = (m, p)" by fastforce
  show ?case
  proof (cases "p = NULL")
    case True
    then have "find_chunk cs (Suc i) n a = (j, res)" using 2(2) b by simp
    from 2(1) [OF b [symmetric] _ _ this] True show ?thesis
      by (auto split: option.splits simp: Suc_diff_Suc)
  next
    case False
    then show ?thesis using 2(2) b by auto
  qed
qed simp

text \<open>The requests an arena can serve without wrapping: the alignment is a power of two, the
  request fits after every chunk, and so does the chunk that would be allocated.\<close>

definition arena_newsz :: "arena \<Rightarrow> usize \<Rightarrow> usize \<Rightarrow> usize option" where
  "arena_newsz A n a =
     (let c = last (a_chunks A) in grow_newsz ((c_end c - c_mem c) * 2) (n + a - 1))"

definition arena_req :: "(usize \<Rightarrow> uptr) \<Rightarrow> arena \<Rightarrow> usize \<Rightarrow> usize \<Rightarrow> bool" where
  "arena_req malloc A n a \<longleftrightarrow>
     (\<forall>c \<in> set (a_chunks A). bump_req (c_end c) n a) \<and>
     (\<forall>newsz. arena_newsz A n a = Some newsz \<longrightarrow>
        unat newsz + 24 < 2 ^ 64 \<and>
        malloc_fresh malloc (a_chunks A) (sizeof_chunk + newsz) \<and>
        bump_req (malloc (sizeof_chunk + newsz) + sizeof_chunk + newsz) n a)"

definition arena_alloc_run :: "(usize \<Rightarrow> uptr) \<Rightarrow> arena \<Rightarrow> usize \<Rightarrow> usize \<Rightarrow> arena \<times> uptr" where
  "arena_alloc_run malloc A n a =
     (case arena_alloc malloc A n a of None \<Rightarrow> (A, NULL) | Some r \<Rightarrow> r)"

lemma new_chunk_ok:
  assumes "malloc_fresh malloc cs (sizeof_chunk + newsz)" "unat newsz + 24 < 2 ^ 64"
    and c: "c = \<lparr>c_addr = malloc (sizeof_chunk + newsz),
                 c_end = malloc (sizeof_chunk + newsz) + sizeof_chunk + newsz\<rparr>"
  shows "chunk_ok c" "\<forall>d \<in> set cs. chunk_span c \<inter> chunk_span d = {}"
    and "unat (c_end c) = unat (c_mem c) + unat newsz"
proof -
  let ?p = "malloc (sizeof_chunk + newsz)"
  have sz: "unat (sizeof_chunk + newsz) = 24 + unat newsz"
    using assms(2) by (subst unat_add_small) (auto simp: sizeof_chunk_def)
  with assms(1) have p: "0 < unat ?p" "unat ?p + (24 + unat newsz) < 2 ^ 64"
    "\<forall>d \<in> set cs. blk ?p (sizeof_chunk + newsz) \<inter> chunk_span d = {}"
    by (auto simp: malloc_fresh_def)
  have e: "unat (c_end c) = unat ?p + (24 + unat newsz)"
    using p(2) sz by (simp add: c add.assoc) (subst unat_add_small, auto)
  then show ok: "chunk_ok c" using p by (simp add: chunk_ok_def c)
  show "\<forall>d \<in> set cs. chunk_span c \<inter> chunk_span d = {}"
    using p(3) e sz by (simp add: blk_def chunk_span_def c)
  show "unat (c_end c) = unat (c_mem c) + unat newsz"
    using e ok by (simp add: c_mem_unat c)
qed

lemma arena_alloc_laws:
  assumes ok: "arena_ok A" and req: "arena_req malloc A n a"
    and r: "arena_alloc malloc A n a = Some (A', p)"
  shows "arena_ok A' \<and> arena_used A \<subseteq> arena_used A' \<and> unat a dvd unat p \<and>
    (p \<noteq> NULL \<longrightarrow> blk p n \<subseteq> arena_used A' \<and> blk p n \<inter> arena_used A = {})"
proof -
  let ?cs = "a_chunks A" and ?i = "a_cur A"
  have cs: "chunks_ok ?cs" and i: "?i < length ?cs" and e: "a_end A = c_end (?cs ! ?i)"
    using ok by (auto simp: arena_ok_def)
  have breq: "\<And>j. j < length ?cs \<Longrightarrow> bump_req (c_end (?cs ! j)) n a"
    using req by (simp add: arena_req_def)
  obtain m q where b: "bump (a_mem A) n a (a_end A) = (m, q)" by fastforce
  obtain j res where f: "find_chunk (drop (Suc ?i) ?cs) ?i n a = (j, res)" by fastforce
  show ?thesis
  proof (cases "q = NULL")
    case False
    then have "A' = A\<lparr>a_mem := m\<rparr>" "p = q" using r b by (auto simp: arena_alloc_def)
    then show ?thesis using b e
      by (intro arena_place [OF ok cs, of "[]" ?i "a_mem A"]) (auto simp: i breq)
  next
    case True
    show ?thesis
    proof (cases res)
      case (Some mp)
      then obtain m' where mp: "mp = (m', p)"
        and A': "A' = A\<lparr>a_cur := j, a_mem := m', a_end := c_end (?cs ! j)\<rparr>"
        using r b f True by (auto simp: arena_alloc_def split: prod.splits)
      have "?i < j" "j < length ?cs" "drop (Suc ?i) ?cs ! (j - Suc ?i) = ?cs ! j"
        "bump (c_mem (?cs ! j)) n a (c_end (?cs ! j)) = (m', p)"
        using find_chunk_result [OF f] Some mp i by auto
      then show ?thesis using A'
        by (intro arena_place [OF ok cs, of "[]" j "c_mem (?cs ! j)"]) (auto simp: breq)
    next
      case None
      then have j: "Suc j = length ?cs" using find_chunk_result [OF f] i by auto
      then have lst: "last ?cs = ?cs ! j" by (metis last_conv_nth length_0_conv diff_Suc_1 nat.distinct(1))
      define c where "c newsz = \<lparr>c_addr = malloc (sizeof_chunk + newsz),
        c_end = malloc (sizeof_chunk + newsz) + sizeof_chunk + newsz\<rparr>" for newsz
      obtain newsz m' where nz: "arena_newsz A n a = Some newsz"
        and b': "bump (c_mem (c newsz)) n a (c_end (c newsz)) = (m', p)"
        and A': "a_chunks A' = ?cs @ [c newsz]" "a_cur A' = Suc j" "a_mem A' = m'"
          "a_end A' = c_end (c newsz)"
        using r b f True None lst
        by (auto simp: arena_alloc_def new_chunk_def arena_newsz_def c_def split: option.splits prod.splits)
      have fr: "malloc_fresh malloc ?cs (sizeof_chunk + newsz)" "unat newsz + 24 < 2 ^ 64"
        and br: "bump_req (c_end (c newsz)) n a"
        using req nz by (auto simp: arena_req_def c_def)
      note cok = new_chunk_ok [OF fr c_def]
      have cs': "chunks_ok (?cs @ [c newsz])" using cs cok(1,2) by (rule chunks_ok_snoc)
      have nth: "(?cs @ [c newsz]) ! Suc j = c newsz" by (simp add: j)
      show ?thesis using b' br A' nth j i
        by (intro arena_place [OF ok cs' refl, of "Suc j" "c_mem (c newsz)"]) auto
    qed
  qed
qed

interpretation arn: block_allocator "arena_alloc_run malloc" arena_ok arena_used "arena_req malloc"
  for malloc
proof
  fix A A' :: arena and n a p
  assume A: "arena_ok A" "arena_req malloc A n a" "arena_alloc_run malloc A n a = (A', p)"
  have L: "arena_ok A' \<and> arena_used A \<subseteq> arena_used A' \<and> unat a dvd unat p \<and>
    (p \<noteq> NULL \<longrightarrow> blk p n \<subseteq> arena_used A' \<and> blk p n \<inter> arena_used A = {})"
  proof (cases "arena_alloc malloc A n a")
    case None
    then show ?thesis using A by (auto simp: arena_alloc_run_def)
  next
    case (Some r)
    then show ?thesis using A arena_alloc_laws [of A malloc n a A' p]
      by (simp add: arena_alloc_run_def)
  qed
  show "arena_ok A'" "arena_used A \<subseteq> arena_used A'" "unat a dvd unat p" using L by auto
  assume "p \<noteq> NULL"
  then show "blk p n \<subseteq> arena_used A'" "blk p n \<inter> arena_used A = {}" using L by auto
qed

section \<open>The size of a new chunk\<close>

lemma grow_newsz_total:
  assumes "0 < unat newsz" "unat need \<le> 2 ^ 63"
  shows "\<exists>r. grow_newsz newsz need = Some r \<and> unat need \<le> unat r \<and> unat newsz \<le> unat r \<and>
    (r = newsz \<or> unat r < 2 * unat need)"
  using assms
proof (induction "unat need - unat newsz" arbitrary: newsz rule: less_induct)
  case less
  show ?case
  proof (cases "newsz < need")
    case False
    then show ?thesis
      by (subst grow_newsz.simps) (simp add: word_less_nat_alt)
  next
    case True
    then have lt: "unat newsz < unat need" by (simp add: word_less_nat_alt)
    then have d: "unat (newsz * 2) = 2 * unat newsz"
      using less.prems by (simp add: unat_word_ariths)
    moreover have "unat need - unat (newsz * 2) < unat need - unat newsz"
      using d lt less.prems by linarith
    ultimately obtain r where "grow_newsz (newsz * 2) need = Some r" "unat need \<le> unat r"
      "2 * unat newsz \<le> unat r" "r = newsz * 2 \<or> unat r < 2 * unat need"
      using less.hyps [of "newsz * 2"] lt less.prems by auto
    then show ?thesis using True lt d
      by (subst grow_newsz.simps) auto
  qed
qed

lemma grow_newsz_zero:
  assumes "0 < need"
  shows "grow_newsz 0 need = None"
proof (rule ccontr)
  assume "grow_newsz 0 need \<noteq> None"
  then obtain r where "grow_newsz 0 need = Some r" by blast
  then have "(0 :: usize) = 0 \<longrightarrow> 0 < need \<longrightarrow> False"
    by (rule grow_newsz.raw_induct [where P = "\<lambda>newsz need r. newsz = 0 \<longrightarrow> 0 < need \<longrightarrow> False",
          rotated]) (auto split: if_splits)
  with assms show False by simp
qed

text \<open>A fresh chunk is large enough: its data starts 8 bytes past a multiple of 16, so a request
  with an alignment of at least 2 fits in \<open>size + align - 1\<close> bytes.\<close>

lemma bump_fresh_chunk:
  assumes c: "chunk_ok c" "16 dvd unat (c_addr c)"
    and e: "unat (c_end c) = unat (c_mem c) + unat newsz"
    and req: "bump_req (c_end c) n a" and a: "2 \<le> unat a"
    and sz: "unat n + unat a - 1 \<le> unat newsz"
    and b: "bump (c_mem c) n a (c_end c) = (m, p)"
  shows "p \<noteq> NULL"
proof -
  from req obtain k where k: "unat a = 2 ^ k" by (auto simp: bump_req_def unat_exp)
  from c(2) obtain q where q: "unat (c_addr c) = 16 * q" by (auto elim: dvdE)
  let ?m = "unat (c_mem c)"
  have m8: "?m = 8 * (2 * q + 3)" using c(1) q by (simp add: c_mem_unat)
  have room: "round_up ?m (unat a) + unat n < unat (c_end c)"
  proof (cases "unat a dvd 8")
    case True
    then have "unat a dvd ?m" using m8 by (metis dvd_mult2)
    then show ?thesis using a sz e by simp
  next
    case False
    then have "8 dvd unat a" using k le_imp_power_dvd [of 3 k 2] le_imp_power_dvd [of k 3 2] by fastforce
    then have d: "8 dvd round_up ?m (unat a)" by (metis dvd_trans round_up_dvd)
    have "round_up ?m (unat a) < ?m + unat a" using a by (intro round_up_less) simp
    moreover have "8 dvd ?m + unat a" using m8 \<open>8 dvd unat a\<close> by simp
    ultimately have "round_up ?m (unat a) + 8 \<le> ?m + unat a" using d by (elim dvdE) simp
    then show ?thesis using sz e by linarith
  qed
  have "?m \<le> unat (c_end c)" using e by simp
  from req this b show ?thesis
  proof (cases rule: bump_cases)
    case ok
    then show ?thesis using m8 c(1) by (auto simp: c_mem_unat)
  qed (use room in simp)
qed

lemma arena_alloc_total:
  assumes ok: "arena_ok A" and req: "arena_req malloc A n a" and a: "2 \<le> unat a"
    and need: "unat n + unat a - 1 \<le> 2 ^ 63"
    and c: "c = last (a_chunks A)" "0 < unat (c_end c) - unat (c_mem c)"
      "unat (c_end c) - unat (c_mem c) < 2 ^ 63"
  shows "\<exists>A' p. arena_alloc malloc A n a = Some (A', p) \<and> p \<noteq> NULL"
proof -
  let ?cs = "a_chunks A" and ?i = "a_cur A"
  have cs: "chunks_ok ?cs" and i: "?i < length ?cs"
    using ok by (auto simp: arena_ok_def)
  obtain m q where b: "bump (a_mem A) n a (a_end A) = (m, q)" by fastforce
  obtain j res where f: "find_chunk (drop (Suc ?i) ?cs) ?i n a = (j, res)" by fastforce
  have dbl: "unat ((c_end c - c_mem c) * 2) = 2 * (unat (c_end c) - unat (c_mem c))"
    using c(2,3) by (subst unat_word_ariths) (simp add: unat_sub_if')
  have "unat (n + (a - 1)) = unat n + (unat a - 1)"
    using a need by (subst unat_add_small) (auto simp: unat_sub_if')
  then have nd: "unat (n + a - 1) = unat n + unat a - 1"
    using a by (simp add: add_diff_eq)
  obtain newsz where nz: "arena_newsz A n a = Some newsz" "unat n + unat a - 1 \<le> unat newsz"
    using grow_newsz_total [of "(c_end c - c_mem c) * 2" "n + a - 1"] c dbl nd need
    by (auto simp: arena_newsz_def)
  show ?thesis
  proof (cases "q = NULL \<and> res = None")
    case False
    then show ?thesis using b f find_chunk_result [OF f]
      by (cases res) (auto simp: arena_alloc_def)
  next
    case True
    define d where "d = \<lparr>c_addr = malloc (sizeof_chunk + newsz),
      c_end = malloc (sizeof_chunk + newsz) + sizeof_chunk + newsz\<rparr>"
    have j: "Suc j = length ?cs" using find_chunk_result [OF f] i True by auto
    then have lst: "?cs ! j = c" using c(1) by (metis last_conv_nth length_0_conv diff_Suc_1 nat.distinct(1))
    obtain m' p where b': "bump (c_mem d) n a (c_end d) = (m', p)" by fastforce
    have fr: "malloc_fresh malloc ?cs (sizeof_chunk + newsz)" "unat newsz + 24 < 2 ^ 64"
      and br: "bump_req (c_end d) n a"
      using req nz by (auto simp: arena_req_def d_def)
    note dok = new_chunk_ok [OF fr d_def]
    have "16 dvd unat (c_addr d)" using fr(1) by (simp add: malloc_fresh_def d_def)
    from bump_fresh_chunk [OF dok(1) this dok(3) br a nz(2) b'] have "p \<noteq> NULL" .
    then show ?thesis using b f True nz(1) lst b' c(1)
      by (auto simp: arena_alloc_def new_chunk_def arena_newsz_def d_def)
  qed
qed

lemma reg_serve_frame:
  "serve reg_alloc r rs = (bs, r') \<Longrightarrow> mem r' = mem r \<and> rend r' = rend r"
proof (induction rs arbitrary: r bs)
  case (Cons q rs)
  obtain n a where q: "q = (n, a)" by (cases q)
  obtain r1 p where al: "reg_alloc r n a = (r1, p)" by fastforce
  obtain bs1 where "serve reg_alloc r1 rs = (bs1, r')" using Cons.prems q al by (auto split: prod.splits)
  from Cons.IH [OF this] show ?case using reg_alloc_frame [of r n a] al by simp
qed simp

section \<open>Properties\<close>

text \<open>
  C12. Every list of requests served by a region yields blocks that overlap neither each other
  nor what was in use before, that lie inside the region, and the region keeps its
  invariant.
\<close>

theorem reg_alloc_blocks_separate:
  assumes "reg_ok r" "serve_ok reg_alloc reg_req r rs" "serve reg_alloc r rs = (bs, r')"
  shows "reg_ok r' \<and> separate bs \<and>
    (\<forall>(p, n) \<in> set bs. blk p n \<inter> reg_used r = {} \<and> blk p n \<subseteq> {unat (mem r) ..< unat (rend r)})"
proof -
  have L: "reg_ok r' \<and> reg_used r \<subseteq> reg_used r' \<and> separate bs \<and>
     (\<forall>(p, n) \<in> set bs. blk p n \<inter> reg_used r = {} \<and> blk p n \<subseteq> reg_used r')"
    using reg.serve_separate [OF assms] .
  then have "reg_used r' \<subseteq> {unat (mem r) ..< unat (rend r)}"
    using reg_serve_frame [OF assms(3)] by (auto simp: reg_used_def reg_ok_def word_le_nat_alt)
  then show ?thesis using L by fastforce
qed

theorem reg_alloc_blocks_separate_witness:
  "separate (fst (serve reg_alloc (reg_init 0x1003 64) [(10, 8), (16, 16), (100, 1)])) \<and>
   fst (serve reg_alloc (reg_init 0x1003 64) [(10, 8), (16, 16), (100, 1)]) =
     [(0x1008, 10), (0x1020, 16)]"
proof -
  let ?r = "reg_init 0x1003 64" and ?rs = "[(10, 8), (16, 16), (100, 1)] :: (usize \<times> usize) list"
  have sv: "serve reg_alloc ?r ?rs =
      ([(0x1008, 10), (0x1020, 16)], \<lparr>ptr = 0x1030, rend = 0x1043, mem = 0x1003\<rparr>)"
    by (simp add: reg_init_def reg_alloc_def bump_def ALIGN_def)
  have pw: "\<exists>k < 64. (8 :: usize) = 2 ^ k" "\<exists>k < 64. (16 :: usize) = 2 ^ k" "\<exists>k < 64. (1 :: usize) = 2 ^ k"
    by (rule exI [of _ 3], simp) (rule exI [of _ 4], simp, rule exI [of _ 0], simp)
  have "reg_ok ?r" by (simp add: reg_ok_def reg_init_def)
  moreover have "serve_ok reg_alloc reg_req ?r ?rs"
    using pw by (simp add: reg_init_def reg_alloc_def bump_def ALIGN_def reg_req_def bump_req_def)
  ultimately show ?thesis using reg_alloc_blocks_separate [OF _ _ sv] sv by simp
qed

text \<open>
  C14. Every list of requests served by an arena yields pairwise disjoint blocks that overlap
  nothing in use before, across chunk boundaries and newly allocated chunks, and the
  arena keeps its invariant. \<^verbatim>\<open>malloc\<close> is assumed to return memory that overlaps no chunk
  of the arena.
\<close>

theorem arena_alloc_blocks_separate:
  assumes "arena_ok A" "serve_ok (arena_alloc_run malloc) (arena_req malloc) A rs"
    and "serve (arena_alloc_run malloc) A rs = (bs, A')"
  shows "arena_ok A' \<and> separate bs \<and> (\<forall>(p, n) \<in> set bs. blk p n \<inter> arena_used A = {})"
  using arn.serve_separate [OF assms] by fastforce

theorem arena_alloc_blocks_separate_witness:
  "let malloc = (\<lambda>n. if n = 80 then 0x10000 else 0x20000);
       (bs, A') = serve (arena_alloc_run malloc) (arena_create malloc 32) [(20, 8), (40, 8)]
   in bs = [(0x10030, 20), (0x20018, 40)] \<and> separate bs \<and> arena_ok A'"
proof -
  let ?malloc = "\<lambda>n :: usize. if n = 80 then 0x10000 else 0x20000 :: uptr"
  let ?c = "\<lparr>c_addr = 0x10018, c_end = 0x10050\<rparr>" and ?d = "\<lparr>c_addr = 0x20000, c_end = 0x20058\<rparr>"
  let ?A = "\<lparr>a_self = 0x10000, a_chunks = [?c], a_cur = 0, a_mem = 0x10030, a_end = 0x10050\<rparr>"
  let ?A1 = "\<lparr>a_self = 0x10000, a_chunks = [?c], a_cur = 0, a_mem = 0x10044, a_end = 0x10050\<rparr>"
  let ?A2 = "\<lparr>a_self = 0x10000, a_chunks = [?c, ?d], a_cur = 1, a_mem = 0x20040, a_end = 0x20058\<rparr>"
  have A: "arena_create ?malloc 32 = ?A"
    by (simp add: arena_create_def sizeof_arena_def sizeof_chunk_def)
  have s1: "arena_alloc_run ?malloc ?A 20 8 = (?A1, 0x10030)"
    by (simp add: arena_alloc_run_def arena_alloc_def bump_def ALIGN_def)
  have g: "grow_newsz 64 27 = Some 64" "grow_newsz 64 47 = Some 64"
    by (simp_all add: grow_newsz.simps)
  have s2: "arena_alloc_run ?malloc ?A1 40 8 = (?A2, 0x20018)"
    by (simp add: arena_alloc_run_def arena_alloc_def bump_def ALIGN_def new_chunk_def g c_mem_def
        sizeof_chunk_def)
  have sv: "serve (arena_alloc_run ?malloc) ?A [(20, 8), (40, 8)] =
      ([(0x10030, 20), (0x20018, 40)], ?A2)"
    by (simp add: s1 s2)
  have ok: "arena_ok ?A"
    by (simp add: arena_ok_def chunks_ok_def chunk_ok_def c_mem_def sizeof_chunk_def)
  have pw: "\<exists>k < 64. (8 :: usize) = 2 ^ k" by (rule exI [of _ 3]) simp
  have fr: "malloc_fresh ?malloc [?c] 88"
    by (auto simp: malloc_fresh_def blk_def chunk_span_def)
  have "arena_req ?malloc ?A 20 8" "arena_req ?malloc ?A1 40 8"
    using pw fr by (simp_all add: arena_req_def arena_newsz_def c_mem_def sizeof_chunk_def g bump_req_def)
  then have "serve_ok (arena_alloc_run ?malloc) (arena_req ?malloc) ?A [(20, 8), (40, 8)]"
    by (simp add: s1 s2)
  from arena_alloc_blocks_separate [OF ok this sv] show ?thesis
    unfolding Let_def A sv by simp
qed

text \<open>
  C31. An allocation from an arena always returns, and returns a block, when the alignment is at
  least 2, the last chunk is not empty and the request does not exceed half the address
  space.
\<close>

theorem arena_alloc_returns_block:
  assumes "arena_ok A" "arena_req malloc A n a" "2 \<le> unat a" "unat n + unat a - 1 \<le> 2 ^ 63"
    and "0 < unat (c_end (last (a_chunks A))) - unat (c_mem (last (a_chunks A)))"
    and "unat (c_end (last (a_chunks A))) - unat (c_mem (last (a_chunks A))) < 2 ^ 63"
  shows "\<exists>A' p. arena_alloc malloc A n a = Some (A', p) \<and> p \<noteq> NULL"
  using arena_alloc_total [OF assms(1-4) refl] assms(5,6) by simp

theorem arena_alloc_returns_block_witness:
  "\<exists>A' p. arena_alloc (\<lambda>n. if n = 80 then 0x10000 else 0x20000)
     (arena_create (\<lambda>n. if n = 80 then 0x10000 else 0x20000) 32) 1000 16 = Some (A', p) \<and> p \<noteq> NULL"
proof -
  let ?malloc = "\<lambda>n :: usize. if n = 80 then 0x10000 else 0x20000 :: uptr"
  let ?c = "\<lparr>c_addr = 0x10018, c_end = 0x10050\<rparr>"
  let ?A = "\<lparr>a_self = 0x10000, a_chunks = [?c], a_cur = 0, a_mem = 0x10030, a_end = 0x10050\<rparr>"
  have A: "arena_create ?malloc 32 = ?A"
    by (simp add: arena_create_def sizeof_arena_def sizeof_chunk_def)
  have ok: "arena_ok ?A"
    by (simp add: arena_ok_def chunks_ok_def chunk_ok_def c_mem_def sizeof_chunk_def)
  have g: "grow_newsz 64 1015 = Some 1024"
    by (simp add: grow_newsz.simps)
  have pw: "\<exists>k < 64. (16 :: usize) = 2 ^ k" by (rule exI [of _ 4]) simp
  have "arena_req ?malloc ?A 1000 16" using pw
    by (auto simp: arena_req_def arena_newsz_def c_mem_def sizeof_chunk_def g bump_req_def
        malloc_fresh_def blk_def chunk_span_def)
  from arena_alloc_returns_block [OF ok this] show ?thesis
    unfolding A by (simp add: c_mem_def sizeof_chunk_def)
qed

text \<open>
  Resetting an arena makes all of its memory available again without giving any chunk back.
\<close>

theorem arena_reset_frees_all:
  assumes "arena_ok A"
  shows "arena_ok (arena_reset A) \<and> arena_used (arena_reset A) = {} \<and>
    a_chunks (arena_reset A) = a_chunks A"
proof -
  have "a_chunks A \<noteq> []" using assms by (auto simp: arena_ok_def)
  then have "chunk_ok (a_chunks A ! 0)" using assms by (intro chunks_ok_nth) (auto simp: arena_ok_def)
  then have "unat (c_mem (a_chunks A ! 0)) \<le> unat (c_end (a_chunks A ! 0))"
    by (simp add: c_mem_unat) (simp add: chunk_ok_def)
  then show ?thesis using assms
    by (auto simp: arena_ok_def arena_reset_def arena_used_def word_le_nat_alt)
qed

theorem arena_reset_frees_all_witness:
  "arena_used (arena_reset \<lparr>a_self = 0x10000, a_chunks = [\<lparr>c_addr = 0x10018, c_end = 0x10050\<rparr>],
     a_cur = 0, a_mem = 0x10044, a_end = 0x10050\<rparr>) = {}"
  by (rule arena_reset_frees_all [THEN conjunct2, THEN conjunct1])
    (simp add: arena_ok_def chunks_ok_def chunk_ok_def c_mem_def sizeof_chunk_def)

text \<open>
  C32. The probe for the simulator's mapping only accepts an address above 4 GB, and it then holds
  exactly that one new mapping.
\<close>

theorem vm_map_probe_above:
  assumes "vm_map_probe mmap live = (r, live')" "r \<noteq> NULL"
  shows "VM_MAP_ABOVE < r \<and> mset live' = add_mset r (mset live)"
  using mmap_probe_result [OF assms(1) [unfolded vm_map_probe_def]] assms(2) by blast

theorem vm_map_probe_above_witness:
  "vm_map_probe (\<lambda>hint tries live. if tries < 2 then Some (0x1000 + of_nat tries) else Some (hint + 16)) [] =
     (0x300000010, [0x300000010]) \<and> VM_MAP_ABOVE < 0x300000010"
proof -
  have v: "vm_map_probe (\<lambda>hint tries live. if tries < 2 then Some (0x1000 + of_nat tries)
      else Some (hint + 16)) [] = (0x300000010, [0x300000010])"
    by (simp add: vm_map_probe_def mmap_probe.simps VM_MAP_ABOVE_def VM_PROBE_RETRIES_def)
  show ?thesis using vm_map_probe_above [OF v] v by simp
qed

section \<open>Where the code departs from its intent\<close>

text \<open>The size of a new chunk counts the bytes of the request but \<^const>\<open>bump\<close> wants one more:
  a request of exactly the new chunk's size, with alignment 1, gets the null pointer from
  a chunk that was allocated for it (the assertion after it is compiled out).\<close>

theorem arena_alloc_exact_fit_null:
  "let malloc = (\<lambda>n. if n = 80 then 0x10000 else 0x20000)
   in map_option snd (arena_alloc malloc (arena_create malloc 32) 64 1) = Some NULL"
  by (simp add: arena_create_def sizeof_arena_def sizeof_chunk_def arena_alloc_def bump_def ALIGN_def
      new_chunk_def c_mem_def grow_newsz.simps)

text \<open>An arena created with size 0 never returns from its first allocation: doubling an empty
  chunk's size makes no progress.\<close>

theorem arena_create_zero_diverges:
  "arena_alloc malloc \<lparr>a_self = 0x10000, a_chunks = [\<lparr>c_addr = 0x10018, c_end = 0x10030\<rparr>],
     a_cur = 0, a_mem = 0x10030, a_end = 0x10030\<rparr> 8 8 = None"
  by (simp add: arena_alloc_def bump_def ALIGN_def new_chunk_def c_mem_def sizeof_chunk_def
      grow_newsz_zero)

text \<open>A probe that runs out of retries leaves its last mapping behind.\<close>

theorem vm_map_probe_leaks:
  "vm_map_probe (\<lambda>hint tries live. Some (0x1000 + of_nat tries)) [] = (NULL, [0x100a])"
  by (simp add: vm_map_probe_def mmap_probe.simps VM_MAP_ABOVE_def VM_PROBE_RETRIES_def)

text \<open>Alignment 0, which the size of a zero-sized graph variable gives, moves the bump pointer to
  the bottom of the address space and reports a failure.\<close>

theorem bump_align_zero: "bump p sz 0 e = (if sz < e then (sz, NULL) else (p, NULL))"
  by (simp add: bump_def ALIGN_def)

end
