(* ===== verification/M2_Sim.thy ===== *)
theory M2_Sim
  imports M2_Mem
begin

text \<open>
  The simulator core, \<^verbatim>\<open>src/src/sim.c\<close>: a static region, a stack of frames with a region each,
  and the vstack, whose contents a savepoint copies into the frame and a load copies back.

  \<^verbatim>\<open>struct sim\<close> is the record \<open>sim\<close>; its extra field \<open>store\<close> is the memory of the mapping, a
  function from addresses to bytes. A call returns its status and the new state. The parts
  under \<^verbatim>\<open>#ifdef DEBUG\<close> (garbage fill, page protection) are not in the release build and are
  left out.
\<close>

section \<open>State\<close>

definition SIM_SAVEPOINT_BLOCKSIZE :: nat where
  "SIM_SAVEPOINT_BLOCKSIZE = 64"

record frame =
  has_savepoint :: bool
  has_branchpoint :: bool
  fid :: u32
  fmem :: region
  sp_data :: uptr
  sp_ptr :: uptr

record sim =
  stat :: region
  vstack :: region
  mapping :: uptr
  nframe :: u32
  rsize :: u32
  next_fid :: u32
  fp :: u32
  fstack :: "frame list"
  store :: "uptr \<Rightarrow> u8"

datatype sim_status = SIM_SKIP | SIM_OK | SIM_EFRAME | SIM_ESAVE | SIM_EALLOC | SIM_EBRANCH

definition SIM_STATIC :: int where "SIM_STATIC = 0"
definition SIM_FRAME :: int where "SIM_FRAME = 1"
definition SIM_VSTACK :: int where "SIM_VSTACK = 2"

lemmas lifetime_defs = SIM_STATIC_def SIM_FRAME_def SIM_VSTACK_def

definition TOP :: "sim \<Rightarrow> frame" where
  "TOP s = fstack s ! unat (fp s)"

definition upd_top :: "(frame \<Rightarrow> frame) \<Rightarrow> sim \<Rightarrow> sim" where
  "upd_top f s = s\<lparr>fstack := (fstack s)[unat (fp s) := f (TOP s)]\<rparr>"

section \<open>Operations\<close>

text \<open>\<^verbatim>\<open>blockcpy\<close> copies whole blocks of 64 bytes until \<open>sz\<close> bytes are covered.\<close>

definition copy_block :: "(uptr \<Rightarrow> u8) \<Rightarrow> uptr \<Rightarrow> uptr \<Rightarrow> uptr \<Rightarrow> u8" where
  "copy_block st dst src = (\<lambda>a. if a - dst < 64 then st (src + (a - dst)) else st a)"

function blockcpy_from :: "nat \<Rightarrow> (uptr \<Rightarrow> u8) \<Rightarrow> uptr \<Rightarrow> uptr \<Rightarrow> usize \<Rightarrow> uptr \<Rightarrow> u8" where
  "blockcpy_from i st dst src sz =
     (if i < unat sz
      then blockcpy_from (i + SIM_SAVEPOINT_BLOCKSIZE)
             (copy_block st (dst + of_nat i) (src + of_nat i)) dst src sz
      else st)"
  by pat_completeness auto
termination
  by (relation "measure (\<lambda>(i, _, _, _, sz). unat sz - i)") (auto simp: SIM_SAVEPOINT_BLOCKSIZE_def)

definition blockcpy :: "(uptr \<Rightarrow> u8) \<Rightarrow> uptr \<Rightarrow> uptr \<Rightarrow> usize \<Rightarrow> uptr \<Rightarrow> u8" where
  "blockcpy st dst src sz = blockcpy_from 0 st dst src sz"

definition f_enter :: "sim \<Rightarrow> sim" where
  "f_enter s =
     (upd_top (\<lambda>f. f\<lparr>fid := next_fid s, has_savepoint := False, has_branchpoint := False,
                      fmem := REG_RESET (fmem f)\<rparr>) s)\<lparr>next_fid := next_fid s + 1\<rparr>"

definition MAPPING_SIZE :: "u32 \<Rightarrow> u32 \<Rightarrow> usize" where
  "MAPPING_SIZE n r = ucast r * (ucast n + 3)"

definition sizeof_sim :: usize where
  "sizeof_sim = 72"

definition sizeof_frame :: usize where
  "sizeof_frame = 48"

text \<open>\<open>map_probe\<close> is the result of \<^verbatim>\<open>vm_map_probe\<close> for a size. Anonymous mappings are
  zero-filled.\<close>

definition sim_create :: "(usize \<Rightarrow> uptr) \<Rightarrow> u32 \<Rightarrow> u32 \<Rightarrow> sim option" where
  "sim_create map_probe nfr rsz =
     (if rsz AND (rsz - 1) \<noteq> 0 then None
      else
        let m = map_probe (MAPPING_SIZE nfr rsz) in
        if m = NULL then None
        else
          let base = ALIGN m (ucast rsz);
              st = fst (reg_alloc (reg_init base (ucast rsz))
                          (sizeof_sim + ucast nfr * sizeof_frame) 8);
              vs = reg_init (base + ucast rsz * ucast (nfr + 1)) (ucast rsz);
              fr = (\<lambda>i. \<lparr>has_savepoint = False, has_branchpoint = False, fid = 0,
                         fmem = reg_init (base + ucast rsz * ucast (of_nat i + 1 :: u32)) (ucast rsz),
                         sp_data = NULL, sp_ptr = NULL\<rparr>)
          in Some (f_enter
               \<lparr>stat = st, vstack = vs, mapping = m, nframe = nfr, rsize = rsz, next_fid = 1, fp = 0,
                fstack = map fr [0 ..< unat nfr], store = (\<lambda>_. 0)\<rparr>))"

text \<open>The mapping handed to \<^verbatim>\<open>vm_unmap\<close>.\<close>

definition sim_destroy :: "sim \<Rightarrow> uptr \<times> usize" where
  "sim_destroy s = (mapping s, MAPPING_SIZE (nframe s) (rsize s))"

definition sim_alloc :: "sim \<Rightarrow> usize \<Rightarrow> usize \<Rightarrow> int \<Rightarrow> sim \<times> uptr" where
  "sim_alloc s sz align lifetime =
     (if lifetime = SIM_STATIC then
        (let (r, p) = reg_alloc (stat s) sz align in (s\<lparr>stat := r\<rparr>, p))
      else if lifetime = SIM_FRAME then
        (let (r, p) = reg_alloc (fmem (TOP s)) sz align in (upd_top (\<lambda>f. f\<lparr>fmem := r\<rparr>) s, p))
      else if lifetime = SIM_VSTACK then
        (let (r, p) = reg_alloc (vstack s) sz align in (s\<lparr>vstack := r\<rparr>, p))
      else (s, NULL))"

definition sim_fp :: "sim \<Rightarrow> u32" where
  "sim_fp s = fp s"

definition sim_frame_id :: "sim \<Rightarrow> u32" where
  "sim_frame_id s = fid (TOP s)"

definition sim_savepoint :: "sim \<Rightarrow> sim_status \<times> sim" where
  "sim_savepoint s =
     (let sz = ptr (vstack s) - mem (vstack s) in
      if has_savepoint (TOP s) then (SIM_ESAVE, s)
      else
        let (r, p) = reg_alloc (fmem (TOP s)) sz (of_nat SIM_SAVEPOINT_BLOCKSIZE);
            s1 = upd_top (\<lambda>f. f\<lparr>fmem := r, sp_data := p, sp_ptr := ptr (vstack s)\<rparr>) s
        in if p = NULL then (SIM_EALLOC, s1)
           else (SIM_OK, (upd_top (\<lambda>f. f\<lparr>has_savepoint := True\<rparr>) s1)
                   \<lparr>store := blockcpy (store s1) p (mem (vstack s)) sz\<rparr>))"

definition sim_up :: "sim \<Rightarrow> u32 \<Rightarrow> sim_status \<times> sim" where
  "sim_up s i = (if i > fp s then (SIM_EFRAME, s) else (SIM_OK, s\<lparr>fp := i\<rparr>))"

definition sim_reload :: "sim \<Rightarrow> sim_status \<times> sim" where
  "sim_reload s =
     (let f = TOP s in
      if \<not> has_savepoint f then (SIM_ESAVE, s)
      else
        let vs = (vstack s)\<lparr>ptr := sp_ptr f\<rparr>;
            sz = ptr vs - mem vs
        in (SIM_OK, s\<lparr>vstack := vs, store := blockcpy (store s) (mem vs) (sp_data f) sz\<rparr>))"

definition sim_load :: "sim \<Rightarrow> u32 \<Rightarrow> sim_status \<times> sim" where
  "sim_load s i =
     (let (r, s1) = sim_up s i in if r \<noteq> SIM_OK then (r, s1) else sim_reload s1)"

definition sim_enter :: "sim \<Rightarrow> sim_status \<times> sim" where
  "sim_enter s =
     (if fp s + 1 \<ge> nframe s then (SIM_EFRAME, s) else (SIM_OK, f_enter (s\<lparr>fp := fp s + 1\<rparr>)))"

definition sim_branch :: "sim \<Rightarrow> sim_status \<times> sim" where
  "sim_branch s =
     (if has_branchpoint (TOP s) then (SIM_EBRANCH, s)
      else sim_savepoint (upd_top (\<lambda>f. f\<lparr>has_branchpoint := True\<rparr>) s))"

definition sim_enter_branch :: "sim \<Rightarrow> u32 \<Rightarrow> sim_status \<times> sim" where
  "sim_enter_branch s i =
     (let (r, s1) = (if i \<noteq> fp s then sim_load s i else (SIM_OK, s)) in
      if r \<noteq> SIM_OK then (r, s1)
      else if \<not> has_branchpoint (TOP s1) then (SIM_EBRANCH, s1)
      else sim_enter s1)"

section \<open>Block copies\<close>

declare blockcpy_from.simps [simp del]

lemma in_block_iff:
  assumes "i + 64 \<le> 2 ^ 64"
  shows "(a :: uptr) - (dst + of_nat i) < 64 \<longleftrightarrow> i \<le> unat (a - dst) \<and> unat (a - dst) < i + 64"
proof -
  define x where "x = a - dst"
  have x: "a - (dst + of_nat i) = x - of_nat i" by (simp add: x_def)
  have "unat (of_nat i :: uptr) = i" using assms by (intro unat_of_nat_small) simp
  then show ?thesis using assms unat_lt64 [of x]
    unfolding x x_def [symmetric] by (auto simp: word_less_nat_alt unat_sub_if')
qed

lemma blockcpy_from_eq:
  assumes sz: "unat sz + 64 \<le> 2 ^ 64" and "64 dvd i" and N: "N = round_up (unat sz) 64"
    and sep: "\<And>x y. x < N \<Longrightarrow> y < N \<Longrightarrow> src + of_nat x \<noteq> (dst + of_nat y :: uptr)"
  shows "blockcpy_from i st dst src sz a =
    (if i \<le> unat (a - dst) \<and> unat (a - dst) < N then st (src + (a - dst)) else st a)"
  using \<open>64 dvd i\<close>
proof (induction "unat sz - i" arbitrary: i st rule: less_induct)
  case less
  show ?case
  proof (cases "i < unat sz")
    case False
    have "N \<le> i" using False less.prems by (simp add: N round_up_mono_dvd)
    then show ?thesis using False by (subst blockcpy_from.simps) auto
  next
    case True
    let ?st = "copy_block st (dst + of_nat i) (src + of_nat i)" and ?x = "unat (a - dst)"
    have iN: "i + 64 \<le> N"
    proof -
      have "i < N" using True round_up_ge [of 64 "unat sz"] by (simp add: N)
      moreover have "64 dvd N" by (simp add: N)
      ultimately show ?thesis using less.prems by (elim dvdE) simp
    qed
    have i64: "i + 64 \<le> 2 ^ 64" using True sz by simp
    have blk: "?st b = (if i \<le> unat (b - dst) \<and> unat (b - dst) < i + 64 then st (src + (b - dst)) else st b)" for b
      unfolding copy_block_def using in_block_iff [OF i64, of b dst] by simp
    have src: "?st (src + (a - dst)) = st (src + (a - dst))" if "?x < N"
    proof -
      let ?y = "unat (src + (a - dst) - dst)"
      have "\<not> ?y < N" using sep [OF that, of ?y] by auto
      then show ?thesis using iN by (simp add: blk)
    qed
    have "blockcpy_from i st dst src sz a = blockcpy_from (i + 64) ?st dst src sz a"
      using True by (subst blockcpy_from.simps) (simp add: SIM_SAVEPOINT_BLOCKSIZE_def)
    also have "\<dots> = (if i + 64 \<le> ?x \<and> ?x < N then ?st (src + (a - dst)) else ?st a)"
      using less.prems True by (intro less.hyps) auto
    also have "\<dots> = (if i \<le> ?x \<and> ?x < N then st (src + (a - dst)) else st a)"
      using src iN by (auto simp: blk)
    finally show ?thesis .
  qed
qed

text \<open>The copy between two ranges that do not overlap, on naturals: the destination range holds
  the source bytes, everything else is unchanged.\<close>

lemma blockcpy_eq:
  assumes N: "N = round_up (unat sz) 64"
    and d: "unat dst + N \<le> 2 ^ 64 - 64" and s: "unat src + N \<le> 2 ^ 64 - 64"
    and sep: "unat dst + N \<le> unat src \<or> unat src + N \<le> unat dst"
  shows "blockcpy st dst src sz a =
    (if unat dst \<le> unat a \<and> unat a < unat dst + N then st (src + (a - dst)) else st a)"
proof -
  have "unat sz \<le> N" using round_up_ge [of 64 "unat sz"] by (simp add: N)
  then have sz: "unat sz + 64 \<le> 2 ^ 64" using d by simp
  have of: "unat (p + of_nat x :: uptr) = unat p + x" if "x < N" "unat p + N \<le> 2 ^ 64 - 64" for p :: uptr and x
    using that by (subst unat_add_small) (auto simp: unat_of_nat_small)
  have ne: "src + of_nat x \<noteq> dst + of_nat y" if "x < N" "y < N" for x y
  proof
    assume "src + of_nat x = dst + of_nat y"
    then have "unat src + x = unat dst + y" using of [OF that(1) s] of [OF that(2) d] by simp
    then show False using sep that by linarith
  qed
  have "unat (a - dst) < N \<longleftrightarrow> unat dst \<le> unat a \<and> unat a < unat dst + N"
    using d unat_lt64 [of a] unat_lt64 [of dst] by (auto simp: unat_sub_if' split: if_splits)
  then show ?thesis
    using blockcpy_from_eq [OF sz _ N ne, of 0 st a] by (simp add: blockcpy_def)
qed

section \<open>Invariant\<close>

text \<open>The mapping is cut into regions of \<open>rsize\<close> bytes: the static region, one per frame, and the
  vstack. A savepoint lies inside its frame's region, below the bump pointer.\<close>

definition region_at :: "region \<Rightarrow> nat \<Rightarrow> nat \<Rightarrow> bool" where
  "region_at r lo n \<longleftrightarrow> reg_ok r \<and> unat (mem r) = lo \<and> unat (rend r) = lo + n"

definition sp_size :: "region \<Rightarrow> frame \<Rightarrow> nat" where
  "sp_size vs f = unat (sp_ptr f) - unat (mem vs)"

definition sp_ok :: "region \<Rightarrow> frame \<Rightarrow> bool" where
  "sp_ok vs f \<longleftrightarrow> (has_savepoint f \<longrightarrow>
     64 dvd unat (sp_data f) \<and> unat (mem (fmem f)) \<le> unat (sp_data f) \<and>
     unat (sp_data f) + sp_size vs f \<le> unat (ptr (fmem f)) \<and>
     mem vs \<le> sp_ptr f \<and> sp_ptr f \<le> rend vs)"

definition base :: "sim \<Rightarrow> nat" where
  "base s = unat (mem (stat s))"

definition RS :: "sim \<Rightarrow> nat" where
  "RS s = unat (rsize s)"

definition region_lo :: "sim \<Rightarrow> nat \<Rightarrow> nat" where
  "region_lo s i = base s + RS s * i"

definition geometry_ok :: "sim \<Rightarrow> bool" where
  "geometry_ok s \<longleftrightarrow> 64 dvd RS s \<and> 64 dvd base s \<and> 0 < base s \<and> 0 < RS s \<and>
     base s + RS s * (unat (nframe s) + 2) \<le> 2 ^ 63 \<and>
     length (fstack s) = unat (nframe s) \<and> fp s < nframe s"

definition sim_ok :: "sim \<Rightarrow> bool" where
  "sim_ok s \<longleftrightarrow> geometry_ok s \<and> region_at (stat s) (base s) (RS s) \<and>
     region_at (vstack s) (region_lo s (unat (nframe s) + 1)) (RS s) \<and>
     (\<forall>i < unat (nframe s). region_at (fmem (fstack s ! i)) (region_lo s (i + 1)) (RS s) \<and>
        sp_ok (vstack s) (fstack s ! i))"

lemma upd_top_fields [simp]:
  "stat (upd_top f s) = stat s" "vstack (upd_top f s) = vstack s" "nframe (upd_top f s) = nframe s"
  "rsize (upd_top f s) = rsize s" "next_fid (upd_top f s) = next_fid s" "fp (upd_top f s) = fp s"
  "store (upd_top f s) = store s" "mapping (upd_top f s) = mapping s"
  "length (fstack (upd_top f s)) = length (fstack s)"
  "base (upd_top f s) = base s" "RS (upd_top f s) = RS s" "region_lo (upd_top f s) = region_lo s"
  by (simp_all add: upd_top_def base_def RS_def region_lo_def fun_eq_iff)

lemma fp_bound: "sim_ok s \<Longrightarrow> unat (fp s) < length (fstack s)"
  by (simp add: sim_ok_def geometry_ok_def word_less_nat_alt)

lemma nth_upd_top:
  "unat (fp s) < length (fstack s) \<Longrightarrow>
     fstack (upd_top f s) ! i = (if i = unat (fp s) then f (TOP s) else fstack s ! i)"
  by (auto simp: upd_top_def nth_list_update)

lemma TOP_upd_top [simp]: "unat (fp s) < length (fstack s) \<Longrightarrow> TOP (upd_top f s) = f (TOP s)"
  by (simp add: TOP_def nth_upd_top)

lemma sim_ok_TOP:
  assumes "sim_ok s"
  shows "region_at (fmem (TOP s)) (region_lo s (unat (fp s) + 1)) (RS s)" "sp_ok (vstack s) (TOP s)"
  using assms fp_bound [OF assms] by (auto simp: sim_ok_def geometry_ok_def TOP_def)

lemma sim_ok_upd_top:
  assumes "sim_ok s" "region_at (fmem (f (TOP s))) (region_lo s (unat (fp s) + 1)) (RS s)"
    and "sp_ok (vstack s) (f (TOP s))"
  shows "sim_ok (upd_top f s)"
  using assms fp_bound [OF assms(1)] by (auto simp: sim_ok_def geometry_ok_def nth_upd_top)

lemma sim_ok_store [simp]: "sim_ok (s\<lparr>store := st\<rparr>) = sim_ok s"
  by (simp add: sim_ok_def geometry_ok_def base_def RS_def region_lo_def)

lemma sim_ok_next_fid [simp]: "sim_ok (s\<lparr>next_fid := n\<rparr>) = sim_ok s"
  by (simp add: sim_ok_def geometry_ok_def base_def RS_def region_lo_def)

lemma sim_ok_fp: "sim_ok s \<Longrightarrow> i < nframe s \<Longrightarrow> sim_ok (s\<lparr>fp := i\<rparr>)"
  by (simp add: sim_ok_def geometry_ok_def base_def RS_def region_lo_def)

section \<open>Every operation keeps the invariant\<close>

lemma region_at_alloc:
  assumes "region_at r lo n" "reg_req r sz a" "reg_alloc r sz a = (r', p)"
  shows "region_at r' lo n"
  using assms reg_alloc_ok [OF _ assms(2,3)] reg_alloc_frame [of r sz a] by (simp add: region_at_def)

lemma region_at_ptr_mono:
  assumes "region_at r lo n" "reg_req r sz a" "reg_alloc r sz a = (r', p)"
  shows "unat (ptr r) \<le> unat (ptr r')"
  using _ assms(2,3) by (rule reg_alloc_cases) (use assms(1) in \<open>auto simp: region_at_def\<close>)

text \<open>A request that the target region can serve without wrapping.\<close>

definition alloc_req :: "sim \<Rightarrow> usize \<Rightarrow> usize \<Rightarrow> int \<Rightarrow> bool" where
  "alloc_req s sz a lifetime \<longleftrightarrow>
     reg_req (stat s) sz a \<and> reg_req (fmem (TOP s)) sz a \<and> reg_req (vstack s) sz a"

lemma sim_alloc_ok:
  assumes "sim_ok s" "alloc_req s sz a lt"
  shows "sim_ok (fst (sim_alloc s sz a lt))"
proof -
  note top = sim_ok_TOP [OF assms(1)]
  obtain r p where r: "reg_alloc (stat s) sz a = (r, p)" by fastforce
  obtain r1 p1 where r1: "reg_alloc (fmem (TOP s)) sz a = (r1, p1)" by fastforce
  obtain r2 p2 where r2: "reg_alloc (vstack s) sz a = (r2, p2)" by fastforce
  have "region_at r (base s) (RS s)" "mem r = mem (stat s)"
    using assms region_at_alloc [OF _ _ r] reg_alloc_frame [of "stat s" sz a] r
    by (auto simp: sim_ok_def alloc_req_def)
  then have A: "sim_ok (s\<lparr>stat := r\<rparr>)" using assms(1)
    by (simp add: sim_ok_def geometry_ok_def base_def RS_def region_lo_def)
  have "region_at r1 (region_lo s (unat (fp s) + 1)) (RS s)" "unat (ptr (fmem (TOP s))) \<le> unat (ptr r1)"
    "mem r1 = mem (fmem (TOP s))"
    using assms(2) top(1) region_at_alloc [OF _ _ r1] region_at_ptr_mono [OF top(1) _ r1]
      reg_alloc_frame [of "fmem (TOP s)" sz a] r1 by (auto simp: alloc_req_def)
  then have B: "sim_ok (upd_top (\<lambda>f. f\<lparr>fmem := r1\<rparr>) s)" using assms(1) top(2)
    by (intro sim_ok_upd_top) (auto simp: sp_ok_def sp_size_def)
  have "region_at r2 (region_lo s (unat (nframe s) + 1)) (RS s)" "mem r2 = mem (vstack s)"
    "rend r2 = rend (vstack s)"
    using assms region_at_alloc [OF _ _ r2] reg_alloc_frame [of "vstack s" sz a] r2
    by (auto simp: sim_ok_def alloc_req_def)
  then have C: "sim_ok (s\<lparr>vstack := r2\<rparr>)" using assms(1)
    by (simp add: sim_ok_def geometry_ok_def base_def RS_def region_lo_def sp_ok_def sp_size_def)
  show ?thesis using A B C assms(1) r r1 r2 by (simp add: sim_alloc_def)
qed

lemma f_enter_ok: "sim_ok s \<Longrightarrow> sim_ok (f_enter s)"
  unfolding f_enter_def
  using sim_ok_TOP [of s]
  by (auto intro!: sim_ok_upd_top simp: sp_ok_def region_at_def REG_RESET_def reg_ok_def)

lemma region_lo_bound: "sim_ok s \<Longrightarrow> i \<le> unat (nframe s) + 2 \<Longrightarrow> region_lo s i \<le> 2 ^ 63"
proof -
  assume "sim_ok s" "i \<le> unat (nframe s) + 2"
  then have "RS s * i \<le> RS s * (unat (nframe s) + 2)" by (intro mult_le_mono2)
  with \<open>sim_ok s\<close> show ?thesis unfolding sim_ok_def geometry_ok_def region_lo_def by linarith
qed

lemma region_lo_Suc: "region_lo s (Suc i) = region_lo s i + RS s"
  by (simp add: region_lo_def)

lemma vstack_size:
  assumes "sim_ok s"
  shows "unat (ptr (vstack s) - mem (vstack s)) = unat (ptr (vstack s)) - unat (mem (vstack s))"
    and "unat (ptr (vstack s)) - unat (mem (vstack s)) \<le> RS s"
  using assms by (auto simp: sim_ok_def region_at_def reg_ok_def word_le_nat_alt unat_sub_if')

lemma savepoint_req:
  assumes "sim_ok s" "unat sz \<le> RS s"
  shows "reg_req (fmem (TOP s)) sz 64"
proof -
  have "\<exists>k < 64. (64 :: usize) = 2 ^ k" by (rule exI [of _ 6]) simp
  moreover have "unat (rend (fmem (TOP s))) = region_lo s (unat (fp s) + 2)"
    using sim_ok_TOP(1) [OF assms(1)] by (simp add: region_at_def region_lo_Suc)
  moreover have "region_lo s (unat (fp s) + 2) \<le> 2 ^ 63"
    using fp_bound [OF assms(1)] assms(1) region_lo_bound [OF assms(1), of "unat (fp s) + 2"]
    by (simp add: sim_ok_def geometry_ok_def)
  moreover have "unat sz < 4294967296" using assms(2) unat_lt32 [of "rsize s"] by (simp add: RS_def)
  ultimately show ?thesis by (simp add: reg_req_def bump_req_def)
qed

text \<open>What a savepoint does, branch by branch.\<close>

lemma sim_savepoint_cases:
  assumes "sim_ok s"
  obtains (double) "has_savepoint (TOP s)" "sim_savepoint s = (SIM_ESAVE, s)"
  | (full) "\<not> has_savepoint (TOP s)"
      "sim_savepoint s = (SIM_EALLOC, upd_top (\<lambda>f. f\<lparr>sp_data := NULL, sp_ptr := ptr (vstack s)\<rparr>) s)"
      "region_lo s (unat (fp s) + 2)
         \<le> round_up (unat (ptr (fmem (TOP s)))) 64 + (unat (ptr (vstack s)) - unat (mem (vstack s)))"
  | (saved) r p where "\<not> has_savepoint (TOP s)" "p \<noteq> NULL"
      "reg_alloc (fmem (TOP s)) (ptr (vstack s) - mem (vstack s)) 64 = (r, p)"
      "unat p = round_up (unat (ptr (fmem (TOP s)))) 64"
      "unat (ptr r) = unat p + (unat (ptr (vstack s)) - unat (mem (vstack s)))"
      "region_at r (region_lo s (unat (fp s) + 1)) (RS s)"
      "unat (mem (fmem (TOP s))) \<le> unat p" "unat (ptr r) < region_lo s (unat (fp s) + 2)"
      "sim_savepoint s = (SIM_OK, (upd_top (\<lambda>f. f\<lparr>fmem := r, sp_data := p, sp_ptr := ptr (vstack s),
          has_savepoint := True\<rparr>) s)
         \<lparr>store := blockcpy (store s) p (mem (vstack s)) (ptr (vstack s) - mem (vstack s))\<rparr>)"
proof (cases "has_savepoint (TOP s)")
  case True
  then show thesis by (intro double) (simp_all add: sim_savepoint_def)
next
  case False
  let ?sz = "ptr (vstack s) - mem (vstack s)"
  obtain r p where al: "reg_alloc (fmem (TOP s)) ?sz 64 = (r, p)" by fastforce
  note top = sim_ok_TOP(1) [OF assms] and fpb = fp_bound [OF assms]
  have req: "reg_req (fmem (TOP s)) ?sz 64"
    using vstack_size [OF assms] by (intro savepoint_req assms) simp
  have ok: "reg_ok (fmem (TOP s))" using top by (simp add: region_at_def)
  have same: "upd_top g (upd_top h s) = upd_top (\<lambda>f. g (h f)) s" for g h
    using fpb by (simp add: upd_top_def TOP_def)
  from ok req al show thesis
  proof (cases rule: reg_alloc_cases)
    case ok
    moreover have "unat (mem (fmem (TOP s))) \<le> unat (ptr (fmem (TOP s)))"
      using top by (simp add: region_at_def reg_ok_def word_le_nat_alt)
    ultimately show ?thesis
      using False al top region_at_alloc [OF top req al] vstack_size [OF assms]
      by (intro saved [of p r])
        (auto simp: sim_savepoint_def same SIM_SAVEPOINT_BLOCKSIZE_def region_at_def region_lo_Suc)
  next
    case fail
    then show ?thesis using False al top vstack_size [OF assms]
      by (intro full) (auto simp: region_at_def region_lo_Suc sim_savepoint_def SIM_SAVEPOINT_BLOCKSIZE_def upd_top_def TOP_def)
  qed
qed

lemma sim_savepoint_ok: "sim_ok s \<Longrightarrow> sim_ok (snd (sim_savepoint s))"
proof -
  assume ok: "sim_ok s"
  note top = sim_ok_TOP [OF ok]
  from ok show ?thesis
  proof (cases rule: sim_savepoint_cases)
    case double
    then show ?thesis using ok by simp
  next
    case full
    then show ?thesis using ok top by (auto intro!: sim_ok_upd_top simp: sp_ok_def)
  next
    case (saved r p)
    have vs: "mem (vstack s) \<le> ptr (vstack s)" "ptr (vstack s) \<le> rend (vstack s)"
      using ok by (auto simp: sim_ok_def region_at_def reg_ok_def)
    have "sp_ok (vstack s) ((TOP s)\<lparr>fmem := r, sp_data := p, sp_ptr := ptr (vstack s), has_savepoint := True\<rparr>)"
      using saved(4,5,7) vs reg_alloc_frame(1) [of "fmem (TOP s)" "ptr (vstack s) - mem (vstack s)" 64]
      unfolding saved(3) by (simp add: sp_ok_def sp_size_def)
    then show ?thesis using saved ok by (auto intro!: sim_ok_upd_top)
  qed
qed

lemma sim_up_ok: "sim_ok s \<Longrightarrow> sim_ok (snd (sim_up s i))"
  by (auto simp: sim_up_def intro!: sim_ok_fp) (auto simp: sim_ok_def geometry_ok_def)

lemma sim_reload_ok: "sim_ok s \<Longrightarrow> sim_ok (snd (sim_reload s))"
proof -
  assume ok: "sim_ok s"
  from sim_ok_TOP(2) [OF ok] have "has_savepoint (TOP s) \<Longrightarrow>
      sim_ok (s\<lparr>vstack := (vstack s)\<lparr>ptr := sp_ptr (TOP s)\<rparr>\<rparr>)"
    using ok by (auto simp: sim_ok_def geometry_ok_def base_def RS_def region_lo_def sp_ok_def
        sp_size_def region_at_def reg_ok_def)
  then show ?thesis using ok sim_ok_store [where s = "s\<lparr>vstack := (vstack s)\<lparr>ptr := sp_ptr (TOP s)\<rparr>\<rparr>"]
    by (simp add: sim_reload_def)
qed

lemma sim_load_ok: "sim_ok s \<Longrightarrow> sim_ok (snd (sim_load s i))"
  using sim_up_ok [of s i] sim_reload_ok [of "snd (sim_up s i)"] by (simp add: sim_load_def split_beta)

lemma sim_enter_ok: "sim_ok s \<Longrightarrow> sim_ok (snd (sim_enter s))"
  by (auto simp: sim_enter_def intro!: f_enter_ok sim_ok_fp)

lemma sim_branch_ok: "sim_ok s \<Longrightarrow> sim_ok (snd (sim_branch s))"
  using sim_ok_TOP [of s]
  by (auto simp: sim_branch_def sp_ok_def sp_size_def intro!: sim_savepoint_ok sim_ok_upd_top)

lemma sim_enter_branch_ok: "sim_ok s \<Longrightarrow> sim_ok (snd (sim_enter_branch s i))"
  using sim_load_ok [of s i] sim_enter_ok [of "snd (sim_load s i)"] sim_enter_ok [of s]
  by (simp add: sim_enter_branch_def split_beta)

lemmas sim_ops_ok = sim_alloc_ok sim_savepoint_ok sim_up_ok sim_reload_ok sim_load_ok sim_enter_ok
  sim_branch_ok sim_enter_branch_ok

section \<open>Savepoints and the memory around them\<close>

lemma round_up_within:
  assumes "64 dvd p" "64 dvd e" "p + n \<le> (e :: nat)"
  shows "p + round_up n 64 \<le> e"
proof -
  obtain a b c where d: "p = 64 * a" "e = 64 * b" "round_up n 64 = 64 * c"
    using assms(1,2) round_up_dvd [of 64 n] by (metis dvdE)
  have "64 * (a + c) < 64 * (b + 1)"
    using round_up_less [of 64 n] assms(3) unfolding d by (simp add: algebra_simps)
  then have "a + c \<le> b" by simp
  then show ?thesis unfolding d by simp
qed

lemma region_lo_64: "sim_ok s \<Longrightarrow> 64 dvd region_lo s i"
  by (auto simp: sim_ok_def geometry_ok_def region_lo_def)

lemma region_lo_mono: "i \<le> j \<Longrightarrow> region_lo s i \<le> region_lo s j"
  by (simp add: region_lo_def)

lemma sp_block_bounds:
  assumes "sim_ok s" "i < unat (nframe s)" "has_savepoint (fstack s ! i)"
  shows "region_lo s (i + 1) \<le> unat (sp_data (fstack s ! i))"
    and "unat (sp_data (fstack s ! i)) + round_up (sp_size (vstack s) (fstack s ! i)) 64 \<le> region_lo s (i + 2)"
    and "round_up (sp_size (vstack s) (fstack s ! i)) 64 \<le> RS s"
proof -
  let ?f = "fstack s ! i" and ?n = "sp_size (vstack s) (fstack s ! i)"
  have r: "region_at (fmem ?f) (region_lo s (i + 1)) (RS s)" and sp: "sp_ok (vstack s) ?f"
    and v: "region_at (vstack s) (region_lo s (unat (nframe s) + 1)) (RS s)" and g: "64 dvd RS s"
    using assms(1,2) by (auto simp: sim_ok_def geometry_ok_def)
  show "region_lo s (i + 1) \<le> unat (sp_data ?f)"
    using r sp assms(3) by (simp add: region_at_def sp_ok_def)
  have "unat (sp_data ?f) + ?n \<le> region_lo s (i + 2)"
    using r sp assms(3) by (simp add: region_at_def sp_ok_def reg_ok_def word_le_nat_alt region_lo_Suc)
  then show "unat (sp_data ?f) + round_up ?n 64 \<le> region_lo s (i + 2)"
    using sp assms(1,3) by (intro round_up_within) (auto simp: sp_ok_def region_lo_64)
  have "?n \<le> RS s" using sp v assms(3)
    by (auto simp: sp_ok_def sp_size_def region_at_def word_le_nat_alt)
  then show "round_up ?n 64 \<le> RS s" using g by (intro round_up_mono_dvd) auto
qed

text \<open>The address range of a savepoint and of the part of the vstack it saves.\<close>

lemma blockcpy_vstack:
  assumes ok: "sim_ok s" and i: "i < unat (nframe s)" and n: "unat sz \<le> RS s"
    and p: "64 dvd unat p" "region_lo s (i + 1) \<le> unat p" "unat p + unat sz \<le> region_lo s (i + 2)"
  defines "N \<equiv> round_up (unat sz) 64" and "v \<equiv> mem (vstack s)"
  shows "blockcpy st p v sz a =
      (if unat p \<le> unat a \<and> unat a < unat p + N then st (v + (a - p)) else st a)"
    and "blockcpy st v p sz a =
      (if unat v \<le> unat a \<and> unat a < unat v + N then st (p + (a - v)) else st a)"
    and "unat p + N \<le> region_lo s (i + 2)" and "N \<le> RS s"
proof -
  show pe: "unat p + N \<le> region_lo s (i + 2)"
    unfolding N_def using p ok by (intro round_up_within) (auto simp: region_lo_64)
  show NR: "N \<le> RS s"
    unfolding N_def using n ok by (intro round_up_mono_dvd) (auto simp: sim_ok_def geometry_ok_def)
  have vlo: "unat v = region_lo s (unat (nframe s) + 1)"
    using ok by (simp add: v_def sim_ok_def region_at_def)
  have top: "region_lo s (unat (nframe s) + 1) + RS s \<le> 2 ^ 63"
    using region_lo_bound [OF ok, of "unat (nframe s) + 2"] by (simp add: region_lo_Suc)
  have "region_lo s (i + 2) \<le> unat v" using i vlo region_lo_mono [of "i + 2" "unat (nframe s) + 1" s] by simp
  moreover have num: "(2 :: nat) ^ 63 \<le> 2 ^ 64 - 64" by simp
  ultimately have b: "unat p + N \<le> unat v" "unat p + N \<le> 2 ^ 64 - 64" "unat v + N \<le> 2 ^ 64 - 64"
    using pe NR top vlo num by linarith+
  show "blockcpy st p v sz a =
      (if unat p \<le> unat a \<and> unat a < unat p + N then st (v + (a - p)) else st a)"
    using b by (intro blockcpy_eq) (auto simp: N_def)
  show "blockcpy st v p sz a =
      (if unat v \<le> unat a \<and> unat a < unat v + N then st (p + (a - v)) else st a)"
    using b by (intro blockcpy_eq) (auto simp: N_def)
qed

section \<open>Runs\<close>

datatype sim_op =
    OpAlloc usize usize int
  | OpSavepoint
  | OpUp u32
  | OpReload
  | OpLoad u32
  | OpEnter
  | OpBranch
  | OpEnterBranch u32
  | OpWrite uptr u8

fun sim_exec :: "sim_op \<Rightarrow> sim \<Rightarrow> sim" where
  "sim_exec (OpAlloc sz a lt) s = fst (sim_alloc s sz a lt)"
| "sim_exec OpSavepoint s = snd (sim_savepoint s)"
| "sim_exec (OpUp i) s = snd (sim_up s i)"
| "sim_exec OpReload s = snd (sim_reload s)"
| "sim_exec (OpLoad i) s = snd (sim_load s i)"
| "sim_exec OpEnter s = snd (sim_enter s)"
| "sim_exec OpBranch s = snd (sim_branch s)"
| "sim_exec (OpEnterBranch i) s = snd (sim_enter_branch s i)"
| "sim_exec (OpWrite a b) s = s\<lparr>store := (store s)(a := b)\<rparr>"

text \<open>The saved bytes of frame \<open>i\<close>. Simulation code may write anywhere else.\<close>

definition sp_bytes :: "sim \<Rightarrow> nat \<Rightarrow> nat set" where
  "sp_bytes s i = (if has_savepoint (fstack s ! i)
     then {unat (sp_data (fstack s ! i)) ..< unat (sp_data (fstack s ! i)) + sp_size (vstack s) (fstack s ! i)}
     else {})"

fun op_ok :: "sim \<Rightarrow> sim_op \<Rightarrow> bool" where
  "op_ok s (OpAlloc sz a lt) = alloc_req s sz a lt"
| "op_ok s (OpWrite a b) = (\<forall>i < unat (nframe s). unat a \<notin> sp_bytes s i)"
| "op_ok s _ = True"

text \<open>The operation does not leave frame \<open>i\<close> for one above it.\<close>

fun stays :: "nat \<Rightarrow> sim_op \<Rightarrow> bool" where
  "stays i (OpUp j) = (i \<le> unat j)"
| "stays i (OpLoad j) = (i \<le> unat j)"
| "stays i (OpEnterBranch j) = (i \<le> unat j)"
| "stays i _ = True"

fun sim_run :: "sim_op list \<Rightarrow> sim \<Rightarrow> sim" where
  "sim_run [] s = s"
| "sim_run (x # xs) s = sim_run xs (sim_exec x s)"

fun run_ok :: "nat \<Rightarrow> sim_op list \<Rightarrow> sim \<Rightarrow> bool" where
  "run_ok i [] s = True"
| "run_ok i (x # xs) s \<longleftrightarrow> op_ok s x \<and> stays i x \<and> run_ok i xs (sim_exec x s)"

lemma sim_exec_ok: "sim_ok s \<Longrightarrow> op_ok s x \<Longrightarrow> sim_ok (sim_exec x s)"
  by (cases x) (auto simp: sim_ops_ok)

section \<open>A savepoint survives every run below it\<close>

definition keeps :: "nat \<Rightarrow> sim \<Rightarrow> sim \<Rightarrow> bool" where
  "keeps i s s' \<longleftrightarrow> nframe s' = nframe s \<and> mem (vstack s') = mem (vstack s) \<and> i \<le> unat (fp s') \<and>
     has_savepoint (fstack s' ! i) \<and> sp_data (fstack s' ! i) = sp_data (fstack s ! i) \<and>
     sp_ptr (fstack s' ! i) = sp_ptr (fstack s ! i) \<and>
     (\<forall>a. unat a \<in> sp_bytes s i \<longrightarrow> store s' a = store s a)"

lemma keeps_refl: "i \<le> unat (fp s) \<Longrightarrow> has_savepoint (fstack s ! i) \<Longrightarrow> keeps i s s"
  by (simp add: keeps_def)

lemma keeps_bytes:
  "has_savepoint (fstack s ! i) \<Longrightarrow> keeps i s s' \<Longrightarrow> sp_bytes s' i = sp_bytes s i"
  by (simp add: keeps_def sp_bytes_def sp_size_def)

lemma keeps_trans:
  "has_savepoint (fstack s ! i) \<Longrightarrow> keeps i s s' \<Longrightarrow> keeps i s' s'' \<Longrightarrow> keeps i s s''"
  using keeps_bytes [of s i s'] by (simp add: keeps_def)

lemma keeps_upd_top:
  assumes "sim_ok s" "i \<le> unat (fp s)" "has_savepoint (fstack s ! i)"
    and "has_savepoint (f (TOP s)) = has_savepoint (TOP s)" "sp_data (f (TOP s)) = sp_data (TOP s)"
      "sp_ptr (f (TOP s)) = sp_ptr (TOP s)"
  shows "keeps i s (upd_top f s)"
  using assms fp_bound [OF assms(1)] by (auto simp: keeps_def nth_upd_top TOP_def)

lemma sp_bytes_bounds:
  assumes "sim_ok s" "i < unat (nframe s)" "x \<in> sp_bytes s i"
  shows "region_lo s (i + 1) \<le> x" "x < region_lo s (i + 2)"
proof -
  from assms(3) have sp: "has_savepoint (fstack s ! i)" by (auto simp: sp_bytes_def split: if_splits)
  from sp_block_bounds [OF assms(1,2) sp] assms(3)
    round_up_ge [of 64 "sp_size (vstack s) (fstack s ! i)"]
  show "region_lo s (i + 1) \<le> x" "x < region_lo s (i + 2)" by (auto simp: sp_bytes_def sp)
qed

lemma sp_bytes_below_vstack:
  assumes "sim_ok s" "i < unat (nframe s)" "x \<in> sp_bytes s i"
  shows "x < unat (mem (vstack s))"
  using sp_bytes_bounds(2) [OF assms] region_lo_mono [of "i + 2" "unat (nframe s) + 1" s] assms(1,2)
  by (simp add: sim_ok_def region_at_def)

lemma keeps_alloc:
  "sim_ok s \<Longrightarrow> i \<le> unat (fp s) \<Longrightarrow> has_savepoint (fstack s ! i) \<Longrightarrow> keeps i s (fst (sim_alloc s sz a lt))"
  using keeps_upd_top [of s i] reg_alloc_frame [of "vstack s" sz a]
  by (auto simp: sim_alloc_def split_beta intro: keeps_refl) (auto simp: keeps_def)

lemma keeps_savepoint:
  assumes ok: "sim_ok s" and i: "i \<le> unat (fp s)" and sp: "has_savepoint (fstack s ! i)"
  shows "keeps i s (snd (sim_savepoint s))"
  using ok
proof (cases rule: sim_savepoint_cases)
  case double
  then show ?thesis using i sp by (simp add: keeps_refl)
next
  case full
  then have "i \<noteq> unat (fp s)" using sp by (auto simp: TOP_def)
  then show ?thesis using full i sp fp_bound [OF ok] by (simp add: keeps_def nth_upd_top)
next
  case (saved r p)
  let ?sz = "ptr (vstack s) - mem (vstack s)"
  have ne: "i \<noteq> unat (fp s)" using saved(1) sp by (auto simp: TOP_def)
  have n: "unat (fp s) < unat (nframe s)" using fp_bound [OF ok] ok by (simp add: sim_ok_def geometry_ok_def)
  have lo: "region_lo s (unat (fp s) + 1) \<le> unat p"
    using saved(7) sim_ok_TOP(1) [OF ok] by (simp add: region_at_def)
  have "unat p + unat ?sz \<le> region_lo s (unat (fp s) + 2)"
    using saved(5,8) vstack_size(1) [OF ok] by simp
  note cp = blockcpy_vstack [OF ok n _ _ lo this]
  have "blockcpy (store s) p (mem (vstack s)) ?sz a = store s a" if "unat a \<in> sp_bytes s i" for a
  proof -
    have "unat a < region_lo s (unat (fp s) + 1)"
      using sp_bytes_bounds(2) [OF ok _ that] n i ne region_lo_mono [of "i + 2" "unat (fp s) + 1" s]
      by simp
    then show ?thesis using cp(1) [of "store s" a] lo saved(4) vstack_size [OF ok] by simp
  qed
  then show ?thesis using saved(9) i sp ne fp_bound [OF ok] by (simp add: keeps_def nth_upd_top)
qed

lemma keeps_up: "sim_ok s \<Longrightarrow> i \<le> unat (fp s) \<Longrightarrow> has_savepoint (fstack s ! i) \<Longrightarrow> i \<le> unat j \<Longrightarrow>
    keeps i s (snd (sim_up s j))"
  by (auto simp: sim_up_def keeps_def)

text \<open>A reload copies the frame's savepoint to the start of the vstack.\<close>

lemma reload_copy:
  assumes ok: "sim_ok s" and sp: "has_savepoint (TOP s)"
  defines "f \<equiv> TOP s" and "v \<equiv> mem (vstack s)"
  defines "N \<equiv> round_up (sp_size (vstack s) f) 64"
  shows "blockcpy (store s) v (sp_data f) (sp_ptr f - v) a =
      (if unat v \<le> unat a \<and> unat a < unat v + N then store s (sp_data f + (a - v)) else store s a)"
proof -
  have n: "unat (fp s) < unat (nframe s)" using fp_bound [OF ok] ok by (simp add: sim_ok_def geometry_ok_def)
  have spo: "sp_ok (vstack s) f" using sim_ok_TOP(2) [OF ok] by (simp add: f_def)
  have sz: "unat (sp_ptr f - v) = sp_size (vstack s) f"
    using spo sp by (simp add: f_def v_def sp_ok_def sp_size_def word_le_nat_alt unat_sub_if')
  have b: "region_lo s (unat (fp s) + 1) \<le> unat (sp_data f)"
    "unat (sp_data f) + N \<le> region_lo s (unat (fp s) + 2)" "N \<le> RS s"
    using sp_block_bounds [OF ok n] sp by (simp_all add: f_def N_def TOP_def)
  have "sp_size (vstack s) f \<le> N" by (simp add: N_def round_up_ge)
  then show ?thesis using blockcpy_vstack(2) [OF ok n _ _ b(1), of "sp_ptr f - v"] sz b spo sp
    by (simp add: N_def v_def f_def sp_ok_def)
qed

lemma keeps_reload:
  assumes ok: "sim_ok s" and i: "i \<le> unat (fp s)" and sp: "has_savepoint (fstack s ! i)"
  shows "keeps i s (snd (sim_reload s))"
proof (cases "has_savepoint (TOP s)")
  case False
  then show ?thesis using i sp by (simp add: sim_reload_def keeps_refl)
next
  case True
  have n: "i < unat (nframe s)" using i fp_bound [OF ok] ok by (simp add: sim_ok_def geometry_ok_def)
  have "blockcpy (store s) (mem (vstack s)) (sp_data (TOP s)) (sp_ptr (TOP s) - mem (vstack s)) a = store s a"
    if "unat a \<in> sp_bytes s i" for a
    using reload_copy [OF ok True, of a] sp_bytes_below_vstack [OF ok n that] by simp
  then show ?thesis using True i sp by (simp add: sim_reload_def keeps_def)
qed

lemma keeps_enter:
  assumes ok: "sim_ok s" and i: "i \<le> unat (fp s)" and sp: "has_savepoint (fstack s ! i)"
  shows "keeps i s (snd (sim_enter s))"
proof (cases "fp s + 1 \<ge> nframe s")
  case True
  then show ?thesis using i sp by (simp add: sim_enter_def keeps_refl)
next
  case False
  then have "fp s + 1 < nframe s" by simp
  have f: "unat (fp s + 1) = unat (fp s) + 1"
    using ok unat_lt32 [of "nframe s"] unat_add32 [of "fp s" 1]
    by (simp add: sim_ok_def geometry_ok_def word_less_nat_alt)
  have "unat (fp s + 1) < length (fstack s)" using \<open>fp s + 1 < nframe s\<close> ok
    by (simp add: sim_ok_def geometry_ok_def word_less_nat_alt)
  then show ?thesis using False f i sp
    by (simp add: sim_enter_def f_enter_def keeps_def nth_upd_top)
qed

lemma keeps_load:
  assumes "sim_ok s" "i \<le> unat (fp s)" "has_savepoint (fstack s ! i)" "i \<le> unat j"
  shows "keeps i s (snd (sim_load s j))"
proof -
  note up = keeps_up [OF assms] and ok = sim_up_ok [OF assms(1), of j]
  have "keeps i (snd (sim_up s j)) (snd (sim_reload (snd (sim_up s j))))"
    using up ok by (intro keeps_reload) (auto simp: keeps_def)
  from keeps_trans [OF assms(3) up this] up show ?thesis by (simp add: sim_load_def split_beta)
qed

lemma keeps_branch:
  assumes "sim_ok s" "i \<le> unat (fp s)" "has_savepoint (fstack s ! i)"
  shows "keeps i s (snd (sim_branch s))"
proof -
  let ?s = "upd_top (\<lambda>f. f\<lparr>has_branchpoint := True\<rparr>) s"
  have k: "keeps i s ?s" using assms by (intro keeps_upd_top) auto
  have "sim_ok ?s" using assms(1) sim_ok_TOP [OF assms(1)]
    by (intro sim_ok_upd_top) (auto simp: sp_ok_def sp_size_def)
  then have "keeps i ?s (snd (sim_savepoint ?s))"
    using k by (intro keeps_savepoint) (auto simp: keeps_def)
  from keeps_trans [OF assms(3) k this] assms show ?thesis
    by (simp add: sim_branch_def keeps_refl)
qed

lemma keeps_enter_branch:
  assumes "sim_ok s" "i \<le> unat (fp s)" "has_savepoint (fstack s ! i)" "i \<le> unat j"
  shows "keeps i s (snd (sim_enter_branch s j))"
proof -
  note ld = keeps_load [OF assms] and ok = sim_load_ok [OF assms(1), of j]
  have "keeps i (snd (sim_load s j)) (snd (sim_enter (snd (sim_load s j))))"
    using ld ok by (intro keeps_enter) (auto simp: keeps_def)
  from keeps_trans [OF assms(3) ld this] ld keeps_enter [OF assms(1-3)] keeps_refl [OF assms(2,3)]
  show ?thesis by (simp add: sim_enter_branch_def split_beta)
qed

lemma keeps_write:
  assumes "sim_ok s" "i \<le> unat (fp s)" "has_savepoint (fstack s ! i)" "op_ok s (OpWrite a b)"
  shows "keeps i s (s\<lparr>store := (store s)(a := b)\<rparr>)"
proof -
  have "i < unat (nframe s)" using fp_bound [OF assms(1)] assms(1,2)
    by (simp add: sim_ok_def geometry_ok_def)
  then show ?thesis using assms by (auto simp: keeps_def)
qed

lemmas keeps_ops = keeps_alloc keeps_savepoint keeps_up keeps_reload keeps_load keeps_enter
  keeps_branch keeps_enter_branch

lemma keeps_exec:
  "sim_ok s \<Longrightarrow> i \<le> unat (fp s) \<Longrightarrow> has_savepoint (fstack s ! i) \<Longrightarrow> op_ok s x \<Longrightarrow> stays i x \<Longrightarrow>
     keeps i s (sim_exec x s)"
  by (cases x) (auto intro: keeps_ops keeps_write [simplified])

lemma keeps_run:
  "sim_ok s \<Longrightarrow> i \<le> unat (fp s) \<Longrightarrow> has_savepoint (fstack s ! i) \<Longrightarrow> run_ok i xs s \<Longrightarrow>
     sim_ok (sim_run xs s) \<and> keeps i s (sim_run xs s)"
proof (induction xs arbitrary: s)
  case Nil
  then show ?case by (simp add: keeps_refl)
next
  case (Cons x xs)
  have k: "keeps i s (sim_exec x s)" using Cons.prems by (intro keeps_exec) auto
  have "sim_ok (sim_run xs (sim_exec x s)) \<and> keeps i (sim_exec x s) (sim_run xs (sim_exec x s))"
    using k Cons.prems by (intro Cons.IH) (auto simp: sim_exec_ok keeps_def)
  then show ?case using keeps_trans [OF Cons.prems(3) k] by simp
qed

lemma add_diff_addr:
  "unat v \<le> unat a \<Longrightarrow> unat d + (unat a - unat v) < 2 ^ 64 \<Longrightarrow>
     unat (d + (a - v) :: uptr) = unat d + (unat a - unat v)"
  by (subst unat_add_small) (auto simp: unat_sub_if')

lemma savepoint_saved:
  assumes ok: "sim_ok s" and sv: "sim_savepoint s = (SIM_OK, s1)"
  shows "has_savepoint (fstack s1 ! unat (fp s))" "sp_ptr (fstack s1 ! unat (fp s)) = ptr (vstack s)"
    "fp s1 = fp s" "vstack s1 = vstack s"
  using ok by (atomize(full), cases rule: sim_savepoint_cases)
    (use sv fp_bound [OF ok] in \<open>auto simp: nth_upd_top\<close>)

text \<open>The bytes a savepoint stores are the vstack's bytes at that moment.\<close>

lemma savepoint_stores:
  assumes ok: "sim_ok s" and sv: "sim_savepoint s = (SIM_OK, s1)"
    and a: "unat (mem (vstack s)) \<le> unat a" "unat a < unat (ptr (vstack s))"
  defines "f \<equiv> fstack s1 ! unat (fp s)" and "v \<equiv> mem (vstack s)"
  shows "store s1 (sp_data f + (a - v)) = store s a" "unat (sp_data f + (a - v)) \<in> sp_bytes s1 (unat (fp s))"
proof -
  from ok have "store s1 (sp_data f + (a - v)) = store s a \<and>
    unat (sp_data f + (a - v)) \<in> sp_bytes s1 (unat (fp s))"
  proof (cases rule: sim_savepoint_cases)
    case (saved r p)
    let ?sz = "ptr (vstack s) - mem (vstack s)" and ?x = "p + (a - v)"
    have n: "unat (fp s) < unat (nframe s)" using fp_bound [OF ok] ok by (simp add: sim_ok_def geometry_ok_def)
    have lo: "region_lo s (unat (fp s) + 1) \<le> unat p"
      using saved(7) sim_ok_TOP(1) [OF ok] by (simp add: region_at_def)
    have hi: "unat p + unat ?sz \<le> region_lo s (unat (fp s) + 2)"
      using saved(5,8) vstack_size(1) [OF ok] by simp
    note cp = blockcpy_vstack [OF ok n _ _ lo hi]
    have "region_lo s (unat (fp s) + 2) \<le> 2 ^ 63" using n by (intro region_lo_bound ok) simp
    then have x: "unat ?x = unat p + (unat a - unat v)"
      using hi a vstack_size(1) [OF ok] by (intro add_diff_addr) (auto simp: v_def)
    have "unat ?sz \<le> round_up (unat ?sz) 64" by (simp add: round_up_ge)
    then have inb: "unat p \<le> unat ?x \<and> unat ?x < unat p + round_up (unat ?sz) 64"
      unfolding x using a vstack_size(1) [OF ok] unfolding v_def by linarith
    have "mem (vstack s) + (?x - p) = a" by (simp add: v_def)
    then have "blockcpy (store s) p (mem (vstack s)) ?sz ?x = store s a"
      using cp(1) [of "store s" ?x] inb vstack_size [OF ok] saved(4) by simp
    moreover have "s1 = (upd_top (\<lambda>f. f\<lparr>fmem := r, sp_data := p, sp_ptr := ptr (vstack s),
          has_savepoint := True\<rparr>) s)\<lparr>store := blockcpy (store s) p (mem (vstack s)) ?sz\<rparr>"
      using saved(9) sv by simp
    ultimately show ?thesis
      using fp_bound [OF ok] x a
      by (simp add: f_def nth_upd_top sp_bytes_def sp_size_def v_def) linarith
  qed (use sv in auto)
  then show "store s1 (sp_data f + (a - v)) = store s a"
    "unat (sp_data f + (a - v)) \<in> sp_bytes s1 (unat (fp s))" by auto
qed

text \<open>
  C5. A savepoint is restored exactly: save in a frame, run any sequence of allocations, savepoints,
  reloads, loads, entered frames and branches that does not jump above the frame and whose own
  writes do not hit a savepoint, then load the frame. The load succeeds, the vstack pointer is back
  and so is every byte of the vstack.
\<close>

theorem sim_load_restores:
  assumes ok: "sim_ok s" and sv: "sim_savepoint s = (SIM_OK, s1)"
    and run: "run_ok (unat (fp s)) ops s1" and s2: "s2 = sim_run ops s1"
  shows "\<exists>s3. sim_load s2 (fp s) = (SIM_OK, s3) \<and> fp s3 = fp s \<and> ptr (vstack s3) = ptr (vstack s) \<and>
     (\<forall>a. mem (vstack s) \<le> a \<and> a < ptr (vstack s) \<longrightarrow> store s3 a = store s a)"
proof -
  let ?i = "unat (fp s)"
  have ok1: "sim_ok s1" using sim_savepoint_ok [OF ok] sv by simp
  note st = savepoint_saved [OF ok sv]
  have "sim_ok s2 \<and> keeps ?i s1 s2" unfolding s2
    using ok1 run st by (intro keeps_run) auto
  then have ok2: "sim_ok s2" and k: "keeps ?i s1 s2" by auto
  define t where "t = s2\<lparr>fp := fp s\<rparr>"
  have le: "fp s \<le> fp s2" using k by (simp add: keeps_def word_le_nat_alt)
  have t: "sim_ok t" using sim_up_ok [OF ok2, of "fp s"] le by (simp add: t_def sim_up_def flip: not_le)
  have T: "TOP t = fstack s2 ! ?i" by (simp add: t_def TOP_def)
  have sp: "has_savepoint (TOP t)" "sp_ptr (TOP t) = ptr (vstack s)"
    "sp_data (TOP t) = sp_data (fstack s1 ! ?i)" "mem (vstack t) = mem (vstack s)"
    using k st unfolding T by (auto simp: keeps_def t_def)
  have "blockcpy (store t) (mem (vstack t)) (sp_data (TOP t)) (sp_ptr (TOP t) - mem (vstack t)) a = store s a"
    if a: "mem (vstack s) \<le> a" "a < ptr (vstack s)" for a
  proof -
    have a': "unat (mem (vstack s)) \<le> unat a" "unat a < unat (ptr (vstack s))"
      using a by (auto simp: word_le_nat_alt word_less_nat_alt)
    note ss = savepoint_stores [OF ok sv a']
    have "unat a < unat (mem (vstack s)) + round_up (sp_size (vstack t) (TOP t)) 64"
      using round_up_ge [of 64 "sp_size (vstack t) (TOP t)"] a' sp by (simp add: sp_size_def)
    then have "blockcpy (store t) (mem (vstack t)) (sp_data (TOP t)) (sp_ptr (TOP t) - mem (vstack t)) a
        = store t (sp_data (TOP t) + (a - mem (vstack s)))"
      using reload_copy [OF t sp(1), of a] a' sp by simp
    also have "\<dots> = store s1 (sp_data (TOP t) + (a - mem (vstack s)))"
      using k ss(2) sp(3) by (simp add: keeps_def t_def)
    finally show ?thesis using ss(1) sp(3) by simp
  qed
  then show ?thesis using le sp
    by (simp add: sim_load_def sim_up_def sim_reload_def flip: t_def) (simp add: t_def)
qed

section \<open>A fresh simulator\<close>

lemma sim_create_cases:
  assumes "sim_create mp nfr rsz = Some s" "64 \<le> rsz"
  obtains k where "rsz = 2 ^ k" "6 \<le> k" "k < 32" "mp (MAPPING_SIZE nfr rsz) \<noteq> NULL"
proof -
  have "rsz AND (rsz - 1) = 0" "mp (MAPPING_SIZE nfr rsz) \<noteq> NULL"
    using assms(1) by (auto simp: sim_create_def split: if_splits)
  moreover have "rsz \<noteq> 0" using assms(2) by auto
  ultimately obtain k where k: "k < 32" "rsz = 2 ^ k" using and_minus_one_pow2 [of rsz] by auto
  have "\<not> k < 6"
  proof
    assume "k < 6"
    then have "unat rsz < 2 ^ 6" using k power_strict_increasing [of k 6 "2::nat"] by (simp add: unat_exp)
    then show False using assms(2) by (simp add: word_le_nat_alt)
  qed
  then show thesis using that k \<open>mp _ \<noteq> _\<close> by auto
qed

text \<open>Region \<open>i\<close> of a fresh mapping starts at \<open>base + i * rsize\<close>.\<close>

lemma create_region:
  fixes rsz n :: u32
  assumes "unat b + unat rsz * (unat n + 1) < 2 ^ 64" "0 < unat b"
  shows "region_at (reg_init (b + ucast rsz * ucast n) (ucast rsz)) (unat b + unat rsz * unat n) (unat rsz)"
proof -
  have e: "unat b + unat rsz * unat n + unat rsz < 2 ^ 64" using assms(1) by (simp add: algebra_simps)
  have m: "unat (ucast rsz * ucast n :: u64) = unat rsz * unat n"
    using e by (subst unat_mult_small) auto
  have a: "unat (b + ucast rsz * ucast n) = unat b + unat rsz * unat n"
    using e m by (subst unat_add64) auto
  have "unat (b + ucast rsz * ucast n + ucast rsz) = unat b + unat rsz * unat n + unat rsz"
    using e a by (subst unat_add64) auto
  then show ?thesis using a assms(2) by (simp add: region_at_def reg_init_def reg_ok_def word_le_nat_alt)
qed

lemma sim_create_establishes:
  assumes c: "sim_create mp nfr rsz = Some s" and n: "0 < nfr" "unat nfr + 1 < 2 ^ 32" and r: "64 \<le> rsz"
    and space: "unat (mp (MAPPING_SIZE nfr rsz)) + unat rsz * (unat nfr + 3) \<le> 2 ^ 63"
  shows "sim_ok s"
proof -
  obtain k where k: "rsz = 2 ^ k" "6 \<le> k" "k < 32" and nn: "mp (MAPPING_SIZE nfr rsz) \<noteq> NULL"
    using c r by (rule sim_create_cases)
  define m b where "m = mp (MAPPING_SIZE nfr rsz)" and "b = ALIGN m (ucast rsz)"
  have ur: "unat rsz = 2 ^ k" using k by (simp add: unat_exp)
  have cr: "ucast rsz = (2 ^ k :: u64)" by (rule word_unat_eq_iff [THEN iffD2]) (use k in \<open>simp add: unat_exp\<close>)
  have sp: "unat m + unat rsz * (unat nfr + 3) \<le> 9223372036854775808" using space by (simp add: m_def)
  have exp: "unat rsz * (unat nfr + 3) = unat rsz * (unat nfr + 2) + unat rsz" by (simp add: algebra_simps)
  have "unat m + unat (ucast rsz :: u64) \<le> 2 ^ 64" using sp exp by simp
  then have ub: "unat b = round_up (unat m) (unat rsz)" unfolding b_def
    using ALIGN_unat [OF cr] k(3) by simp
  have pos: "0 < unat rsz" using ur by simp
  have bb: "unat b + unat rsz * (unat nfr + 2) \<le> 9223372036854775808"
    using round_up_less [OF pos, of "unat m"] sp exp ub by linarith
  have b0: "0 < unat b" using round_up_ge [OF pos, of "unat m"] nn ub m_def
    by (metis gr0I le_zero_eq unat_eq_zero)
  have d: "64 dvd unat rsz" using le_imp_power_dvd [of 6 k "2::nat"] k(2) ur by simp
  have db: "64 dvd unat b" using dvd_trans [OF d round_up_dvd] ub by simp
  have lt: "unat b + unat rsz * (unat i + 1) < 2 ^ 64" if "unat i \<le> unat nfr + 1" for i :: u32
    using bb mult_le_mono2 [of "unat i + 1" "unat nfr + 2" "unat rsz"] that by simp
  note R = create_region [OF lt b0]
  have un: "unat (nfr + 1) = unat nfr + 1" using n(2) by (subst unat_add32) auto
  have ui: "unat (of_nat i + 1 :: u32) = i + 1" if "i < unat nfr" for i
    using that n(2) unat_of_nat_small [of i, where 'a = 32] by (subst unat_add32) auto
  let ?st = "reg_init b (ucast rsz)" and ?n = "sizeof_sim + ucast nfr * sizeof_frame"
  have st: "region_at ?st (unat b) (unat rsz)" using R [of 0] by simp
  have req: "reg_req ?st ?n 8"
  proof -
    have "unat (ucast nfr * sizeof_frame) = unat nfr * 48" using n(2)
      by (subst unat_mult_small) (auto simp: sizeof_frame_def)
    then have "unat ?n = 72 + unat nfr * 48" using n(2)
      by (subst unat_add64) (auto simp: sizeof_sim_def)
    moreover have "unat (rend ?st) = unat b + unat rsz" using st by (simp add: region_at_def)
    moreover have "\<exists>k < 64. (8 :: usize) = 2 ^ k" by (rule exI [of _ 3]) simp
    moreover have "unat b + unat rsz \<le> 9223372036854775808" using bb by (simp add: algebra_simps)
    ultimately show ?thesis using n(2) by (simp add: reg_req_def bump_req_def)
  qed
  have stat: "region_at (fst (reg_alloc ?st ?n 8)) (unat b) (unat rsz)"
    by (rule region_at_alloc [OF st req prod.collapse [symmetric]])
  have fr: "region_at (reg_init (b + ucast rsz * ucast (of_nat i + 1 :: u32)) (ucast rsz))
      (unat b + unat rsz * (i + 1)) (unat rsz)" if "i < unat nfr" for i
    using R [of "of_nat i + 1"] ui [OF that] that by simp
  have vs: "region_at (reg_init (b + ucast rsz * ucast (nfr + 1)) (ucast rsz))
      (unat b + unat rsz * (unat nfr + 1)) (unat rsz)" using R [of "nfr + 1"] un by simp
  define s0 where "s0 = \<lparr>stat = fst (reg_alloc ?st ?n 8), vstack = reg_init (b + ucast rsz * ucast (nfr + 1)) (ucast rsz),
      mapping = m, nframe = nfr, rsize = rsz, next_fid = 1, fp = 0,
      fstack = map (\<lambda>i. \<lparr>has_savepoint = False, has_branchpoint = False, fid = 0,
        fmem = reg_init (b + ucast rsz * ucast (of_nat i + 1 :: u32)) (ucast rsz),
        sp_data = NULL, sp_ptr = NULL\<rparr>) [0 ..< unat nfr], store = (\<lambda>_. 0)\<rparr>"
  have "s = f_enter s0" using c nn by (simp add: sim_create_def m_def b_def s0_def split: if_splits)
  moreover have g: "base s0 = unat b" "RS s0 = unat rsz" "nframe s0 = nfr" "fp s0 = 0" "length (fstack s0) = unat nfr"
    using stat by (simp_all add: s0_def base_def RS_def region_at_def)
  have "geometry_ok s0" unfolding geometry_ok_def g using d db b0 pos bb n by simp
  then have "sim_ok s0" unfolding sim_ok_def region_lo_def g
    using stat fr vs by (simp add: s0_def sp_ok_def)
  ultimately show ?thesis using f_enter_ok by simp
qed

lemma sim_run_ok: "sim_ok s \<Longrightarrow> run_ok 0 ops s \<Longrightarrow> sim_ok (sim_run ops s)"
  by (induction ops arbitrary: s) (auto simp: sim_exec_ok)

text \<open>
  C15. The simulator starts and stays well formed: \<open>sim_create\<close> cuts the mapping into the static
  region, one region per frame and the vstack, pairwise apart, and after any sequence of calls every
  region still has its bounds, every bump pointer is inside, the frame pointer is below \<open>nframe\<close>
  and every savepoint lies in the used part of its own frame's region.
\<close>

theorem sim_always_ok:
  assumes "sim_create mp nfr rsz = Some s" "0 < nfr" "unat nfr + 1 < 2 ^ 32" "64 \<le> rsz"
    and "unat (mp (MAPPING_SIZE nfr rsz)) + unat rsz * (unat nfr + 3) \<le> 2 ^ 63"
    and "run_ok 0 ops s"
  shows "sim_ok (sim_run ops s)"
  using sim_create_establishes [OF assms(1-5)] assms(6) by (rule sim_run_ok)

abbreviation demo_probe :: "usize \<Rightarrow> uptr" where
  "demo_probe \<equiv> \<lambda>_. 0x100000010"

definition demo_sim :: sim where
  "demo_sim = the (sim_create demo_probe 2 256)"

definition demo_ops :: "sim_op list" where
  "demo_ops = [OpAlloc 16 8 SIM_VSTACK, OpWrite 0x100000400 7, OpBranch, OpEnter, OpWrite 0x100000400 9,
     OpAlloc 16 8 SIM_VSTACK, OpLoad 0]"

lemmas sim_eval = sim_alloc_def sim_savepoint_def sim_up_def sim_reload_def sim_load_def sim_enter_def
  sim_branch_def sim_enter_branch_def f_enter_def upd_top_def TOP_def reg_alloc_def bump_def reg_init_def
  REG_RESET_def ALIGN_def SIM_SAVEPOINT_BLOCKSIZE_def lifetime_defs

lemma demo_alloc_req:
  "alloc_req s 16 8 lt" if "unat (rend (stat s)) \<le> 2 ^ 63" "unat (rend (fmem (TOP s))) \<le> 2 ^ 63" "unat (rend (vstack s)) \<le> 2 ^ 63"
proof -
  have "\<exists>k < 64. (8 :: usize) = 2 ^ k" by (rule exI [of _ 3]) simp
  then show ?thesis using that by (simp add: alloc_req_def reg_req_def bump_req_def)
qed

lemma all_less_2: "(\<forall>i < (2::nat). P i) \<longleftrightarrow> P 0 \<and> P 1"
  by (auto simp: less_2_cases_iff)

lemma demo_sim_eq:
  "demo_sim = \<lparr>stat = \<lparr>ptr = 4294967720, rend = 4294967808, mem = 4294967552\<rparr>,
     vstack = \<lparr>ptr = 4294968320, rend = 4294968576, mem = 4294968320\<rparr>,
     mapping = 4294967312, nframe = 2, rsize = 256, next_fid = 2, fp = 0,
     fstack = [\<lparr>has_savepoint = False, has_branchpoint = False, fid = 1,
         fmem = \<lparr>ptr = 4294967808, rend = 4294968064, mem = 4294967808\<rparr>, sp_data = NULL, sp_ptr = NULL\<rparr>,
       \<lparr>has_savepoint = False, has_branchpoint = False, fid = 0,
         fmem = \<lparr>ptr = 4294968064, rend = 4294968320, mem = 4294968064\<rparr>, sp_data = NULL, sp_ptr = NULL\<rparr>],
     store = (\<lambda>_. 0)\<rparr>"
  by (simp add: demo_sim_def sim_create_def sim_eval sizeof_sim_def sizeof_frame_def upt_rec)

lemma demo_sim_created: "sim_create demo_probe 2 256 = Some demo_sim"
  by (simp add: demo_sim_def sim_create_def)

lemma demo_sim_ok: "sim_ok demo_sim"
  by (rule sim_create_establishes [OF demo_sim_created]) simp_all

theorem sim_always_ok_witness:
  "sim_ok (sim_run demo_ops demo_sim) \<and> fp (sim_run demo_ops demo_sim) = 0"
proof -
  have "run_ok 0 demo_ops demo_sim"
    by (simp add: demo_ops_def demo_sim_eq sim_eval demo_alloc_req sp_bytes_def sp_size_def all_less_2)
  then have "sim_ok (sim_run demo_ops demo_sim)"
    using sim_always_ok [OF demo_sim_created] by simp
  moreover have "fp (sim_run demo_ops demo_sim) = 0"
    by (simp add: demo_ops_def demo_sim_eq sim_eval)
  ultimately show ?thesis by simp
qed

definition demo_sim1 :: sim where
  "demo_sim1 = snd (sim_savepoint (sim_run (take 2 demo_ops) demo_sim))"

theorem sim_load_restores_witness:
  "\<exists>s3. sim_load (sim_run (drop 3 demo_ops) demo_sim1) 0 = (SIM_OK, s3) \<and> store s3 0x100000400 = 7"
proof -
  let ?s = "sim_run (take 2 demo_ops) demo_sim"
  have "sim_ok ?s"
    by (intro sim_run_ok demo_sim_ok) (simp add: demo_ops_def demo_sim_eq sim_eval demo_alloc_req sp_bytes_def all_less_2)
  moreover have "sim_savepoint ?s = (SIM_OK, demo_sim1)"
    by (simp add: demo_sim1_def demo_ops_def demo_sim_eq sim_eval)
  moreover have "run_ok 0 (drop 3 demo_ops) demo_sim1"
    by (simp add: demo_sim1_def demo_ops_def demo_sim_eq sim_eval demo_alloc_req sp_bytes_def sp_size_def all_less_2)
  moreover have "fp ?s = 0" "mem (vstack ?s) \<le> 0x100000400" "0x100000400 < ptr (vstack ?s)"
    "store ?s 0x100000400 = 7"
    by (simp_all add: demo_ops_def demo_sim_eq sim_eval)
  ultimately show ?thesis using sim_load_restores [of ?s demo_sim1 "drop 3 demo_ops"] by auto
qed



text \<open>
  When \<open>sim_enter_branch\<close> succeeds, frame \<open>fp\<close> had a branch point, the new top frame is the next
  one, empty, without savepoint or branch point and with a fresh id, and, when the branch was not
  taken from the branch frame itself, the vstack pointer is the one saved at the branch point.
\<close>

theorem sim_enter_branch_fresh:
  assumes "sim_ok s" "sim_enter_branch s i = (SIM_OK, s')"
  shows "i \<le> fp s \<and> has_branchpoint (fstack s ! unat i) \<and> unat (fp s') = unat i + 1 \<and> fp s' < nframe s \<and>
     ptr (fmem (TOP s')) = mem (fmem (TOP s')) \<and> \<not> has_savepoint (TOP s') \<and> \<not> has_branchpoint (TOP s') \<and>
     fid (TOP s') = next_fid s \<and> next_fid s' = next_fid s + 1 \<and>
     (i \<noteq> fp s \<longrightarrow> ptr (vstack s') = sp_ptr (fstack s ! unat i))"
proof -
  obtain t where t: "(if i \<noteq> fp s then sim_load s i else (SIM_OK, s)) = (SIM_OK, t)"
    and br: "has_branchpoint (TOP t)" and en: "sim_enter t = (SIM_OK, s')"
    using assms(2) by (auto simp: sim_enter_branch_def split_beta split: if_splits)
      (metis prod.collapse sim_status.distinct)+
  have T: "i \<le> fp s \<and> fp t = i \<and> nframe t = nframe s \<and> fstack t = fstack s \<and> next_fid t = next_fid s \<and>
     (i \<noteq> fp s \<longrightarrow> ptr (vstack t) = sp_ptr (fstack s ! unat i))"
    using t by (auto simp: sim_load_def sim_up_def sim_reload_def TOP_def split: if_splits)
  have lt: "\<not> nframe t \<le> fp t + 1" and s': "s' = f_enter (t\<lparr>fp := fp t + 1\<rparr>)"
    using en by (auto simp: sim_enter_def split: if_splits)
  have len: "length (fstack s) = unat (nframe s)" "fp s < nframe s"
    using assms(1) by (auto simp: sim_ok_def geometry_ok_def)
  have u: "unat (i + 1) = unat i + 1"
    using T len(2) unat_lt32 [of "nframe s"] by (subst unat_add32) (auto simp: word_less_nat_alt word_le_nat_alt)
  have b: "unat (i + 1) < length (fstack s)" using lt T len(1) by (simp add: word_le_nat_alt)
  show ?thesis using T lt br b u
    by (simp add: s' f_enter_def upd_top_def TOP_def REG_RESET_def not_le)
qed

theorem sim_enter_branch_fresh_witness:
  "\<exists>s'. sim_enter_branch (sim_run (take 4 demo_ops) demo_sim) 0 = (SIM_OK, s') \<and> fid (TOP s') = 3"
proof -
  let ?s = "sim_run (take 4 demo_ops) demo_sim"
  let ?s' = "snd (sim_enter_branch ?s 0)"
  have "sim_ok ?s"
    by (intro sim_run_ok demo_sim_ok) (simp add: demo_ops_def demo_sim_eq sim_eval demo_alloc_req sp_bytes_def all_less_2)
  moreover have "sim_enter_branch ?s 0 = (SIM_OK, ?s')" "next_fid ?s = 3"
    by (simp_all add: demo_ops_def demo_sim_eq sim_eval word_le_nat_alt)
  ultimately show ?thesis using sim_enter_branch_fresh [of ?s 0 ?s'] by auto
qed

section \<open>Where the code trusts its caller\<close>

text \<open>\<^verbatim>\<open>sim_create\<close> ignores the result of the allocation that reserves \<^verbatim>\<open>struct sim\<close> and its
  frames in the static region. When they do not fit, the region stays empty and the next static
  allocation returns the address of the struct itself.\<close>

lemma sim_create_no_room:
  "\<exists>s. sim_create demo_probe 1 64 = Some s \<and> ALIGN (mapping s) 64 = mem (stat s) \<and>
     snd (sim_alloc s 32 8 SIM_STATIC) = mem (stat s)"
  by (simp add: sim_create_def sim_eval sizeof_sim_def sizeof_frame_def)

text \<open>\<^verbatim>\<open>sim_branch\<close> marks the branch point before the savepoint is taken, and the mark stays when
  the savepoint fails: a second attempt then reports a double branch point.\<close>

lemma sim_branch_failed_mark:
  assumes "sim_ok s" "sim_branch s = (SIM_EALLOC, s')"
  shows "fst (sim_branch s') = SIM_EBRANCH"
proof -
  let ?t = "upd_top (\<lambda>f. f\<lparr>has_branchpoint := True\<rparr>) s"
  have "sim_ok ?t" using assms(1) sim_ok_TOP [OF assms(1)]
    by (intro sim_ok_upd_top) (auto simp: sp_ok_def sp_size_def)
  moreover have "sim_savepoint ?t = (SIM_EALLOC, s')"
    using assms(2) by (simp add: sim_branch_def split: if_splits)
  ultimately have "has_branchpoint (TOP s')" using fp_bound [OF assms(1)]
    by (cases rule: sim_savepoint_cases) auto
  then show ?thesis by (simp add: sim_branch_def)
qed
end
