(* ===== verification/M2_Vec.thy ===== *)
theory M2_Vec
  imports M2_Sim
begin

text \<open>
  Struct-of-arrays vectors on simulator memory, \<^verbatim>\<open>src/src/vec.c\<close>. A vector has one array (band) per
  field; deleting elements copies what is kept into fresh bands, and growing copies every
  band into a larger one. Band contents are bytes of the simulator's \<open>store\<close>.

  A call that returns \<open>None\<close> does not return in C: the capacity loop does not end, or the
  code writes through the \<^verbatim>\<open>NULL\<close> that a full frame gave it.
\<close>

section \<open>Data\<close>

record cpy_interval =
  ci_dst :: u32
  ci_src :: u32
  ci_num :: u32

record vec_info =
  n_bands :: u16
  stride :: "u16 list"

record vec =
  info :: vec_info
  n_alloc :: u32
  n_used :: u32
  bands :: "uptr list"

section \<open>Copying around a skip list\<close>

fun calc_loop :: "u32 list \<Rightarrow> u32 \<Rightarrow> u32 \<Rightarrow> cpy_interval list \<Rightarrow> u32 \<times> u32 \<times> cpy_interval list" where
  "calc_loop [] nxt cpos cpy = (nxt, cpos, cpy)"
| "calc_loop (d # ds) nxt cpos cpy =
     (if d > nxt
      then calc_loop ds (d + 1) (cpos + (d - nxt))
             (cpy @ [\<lparr>ci_dst = cpos, ci_src = nxt, ci_num = d - nxt\<rparr>])
      else calc_loop ds (d + 1) cpos cpy)"

definition calc_intervals_s :: "u32 list \<Rightarrow> u32 \<Rightarrow> u32 \<times> cpy_interval list" where
  "calc_intervals_s skip tail =
     (let (nxt, cpos, cpy) = calc_loop skip 0 0 [] in
      if nxt < tail
      then (cpos + (tail - nxt), cpy @ [\<lparr>ci_dst = cpos, ci_src = nxt, ci_num = tail - nxt\<rparr>])
      else (cpos, cpy))"

fun copy_intervals :: "cpy_interval list \<Rightarrow> uptr \<Rightarrow> uptr \<Rightarrow> u32 \<Rightarrow> (uptr \<Rightarrow> u8) \<Rightarrow> uptr \<Rightarrow> u8" where
  "copy_intervals [] dst src sz st = st"
| "copy_intervals (c # cs) dst src sz st =
     copy_intervals cs dst src sz
       (memcpy st (dst + ucast (ci_dst c * sz)) (src + ucast (ci_src c * sz)) (ucast (ci_num c * sz)))"

section \<open>Operations\<close>

text \<open>\<^verbatim>\<open>cmp_idx\<close> subtracts the indices as \<^verbatim>\<open>int\<close>, wrapping at 32 bits; \<open>qsort\<close> is the library's sort by a
  comparison function.\<close>

definition cmp_idx :: "u32 \<Rightarrow> u32 \<Rightarrow> int" where
  "cmp_idx a b = sint (a - b)"

fun qsort_ins :: "('a \<Rightarrow> 'a \<Rightarrow> int) \<Rightarrow> 'a \<Rightarrow> 'a list \<Rightarrow> 'a list" where
  "qsort_ins cmp x [] = [x]"
| "qsort_ins cmp x (y # ys) = (if cmp x y \<le> 0 then x # y # ys else y # qsort_ins cmp x ys)"

definition qsort :: "('a \<Rightarrow> 'a \<Rightarrow> int) \<Rightarrow> 'a list \<Rightarrow> 'a list" where
  "qsort cmp xs = foldr (qsort_ins cmp) xs []"

definition nb :: "vec \<Rightarrow> nat" where
  "nb v = unat (n_bands (info v))"

definition vec_clear :: "vec \<Rightarrow> vec" where
  "vec_clear v = v\<lparr>n_alloc := 0, n_used := 0,
     bands := fold (\<lambda>i bs. bs[i := NULL]) [0 ..< nb v] (bands v)\<rparr>"

definition vec_clear_bands :: "vec \<Rightarrow> u16 list \<Rightarrow> vec" where
  "vec_clear_bands v idx = v\<lparr>bands := fold (\<lambda>i bs. bs[unat i := NULL]) idx (bands v)\<rparr>"

definition copy_bands :: "vec \<Rightarrow> uptr list \<Rightarrow> cpy_interval list \<Rightarrow> nat list \<Rightarrow> (uptr \<Rightarrow> u8) \<Rightarrow> uptr \<Rightarrow> u8" where
  "copy_bands v dst cpy is st =
     fold (\<lambda>i st. if bands v ! i \<noteq> NULL
                  then copy_intervals cpy (dst ! i) (bands v ! i) (ucast (stride (info v) ! i)) st
                  else st) is st"

definition vec_copy_skip_s :: "vec \<Rightarrow> uptr list \<Rightarrow> u32 list \<Rightarrow> (uptr \<Rightarrow> u8) \<Rightarrow> u32 \<times> (uptr \<Rightarrow> u8)" where
  "vec_copy_skip_s v dst skip st =
     (let (tail, cpy) = calc_intervals_s skip (n_used v) in (tail, copy_bands v dst cpy [0 ..< nb v] st))"

definition vec_copy_skip :: "vec \<Rightarrow> uptr list \<Rightarrow> u32 list \<Rightarrow> (uptr \<Rightarrow> u8) \<Rightarrow> u32 \<times> (uptr \<Rightarrow> u8)" where
  "vec_copy_skip v dst skip st = vec_copy_skip_s v dst (qsort cmp_idx skip) st"

text \<open>The creators return the simulator, the address and the initialised struct.\<close>

definition simS_vec_create_info :: "sim \<Rightarrow> u16 list \<Rightarrow> (sim \<times> uptr \<times> vec_info) option" where
  "simS_vec_create_info s strides =
     (let n = of_nat (length strides) :: u16;
          (s1, p) = sim_alloc s (2 + ucast n * 2) 2 SIM_STATIC
      in if p = NULL then None else Some (s1, p, \<lparr>n_bands = n, stride = strides\<rparr>))"

definition VEC_HEADER_SIZE :: "vec_info \<Rightarrow> usize" where
  "VEC_HEADER_SIZE vi = 16 + ucast (n_bands vi) * 8"

definition simL_vec_create :: "sim \<Rightarrow> vec_info \<Rightarrow> int \<Rightarrow> (sim \<times> uptr \<times> vec) option" where
  "simL_vec_create s vi lifetime =
     (let (s1, p) = sim_alloc s (VEC_HEADER_SIZE vi) 8 lifetime
      in if p = NULL then None
         else Some (s1, p, vec_clear \<lparr>info = vi, n_alloc = 0, n_used = 0,
                              bands = replicate (unat (n_bands vi)) NULL\<rparr>))"

definition SIMD_ALIGN_HINT :: usize where
  "SIMD_ALIGN_HINT = 16"

definition simF_vec_create_band_stride :: "sim \<Rightarrow> vec \<Rightarrow> u16 \<Rightarrow> sim \<times> uptr" where
  "simF_vec_create_band_stride s v str =
     sim_alloc s (ucast (n_alloc v * ucast str)) SIMD_ALIGN_HINT SIM_FRAME"

definition simF_vec_create_band :: "sim \<Rightarrow> vec \<Rightarrow> nat \<Rightarrow> sim \<times> uptr" where
  "simF_vec_create_band s v band = simF_vec_create_band_stride s v (stride (info v) ! band)"

partial_function (option) grow_na :: "u32 \<Rightarrow> u32 \<Rightarrow> u32 option" where
  "grow_na na need = (if na < need then grow_na (na * 2) need else Some na)"

fun grow_bands :: "nat list \<Rightarrow> sim \<times> vec \<Rightarrow> (sim \<times> vec) option" where
  "grow_bands [] sv = Some sv"
| "grow_bands (i # is) (s, v) =
     (let old = bands v ! i in
      if old \<noteq> NULL then
        let (s1, p) = simF_vec_create_band s v i;
            n = ucast (n_used v * ucast (stride (info v) ! i)) :: usize
        in if p = NULL \<and> n \<noteq> 0 then None
           else grow_bands is (s1\<lparr>store := memcpy (store s1) p old n\<rparr>, v\<lparr>bands := (bands v)[i := p]\<rparr>)
      else grow_bands is (s, v))"

definition F_ensure_capacity :: "sim \<Rightarrow> vec \<Rightarrow> u32 \<Rightarrow> (sim \<times> vec) option" where
  "F_ensure_capacity s v n =
     (if n_used v + n \<le> n_alloc v then Some (s, v)
      else
        case grow_na (if n_alloc v = 0 then 32 else n_alloc v) (n + n_used v) of
          None \<Rightarrow> None
        | Some na \<Rightarrow> grow_bands [0 ..< nb v] (s, v\<lparr>n_alloc := na\<rparr>))"

definition simF_vec_alloc :: "sim \<Rightarrow> vec \<Rightarrow> u32 \<Rightarrow> (sim \<times> vec \<times> u32) option" where
  "simF_vec_alloc s v n =
     (case F_ensure_capacity s v n of
        None \<Rightarrow> None
      | Some (s1, v1) \<Rightarrow> Some (s1, v1\<lparr>n_used := n_used v1 + n\<rparr>, n_used v1))"

fun create_bands :: "vec \<Rightarrow> nat list \<Rightarrow> sim \<Rightarrow> sim \<times> uptr list" where
  "create_bands v [] s = (s, [])"
| "create_bands v (i # is) s =
     (let (s1, p) = (if bands v ! i \<noteq> NULL then simF_vec_create_band s v i else (s, NULL));
          (s2, ps) = create_bands v is s1
      in (s2, p # ps))"

definition simF_vec_delete :: "sim \<Rightarrow> vec \<Rightarrow> u32 list \<Rightarrow> (sim \<times> vec) option" where
  "simF_vec_delete s v idx =
     (if idx = [] then Some (s, v)
      else
        let (s1, newbands) = create_bands v [0 ..< nb v] s;
            (tail, st) = vec_copy_skip v newbands idx (store s1)
        in if tail \<noteq> 0 \<and> (\<exists>i < nb v. bands v ! i \<noteq> NULL \<and> newbands ! i = NULL \<and> stride (info v) ! i \<noteq> 0) then None
           else Some (s1\<lparr>store := st\<rparr>, v\<lparr>bands := newbands, n_used := tail\<rparr>))"

section \<open>The kept elements\<close>

text \<open>The indices a deletion keeps, and the index pairs an interval list copies.\<close>

definition keep_idx :: "nat \<Rightarrow> u32 list \<Rightarrow> nat list" where
  "keep_idx n skip = filter (\<lambda>i. i \<notin> unat ` set skip) [0 ..< n]"

definition pairs :: "cpy_interval list \<Rightarrow> (nat \<times> nat) list" where
  "pairs cs = concat (map (\<lambda>c. map (\<lambda>k. (unat (ci_dst c) + k, unat (ci_src c) + k)) [0 ..< unat (ci_num c)]) cs)"

lemma pairs_simps [simp]:
  "pairs [] = []" "pairs (xs @ ys) = pairs xs @ pairs ys"
  "pairs (c # cs) = map (\<lambda>k. (unat (ci_dst c) + k, unat (ci_src c) + k)) [0 ..< unat (ci_num c)] @ pairs cs"
  by (simp_all add: pairs_def)

lemma enumerate_append: "enumerate n (xs @ ys) = enumerate n xs @ enumerate (n + length xs) ys"
  by (induction xs arbitrary: n) auto

lemma enumerate_upt: "enumerate c [a ..< b] = map (\<lambda>k. (c + k, a + k)) [0 ..< b - a]"
  by (rule nth_equalityI) (auto simp: nth_enumerate_eq)

lemma filter_upt_skip:
  assumes "\<forall>x \<in> S. d \<le> x" "a \<le> Suc d" "d < n"
  shows "filter (\<lambda>i. i \<notin> insert d S) [a ..< n] = [a ..< d] @ filter (\<lambda>i. i \<notin> S) [Suc d ..< n]"
proof (cases "a = Suc d")
  case True
  then show ?thesis by (auto intro: filter_cong)
next
  case False
  then have "[a ..< n] = [a ..< d] @ d # [Suc d ..< n]"
    using assms upt_add_eq_append [of a d "n - d"] by (simp add: upt_conv_Cons)
  moreover have "filter (\<lambda>i. i \<notin> insert d S) [a ..< d] = [a ..< d]" using assms(1) by (auto simp: filter_id_conv)
  moreover have "filter (\<lambda>i. i \<notin> insert d S) [Suc d ..< n] = filter (\<lambda>i. i \<notin> S) [Suc d ..< n]"
    by (rule filter_cong) auto
  ultimately show ?thesis by simp
qed

text \<open>The loop emits exactly the elements before the next skipped one, numbered in sequence.\<close>

lemma calc_loop_pairs:
  assumes "sorted skip" "\<forall>d \<in> set skip. unat d < n" "\<forall>d \<in> set skip. unat nxt \<le> Suc (unat d)"
    and "unat nxt \<le> n" "unat cpos + n < 2 ^ 32 + unat nxt" "n < 2 ^ 32"
    and "calc_loop skip nxt cpos cpy = (nxt', cpos', cpy')"
  shows "unat nxt' \<le> n \<and> unat cpos' + n < 2 ^ 32 + unat nxt' \<and>
     pairs cpy' @ enumerate (unat cpos') [unat nxt' ..< n] =
       pairs cpy @ enumerate (unat cpos) (filter (\<lambda>i. i \<notin> unat ` set skip) [unat nxt ..< n]) \<and>
     unat cpos' + n = unat nxt' + unat cpos + length (filter (\<lambda>i. i \<notin> unat ` set skip) [unat nxt ..< n]) \<and>
     length cpy' \<le> length cpy + length skip"
  using assms
proof (induction skip arbitrary: nxt cpos cpy)
  case Nil
  then show ?case by simp
next
  case (Cons d ds)
  have d1: "unat (d + 1) = Suc (unat d)" using Cons.prems by (subst unat_add32) auto
  have S: "\<forall>x \<in> unat ` set ds. unat d \<le> x" using Cons.prems(1) by (auto simp: word_le_nat_alt)
  have n: "unat d < n" "unat nxt \<le> Suc (unat d)" using Cons.prems(2,3) by auto
  note F = filter_upt_skip [OF S n(2,1), simplified]
  have "sorted ds" using Cons.prems(1) by simp
  moreover have "\<forall>d \<in> set ds. unat d < n" "\<forall>x \<in> set ds. unat (d + 1) \<le> Suc (unat x)" "unat (d + 1) \<le> n"
    using Cons.prems(1,2) n d1 by (auto simp: word_le_nat_alt)
  ultimately have prem: "sorted ds" "\<forall>d \<in> set ds. unat d < n" "\<forall>x \<in> set ds. unat (d + 1) \<le> Suc (unat x)"
    "unat (d + 1) \<le> n" by auto
  show ?case
  proof (cases "d > nxt")
    case True
    have lt: "unat nxt < unat d" using True by (simp add: word_less_nat_alt)
    define k where "k = unat d - unat nxt"
    have k: "unat d = unat nxt + k" using lt by (simp add: k_def)
    have num: "unat (d - nxt) = k" using k by (simp add: unat_sub_if')
    have cp: "unat (cpos + (d - nxt)) = unat cpos + k"
      using Cons.prems(5) num n k unat_add32 [of cpos "d - nxt"] by simp
    let ?c = "cpy @ [\<lparr>ci_dst = cpos, ci_src = nxt, ci_num = d - nxt\<rparr>]"
    let ?F = "filter (\<lambda>i. i \<notin> unat ` set ds) [unat (d + 1) ..< n]"
    have run: "calc_loop ds (d + 1) (cpos + (d - nxt)) ?c = (nxt', cpos', cpy')"
      using Cons.prems(7) True by simp
    have room: "unat (cpos + (d - nxt)) + n < 2 ^ 32 + unat (d + 1)" using cp d1 k Cons.prems(5) by linarith
    note IH = Cons.IH [OF prem room Cons.prems(6) run]
    have f: "filter (\<lambda>i. i \<notin> unat ` set (d # ds)) [unat nxt ..< n] = [unat nxt ..< unat d] @ ?F"
      unfolding d1 using F by simp
    have e: "enumerate (unat cpos) ([unat nxt ..< unat d] @ ?F) =
       map (\<lambda>j. (unat cpos + j, unat nxt + j)) [0 ..< k] @ enumerate (unat (cpos + (d - nxt))) ?F"
      unfolding enumerate_append enumerate_upt cp using k by simp
    have l: "length ([unat nxt ..< unat d] @ ?F) = k + length ?F" using k by simp
    show ?thesis unfolding f e l using IH num cp by simp
  next
    case False
    then have "unat d \<le> unat nxt" by (simp add: word_less_nat_alt)
    then show ?thesis
      using Cons.IH [OF prem, of cpos cpy] Cons.prems(5-7) False n d1
      by (simp add: F)
  qed
qed

lemma calc_intervals_s_pairs:
  assumes "sorted skip" "\<forall>d \<in> set skip. d < tail" "calc_intervals_s skip tail = (t, cs)"
  shows "pairs cs = enumerate 0 (keep_idx (unat tail) skip)" "unat t = length (keep_idx (unat tail) skip)"
    "length cs \<le> length skip + 1"
proof -
  obtain nx cp cpy where L: "calc_loop skip 0 0 [] = (nx, cp, cpy)" by (metis prod_cases3)
  have l: "unat nx \<le> unat tail \<and> unat cp + unat tail < 2 ^ 32 + unat nx \<and>
     pairs cpy @ enumerate (unat cp) [unat nx ..< unat tail] = enumerate 0 (keep_idx (unat tail) skip) \<and>
     unat cp + unat tail = unat nx + length (keep_idx (unat tail) skip) \<and> length cpy \<le> length skip"
    using calc_loop_pairs [OF assms(1) _ _ _ _ _ L, of "unat tail"] assms(2) unat_lt32 [of tail]
    by (simp add: keep_idx_def word_less_nat_alt)
  have sub: "unat (tail - nx) = unat tail - unat nx" using l by (simp add: unat_sub_if')
  have "unat (cp + (tail - nx)) = unat cp + (unat tail - unat nx)"
    using l sub by (subst unat_add32) auto
  then show "pairs cs = enumerate 0 (keep_idx (unat tail) skip)" "unat t = length (keep_idx (unat tail) skip)"
    "length cs \<le> length skip + 1"
    using l sub L assms(3)
    by (auto simp: calc_intervals_s_def enumerate_upt word_less_nat_alt split: if_splits)
qed

section \<open>Copying bytes\<close>

lemma off_unat:
  "unat (p :: uptr) + k < 2 ^ 64 \<Longrightarrow> unat (p + of_nat k) = unat p + k"
  by (subst unat_add_small) (simp_all add: unat_of_nat_small)

lemma ucast_mult_off:
  fixes c sz :: u32
  assumes "unat c * unat sz < 2 ^ 32"
  shows "(ucast (c * sz) :: u64) = of_nat (unat c * unat sz)"
  using assms by (simp add: word_unat_eq_iff unat_mult_small unat_of_nat_small)

text \<open>An interval list that fills the destination from element \<open>d\<close> on, reading below element \<open>n\<close>.\<close>

fun chain :: "nat \<Rightarrow> nat \<Rightarrow> cpy_interval list \<Rightarrow> bool" where
  "chain n d [] = (d \<le> n)"
| "chain n d (c # cs) \<longleftrightarrow> unat (ci_dst c) = d \<and> unat (ci_src c) + unat (ci_num c) \<le> n \<and> chain n (d + unat (ci_num c)) cs"

fun total :: "cpy_interval list \<Rightarrow> nat" where
  "total [] = 0"
| "total (c # cs) = unat (ci_num c) + total cs"

lemma chain_total: "chain n d cs \<Longrightarrow> d + total cs \<le> n"
  by (induction cs arbitrary: d) fastforce+

lemma pairs_dst_ge: "chain n d cs \<Longrightarrow> (j, i) \<in> set (pairs cs) \<Longrightarrow> d \<le> j \<and> j < d + total cs \<and> i < n"
  by (induction cs arbitrary: d) fastforce+

lemma elem_lt: "(j::nat) < n \<Longrightarrow> b < sz \<Longrightarrow> j * sz + b < n * sz"
  using mult_le_mono1 [of "Suc j" n sz] by simp

lemma copy_interval_one:
  fixes dst src :: uptr and sz :: u32 and c :: cpy_interval and st :: "uptr \<Rightarrow> u8"
  assumes bnd: "n * unat sz < 2 ^ 32" "unat dst + n * unat sz \<le> 2 ^ 63"
    and c: "unat (ci_dst c) + unat (ci_num c) \<le> n" "unat (ci_src c) + unat (ci_num c) \<le> n"
  defines "st' \<equiv> memcpy st (dst + ucast (ci_dst c * sz)) (src + ucast (ci_src c * sz)) (ucast (ci_num c * sz))"
  shows "k < unat (ci_num c) \<Longrightarrow> b < unat sz \<Longrightarrow>
      st' (dst + of_nat ((unat (ci_dst c) + k) * unat sz + b)) = st (src + of_nat ((unat (ci_src c) + k) * unat sz + b))"
    and "unat a < unat dst + unat (ci_dst c) * unat sz \<or> unat dst + (unat (ci_dst c) + unat (ci_num c)) * unat sz \<le> unat a
      \<Longrightarrow> st' a = st a"
proof -
  let ?d = "unat (ci_dst c)" and ?s = "unat (ci_src c)" and ?m = "unat (ci_num c)" and ?z = "unat sz"
  have le: "(?d + ?m) * ?z \<le> n * ?z" "(?s + ?m) * ?z \<le> n * ?z" by (intro mult_le_mono1 c)+
  then have le': "?d * ?z + ?m * ?z \<le> n * ?z" "?s * ?z + ?m * ?z \<le> n * ?z" by (simp_all add: distrib_right)
  have cast: "(ucast (ci_dst c * sz) :: u64) = of_nat (?d * ?z)" "(ucast (ci_src c * sz) :: u64) = of_nat (?s * ?z)"
    "(ucast (ci_num c * sz) :: u64) = of_nat (?m * ?z)"
    using bnd le' by (simp_all only: ucast_mult_off)
  have num: "unat (of_nat (?m * ?z) :: u64) = ?m * ?z" using le' bnd by (intro unat_of_nat_small) simp
  have D: "unat (dst + of_nat (?d * ?z)) = unat dst + ?d * ?z" using le' bnd by (intro off_unat) simp
  have at: "st' a = (if unat dst + ?d * ?z \<le> unat a \<and> unat a < unat dst + ?d * ?z + ?m * ?z
      then st (src + of_nat (?s * ?z) + (a - (dst + of_nat (?d * ?z)))) else st a)" for a
    unfolding st'_def cast by (subst memcpy_at) (use le' bnd in \<open>simp_all only: num D\<close>, simp)
  show "st' a = st a" if "unat a < unat dst + ?d * ?z \<or> unat dst + (?d + ?m) * ?z \<le> unat a"
    using at [of a] that by (auto simp: distrib_right)
  show "st' (dst + of_nat ((?d + k) * ?z + b)) = st (src + of_nat ((?s + k) * ?z + b))"
    if "k < ?m" "b < ?z"
  proof -
    have kb: "k * ?z + b < ?m * ?z" using that by (rule elem_lt)
    have s: "(?d + k) * ?z + b = ?d * ?z + (k * ?z + b)" by (simp add: distrib_right)
    have u: "unat (dst + of_nat ((?d + k) * ?z + b)) = unat dst + (?d * ?z + (k * ?z + b))"
      unfolding s using kb le' bnd by (intro off_unat) simp
    have e: "dst + of_nat ((?d + k) * ?z + b) - (dst + of_nat (?d * ?z)) = of_nat (k * ?z + b)"
      by (simp add: distrib_right)
    have "src + of_nat (?s * ?z) + of_nat (k * ?z + b) = src + of_nat ((?s + k) * ?z + b)"
      by (simp add: distrib_right)
    then show ?thesis unfolding at u e using kb by (simp only: distrib_right) simp
  qed
qed

lemma copy_intervals_spec:
  fixes dst src :: uptr and sz :: u32
  assumes bnd: "n * unat sz < 2 ^ 32" "unat dst + n * unat sz \<le> 2 ^ 63" "unat src + n * unat sz \<le> 2 ^ 63"
    and disj: "unat dst + n * unat sz \<le> unat src \<or> unat src + n * unat sz \<le> unat dst"
    and ch: "chain n d cs"
  shows "(j, i) \<in> set (pairs cs) \<Longrightarrow> b < unat sz \<Longrightarrow>
      copy_intervals cs dst src sz st (dst + of_nat (j * unat sz + b)) = st (src + of_nat (i * unat sz + b))"
    and "unat a < unat dst + d * unat sz \<or> unat dst + (d + total cs) * unat sz \<le> unat a
      \<Longrightarrow> copy_intervals cs dst src sz st a = st a"
  using ch
proof (induction cs arbitrary: d st a)
  case Nil
  { case 1 then show ?case by simp }
  { case 2 then show ?case by simp }
next
  case (Cons c cs)
  { case 1
    let ?st = "memcpy st (dst + ucast (ci_dst c * sz)) (src + ucast (ci_src c * sz)) (ucast (ci_num c * sz))"
    have ch: "chain n (d + unat (ci_num c)) cs" and d: "unat (ci_dst c) = d" "unat (ci_src c) + unat (ci_num c) \<le> n"
      using 1 by auto
    have dn: "unat (ci_dst c) + unat (ci_num c) \<le> n" using chain_total [OF ch] d by simp
    note one = copy_interval_one(1) [OF bnd(1,2) dn d(2), where st = st and src = src]
    note other = copy_interval_one(2) [OF bnd(1,2) dn d(2), where st = st and src = src]
    show ?case
    proof (cases "(j, i) \<in> set (pairs cs)")
      case True
      have i: "i < n" using pairs_dst_ge [OF ch True] by simp
      have "unat (src + of_nat (i * unat sz + b)) = unat src + (i * unat sz + b)"
        using elem_lt [OF i \<open>b < unat sz\<close>] bnd(3) by (intro off_unat) simp
      moreover have "d * unat sz \<le> n * unat sz" "(d + unat (ci_num c)) * unat sz \<le> n * unat sz"
        using dn d by (intro mult_le_mono1, simp)+
      ultimately have "?st (src + of_nat (i * unat sz + b)) = st (src + of_nat (i * unat sz + b))"
        using elem_lt [OF i \<open>b < unat sz\<close>] disj unfolding d(1) [symmetric] by (intro other) linarith
      then show ?thesis using Cons.IH(1) [OF True \<open>b < unat sz\<close> ch, of ?st] by simp
    next
      case False
      then obtain k where k: "k < unat (ci_num c)" "j = unat (ci_dst c) + k" "i = unat (ci_src c) + k"
        using 1 by auto
      have j: "j < d + unat (ci_num c)" "j < n" using k d dn by auto
      have "unat (dst + of_nat (j * unat sz + b)) = unat dst + (j * unat sz + b)"
        using elem_lt [OF j(2) \<open>b < unat sz\<close>] bnd(2) by (intro off_unat) simp
      then have "copy_intervals cs dst src sz ?st (dst + of_nat (j * unat sz + b)) = ?st (dst + of_nat (j * unat sz + b))"
        using elem_lt [OF j(1) \<open>b < unat sz\<close>] by (intro Cons.IH(2) [OF _ ch]) auto
      then show ?thesis using one [OF k(1) \<open>b < unat sz\<close>] k by simp
    qed }
  { case 2
    let ?st = "memcpy st (dst + ucast (ci_dst c * sz)) (src + ucast (ci_src c * sz)) (ucast (ci_num c * sz))"
    have ch: "chain n (d + unat (ci_num c)) cs" and d: "unat (ci_dst c) = d" "unat (ci_src c) + unat (ci_num c) \<le> n"
      using 2 by auto
    have dn: "unat (ci_dst c) + unat (ci_num c) \<le> n" using chain_total [OF ch] d by simp
    note one = copy_interval_one(2) [OF bnd(1,2) dn d(2), where a = a and st = st and src = src]
    have "copy_intervals cs dst src sz ?st a = ?st a"
      using 2(1) by (intro Cons.IH(2) [OF _ ch]) (auto simp: distrib_right)
    moreover have "?st a = st a" using 2(1) d(1) by (intro one) (auto simp: distrib_right)
    ultimately show ?case by simp }
qed

lemma chain_snoc:
  "chain n d (xs @ [c]) \<longleftrightarrow> chain n d xs \<and> unat (ci_dst c) = d + total xs \<and> unat (ci_src c) + unat (ci_num c) \<le> n \<and>
     d + total xs + unat (ci_num c) \<le> n"
  by (induction xs arbitrary: d) (auto simp: add.assoc)

lemma total_snoc [simp]: "total (xs @ [c]) = total xs + unat (ci_num c)"
  by (induction xs) auto

lemma calc_loop_chain:
  assumes "\<forall>d \<in> set skip. unat d < n" "n < 2 ^ 32" "unat cpos \<le> unat nxt" "unat nxt \<le> n"
    and "chain n 0 cpy" "total cpy = unat cpos" "calc_loop skip nxt cpos cpy = (nxt', cpos', cpy')"
    and "sorted skip" "\<forall>d \<in> set skip. unat nxt \<le> Suc (unat d)"
  shows "chain n 0 cpy' \<and> total cpy' = unat cpos' \<and> unat cpos' \<le> unat nxt' \<and> unat nxt' \<le> n"
  using assms
proof (induction skip arbitrary: nxt cpos cpy)
  case Nil
  then show ?case by simp
next
  case (Cons d ds)
  have d: "unat d < n" "unat nxt \<le> Suc (unat d)" using Cons.prems(1,9) by auto
  have d1: "unat (d + 1) = Suc (unat d)" using Cons.prems(2) d by (subst unat_add32) auto
  have ds: "sorted ds" using Cons.prems(8) by simp
  have nx: "\<forall>x \<in> set ds. unat (d + 1) \<le> Suc (unat x)" "\<forall>x \<in> set ds. unat x < n"
    using Cons.prems(1,8) d1 by (auto simp: word_le_nat_alt)
  show ?case
  proof (cases "d > nxt")
    case True
    have lt: "unat nxt < unat d" using True by (simp add: word_less_nat_alt)
    have num: "unat (d - nxt) = unat d - unat nxt" using lt by (simp add: unat_sub_if')
    have cp: "unat (cpos + (d - nxt)) = unat cpos + (unat d - unat nxt)"
      using Cons.prems(2,3) num d lt unat_add32 [of cpos "d - nxt"] by simp
    show ?thesis
      by (rule Cons.IH [of "cpos + (d - nxt)" "d + 1" "cpy @ [\<lparr>ci_dst = cpos, ci_src = nxt, ci_num = d - nxt\<rparr>]"])
        (use Cons.prems(2-7) True lt num cp d d1 ds nx in \<open>simp_all add: chain_snoc\<close>)
  next
    case False
    then have "unat d \<le> unat nxt" by (simp add: word_less_nat_alt)
    show ?thesis
      by (rule Cons.IH [of cpos "d + 1" cpy])
        (use Cons.prems(2-7) False d d1 ds nx in simp_all)
  qed
qed

lemma calc_intervals_s_chain:
  assumes "sorted skip" "\<forall>d \<in> set skip. d < tail" "calc_intervals_s skip tail = (t, cs)"
  shows "chain (unat tail) 0 cs" "total cs = unat t"
proof -
  obtain nx cp cpy where L: "calc_loop skip 0 0 [] = (nx, cp, cpy)" by (metis prod_cases3)
  have l: "chain (unat tail) 0 cpy \<and> total cpy = unat cp \<and> unat cp \<le> unat nx \<and> unat nx \<le> unat tail"
    using calc_loop_chain [OF _ _ _ _ _ _ L assms(1), of "unat tail"] assms(2) unat_lt32 [of tail]
    by (simp add: word_less_nat_alt)
  have sub: "unat (tail - nx) = unat tail - unat nx" using l by (simp add: unat_sub_if')
  have "unat (cp + (tail - nx)) = unat cp + (unat tail - unat nx)"
    using l sub unat_lt32 [of tail] by (subst unat_add32) auto
  then show "chain (unat tail) 0 cs" "total cs = unat t"
    using l sub L assms(3)
    by (auto simp: calc_intervals_s_def chain_snoc split: if_splits)
qed

section \<open>Allocating bands\<close>

definition bsz :: "vec \<Rightarrow> nat \<Rightarrow> nat" where
  "bsz v i = unat (n_alloc v * ucast (stride (info v) ! i) :: u32)"

definition fptr :: "sim \<Rightarrow> nat" where
  "fptr s = unat (ptr (fmem (TOP s)))"

definition frend :: "sim \<Rightarrow> nat" where
  "frend s = unat (rend (fmem (TOP s)))"

lemma rend_bounds:
  assumes "sim_ok s"
  shows "unat (rend (stat s)) \<le> 2 ^ 63" "frend s \<le> 2 ^ 63" "unat (rend (vstack s)) \<le> 2 ^ 63" "fptr s \<le> frend s" "0 < fptr s"
proof -
  note b = region_lo_bound [OF assms] and t = sim_ok_TOP(1) [OF assms]
  have n: "unat (fp s) < unat (nframe s)" using assms by (simp add: sim_ok_def geometry_ok_def word_less_nat_alt)
  show "unat (rend (stat s)) \<le> 2 ^ 63" using assms b [of 1] by (simp add: sim_ok_def region_at_def region_lo_def)
  show "frend s \<le> 2 ^ 63" using t b [of "unat (fp s) + 2"] n by (simp add: frend_def region_at_def region_lo_Suc)
  show "unat (rend (vstack s)) \<le> 2 ^ 63"
    using assms b [of "unat (nframe s) + 2"] by (simp add: sim_ok_def region_at_def region_lo_Suc)
  show "fptr s \<le> frend s" using t by (simp add: fptr_def frend_def region_at_def reg_ok_def word_le_nat_alt)
  show "0 < fptr s" using t by (auto simp: fptr_def region_at_def reg_ok_def word_le_nat_alt)
qed

lemma band_req:
  assumes "sim_ok s"
  shows "alloc_req s (ucast (n :: u32)) 16 lt"
proof -
  have "\<exists>k < 64. (16 :: usize) = 2 ^ k" by (rule exI [of _ 4]) simp
  then show ?thesis using rend_bounds [OF assms] unat_lt32 [of n]
    by (simp add: alloc_req_def reg_req_def bump_req_def frend_def)
qed

lemma create_band_cases:
  assumes "sim_ok s" "simF_vec_create_band s v i = (s', p)"
  obtains (ok) "p \<noteq> NULL" "fptr s \<le> unat p" "unat p < fptr s + 16" "fptr s' = unat p + bsz v i" "fptr s' < frend s"
      "sim_ok s'" "frend s' = frend s" "store s' = store s"
  | (fail) "p = NULL" "s' = s" "frend s < fptr s + bsz v i + 16"
proof -
  let ?n = "ucast (n_alloc v * ucast (stride (info v) ! i) :: u32) :: usize"
  obtain r where r: "reg_alloc (fmem (TOP s)) ?n 16 = (r, p)" and s': "s' = upd_top (\<lambda>f. f\<lparr>fmem := r\<rparr>) s"
    using assms(2) by (cases "reg_alloc (fmem (TOP s)) ?n 16")
      (auto simp: simF_vec_create_band_def simF_vec_create_band_stride_def sim_alloc_def
        lifetime_defs SIMD_ALIGN_HINT_def)
  have ok': "sim_ok s'" using sim_alloc_ok [OF assms(1) band_req [OF assms(1)], of "n_alloc v * ucast (stride (info v) ! i)" SIM_FRAME] r
    by (simp add: s' sim_alloc_def lifetime_defs)
  have rr: "rend r = rend (fmem (TOP s))" using reg_alloc_frame(2) [of "fmem (TOP s)" ?n 16] r by simp
  have ro: "reg_ok (fmem (TOP s))" using sim_ok_TOP(1) [OF assms(1)] by (simp add: region_at_def)
  have rq: "reg_req (fmem (TOP s)) ?n 16" using band_req [OF assms(1)] by (simp add: alloc_req_def)
  from ro rq r show thesis
  proof (cases rule: reg_alloc_cases)
    case ok
    then show thesis using that(1) ok' rr fp_bound [OF assms(1)] round_up_less [of 16 "unat (ptr (fmem (TOP s)))"]
      by (simp add: fptr_def frend_def s' bsz_def)
  next
    case fail
    then show thesis using that(2) fp_bound [OF assms(1)] round_up_less [of 16 "unat (ptr (fmem (TOP s)))"]
      by (simp add: fptr_def frend_def s' bsz_def upd_top_def TOP_def)
  qed
qed

text \<open>Enough room in the top frame's region for the listed bands.\<close>

definition band_need :: "vec \<Rightarrow> nat list \<Rightarrow> nat" where
  "band_need v is = (\<Sum>i\<leftarrow>is. if bands v ! i \<noteq> NULL then bsz v i + 16 else 0)"

lemma create_bands_spec:
  assumes "sim_ok s" "fptr s + band_need v is \<le> frend s" "create_bands v is s = (s', ps)"
  shows "sim_ok s' \<and> store s' = store s \<and> frend s' = frend s \<and> fptr s \<le> fptr s' \<and> length ps = length is \<and>
     (\<forall>k < length is. if bands v ! (is ! k) = NULL then ps ! k = NULL
        else ps ! k \<noteq> NULL \<and> fptr s \<le> unat (ps ! k) \<and> unat (ps ! k) + bsz v (is ! k) \<le> fptr s') \<and>
     (\<forall>k < length is. \<forall>l < k. ps ! l \<noteq> NULL \<and> ps ! k \<noteq> NULL \<longrightarrow> unat (ps ! l) + bsz v (is ! l) \<le> unat (ps ! k))"
  using assms
proof (induction "is" arbitrary: s ps)
  case Nil
  then show ?case by simp
next
  case (Cons i "is")
  obtain s1 p where h: "(if bands v ! i \<noteq> NULL then simF_vec_create_band s v i else (s, NULL)) = (s1, p)" by fastforce
  obtain qs where t: "create_bands v is s1 = (s', qs)" and ps: "ps = p # qs"
    using Cons.prems(3) h by (cases "create_bands v is s1") auto
  have H: "sim_ok s1 \<and> store s1 = store s \<and> frend s1 = frend s \<and> fptr s \<le> fptr s1 \<and> fptr s1 + band_need v is \<le> frend s1 \<and>
     (if bands v ! i = NULL then p = NULL else p \<noteq> NULL \<and> fptr s \<le> unat p \<and> unat p + bsz v i = fptr s1)"
  proof (cases "bands v ! i = NULL")
    case True
    then show ?thesis using h Cons.prems(1,2) by (simp add: band_need_def)
  next
    case False
    then have c: "simF_vec_create_band s v i = (s1, p)" using h by simp
    from Cons.prems(1) c show ?thesis
      by (cases rule: create_band_cases) (use False Cons.prems(1,2) in \<open>auto simp: band_need_def\<close>)
  qed
  note IH = Cons.IH [of s1 qs, OF _ _ t]
  have L: "(\<forall>k < length (i # is). P k) \<longleftrightarrow> P 0 \<and> (\<forall>k < length is. P (Suc k))" for P
    by (simp add: All_less_Suc2)
  have M: "(\<forall>l < Suc k. P l) \<longleftrightarrow> P 0 \<and> (\<forall>l < k. P (Suc l))" for P and k :: nat
    by (rule All_less_Suc2)
  show ?case unfolding L M ps using IH H by (auto simp: All_less_Suc2 split: if_splits)
qed


text \<open>A band's element width, and when a copy of a band's first \<open>n\<close> elements is sound.\<close>

definition bw :: "vec \<Rightarrow> nat \<Rightarrow> nat" where
  "bw v i = unat (stride (info v) ! i)"

definition apart :: "uptr \<Rightarrow> nat \<Rightarrow> uptr \<Rightarrow> nat \<Rightarrow> bool" where
  "apart p m q k \<longleftrightarrow> unat p + m \<le> unat q \<or> unat q + k \<le> unat p"

definition fits :: "nat \<Rightarrow> vec \<Rightarrow> uptr list \<Rightarrow> nat \<Rightarrow> bool" where
  "fits n v D i \<longleftrightarrow> n * bw v i < 2 ^ 32 \<and> unat (D ! i) + n * bw v i \<le> 2 ^ 63 \<and> unat (bands v ! i) + n * bw v i \<le> 2 ^ 63"

definition copy_band :: "vec \<Rightarrow> uptr list \<Rightarrow> cpy_interval list \<Rightarrow> nat \<Rightarrow> (uptr \<Rightarrow> u8) \<Rightarrow> uptr \<Rightarrow> u8" where
  "copy_band v D cs i st = (if bands v ! i \<noteq> NULL
     then copy_intervals cs (D ! i) (bands v ! i) (ucast (stride (info v) ! i)) st else st)"

lemma copy_bands_simps [simp]:
  "copy_bands v D cs [] st = st"
  "copy_bands v D cs (i # is) st = copy_bands v D cs is (copy_band v D cs i st)"
  by (simp_all add: copy_bands_def copy_band_def)

lemma copy_band_elem:
  assumes "bands v ! i \<noteq> NULL" "fits n v D i" "apart (D ! i) (n * bw v i) (bands v ! i) (n * bw v i)"
    and "chain n 0 cs" "(j, e) \<in> set (pairs cs)" "b < bw v i"
  shows "copy_band v D cs i st (D ! i + of_nat (j * bw v i + b)) = st (bands v ! i + of_nat (e * bw v i + b))"
  using copy_intervals_spec(1) [of n "ucast (stride (info v) ! i)" "D ! i" "bands v ! i" 0 cs j e b st] assms
  by (simp add: copy_band_def fits_def apart_def bw_def)

lemma copy_band_other:
  assumes "bands v ! i \<noteq> NULL \<Longrightarrow> fits n v D i \<and> apart (D ! i) (n * bw v i) (bands v ! i) (n * bw v i)"
    and "chain n 0 cs" "bands v ! i \<noteq> NULL \<Longrightarrow> unat a < unat (D ! i) \<or> unat (D ! i) + n * bw v i \<le> unat a"
  shows "copy_band v D cs i st a = st a"
proof (cases "bands v ! i = NULL")
  case False
  have "total cs * bw v i \<le> n * bw v i" using chain_total [OF assms(2)] by (intro mult_le_mono1) simp
  then have "unat a < unat (D ! i) \<or> unat (D ! i) + total cs * bw v i \<le> unat a"
    using assms(3) [OF False] by linarith
  then show ?thesis
    using copy_intervals_spec(2) [of n "ucast (stride (info v) ! i)" "D ! i" "bands v ! i" 0 cs a st] assms(1,2) False
    by (simp add: copy_band_def fits_def apart_def bw_def)
qed (simp add: copy_band_def)

text \<open>All bands of the list: every target block is apart from every source block and from the
  other target blocks.\<close>

definition copy_sound :: "nat \<Rightarrow> vec \<Rightarrow> uptr list \<Rightarrow> nat list \<Rightarrow> bool" where
  "copy_sound n v D is \<longleftrightarrow> (\<forall>i \<in> set is. bands v ! i \<noteq> NULL \<longrightarrow> fits n v D i \<and>
     (\<forall>k \<in> set is. bands v ! k \<noteq> NULL \<longrightarrow> apart (D ! i) (n * bw v i) (bands v ! k) (n * bw v k) \<and>
        (i \<noteq> k \<longrightarrow> apart (D ! i) (n * bw v i) (D ! k) (n * bw v k))))"

lemma copy_soundD:
  assumes "copy_sound n v D is" "i \<in> set is" "bands v ! i \<noteq> NULL"
  shows "fits n v D i" "apart (D ! i) (n * bw v i) (bands v ! i) (n * bw v i)"
    "k \<in> set is \<Longrightarrow> bands v ! k \<noteq> NULL \<Longrightarrow> apart (D ! i) (n * bw v i) (bands v ! k) (n * bw v k)"
    "k \<in> set is \<Longrightarrow> i \<noteq> k \<Longrightarrow> bands v ! k \<noteq> NULL \<Longrightarrow> apart (D ! i) (n * bw v i) (D ! k) (n * bw v k)"
  using assms unfolding copy_sound_def by blast+

lemma elem_addr:
  assumes "unat p + n * w \<le> 2 ^ 63" "j < n" "b < w"
  shows "unat (p + of_nat (j * w + b) :: uptr) = unat p + (j * w + b)" "j * w + b < n * w"
proof -
  show "j * w + b < n * w" by (rule elem_lt [OF assms(2,3)])
  then show "unat (p + of_nat (j * w + b)) = unat p + (j * w + b)"
    using assms(1) by (intro off_unat) simp
qed

lemma copy_bands_other:
  assumes "copy_sound n v D is" "chain n 0 cs"
    and "\<And>i. i \<in> set is \<Longrightarrow> bands v ! i \<noteq> NULL \<Longrightarrow> unat a < unat (D ! i) \<or> unat (D ! i) + n * bw v i \<le> unat a"
  shows "copy_bands v D cs is st a = st a"
  using assms
proof (induction "is" arbitrary: st)
  case (Cons i "is")
  have "copy_sound n v D is" using Cons.prems(1) by (auto simp: copy_sound_def)
  moreover have "copy_band v D cs i st a = st a"
    using copy_soundD [OF Cons.prems(1), of i] Cons.prems(2,3) by (intro copy_band_other) auto
  ultimately show ?case using Cons.IH Cons.prems by simp
qed simp

lemma copy_bands_elem:
  assumes "copy_sound n v D is" "chain n 0 cs" "distinct is" "i \<in> set is" "bands v ! i \<noteq> NULL"
    and "(j, e) \<in> set (pairs cs)" "b < bw v i"
  shows "copy_bands v D cs is st (D ! i + of_nat (j * bw v i + b)) = st (bands v ! i + of_nat (e * bw v i + b))"
  using assms
proof (induction "is" arbitrary: st)
  case (Cons h "is")
  note snd = copy_soundD [OF Cons.prems(1)]
  have cs: "copy_sound n v D is" using Cons.prems(1) by (auto simp: copy_sound_def)
  have je: "j < n" "e < n" using pairs_dst_ge [OF Cons.prems(2,6)] chain_total [OF Cons.prems(2)] by auto
  have f: "unat (D ! i) + n * bw v i \<le> 2 ^ 63" "unat (bands v ! i) + n * bw v i \<le> 2 ^ 63"
    using snd(1) [OF Cons.prems(4,5)] by (auto simp: fits_def)
  note aj = elem_addr [OF f(1) je(1) Cons.prems(7)] and ae = elem_addr [OF f(2) je(2) Cons.prems(7)]
  show ?case
  proof (cases "i = h")
    case True
    have "copy_bands v D cs is (copy_band v D cs h st) (D ! i + of_nat (j * bw v i + b)) =
      copy_band v D cs h st (D ! i + of_nat (j * bw v i + b))"
    proof (rule copy_bands_other [OF cs Cons.prems(2)], unfold aj)
      fix k assume k: "k \<in> set is" "bands v ! k \<noteq> NULL"
      then have "apart (D ! i) (n * bw v i) (D ! k) (n * bw v k)"
        using snd(4) [OF Cons.prems(4,5), of k] Cons.prems(3) True by auto
      then show "unat (D ! i) + (j * bw v i + b) < unat (D ! k) \<or> unat (D ! k) + n * bw v k \<le> unat (D ! i) + (j * bw v i + b)"
        using aj(2) by (auto simp: apart_def)
    qed
    then show ?thesis using copy_band_elem [OF Cons.prems(5) snd(1,2) Cons.prems(2,6,7)] Cons.prems(4,5) True by simp
  next
    case False
    have "copy_band v D cs h st (bands v ! i + of_nat (e * bw v i + b)) = st (bands v ! i + of_nat (e * bw v i + b))"
    proof (rule copy_band_other [where n = n], goal_cases)
      case 3
      then have "apart (D ! h) (n * bw v h) (bands v ! i) (n * bw v i)"
        using snd(3) [of h i] Cons.prems(4,5) by simp
      then show ?case unfolding ae using ae(2) by (auto simp: apart_def)
    qed (use snd(1,2) [of h] Cons.prems(2) in auto)
    then show ?thesis using Cons.IH [OF cs Cons.prems(2)] Cons.prems False by simp
  qed
qed simp

section \<open>Sorting the skip list\<close>

lemma uint_small: "unat (x :: u32) < 2 ^ 31 \<Longrightarrow> uint x < 2 ^ 31"
  using of_nat_less_iff [of "unat x" "2 ^ 31", where 'a = int] by simp

lemma sint_small: "unat (x :: u32) < 2 ^ 31 \<Longrightarrow> sint x = int (unat x)"
  using uint_small [of x] by (simp add: sint_uint signed_take_bit_int_eq_self uint_ge_0 order_trans [of _ 0])

lemma cmp_idx_le:
  assumes "unat a < 2 ^ 31" "unat b < 2 ^ 31"
  shows "cmp_idx a b \<le> 0 \<longleftrightarrow> a \<le> b"
proof -
  have d: "signed_take_bit 31 (x - y) = x - y" if "0 \<le> x" "x < 2 ^ 31" "0 \<le> y" "y < 2 ^ 31" for x y :: int
    using that by (intro signed_take_bit_int_eq_self) simp_all
  have "cmp_idx a b = signed_take_bit 31 (sint a - sint b)"
    unfolding cmp_idx_def by (simp add: sint_word_ariths)
  also have "\<dots> = int (unat a) - int (unat b)"
    using d [of "int (unat a)" "int (unat b)"] assms uint_small [OF assms(1)] uint_small [OF assms(2)]
    by (simp only: sint_small) simp
  finally show ?thesis by (simp add: word_le_def)
qed

lemma qsort_ins_set [simp]: "set (qsort_ins cmp x ys) = insert x (set ys)"
  by (induction ys) auto

lemma qsort_set [simp]: "set (qsort cmp xs) = set xs"
  by (induction xs) (simp_all add: qsort_def)

lemma qsort_ins_sorted:
  "sorted ys \<Longrightarrow> \<forall>y \<in> set ys. cmp x y \<le> 0 \<longleftrightarrow> x \<le> y \<Longrightarrow> sorted (qsort_ins cmp x ys)" for x :: "'a::linorder"
  by (induction ys) auto

lemma qsort_sorted:
  "\<forall>x \<in> set xs. \<forall>y \<in> set xs. cmp x y \<le> 0 \<longleftrightarrow> x \<le> y \<Longrightarrow> sorted (qsort cmp xs)" for xs :: "'a::linorder list"
proof (induction xs)
  case (Cons x xs)
  then have "sorted (qsort cmp xs)" by simp
  then have "sorted (qsort_ins cmp x (qsort cmp xs))"
    using Cons.prems by (intro qsort_ins_sorted) auto
  then show ?case by (simp add: qsort_def)
qed (simp add: qsort_def)

lemma qsort_cmp_idx: "\<forall>x \<in> set xs. unat x < 2 ^ 31 \<Longrightarrow> sorted (qsort cmp_idx xs)"
  by (intro qsort_sorted) (simp add: cmp_idx_le)

section \<open>Deleting\<close>

text \<open>Element \<open>j\<close> of band \<open>i\<close> as its bytes, and a vector that is well formed in a simulator: its bands
  do not reach into the free part of the top frame.\<close>

definition elem :: "(uptr \<Rightarrow> u8) \<Rightarrow> vec \<Rightarrow> nat \<Rightarrow> nat \<Rightarrow> u8 list" where
  "elem st v i j = map (\<lambda>b. st (bands v ! i + of_nat (j * bw v i + b))) [0 ..< bw v i]"

definition band_elems :: "sim \<Rightarrow> vec \<Rightarrow> nat \<Rightarrow> u8 list list" where
  "band_elems s v i = map (elem (store s) v i) [0 ..< unat (n_used v)]"

definition vec_ok :: "sim \<Rightarrow> vec \<Rightarrow> bool" where
  "vec_ok s v \<longleftrightarrow> sim_ok s \<and> length (bands v) = nb v \<and> length (stride (info v)) = nb v \<and> n_used v \<le> n_alloc v \<and>
     (\<forall>i < nb v. bands v ! i \<noteq> NULL \<longrightarrow> unat (n_alloc v) * bw v i < 2 ^ 32 \<and>
        unat (bands v ! i) + unat (n_alloc v) * bw v i \<le> 2 ^ 63 \<and>
        (unat (bands v ! i) + unat (n_alloc v) * bw v i \<le> fptr s \<or> frend s \<le> unat (bands v ! i)))"

lemma bsz_eq: "unat (n_alloc v) * bw v i < 2 ^ 32 \<Longrightarrow> bsz v i = unat (n_alloc v) * bw v i"
  unfolding bsz_def bw_def by (subst unat_mult_small) auto

lemma create_bands_all:
  assumes "sim_ok s" "fptr s + band_need v [0 ..< nb v] \<le> frend s" "create_bands v [0 ..< nb v] s = (s1, D)"
  shows "sim_ok s1" "store s1 = store s" "frend s1 = frend s"
    and "i < nb v \<Longrightarrow> bands v ! i \<noteq> NULL \<Longrightarrow> D ! i \<noteq> NULL \<and> fptr s \<le> unat (D ! i) \<and> unat (D ! i) + bsz v i \<le> fptr s1"
    and "k < nb v \<Longrightarrow> i < k \<Longrightarrow> bands v ! i \<noteq> NULL \<Longrightarrow> bands v ! k \<noteq> NULL \<Longrightarrow> unat (D ! i) + bsz v i \<le> unat (D ! k)"
proof -
  note C = create_bands_spec [OF assms]
  show "sim_ok s1" "store s1 = store s" "frend s1 = frend s" using C by auto
  show f: "D ! i \<noteq> NULL \<and> fptr s \<le> unat (D ! i) \<and> unat (D ! i) + bsz v i \<le> fptr s1"
    if "i < nb v" "bands v ! i \<noteq> NULL" for i
  proof -
    have "if bands v ! ([0 ..< nb v] ! i) = NULL then D ! i = NULL
      else D ! i \<noteq> NULL \<and> fptr s \<le> unat (D ! i) \<and> unat (D ! i) + bsz v ([0 ..< nb v] ! i) \<le> fptr s1"
      using C that(1) unfolding length_upt diff_zero by blast
    then show ?thesis using that by simp
  qed
  show "unat (D ! i) + bsz v i \<le> unat (D ! k)"
    if "k < nb v" "i < k" "bands v ! i \<noteq> NULL" "bands v ! k \<noteq> NULL"
    using C that f [of i] f [of k] by simp
qed

lemma delete_sound:
  assumes ok: "vec_ok s v" and room: "fptr s + band_need v [0 ..< nb v] \<le> frend s"
    and cb: "create_bands v [0 ..< nb v] s = (s1, D)"
  shows "copy_sound (unat (n_used v)) v D [0 ..< nb v]"
proof -
  let ?n = "unat (n_used v)" and ?N = "unat (n_alloc v)"
  have sok: "sim_ok s" and le: "?n \<le> ?N" using ok by (auto simp: vec_ok_def word_le_nat_alt)
  note C = create_bands_all [OF sok room cb]
  have F: "D ! i \<noteq> NULL \<and> fptr s \<le> unat (D ! i) \<and> unat (D ! i) + ?N * bw v i \<le> fptr s1 \<and> ?n * bw v i \<le> ?N * bw v i \<and>
       ?N * bw v i < 2 ^ 32 \<and> unat (bands v ! i) + ?N * bw v i \<le> 2 ^ 63 \<and>
       (unat (bands v ! i) + ?N * bw v i \<le> fptr s \<or> frend s \<le> unat (bands v ! i))"
    if "i < nb v" "bands v ! i \<noteq> NULL" for i
  proof -
    have v: "?N * bw v i < 2 ^ 32" "unat (bands v ! i) + ?N * bw v i \<le> 2 ^ 63"
      "unat (bands v ! i) + ?N * bw v i \<le> fptr s \<or> frend s \<le> unat (bands v ! i)"
      using ok that by (auto simp: vec_ok_def)
    moreover have "?n * bw v i \<le> ?N * bw v i" by (rule mult_le_mono1 [OF le])
    moreover have "D ! i \<noteq> NULL \<and> fptr s \<le> unat (D ! i) \<and> unat (D ! i) + bsz v i \<le> fptr s1"
      using C(4) that by simp
    ultimately show ?thesis using bsz_eq [OF v(1)] by simp
  qed
  have hi: "fptr s1 \<le> frend s" "frend s \<le> 2 ^ 63" using C rend_bounds(4) [of s1] rend_bounds(2) [OF sok] by auto
  have src: "apart (D ! i) (?n * bw v i) (bands v ! k) (?n * bw v k)"
    if "i < nb v" "bands v ! i \<noteq> NULL" "k < nb v" "bands v ! k \<noteq> NULL" for i k
    using F [OF that(1,2)] F [OF that(3,4)] hi(1) unfolding apart_def by linarith
  have ord: "unat (D ! i) + ?n * bw v i \<le> unat (D ! k)"
    if "i < k" "k < nb v" "bands v ! i \<noteq> NULL" "bands v ! k \<noteq> NULL" for i k
  proof -
    have "unat (D ! i) + bsz v i \<le> unat (D ! k)" using C(5) that by simp
    moreover have "?n * bw v i \<le> ?N * bw v i" "bsz v i = ?N * bw v i" using F [of i] that bsz_eq [of v i] by auto
    ultimately show ?thesis by linarith
  qed
  have dst: "apart (D ! i) (?n * bw v i) (D ! k) (?n * bw v k)"
    if "i < nb v" "bands v ! i \<noteq> NULL" "k < nb v" "bands v ! k \<noteq> NULL" "i \<noteq> k" for i k
    using ord [of i k] ord [of k i] that unfolding apart_def by (cases "i < k") auto
  have fit: "fits ?n v D i" if "i < nb v" "bands v ! i \<noteq> NULL" for i
    using F [OF that] hi unfolding fits_def by linarith
  show ?thesis unfolding copy_sound_def using src dst fit by auto
qed

lemma nths_map_upt: "nths (map f [0 ..< n]) {k. k \<notin> S} = map f (filter (\<lambda>i. i \<notin> S) [0 ..< n])"
proof (induction n)
  case (Suc n)
  have "nths (map f [0 ..< n] @ [f n]) {k. k \<notin> S} = nths (map f [0 ..< n]) {k. k \<notin> S} @ (if n \<notin> S then [f n] else [])"
    unfolding nths_append by simp
  then show ?case using Suc by simp
qed simp

lemma keep_idx_le: "length (keep_idx n xs) \<le> n"
  unfolding keep_idx_def using length_filter_le [of _ "[0 ..< n]"] by simp

lemma delete_ok:
  assumes ok: "vec_ok s v" and room: "fptr s + band_need v [0 ..< nb v] \<le> frend s"
    and cb: "create_bands v [0 ..< nb v] s = (s1, D)" and t: "unat t \<le> unat (n_used v)"
  shows "vec_ok (s1\<lparr>store := st\<rparr>) (v\<lparr>bands := D, n_used := t\<rparr>)"
proof -
  have sok: "sim_ok s" using ok by (simp add: vec_ok_def)
  note C = create_bands_all [OF sok room cb]
  have len: "length D = nb v" and null: "\<forall>i < nb v. bands v ! i = NULL \<longrightarrow> D ! i = NULL"
    using create_bands_spec [OF sok room cb] unfolding length_upt diff_zero by auto
  have f: "fptr (s1\<lparr>store := st\<rparr>) = fptr s1" "frend (s1\<lparr>store := st\<rparr>) = frend s1"
    by (simp_all add: fptr_def frend_def TOP_def)
  have "unat (n_alloc v) * bw v i < 2 ^ 32 \<and> unat (D ! i) + unat (n_alloc v) * bw v i \<le> fptr s1"
    if "i < nb v" "D ! i \<noteq> NULL" for i
    using C(4) [of i] ok that null bsz_eq [of v i] by (auto simp: vec_ok_def)
  moreover have "fptr s1 \<le> 2 ^ 63" using rend_bounds(2,4) [OF C(1)] by linarith
  ultimately show ?thesis using ok C(1) len f t
    by (auto simp: vec_ok_def nb_def bw_def word_le_nat_alt intro: order_trans)
qed


section \<open>Growing\<close>

lemma grow_na_total:
  assumes "0 < unat na" "unat need \<le> 2 ^ 31"
  shows "\<exists>r k. grow_na na need = Some r \<and> unat need \<le> unat r \<and> unat r = unat na * 2 ^ k \<and> (r = na \<or> unat r < 2 * unat need)"
  using assms
proof (induction "unat need - unat na" arbitrary: na rule: less_induct)
  case less
  show ?case
  proof (cases "na < need")
    case False
    then show ?thesis by (subst grow_na.simps) (auto simp: word_less_nat_alt intro: exI [of _ 0])
  next
    case True
    then have lt: "unat na < unat need" by (simp add: word_less_nat_alt)
    then have d: "unat (na * 2) = 2 * unat na"
      using less.prems unat_mult_small [of na 2] by simp
    have dec: "unat need - unat (na * 2) < unat need - unat na" using d lt less.prems by linarith
    obtain r k where r: "grow_na (na * 2) need = Some r" "unat need \<le> unat r" "unat r = unat (na * 2) * 2 ^ k"
      "r = na * 2 \<or> unat r < 2 * unat need"
      using less.hyps [OF dec] less.prems d by fastforce
    have "\<exists>k. unat r = unat na * 2 ^ k" using r(3) d by (intro exI [of _ "Suc k"]) simp
    moreover have "unat r < 2 * unat need" using r(4) d lt by auto
    ultimately show ?thesis using r(1,2) True by (subst grow_na.simps) auto
  qed
qed


definition grow_pre :: "sim \<Rightarrow> vec \<Rightarrow> nat list \<Rightarrow> bool" where
  "grow_pre s v is \<longleftrightarrow> sim_ok s \<and> fptr s + band_need v is \<le> frend s \<and> n_used v \<le> n_alloc v \<and> distinct is \<and>
     (\<forall>i \<in> set is. i < length (bands v) \<and> (bands v ! i \<noteq> NULL \<longrightarrow> unat (n_alloc v) * bw v i < 2 ^ 32 \<and>
        unat (bands v ! i) + unat (n_used v) * bw v i \<le> 2 ^ 63 \<and>
        (unat (bands v ! i) + unat (n_used v) * bw v i \<le> fptr s \<or> frend s \<le> unat (bands v ! i))))"

text \<open>The memory below \<open>lo\<close> and from \<open>hi\<close> on is unchanged.\<close>

definition outside_same :: "nat \<Rightarrow> nat \<Rightarrow> sim \<Rightarrow> sim \<Rightarrow> bool" where
  "outside_same lo hi s s' \<longleftrightarrow> (\<forall>a. unat a < lo \<or> hi \<le> unat a \<longrightarrow> store s' a = store s a)"

lemma elem_outside:
  assumes "outside_same lo hi s s'" "unat (bands v ! i) + n * bw v i \<le> 2 ^ 63" "j < n"
    and "unat (bands v ! i) + n * bw v i \<le> lo \<or> hi \<le> unat (bands v ! i)"
  shows "elem (store s') v i j = elem (store s) v i j"
  unfolding elem_def
proof (rule map_cong [OF refl])
  fix b assume "b \<in> set [0 ..< bw v i]"
  then have b: "b < bw v i" by simp
  show "store s' (bands v ! i + of_nat (j * bw v i + b)) = store s (bands v ! i + of_nat (j * bw v i + b))"
    using assms(1) elem_addr [OF assms(2,3) b] assms(4) unfolding outside_same_def by auto
qed

lemma elem_cong: "bands v' ! i = bands v ! i \<Longrightarrow> info v' = info v \<Longrightarrow> elem st v' i = elem st v i"
  by (simp add: elem_def bw_def fun_eq_iff)

text \<open>One band: a fresh block with the old elements copied in.\<close>

lemma grow_band_step:
  assumes pre: "grow_pre s v (i # is)" and old: "bands v ! i \<noteq> NULL"
    and cb: "simF_vec_create_band s v i = (s1, p)"
  defines "s2 \<equiv> s1\<lparr>store := memcpy (store s1) p (bands v ! i) (ucast (n_used v * ucast (stride (info v) ! i) :: u32))\<rparr>"
    and "v2 \<equiv> v\<lparr>bands := (bands v)[i := p]\<rparr>"
  shows "p \<noteq> NULL" "grow_pre s2 v2 is" "frend s2 = frend s" "fptr s \<le> unat p" "fptr s2 = unat p + unat (n_alloc v) * bw v i"
    "outside_same (fptr s) (fptr s2) s s2" "\<forall>j < unat (n_used v). elem (store s2) v2 i j = elem (store s) v i j"
proof -
  let ?n = "unat (n_used v)" and ?w = "bw v i"
  have P: "sim_ok s" "fptr s + band_need v (i # is) \<le> frend s" "?n \<le> unat (n_alloc v)" "distinct (i # is)" "i < length (bands v)"
    "unat (n_alloc v) * ?w < 2 ^ 32" "unat (bands v ! i) + ?n * ?w \<le> 2 ^ 63"
    "unat (bands v ! i) + ?n * ?w \<le> fptr s \<or> frend s \<le> unat (bands v ! i)"
    using pre old by (auto simp: grow_pre_def word_le_nat_alt)
  have bs: "bsz v i = unat (n_alloc v) * ?w" using P(6) by (rule bsz_eq)
  have need: "fptr s + (bsz v i + 16) + band_need v is \<le> frend s" using P(2) old by (simp add: band_need_def)
  have nw: "?n * ?w \<le> unat (n_alloc v) * ?w" using P(3) by (rule mult_le_mono1)
  have R: "p \<noteq> NULL \<and> fptr s \<le> unat p \<and> unat p < fptr s + 16 \<and> fptr s1 = unat p + bsz v i \<and> fptr s1 < frend s \<and>
      sim_ok s1 \<and> frend s1 = frend s \<and> store s1 = store s"
    using P(1) cb by (cases rule: create_band_cases) (use need in auto)
  have f2: "fptr s2 = fptr s1" "frend s2 = frend s1" by (simp_all add: s2_def fptr_def frend_def TOP_def)
  show "p \<noteq> NULL" "frend s2 = frend s" "fptr s \<le> unat p" "fptr s2 = unat p + unat (n_alloc v) * ?w"
    using R f2 bs by auto
  have fr: "frend s \<le> 2 ^ 63" by (rule rend_bounds(2) [OF P(1)])
  have hi: "unat p + ?n * ?w \<le> fptr s1" "fptr s1 \<le> frend s" using R nw unfolding bs by (elim conjE, linarith)+
  have cp: "(ucast (n_used v * ucast (stride (info v) ! i) :: u32) :: u64) = of_nat (?n * ?w)"
    using ucast_mult_off [of "n_used v" "ucast (stride (info v) ! i)"] le_less_trans [OF nw P(6)]
    unfolding bw_def unat_ucast_16_32 by blast
  have len: "unat (of_nat (?n * ?w) :: u64) = ?n * ?w" using le_less_trans [OF nw P(6)] by (intro unat_of_nat_small) simp
  have mc: "store s2 a = (if unat p \<le> unat a \<and> unat a < unat p + ?n * ?w then store s (bands v ! i + (a - p)) else store s a)" for a
  proof -
    have "unat p + ?n * ?w \<le> 2 ^ 64" using hi fr by simp
    then show ?thesis unfolding s2_def cp using memcpy_at [of p "of_nat (?n * ?w)" "store s1" "bands v ! i" a] R
      by (simp only: len sim.simps sim.select_convs) simp
  qed
  show os: "outside_same (fptr s) (fptr s2) s s2"
    unfolding outside_same_def mc using R f2 hi by auto
  show "\<forall>j < ?n. elem (store s2) v2 i j = elem (store s) v i j"
  proof (intro allI impI)
    fix j assume j: "j < ?n"
    have "store s2 (p + of_nat (j * ?w + b)) = store s (bands v ! i + of_nat (j * ?w + b))" if b: "b < ?w" for b
      using elem_addr [OF order_trans [OF order_trans [OF hi] fr] j b] unfolding mc by simp
    then show "elem (store s2) v2 i j = elem (store s) v i j" using P(5) by (simp add: elem_def v2_def bw_def)
  qed
  have ne: "bands v2 ! k = bands v ! k" if "k \<in> set is" for k
    using P(4) that unfolding v2_def by (simp, intro nth_list_update_neq) auto
  have v2: "bsz v2 = bsz v" "bw v2 = bw v" "n_used v2 = n_used v" "n_alloc v2 = n_alloc v" "length (bands v2) = length (bands v)"
    by (simp_all add: fun_eq_iff bsz_def bw_def v2_def)
  have "band_need v2 is = band_need v is" unfolding band_need_def v2
    by (intro arg_cong [where f = sum_list] map_cong) (auto simp: ne)
  then show "grow_pre s2 v2 is" using pre R f2 need unfolding grow_pre_def v2
    by (auto simp: ne s2_def)
qed

lemma grow_bands_spec:
  assumes "grow_pre s v is"
  shows "\<exists>s' v'. grow_bands is (s, v) = Some (s', v') \<and> sim_ok s' \<and> frend s' = frend s \<and> fptr s \<le> fptr s' \<and>
     outside_same (fptr s) (fptr s') s s' \<and> info v' = info v \<and> n_used v' = n_used v \<and> n_alloc v' = n_alloc v \<and>
     length (bands v') = length (bands v) \<and>
     (\<forall>i. i \<notin> set is \<or> bands v ! i = NULL \<longrightarrow> bands v' ! i = bands v ! i) \<and>
     (\<forall>i \<in> set is. bands v ! i \<noteq> NULL \<longrightarrow> bands v' ! i \<noteq> NULL \<and>
        unat (bands v' ! i) + unat (n_alloc v) * bw v i \<le> fptr s' \<and>
        (\<forall>j < unat (n_used v). elem (store s') v' i j = elem (store s) v i j))"
  using assms
proof (induction "is" arbitrary: s v)
  case Nil
  then show ?case by (simp add: outside_same_def grow_pre_def)
next
  case (Cons i "is")
  have ni: "i \<notin> set is" "i < length (bands v)" using Cons.prems by (auto simp: grow_pre_def)
  show ?case
  proof (cases "bands v ! i = NULL")
    case True
    then have "grow_pre s v is" using Cons.prems by (auto simp: grow_pre_def band_need_def)
    from Cons.IH [OF this] True show ?thesis by auto
  next
    case False
    obtain s1 p where cb: "simF_vec_create_band s v i = (s1, p)" by fastforce
    let ?s = "s1\<lparr>store := memcpy (store s1) p (bands v ! i) (ucast (n_used v * ucast (stride (info v) ! i) :: u32))\<rparr>"
    let ?v = "v\<lparr>bands := (bands v)[i := p]\<rparr>"
    note st = grow_band_step [OF Cons.prems False cb]
    obtain s' v' where IH: "grow_bands is (?s, ?v) = Some (s', v')" "sim_ok s'" "frend s' = frend ?s" "fptr ?s \<le> fptr s'"
      "outside_same (fptr ?s) (fptr s') ?s s'" "info v' = info v" "n_used v' = n_used v" "n_alloc v' = n_alloc v"
      "length (bands v') = length (bands v)"
      "\<And>k. k \<notin> set is \<or> bands ?v ! k = NULL \<Longrightarrow> bands v' ! k = bands ?v ! k"
      "\<And>k. k \<in> set is \<Longrightarrow> bands ?v ! k \<noteq> NULL \<Longrightarrow> bands v' ! k \<noteq> NULL \<and>
        unat (bands v' ! k) + unat (n_alloc v) * bw v k \<le> fptr s' \<and>
        (\<forall>j < unat (n_used v). elem (store s') v' k j = elem (store ?s) ?v k j)"
      using Cons.IH [OF st(2)] by (auto simp: bw_def)
    have os: "outside_same (fptr s) (fptr s') s s'" using st(4,5,6) IH(4,5)
      unfolding outside_same_def by auto
    have bi: "bands v' ! i = p" using IH(10) [of i] ni by simp
    have nw: "unat (n_used v) * bw v i \<le> unat (n_alloc v) * bw v i"
      using Cons.prems by (intro mult_le_mono1) (simp add: grow_pre_def word_le_nat_alt)
    have fs: "fptr ?s \<le> 2 ^ 63" using IH(2,3,4) rend_bounds(2,4) [of s'] by linarith
    have i: "elem (store s') v' i j = elem (store s) v i j" if j: "j < unat (n_used v)" for j
    proof -
      have v: "bw ?v i = bw v i" "bands ?v ! i = p" using ni by (simp_all add: bw_def)
      have "unat (bands ?v ! i) + unat (n_used v) * bw ?v i \<le> fptr ?s" unfolding v st(5) using nw by linarith
      then have "elem (store s') ?v i j = elem (store ?s) ?v i j"
        using fs by (intro elem_outside [OF IH(5) _ j] disjI1) linarith+
      moreover have "elem (store s') v' i = elem (store s') ?v i" using bi ni IH(6) by (intro elem_cong) auto
      ultimately show ?thesis using st(7) j by simp
    qed
    have k: "elem (store s') v' k j = elem (store s) v k j"
      if k: "k \<in> set is" "bands v ! k \<noteq> NULL" and j: "j < unat (n_used v)" for k j
    proof -
      have kb: "bands ?v ! k = bands v ! k" using k ni by (cases "k = i") auto
      have "elem (store s') v' k j = elem (store ?s) v k j"
        using IH(11) [OF k(1)] kb k(2) j elem_cong [of ?v k v "store ?s"] by simp
      moreover have "unat (bands v ! k) + unat (n_used v) * bw v k \<le> 2 ^ 63 \<and>
         (unat (bands v ! k) + unat (n_used v) * bw v k \<le> fptr s \<or> frend s \<le> unat (bands v ! k))"
        using Cons.prems k by (auto simp: grow_pre_def)
      moreover have "fptr ?s \<le> frend s" using IH(2,3,4) rend_bounds(4) [of s'] st(3) by linarith
      ultimately show ?thesis using elem_outside [OF st(6), of v k "unat (n_used v)" j] j by auto
    qed
    have "grow_bands (i # is) (s, v) = Some (s', v')" using False cb IH(1) st(1) by simp
    moreover have "unat (bands v' ! i) + unat (n_alloc v) * bw v i \<le> fptr s'" using bi st(5) IH(4) by simp
    moreover have "bands v' ! k \<noteq> NULL \<and> unat (bands v' ! k) + unat (n_alloc v) * bw v k \<le> fptr s'"
      if "k \<in> set is" "bands v ! k \<noteq> NULL" for k using IH(11) [OF that(1)] that ni by (cases "k = i") auto
    moreover have "bands v' ! k = bands v ! k" if "k \<notin> set (i # is) \<or> bands v ! k = NULL" for k
      using IH(10) [of k] that False ni by (cases "k = i") auto
    ultimately show ?thesis using IH(2,3,6-9) os i k bi st(1,3,4,5) IH(4) False by auto
  qed
qed

definition vec_room :: "sim \<Rightarrow> vec \<Rightarrow> u32 \<Rightarrow> bool" where
  "vec_room s v n \<longleftrightarrow> (case grow_na (if n_alloc v = 0 then 32 else n_alloc v) (n + n_used v) of
     None \<Rightarrow> True
   | Some na \<Rightarrow> fptr s + band_need (v\<lparr>n_alloc := na\<rparr>) [0 ..< nb v] \<le> frend s \<and>
       (\<forall>i < nb v. bands v ! i \<noteq> NULL \<longrightarrow> unat na * bw v i < 2 ^ 32))"

lemma ensure_capacity_spec:
  assumes ok: "vec_ok s v" and room: "vec_room s v n" and small: "unat (n_used v) + unat n \<le> 2 ^ 31"
  shows "\<exists>s' v'. F_ensure_capacity s v n = Some (s', v') \<and> vec_ok s' v' \<and> n_used v' = n_used v \<and> info v' = info v \<and>
     unat (n_used v) + unat n \<le> unat (n_alloc v') \<and>
     (\<forall>i < nb v. bands v ! i \<noteq> NULL \<longrightarrow> bands v' ! i \<noteq> NULL \<and>
        (\<forall>j < unat (n_used v). elem (store s') v' i j = elem (store s) v i j))"
proof -
  have need: "unat (n + n_used v) = unat (n_used v) + unat n" "n_used v + n = n + n_used v"
    using small unat_add32 [of n "n_used v"] by simp_all
  show ?thesis
  proof (cases "n_used v + n \<le> n_alloc v")
    case True
    then have "F_ensure_capacity s v n = Some (s, v)" by (simp add: F_ensure_capacity_def)
    then show ?thesis using True ok need by (simp add: word_le_nat_alt)
  next
    case False
    let ?na = "if n_alloc v = 0 then 32 else n_alloc v"
    have "0 < unat ?na" by (simp add: unat_gt_0)
    then obtain na where na: "grow_na ?na (n + n_used v) = Some na" "unat (n + n_used v) \<le> unat na"
      using grow_na_total [of ?na "n + n_used v"] small need by auto
    let ?v = "v\<lparr>n_alloc := na\<rparr>"
    have le: "unat (n_used v) \<le> unat na" "unat (n_used v) \<le> unat (n_alloc v)"
      using na(2) need ok by (auto simp: vec_ok_def word_le_nat_alt)
    have bwv: "bw ?v = bw v" "nb ?v = nb v" by (simp_all add: bw_def nb_def fun_eq_iff)
    have R: "fptr s + band_need ?v [0 ..< nb v] \<le> frend s" "\<forall>i < nb v. bands v ! i \<noteq> NULL \<longrightarrow> unat na * bw v i < 2 ^ 32"
      using room na(1) by (auto simp: vec_room_def)
    have U: "unat (bands v ! i) + unat (n_used v) * bw v i \<le> unat (bands v ! i) + unat (n_alloc v) * bw v i" for i
      using mult_le_mono1 [OF le(2)] by simp
    have V: "i < nb v \<Longrightarrow> bands v ! i \<noteq> NULL \<Longrightarrow> unat (bands v ! i) + unat (n_alloc v) * bw v i \<le> 2 ^ 63 \<and>
        (unat (bands v ! i) + unat (n_alloc v) * bw v i \<le> fptr s \<or> frend s \<le> unat (bands v ! i))" for i
      using ok by (auto simp: vec_ok_def)
    have V': "unat (bands v ! i) + unat (n_used v) * bw v i \<le> 2 ^ 63 \<and>
        (unat (bands v ! i) + unat (n_used v) * bw v i \<le> fptr s \<or> frend s \<le> unat (bands v ! i))"
      if "i < nb v" "bands v ! i \<noteq> NULL" for i
      using V [OF that] U [of i] by linarith
    have "grow_pre s ?v [0 ..< nb v]" unfolding grow_pre_def bwv
      using ok R le(1) V' by (auto simp: vec_ok_def word_le_nat_alt)
    from grow_bands_spec [OF this] obtain s' v' where G: "grow_bands [0 ..< nb v] (s, ?v) = Some (s', v')"
      "sim_ok s'" "info v' = info v" "n_used v' = n_used v" "n_alloc v' = na" "length (bands v') = length (bands v)"
      "\<And>i. bands v ! i = NULL \<Longrightarrow> bands v' ! i = bands v ! i"
      "\<And>i. i < nb v \<Longrightarrow> bands v ! i \<noteq> NULL \<Longrightarrow> bands v' ! i \<noteq> NULL \<and> unat (bands v' ! i) + unat na * bw v i \<le> fptr s' \<and>
        (\<forall>j < unat (n_used v). elem (store s') v' i j = elem (store s) ?v i j)"
      by (auto simp: bwv)
    have run: "F_ensure_capacity s v n = Some (s', v')" using False na(1) G(1) by (simp add: F_ensure_capacity_def)
    have f: "fptr s' \<le> 2 ^ 63" using rend_bounds(2,4) [OF G(2)] by linarith
    have B: "unat na * bw v i < 2 ^ 32 \<and> unat (bands v' ! i) + unat na * bw v i \<le> fptr s'" if "i < nb v" "bands v' ! i \<noteq> NULL" for i
      using G(7,8) [of i] R(2) that by (cases "bands v ! i = NULL") auto
    have "vec_ok s' v'" unfolding vec_ok_def nb_def bw_def G(3-6)
      using ok G(2) le(1) B f by (auto simp: vec_ok_def nb_def bw_def word_le_nat_alt intro: order_trans)
    moreover have "elem (store s) ?v i j = elem (store s) v i j" for i j by (simp add: elem_def bw_def)
    ultimately show ?thesis using run G(3-5,8) na(2) need by auto
  qed
qed

text \<open>
  C34. Allocating \<open>n\<close> elements returns (the capacity loop ends up to \<open>2 ^ 31\<close> elements), reserves the
  indices from the old size on within the new capacity, and every old element of every band keeps
  its bytes although the bands move.
\<close>

theorem vec_alloc_grows:
  assumes "vec_ok s v" "vec_room s v n" "unat (n_used v) + unat n \<le> 2 ^ 31"
  shows "\<exists>s' v'. simF_vec_alloc s v n = Some (s', v', n_used v) \<and> vec_ok s' v' \<and>
     unat (n_used v') = unat (n_used v) + unat n \<and>
     (\<forall>i < nb v. bands v ! i \<noteq> NULL \<longrightarrow> bands v' ! i \<noteq> NULL \<and>
        (\<forall>j < unat (n_used v). elem (store s') v' i j = elem (store s) v i j))"
proof -
  obtain s' v' where E: "F_ensure_capacity s v n = Some (s', v')" "vec_ok s' v'" "n_used v' = n_used v" "info v' = info v"
    "unat (n_used v) + unat n \<le> unat (n_alloc v')"
    "\<And>i. i < nb v \<Longrightarrow> bands v ! i \<noteq> NULL \<Longrightarrow> bands v' ! i \<noteq> NULL \<and>
        (\<forall>j < unat (n_used v). elem (store s') v' i j = elem (store s) v i j)"
    using ensure_capacity_spec [OF assms] by blast
  let ?v = "v'\<lparr>n_used := n_used v' + n\<rparr>"
  have n: "unat (n_used v' + n) = unat (n_used v) + unat n" using assms(3) E(3) by (subst unat_add32) auto
  have "simF_vec_alloc s v n = Some (s', ?v, n_used v)" using E(1,3) by (simp add: simF_vec_alloc_def)
  moreover have "vec_ok s' ?v" using E(2,5) n by (simp add: vec_ok_def nb_def bw_def word_le_nat_alt)
  moreover have "elem (store s') ?v i j = elem (store s') v' i j" for i j by (simp add: elem_def bw_def)
  ultimately show ?thesis using n E(6) by auto
qed

text \<open>Above \<open>2 ^ 31\<close> elements the doubling loop wraps to zero and never ends.\<close>

lemma grow_na_diverges:
  assumes "2 ^ 31 < unat need" "na = 2 ^ k"
  shows "grow_na na need = None"
proof (rule ccontr)
  assume "grow_na na need \<noteq> None"
  then obtain r where "grow_na na need = Some r" by blast
  then have "(\<exists>k. na = 2 ^ k) \<longrightarrow> 2 ^ 31 < unat need \<longrightarrow> False"
  proof (rule grow_na.raw_induct [where P = "\<lambda>na need r. (\<exists>k. na = 2 ^ k) \<longrightarrow> 2 ^ 31 < unat need \<longrightarrow> False", rotated])
    fix f and na need r :: u32
    assume IH: "\<And>na need r. f na need = Some r \<Longrightarrow> (\<exists>k. na = 2 ^ k) \<longrightarrow> 2 ^ 31 < unat need \<longrightarrow> False"
      and r: "(if na < need then f (na * 2) need else Some na) = Some r"
    show "(\<exists>k. na = 2 ^ k) \<longrightarrow> 2 ^ 31 < unat need \<longrightarrow> False"
    proof (intro impI, elim exE)
      fix k assume k: "na = 2 ^ k" and n: "2 ^ 31 < unat need"
      have "unat (2 ^ k :: u32) \<le> 2 ^ 31"
      proof (cases "k < 32")
        case True
        then show ?thesis using power_increasing [of k 31 "2::nat"] by (simp add: unat_exp)
      next
        case False
        then have "(2 ^ k :: u32) = 0" by simp
        then show ?thesis by (simp only: unsigned_0)
      qed
      then have "na < need" using n k by (simp add: word_less_nat_alt)
      then have "f (na * 2) need = Some r" using r by simp
      moreover have "na * 2 = 2 ^ Suc k" using k by simp
      ultimately show False using IH n by blast
    qed
  qed
  then show False using assms by blast
qed

text \<open>The duplicates that \<^verbatim>\<open>calc_intervals_s\<close> expects break the assertion of \<^verbatim>\<open>simF_vec_delete\<close>.\<close>

lemma delete_assert_duplicates:
  "fst (calc_intervals_s [1, 1] 4) = 3 \<and> (4 :: u32) - of_nat (length [1, 1 :: u32]) = 2"
  by (simp add: calc_intervals_s_def)

definition demo_vsim :: sim where
  "demo_vsim = (upd_top (\<lambda>f. f\<lparr>fmem := (fmem f)\<lparr>ptr := 0x100000210\<rparr>\<rparr>) demo_sim)\<lparr>store := (\<lambda>a. ucast (a - 0x100000200))\<rparr>"

definition demo_vec :: vec where
  "demo_vec = \<lparr>info = \<lparr>n_bands = 2, stride = [2, 8]\<rparr>, n_alloc = 4, n_used = 4, bands = [0x100000200, NULL]\<rparr>"

lemma demo_vec_ok: "vec_ok demo_vsim demo_vec" "fptr demo_vsim = 4294967824" "frend demo_vsim = 4294968064" "nb demo_vec = 2"
proof -
  have "sim_ok demo_vsim" unfolding demo_vsim_def sim_ok_store
    using demo_sim_ok sim_ok_TOP [OF demo_sim_ok]
    by (intro sim_ok_upd_top) (auto simp: region_at_def reg_ok_def sp_ok_def demo_sim_eq TOP_def)
  then show "vec_ok demo_vsim demo_vec"
    by (simp add: vec_ok_def demo_vec_def nb_def bw_def less_2_cases_iff all_less_2 fptr_def frend_def demo_vsim_def demo_sim_eq TOP_def upd_top_def word_le_nat_alt)
qed (simp_all add: demo_vec_def nb_def fptr_def frend_def demo_vsim_def demo_sim_eq TOP_def upd_top_def)


theorem vec_alloc_grows_witness:
  "\<exists>s' v'. simF_vec_alloc demo_vsim demo_vec 3 = Some (s', v', 4) \<and> n_used v' = 7 \<and> elem (store s') v' 0 3 = [6, 7]"
proof -
  have g: "grow_na 4 7 = Some 8"
    by (subst grow_na.simps, simp, subst grow_na.simps, simp)
  have "vec_room demo_vsim demo_vec 3"
    unfolding vec_room_def demo_vec_ok(2,3,4) by (simp add: demo_vec_def g band_need_def bsz_def upt_rec bw_def less_2_cases_iff all_less_2)
  moreover have "unat (n_used demo_vec) + unat (3 :: u32) \<le> 2 ^ 31" "n_used demo_vec = 4" by (simp_all add: demo_vec_def)
  moreover have "elem (store demo_vsim) demo_vec 0 3 = [6, 7]" "bands demo_vec ! 0 \<noteq> NULL" "0 < nb demo_vec"
    by (simp_all add: elem_def demo_vec_def bw_def demo_vsim_def upt_rec nb_def)
  ultimately show ?thesis using vec_alloc_grows [OF demo_vec_ok(1), of 3] by (fastforce simp: word_unat_eq_iff)
qed

end
