(* ===== verification/Fhk_Float.thy ===== *)
theory Fhk_Float
  imports M2_Prelude
begin

text \<open>
  IEEE 754 single precision arithmetic, as the compiled C code of \<^verbatim>\<open>src/src/fhk\<close> performs it on
  \<^verbatim>\<open>float\<close>: a number is its 32-bit pattern, an operation rounds the exact result to the nearest
  number with ties to even, every invalid operation gives one quiet NaN. A product and a sum are
  rounded separately (no contraction into a fused operation). The part that the bounds of the
  pruner use are the costs, the nonnegative numbers and infinity, on which the order of the
  patterns is the order of the numbers.
\<close>

section \<open>Representation\<close>

type_synonym f32 = "32 word"

definition INF_BITS :: nat where "INF_BITS = 0x7f800000"
definition SIGN_BITS :: nat where "SIGN_BITS = 0x80000000"

definition f32_mag :: "f32 \<Rightarrow> nat" where
  "f32_mag x = unat x mod SIGN_BITS"

definition f32_neg :: "f32 \<Rightarrow> bool" where
  "f32_neg x \<longleftrightarrow> SIGN_BITS \<le> unat x"

definition f32_make :: "bool \<Rightarrow> nat \<Rightarrow> f32" where
  "f32_make s m = of_nat (m + (if s then SIGN_BITS else 0))"

definition f32_nan :: "f32 \<Rightarrow> bool" where
  "f32_nan x \<longleftrightarrow> INF_BITS < f32_mag x"

definition f32_inf :: "f32 \<Rightarrow> bool" where
  "f32_inf x \<longleftrightarrow> f32_mag x = INF_BITS"

definition NAN :: f32 where "NAN = 0x7fc00000"
definition INFINITY :: f32 where "INFINITY = 0x7f800000"
definition ONE :: f32 where "ONE = 0x3f800000"

text \<open>The value of a finite magnitude in units of \<open>2 ^ -149\<close>.\<close>

definition f32_val :: "nat \<Rightarrow> nat" where
  "f32_val m = (if m < 2 ^ 24 then m else (2 ^ 23 + m mod 2 ^ 23) * 2 ^ (m div 2 ^ 23 - 1))"

section \<open>Rounding\<close>

definition rne :: "nat \<Rightarrow> nat \<Rightarrow> nat" where
  "rne n d = (let q = n div d; r = n mod d in
     if 2 * r < d \<or> (2 * r = d \<and> even q) then q else Suc q)"

function rnd :: "nat \<Rightarrow> nat \<Rightarrow> nat" where
  "rnd n d = (if n < 2 ^ 24 * d \<or> d = 0 then rne n d else 2 ^ 23 + rnd n (2 * d))"
  by pat_completeness auto
termination
  by (relation "measure (\<lambda>(n, d). n - d)") auto

definition f32_round :: "bool \<Rightarrow> nat \<Rightarrow> nat \<Rightarrow> f32" where
  "f32_round s n d = f32_make s (min (rnd n d) INF_BITS)"

section \<open>Arithmetic and comparison\<close>

definition f32_sval :: "f32 \<Rightarrow> int" where
  "f32_sval x = (if f32_neg x then - int (f32_val (f32_mag x)) else int (f32_val (f32_mag x)))"

definition fadd :: "f32 \<Rightarrow> f32 \<Rightarrow> f32" where
  "fadd a b =
     (if f32_nan a \<or> f32_nan b then NAN
      else if f32_inf a then (if f32_inf b \<and> f32_neg a \<noteq> f32_neg b then NAN else a)
      else if f32_inf b then b
      else let v = f32_sval a + f32_sval b in
        if v = 0 then f32_make (f32_neg a \<and> f32_neg b) 0
        else f32_round (v < 0) (nat \<bar>v\<bar>) 1)"

definition fmul :: "f32 \<Rightarrow> f32 \<Rightarrow> f32" where
  "fmul a b =
     (if f32_nan a \<or> f32_nan b then NAN
      else let s = (f32_neg a \<noteq> f32_neg b) in
        if f32_inf a \<or> f32_inf b then
          (if f32_mag a = 0 \<or> f32_mag b = 0 then NAN else f32_make s INF_BITS)
        else f32_round s (f32_val (f32_mag a) * f32_val (f32_mag b)) (2 ^ 149))"

definition fdiv :: "f32 \<Rightarrow> f32 \<Rightarrow> f32" where
  "fdiv a b =
     (if f32_nan a \<or> f32_nan b then NAN
      else let s = (f32_neg a \<noteq> f32_neg b) in
        if f32_inf a then (if f32_inf b then NAN else f32_make s INF_BITS)
        else if f32_inf b then f32_make s 0
        else if f32_mag b = 0 then (if f32_mag a = 0 then NAN else f32_make s INF_BITS)
        else f32_round s (f32_val (f32_mag a) * 2 ^ 149) (f32_val (f32_mag b)))"

definition fneg :: "f32 \<Rightarrow> f32" where
  "fneg a = a XOR 0x80000000"

text \<open>The order of two numbers that are not NaN: sign and magnitude as an integer.\<close>

definition f32_key :: "f32 \<Rightarrow> int" where
  "f32_key x = (if f32_neg x then - int (f32_mag x) else int (f32_mag x))"

definition flt :: "f32 \<Rightarrow> f32 \<Rightarrow> bool" where
  "flt a b \<longleftrightarrow> \<not> f32_nan a \<and> \<not> f32_nan b \<and> f32_key a < f32_key b"

definition fle :: "f32 \<Rightarrow> f32 \<Rightarrow> bool" where
  "fle a b \<longleftrightarrow> \<not> f32_nan a \<and> \<not> f32_nan b \<and> f32_key a \<le> f32_key b"

definition feq :: "f32 \<Rightarrow> f32 \<Rightarrow> bool" where
  "feq a b \<longleftrightarrow> \<not> f32_nan a \<and> \<not> f32_nan b \<and> f32_key a = f32_key b"

lemmas f32_defs = INF_BITS_def SIGN_BITS_def f32_mag_def f32_neg_def f32_make_def f32_nan_def f32_inf_def
  NAN_def INFINITY_def ONE_def

section \<open>Rounding is monotone and exact on representable values\<close>

lemma rne_bounds: "0 < d \<Longrightarrow> n div d \<le> rne n d \<and> rne n d \<le> Suc (n div d)"
  by (simp add: rne_def)

lemma rne_mono:
  assumes "n \<le> n'" "0 < d"
  shows "rne n d \<le> rne n' d"
proof (cases "n div d = n' div d")
  case True
  have "n mod d \<le> n' mod d" using assms(1) True
    by (metis div_mult_mod_eq nat_add_left_cancel_le)
  then show ?thesis using True by (auto simp: rne_def)
next
  case False
  then have "n div d < n' div d" using div_le_mono [OF assms(1), of d] by linarith
  then show ?thesis using rne_bounds [OF assms(2), of n] rne_bounds [OF assms(2), of n'] by linarith
qed

lemma rne_exact [simp]: "0 < d \<Longrightarrow> rne (n * d) d = n"
  by (simp add: rne_def)

lemma rne_scale: "0 < k \<Longrightarrow> rne (n * k) (d * k) = rne n d"
proof -
  assume "0 < k"
  then have "(n * k) div (d * k) = n div d" "(n * k) mod (d * k) = (n mod d) * k" by (simp_all add: mod_mult_mult2)
  moreover have "2 * (n mod d * k) < d * k \<longleftrightarrow> 2 * (n mod d) < d" "2 * (n mod d * k) = d * k \<longleftrightarrow> 2 * (n mod d) = d"
    using \<open>0 < k\<close> by (simp_all flip: mult.assoc)
  ultimately show ?thesis by (simp add: rne_def)
qed

declare rnd.simps [simp del]

lemma rnd_small: "n < 2 ^ 24 * d \<Longrightarrow> rnd n d = rne n d"
  by (subst rnd.simps) simp

lemma rnd_large: "2 ^ 24 * d \<le> n \<Longrightarrow> 0 < d \<Longrightarrow> rnd n d = 2 ^ 23 + rnd n (2 * d)"
  by (subst rnd.simps) simp

lemma rnd_ge: "0 < d \<Longrightarrow> k \<le> 2 ^ 24 \<Longrightarrow> k * d \<le> n \<Longrightarrow> k \<le> rnd n d"
proof (induction n d arbitrary: k rule: rnd.induct)
  case (1 n d)
  show ?case
  proof (cases "n < 2 ^ 24 * d")
    case True
    have "k \<le> n div d" using 1(4) \<open>0 < d\<close> by (simp add: less_eq_div_iff_mult_less_eq)
    then show ?thesis using rne_bounds [OF \<open>0 < d\<close>, of n] True by (simp add: rnd_small)
  next
    case False
    have "2 ^ 23 \<le> rnd n (2 * d)" using 1(1) [of "2 ^ 23"] False \<open>0 < d\<close> by simp
    then show ?thesis using rnd_large [of d n] False 1(2,3) by simp
  qed
qed

lemma rnd_mono: "0 < d \<Longrightarrow> n \<le> n' \<Longrightarrow> rnd n d \<le> rnd n' d"
proof (induction n' d arbitrary: n rule: rnd.induct)
  case (1 n' d)
  show ?case
  proof (cases "n' < 2 ^ 24 * d")
    case True
    then show ?thesis using 1(2,3) by (simp add: rnd_small rne_mono)
  next
    case False
    then have n': "rnd n' d = 2 ^ 23 + rnd n' (2 * d)" using 1(2) by (simp add: rnd_large)
    show ?thesis
    proof (cases "n < 2 ^ 24 * d")
      case True
      have "n div d < 2 ^ 24" using True 1(2) by (simp add: div_less_iff_less_mult)
      then have "rnd n d \<le> 2 ^ 24" using rne_bounds [OF 1(2), of n] True by (simp add: rnd_small)
      moreover have "2 ^ 24 \<le> rnd n' d" using False 1(2) by (intro rnd_ge) auto
      ultimately show ?thesis by simp
    next
      case nF: False
      then show ?thesis using n' 1(1) [of n] 1(2,3) False by (simp add: rnd_large)
    qed
  qed
qed

lemma rnd_scale: "0 < k \<Longrightarrow> 0 < d \<Longrightarrow> rnd (n * k) (d * k) = rnd n d"
proof (induction n d rule: rnd.induct)
  case (1 n d)
  have iff: "n * k < 2 ^ 24 * (d * k) \<longleftrightarrow> n < 2 ^ 24 * d" using 1(2) by (simp flip: mult.assoc)
  show ?case
  proof (cases "n < 2 ^ 24 * d")
    case True
    then show ?thesis using iff 1(2) by (simp add: rnd_small rne_scale)
  next
    case False
    have "rnd (n * k) (2 * d * k) = rnd n (2 * d)" using 1(1) False 1(2,3) by simp
    then show ?thesis using iff False 1(2,3) rnd_large [of d n] rnd_large [of "d * k" "n * k"]
      by (simp add: mult.assoc)
  qed
qed

lemma f32_val_step: "2 ^ 24 \<le> m \<Longrightarrow> f32_val m = 2 * f32_val (m - 2 ^ 23) \<and> 2 ^ 24 \<le> f32_val m"
proof -
  assume m: "2 ^ 24 \<le> m"
  then have q: "m div 2 ^ 23 = Suc ((m - 2 ^ 23) div 2 ^ 23)" "m mod 2 ^ 23 = (m - 2 ^ 23) mod 2 ^ 23"
    by (simp_all add: le_div_geq le_mod_geq)
  have q1: "1 \<le> (m - 2 ^ 23) div 2 ^ 23" using m by (simp add: less_eq_div_iff_mult_less_eq)
  show ?thesis
  proof (cases "m - 2 ^ 23 < 2 ^ 24")
    case True
    then have "(m - 2 ^ 23) div 2 ^ 23 = 1" using q1 by (intro div_nat_eqI) auto
    moreover have "(m - 2 ^ 23) mod 2 ^ 23 = m - 2 ^ 24" using True m by (simp add: mod_nat_eqI)
    ultimately show ?thesis using True m q by (simp add: f32_val_def) linarith
  next
    case False
    then have "f32_val (m - 2 ^ 23) = (2 ^ 23 + m mod 2 ^ 23) * 2 ^ ((m - 2 ^ 23) div 2 ^ 23 - 1)"
      using q by (simp add: f32_val_def)
    moreover have "f32_val m = (2 ^ 23 + m mod 2 ^ 23) * 2 ^ ((m - 2 ^ 23) div 2 ^ 23)"
      using m q by (simp add: f32_val_def)
    moreover have "(2::nat) ^ ((m - 2 ^ 23) div 2 ^ 23) = 2 * 2 ^ ((m - 2 ^ 23) div 2 ^ 23 - 1)"
      using q1 by (cases "(m - 2 ^ 23) div 2 ^ 23") auto
    moreover have "2 ^ 23 * 1 \<le> (2 ^ 23 + m mod 2 ^ 23) * 2 ^ ((m - 2 ^ 23) div 2 ^ 23 - 1)"
      by (intro mult_mono) simp_all
    ultimately show ?thesis by simp
  qed
qed

lemma rnd_val: "rnd (f32_val m) 1 = m"
proof (induction m rule: less_induct)
  case (less m)
  show ?case
  proof (cases "m < 2 ^ 24")
    case True
    then show ?thesis using rne_exact [of 1 m] by (simp add: f32_val_def rnd_small)
  next
    case False
    then have v: "f32_val m = f32_val (m - 2 ^ 23) * 2" "2 ^ 24 \<le> f32_val m" using f32_val_step [of m] by auto
    have "rnd (f32_val m) 1 = 2 ^ 23 + rnd (f32_val (m - 2 ^ 23) * 2) (1 * 2)" using v rnd_large [of 1 "f32_val m"] by simp
    also have "\<dots> = 2 ^ 23 + (m - 2 ^ 23)" using less.IH [of "m - 2 ^ 23"] False by (subst rnd_scale) auto
    finally show ?thesis using False by simp
  qed
qed

lemma f32_val_mono: "m \<le> m' \<Longrightarrow> f32_val m \<le> f32_val m'"
  by (metis linorder_le_cases rnd_mono rnd_val order_antisym order_refl zero_less_one)

section \<open>Costs: the nonnegative numbers and infinity\<close>

text \<open>A cost is a nonnegative float; its bits order it.\<close>

definition is_cost :: "f32 \<Rightarrow> bool" where
  "is_cost x \<longleftrightarrow> x \<le> INFINITY"

lemma is_cost_unat: "is_cost x \<longleftrightarrow> unat x \<le> INF_BITS"
  by (simp add: is_cost_def word_le_nat_alt f32_defs)

lemma cost_simps:
  assumes "is_cost x"
  shows "f32_mag x = unat x" "\<not> f32_neg x" "\<not> f32_nan x" "f32_inf x \<longleftrightarrow> x = INFINITY"
  using assms by (auto simp: is_cost_unat f32_defs word_unat_eq_iff)

lemma cost_0 [simp]: "is_cost 0" and cost_INFINITY [simp]: "is_cost INFINITY"
  by (simp_all add: is_cost_def)

lemma flt_cost: "is_cost a \<Longrightarrow> is_cost b \<Longrightarrow> flt a b \<longleftrightarrow> a < b"
  by (simp add: flt_def f32_key_def cost_simps word_less_def)

lemma fle_cost: "is_cost a \<Longrightarrow> is_cost b \<Longrightarrow> fle a b \<longleftrightarrow> a \<le> b"
  by (simp add: fle_def f32_key_def cost_simps word_le_def)

lemma feq_cost: "is_cost a \<Longrightarrow> is_cost b \<Longrightarrow> feq a b \<longleftrightarrow> a = b"
  by (simp add: feq_def f32_key_def cost_simps word_uint_eq_iff)

lemma f32_round_pos:
  "is_cost (f32_round False n d)" "unat (f32_round False n d) = min (rnd n d) INF_BITS"
proof -
  show u: "unat (f32_round False n d) = min (rnd n d) INF_BITS"
    unfolding f32_round_def f32_make_def by (subst if_not_P) (simp_all add: unat_of_nat_small INF_BITS_def min_less_iff_disj)
  show "is_cost (f32_round False n d)" by (simp add: is_cost_unat u)
qed

lemma rnd_0 [simp]: "0 < d \<Longrightarrow> rnd 0 d = 0"
  using rne_exact [of d 0] by (simp add: rnd_small)

lemma fadd_cost_unat:
  assumes "is_cost a" "is_cost b"
  shows "unat (fadd a b) = (if a = INFINITY \<or> b = INFINITY then INF_BITS
     else min (rnd (f32_val (unat a) + f32_val (unat b)) 1) INF_BITS)"
proof -
  have inf: "unat INFINITY = INF_BITS" by (simp add: f32_defs)
  have z: "f32_make False 0 = 0" by (simp add: f32_make_def)
  have s: "int x + int y = 0 \<Longrightarrow> x = 0 \<and> y = 0" for x y by simp
  have "nat \<bar>int (f32_val (unat a)) + int (f32_val (unat b))\<bar> = f32_val (unat a) + f32_val (unat b)" by simp
  then show ?thesis using assms
    by (auto simp: fadd_def cost_simps f32_sval_def f32_round_pos inf z dest!: s)
qed

lemma fmul_cost_unat:
  assumes "is_cost a" "is_cost b" "a \<noteq> INFINITY" "b \<noteq> INFINITY"
  shows "unat (fmul a b) = min (rnd (f32_val (unat a) * f32_val (unat b)) (2 ^ 149)) INF_BITS"
  using assms by (simp add: fmul_def cost_simps f32_round_pos)

lemma fadd_cost [simp]: "is_cost a \<Longrightarrow> is_cost b \<Longrightarrow> is_cost (fadd a b)"
  by (simp add: is_cost_unat [of "fadd a b"] fadd_cost_unat)

lemma fadd_commute: "is_cost a \<Longrightarrow> is_cost b \<Longrightarrow> fadd a b = fadd b a"
  by (simp add: word_unat_eq_iff fadd_cost_unat add.commute disj_commute)

lemma fadd_mono:
  assumes "is_cost a'" "is_cost b'" "a \<le> a'" "b \<le> b'"
  shows "fadd a b \<le> fadd a' b'"
proof -
  have c: "is_cost a" "is_cost b" using assms by (auto simp: is_cost_def)
  have i: "a = INFINITY \<Longrightarrow> a' = INFINITY" "b = INFINITY \<Longrightarrow> b' = INFINITY"
    using assms by (auto simp: is_cost_def)
  have "f32_val (unat a) + f32_val (unat b) \<le> f32_val (unat a') + f32_val (unat b')"
    using assms(3,4) by (intro add_mono f32_val_mono) (simp_all add: word_le_nat_alt)
  then have "rnd (f32_val (unat a) + f32_val (unat b)) 1 \<le> rnd (f32_val (unat a') + f32_val (unat b')) 1"
    by (intro rnd_mono) simp_all
  then show ?thesis using c assms(1,2) i by (auto simp: word_le_nat_alt fadd_cost_unat)
qed

lemma fadd_0 [simp]: "is_cost a \<Longrightarrow> fadd 0 a = a" "is_cost a \<Longrightarrow> fadd a 0 = a"
proof -
  show 1: "fadd 0 a = a" if "is_cost a"
    using that rnd_val [of "unat a"] by (auto simp: word_unat_eq_iff fadd_cost_unat f32_val_def [of 0] is_cost_unat f32_defs)
  show "fadd a 0 = a" if "is_cost a" using 1 [OF that] fadd_commute [OF that cost_0] by simp
qed

lemma fadd_ge: "is_cost a \<Longrightarrow> is_cost b \<Longrightarrow> a \<le> fadd a b" "is_cost a \<Longrightarrow> is_cost b \<Longrightarrow> b \<le> fadd a b"
  using fadd_mono [of a b a 0] fadd_mono [of a b 0 b] by simp_all

section \<open>The cost function of a model\<close>

definition costf :: "f32 \<Rightarrow> f32 \<Rightarrow> f32 \<Rightarrow> f32" where
  "costf k c S = fadd k (fmul c S)"

text \<open>The parameters for which a model never costs less than its inputs.\<close>

definition cost_par :: "f32 \<Rightarrow> f32 \<Rightarrow> bool" where
  "cost_par k c \<longleftrightarrow> is_cost k \<and> ONE \<le> c \<and> c < INFINITY"

lemma fmul_INFINITY: "ONE \<le> c \<Longrightarrow> c < INFINITY \<Longrightarrow> fmul c INFINITY = INFINITY"
proof -
  assume c: "ONE \<le> c" "c < INFINITY"
  then have "is_cost c" "f32_mag c \<noteq> 0" by (auto simp: is_cost_def f32_defs word_le_nat_alt word_less_nat_alt)
  then show ?thesis by (simp add: fmul_def cost_simps) (simp add: f32_defs)
qed

lemma fmul_par_unat:
  assumes "ONE \<le> c" "c < INFINITY" "is_cost S" "S \<noteq> INFINITY"
  shows "unat (fmul c S) = min (rnd (f32_val (unat c) * f32_val (unat S)) (2 ^ 149)) INF_BITS"
  using assms by (intro fmul_cost_unat) (auto simp: is_cost_def)

lemma fmul_cost:
  assumes "ONE \<le> c" "c < INFINITY" "is_cost S"
  shows "is_cost (fmul c S)"
  using assms by (cases "S = INFINITY") (simp_all add: fmul_INFINITY is_cost_unat [of "fmul c S"] fmul_par_unat)

lemma fmul_mono:
  assumes "ONE \<le> c" "c < INFINITY" "is_cost S'" "S \<le> S'"
  shows "fmul c S \<le> fmul c S'"
proof (cases "S' = INFINITY")
  case True
  moreover have "is_cost (fmul c S)" using assms by (intro fmul_cost) (auto simp: is_cost_def)
  ultimately show ?thesis using assms by (simp add: fmul_INFINITY is_cost_def)
next
  case False
  then have S: "S \<noteq> INFINITY" "is_cost S" using assms by (auto simp: is_cost_def)
  have "rnd (f32_val (unat c) * f32_val (unat S)) (2 ^ 149) \<le> rnd (f32_val (unat c) * f32_val (unat S')) (2 ^ 149)"
    using assms(4) by (intro rnd_mono mult_le_mono2 f32_val_mono) (simp_all add: word_le_nat_alt)
  then show ?thesis using S False assms by (simp add: word_le_nat_alt fmul_par_unat)
qed

lemma f32_val_ONE: "f32_val (unat ONE) = 2 ^ 149"
  by (simp add: f32_val_def ONE_def)

lemma fmul_ge:
  assumes "ONE \<le> c" "c < INFINITY" "is_cost S"
  shows "S \<le> fmul c S"
proof (cases "S = INFINITY")
  case True
  then show ?thesis using assms by (simp add: fmul_INFINITY)
next
  case False
  have "f32_val (unat ONE) \<le> f32_val (unat c)" using assms(1) by (intro f32_val_mono) (simp add: word_le_nat_alt)
  then have "f32_val (unat S) * 2 ^ 149 \<le> f32_val (unat c) * f32_val (unat S)"
    by (simp add: f32_val_ONE mult.commute)
  then have "rnd (f32_val (unat S) * 2 ^ 149) (2 ^ 149) \<le> rnd (f32_val (unat c) * f32_val (unat S)) (2 ^ 149)"
    by (intro rnd_mono) simp_all
  moreover have "rnd (f32_val (unat S) * 2 ^ 149) (1 * 2 ^ 149) = unat S" by (subst rnd_scale) (simp_all only: rnd_val, simp_all)
  ultimately show ?thesis using False assms(2,3) assms(1) by (simp add: word_le_nat_alt fmul_par_unat is_cost_unat)
qed

lemma costf_cost: "cost_par k c \<Longrightarrow> is_cost S \<Longrightarrow> is_cost (costf k c S)"
  by (simp add: costf_def cost_par_def fmul_cost)

lemma costf_mono: "cost_par k c \<Longrightarrow> is_cost S' \<Longrightarrow> S \<le> S' \<Longrightarrow> costf k c S \<le> costf k c S'"
  unfolding costf_def cost_par_def by (intro fadd_mono fmul_mono fmul_cost) auto

lemma costf_ge: "cost_par k c \<Longrightarrow> is_cost S \<Longrightarrow> S \<le> costf k c S"
  unfolding costf_def cost_par_def
  by (rule order_trans [OF fmul_ge fadd_ge(2)]) (auto simp: fmul_cost)

section \<open>Sums in order\<close>

definition fsum :: "f32 \<Rightarrow> f32 list \<Rightarrow> f32" where
  "fsum a xs = foldl fadd a xs"

lemma fsum_simps [simp]: "fsum a [] = a" "fsum a (x # xs) = fsum (fadd a x) xs"
  "fsum a (xs @ ys) = fsum (fsum a xs) ys"
  by (simp_all add: fsum_def)

lemma fsum_cost [simp]: "is_cost a \<Longrightarrow> \<forall>x \<in> set xs. is_cost x \<Longrightarrow> is_cost (fsum a xs)"
  by (induction xs arbitrary: a) auto

lemma fsum_ge: "is_cost a \<Longrightarrow> \<forall>x \<in> set xs. is_cost x \<Longrightarrow> a \<le> fsum a xs"
proof (induction xs arbitrary: a)
  case (Cons x xs)
  then have "fadd a x \<le> fsum (fadd a x) xs" by simp
  then show ?case using Cons.prems fadd_ge(1) [of a x] by (simp add: order_trans)
qed simp

lemma fsum_mem_ge: "is_cost a \<Longrightarrow> \<forall>x \<in> set xs. is_cost x \<Longrightarrow> x \<in> set xs \<Longrightarrow> x \<le> fsum a xs"
proof (induction xs arbitrary: a)
  case (Cons y ys)
  show ?case
  proof (cases "x = y")
    case True
    have "fadd a y \<le> fsum (fadd a y) ys" using Cons.prems by (intro fsum_ge) auto
    then show ?thesis using True Cons.prems fadd_ge(2) [of a y] by (simp add: order_trans)
  next
    case False
    then show ?thesis using Cons by simp
  qed
qed simp

lemma fsum_mono:
  "list_all2 (\<le>) xs ys \<Longrightarrow> a \<le> b \<Longrightarrow> is_cost b \<Longrightarrow> \<forall>y \<in> set ys. is_cost y \<Longrightarrow> fsum a xs \<le> fsum b ys"
  by (induction xs ys arbitrary: a b rule: list_all2_induct) (auto simp: fadd_mono)

lemma fmul_ONE: "is_cost S \<Longrightarrow> fmul ONE S = S"
proof (cases "S = INFINITY")
  case True
  then show ?thesis using fmul_INFINITY [of ONE] by (simp add: f32_defs)
next
  case False
  assume S: "is_cost S"
  have "rnd (f32_val (unat S) * 2 ^ 149) (1 * 2 ^ 149) = unat S" by (subst rnd_scale) (simp_all only: rnd_val, simp_all)
  then have "rnd (f32_val (unat ONE) * f32_val (unat S)) (2 ^ 149) = unat S" by (simp only: f32_val_ONE mult.commute mult_1)
  moreover have "ONE < INFINITY" by (simp add: f32_defs)
  ultimately have "unat (fmul ONE S) = unat S" using fmul_par_unat [of ONE S] S False by (simp add: is_cost_unat)
  then show ?thesis by (simp add: word_unat_eq_iff)
qed

section \<open>Negative numbers\<close>

lemma not_nan_cases: "\<not> f32_nan x \<Longrightarrow> is_cost x \<or> f32_neg x"
  by (auto simp: is_cost_unat f32_defs word_less_nat_alt)

lemma f32_make_simps:
  assumes "n \<le> INF_BITS"
  shows "f32_mag (f32_make s n) = n" "f32_neg (f32_make s n) = s" "\<not> f32_nan (f32_make s n)" "f32_inf (f32_make s n) \<longleftrightarrow> n = INF_BITS"
proof -
  have "n + (if s then SIGN_BITS else 0) < 2 ^ 32" using assms by (simp add: INF_BITS_def SIGN_BITS_def)
  then have "unat (f32_make s n) = n + (if s then SIGN_BITS else 0)" unfolding f32_make_def by (intro unat_of_nat_small) simp
  then show "f32_mag (f32_make s n) = n" "f32_neg (f32_make s n) = s" "\<not> f32_nan (f32_make s n)" "f32_inf (f32_make s n) \<longleftrightarrow> n = INF_BITS"
    using assms by (auto simp: f32_mag_def f32_neg_def f32_nan_def f32_inf_def INF_BITS_def SIGN_BITS_def)
qed

lemma f32_round_simps:
  "f32_mag (f32_round s n d) = min (rnd n d) INF_BITS" "f32_neg (f32_round s n d) = s" "\<not> f32_nan (f32_round s n d)"
  by (simp_all add: f32_round_def f32_make_simps)

lemma fadd_not_nan: "\<not> f32_nan a \<Longrightarrow> \<not> f32_nan b \<Longrightarrow> \<not> f32_inf b \<Longrightarrow> \<not> f32_nan (fadd a b)"
  by (auto simp: fadd_def Let_def f32_make_simps f32_round_simps)

lemma fmul_par_neg:
  assumes "ONE \<le> c" "c < INFINITY" "f32_neg y" "\<not> f32_nan y"
  shows "f32_neg (fmul c y)" "\<not> f32_nan (fmul c y)"
proof -
  have c: "is_cost c" "f32_mag c \<noteq> 0" "c \<noteq> INFINITY" using assms(1,2) by (auto simp: is_cost_def f32_defs word_le_nat_alt word_less_nat_alt)
  have "f32_inf y \<Longrightarrow> f32_mag y \<noteq> 0" by (simp add: f32_inf_def INF_BITS_def)
  then show "f32_neg (fmul c y)" "\<not> f32_nan (fmul c y)" using assms c
    by (auto simp: fmul_def cost_simps Let_def f32_make_simps f32_round_simps)
qed

lemma fadd_neg_le:
  assumes "is_cost k" "k \<noteq> INFINITY" "f32_neg y" "\<not> f32_nan y"
  shows "fle (fadd k y) k"
proof -
  have k: "f32_key k = int (unat k)" "unat k < INF_BITS" using assms(1,2) by (auto simp: f32_key_def cost_simps is_cost_unat f32_defs word_unat_eq_iff)
  show ?thesis
  proof (cases "f32_inf y")
    case True
    then show ?thesis using assms k by (simp add: fadd_def fle_def cost_simps f32_key_def) (use uint_ge_0 [of k] in linarith)
  next
    case False
    define v where "v = int (f32_val (unat k)) - int (f32_val (f32_mag y))"
    have a: "fadd k y = (if v = 0 then f32_make False 0 else f32_round (v < 0) (nat \<bar>v\<bar>) 1)"
      using assms False by (simp add: fadd_def cost_simps f32_sval_def v_def Let_def)
    have "rnd (nat \<bar>v\<bar>) 1 \<le> unat k" if "0 < v"
      using rnd_mono [of 1 "nat \<bar>v\<bar>" "f32_val (unat k)"] rnd_val [of "unat k"] that by (simp add: v_def)
    then have r: "0 < v \<Longrightarrow> int (rnd (nat \<bar>v\<bar>) 1) \<le> int (unat k)" by (simp only: of_nat_le_iff)
    have key: "f32_key (f32_make False 0) = 0" "f32_key (f32_round s n d) = (if s then - int (min (rnd n d) INF_BITS) else int (min (rnd n d) INF_BITS))" for s n d
      by (simp_all add: f32_key_def f32_make_simps f32_round_simps)
    have "f32_key (fadd k y) \<le> int (unat k)"
    proof (cases "0 < v")
      case True
      then have "fadd k y = f32_round False (nat \<bar>v\<bar>) 1" by (simp add: a)
      then show ?thesis using r [OF True] by (simp only: key if_False)
    next
      case False
      have "f32_key (fadd k y) \<le> 0" using False by (auto simp: a key)
      then show ?thesis using of_nat_0_le_iff [of "unat k"] by linarith
    qed
    moreover have "\<not> f32_nan (fadd k y)" by (simp add: a f32_make_simps f32_round_simps)
    ultimately show ?thesis using assms(1) k by (simp add: fle_def cost_simps)
  qed
qed

lemma costf_neg_le: "cost_par k c \<Longrightarrow> k \<noteq> INFINITY \<Longrightarrow> f32_neg y \<Longrightarrow> \<not> f32_nan y \<Longrightarrow> fle (costf k c y) k"
  unfolding costf_def cost_par_def using fmul_par_neg [of c y] by (intro fadd_neg_le) auto

lemma costf_ge_k: "cost_par k c \<Longrightarrow> is_cost S \<Longrightarrow> k \<le> costf k c S"
  unfolding costf_def cost_par_def by (intro fadd_ge(1)) (auto simp: fmul_cost)

lemma fle_trans: "fle a b \<Longrightarrow> fle b c \<Longrightarrow> fle a c"
  by (simp add: fle_def)

end
