(* ===== verification/Fhk_Graph.thy ===== *)
theory Fhk_Graph
  imports Fhk_Float
begin

text \<open>
  The computation graph and the macros of \<^verbatim>\<open>src/src/fhk/def.h\<close> and \<^verbatim>\<open>src/src/fhk/fhk.h\<close>. The C
  structs point into one allocation; here a model owns the lists of its edges. An index is
  nonnegative for a variable (and, from \<open>nv\<close> on, for a shadow) and negative for a model: model \<open>n\<close>
  has index \<open>- 1 - n\<close>, the bitwise complement of \<open>n\<close>.
\<close>

section \<open>Status and error values\<close>

definition FHK_OK :: u64 where "FHK_OK = 0"

definition FHKE_NYI :: u64 where "FHKE_NYI = 1"
definition FHKE_INVAL :: u64 where "FHKE_INVAL = 2"
definition FHKE_OVERWRITE :: u64 where "FHKE_OVERWRITE = 3"
definition FHKE_DEPTH :: u64 where "FHKE_DEPTH = 4"
definition FHKE_NVALUE :: u64 where "FHKE_NVALUE = 5"
definition FHKE_MEM :: u64 where "FHKE_MEM = 6"
definition FHKE_CHAIN :: u64 where "FHKE_CHAIN = 7"

definition FHKEI_I :: u64 where "FHKEI_I = 1"
definition FHKEI_J :: u64 where "FHKEI_J = 2"
definition FHKEI_G :: u64 where "FHKEI_G = 3"
definition FHKEI_P :: u64 where "FHKEI_P = 4"

lemmas fhke_defs = FHKE_NYI_def FHKE_INVAL_def FHKE_OVERWRITE_def FHKE_DEPTH_def FHKE_NVALUE_def
  FHKE_MEM_def FHKE_CHAIN_def FHKEI_I_def FHKEI_J_def FHKEI_G_def FHKEI_P_def

definition E_META :: "nat \<Rightarrow> u64 \<Rightarrow> u64 \<Rightarrow> u64" where
  "E_META n f x = push_bit (4 * (n + 1)) f OR push_bit (16 * n) x"

definition FHK_ECODE :: "u64 \<Rightarrow> u64" where "FHK_ECODE ei = ei AND 0xff"
definition FHK_ETAG1 :: "u64 \<Rightarrow> u64" where "FHK_ETAG1 ei = drop_bit 8 ei AND 0xf"
definition FHK_ETAG2 :: "u64 \<Rightarrow> u64" where "FHK_ETAG2 ei = drop_bit 12 ei AND 0xf"
definition FHK_EINFO1 :: "u64 \<Rightarrow> u64" where "FHK_EINFO1 ei = drop_bit 16 ei AND 0xffff"
definition FHK_EINFO2 :: "u64 \<Rightarrow> u64" where "FHK_EINFO2 ei = drop_bit 32 ei AND 0xffff"

section \<open>Maps\<close>

definition MAP_IDENT :: int where "MAP_IDENT = - 128"

definition MAP_UMAP :: "int \<Rightarrow> int \<Rightarrow> int" where
  "MAP_UMAP m ng = m + (if m \<ge> 0 then ng else 0)"

definition MAP_ISCONST :: "int \<Rightarrow> bool" where "MAP_ISCONST m \<longleftrightarrow> m \<ge> 0"
definition MAP_ISNONCONST :: "int \<Rightarrow> bool" where "MAP_ISNONCONST m \<longleftrightarrow> m < 0"

definition MAP_ISUSER :: "int \<Rightarrow> int \<Rightarrow> bool" where
  "MAP_ISUSER m ng \<longleftrightarrow> m \<noteq> MAP_IDENT \<and> m mod 256 \<ge> ng"

section \<open>The graph\<close>

record fhk_edge =
  e_idx :: int
  e_map :: int
  e_ex :: nat

record fhk_shedge =
  se_idx :: int
  se_map :: int
  se_flags :: u8
  se_penalty :: f32

text \<open>The lists hold what the C arrays hold between the edge counters: \<open>m_params\<close> is
  \<^verbatim>\<open>params[0 .. p_param)\<close>, of which the first \<open>m_cparam\<close> are computed, \<open>m_shadows\<close> is
  \<^verbatim>\<open>shadows[p_shadow .. 0)\<close> in increasing order, \<open>m_returns\<close> is \<^verbatim>\<open>returns[0 .. p_return)\<close>.\<close>

record fhk_model =
  m_params :: "fhk_edge list"
  m_shadows :: "fhk_shedge list"
  m_returns :: "fhk_edge list"
  m_group :: nat
  m_cparam :: nat
  m_flags :: u8
  m_k :: f32
  m_c :: f32
  m_ki :: f32
  m_ci :: f32
  m_cmin :: f32

record fhk_var =
  v_models :: "fhk_edge list"
  v_fwds :: "fhk_edge list"
  v_group :: nat
  v_size :: nat

record fhk_shadow =
  w_arg :: u64
  w_xi :: int
  w_group :: nat
  w_flags :: u8
  w_guard :: nat

record fhk_graph =
  g_models :: "fhk_model list"
  g_vars :: "fhk_var list"
  g_shadows :: "fhk_shadow list"
  g_ng :: int
  g_nkmap :: int
  g_nimap :: int
  g_umap_assoc :: "u8 list"

abbreviation nv :: "fhk_graph \<Rightarrow> int" where "nv G \<equiv> int (length (g_vars G))"
abbreviation nm :: "fhk_graph \<Rightarrow> int" where "nm G \<equiv> int (length (g_models G))"

definition ISVI :: "int \<Rightarrow> bool" where "ISVI i \<longleftrightarrow> i \<ge> 0"
definition ISMI :: "int \<Rightarrow> bool" where "ISMI i \<longleftrightarrow> i < 0"

definition gvar :: "fhk_graph \<Rightarrow> int \<Rightarrow> fhk_var" where
  "gvar G i = g_vars G ! nat i"

definition gmodel :: "fhk_graph \<Rightarrow> int \<Rightarrow> fhk_model" where
  "gmodel G i = g_models G ! nat (- 1 - i)"

definition gshadow :: "fhk_graph \<Rightarrow> int \<Rightarrow> fhk_shadow" where
  "gshadow G i = g_shadows G ! nat (i - nv G)"

definition V_GIVEN :: "fhk_var \<Rightarrow> bool" where
  "V_GIVEN x \<longleftrightarrow> v_models x = []"

text \<open>\<^verbatim>\<open>costf\<close> and \<^verbatim>\<open>costf_invS\<close> of a model.\<close>

definition m_costf :: "fhk_model \<Rightarrow> f32 \<Rightarrow> f32" where
  "m_costf m S = costf (m_k m) (m_c m) S"

definition m_costf_invS :: "fhk_model \<Rightarrow> f32 \<Rightarrow> f32" where
  "m_costf_invS m cost = fadd (m_ki m) (fmul (m_ci m) cost)"

definition vidx :: "fhk_graph \<Rightarrow> int \<Rightarrow> bool" where
  "vidx G i \<longleftrightarrow> 0 \<le> i \<and> i < nv G"

definition midx :: "fhk_graph \<Rightarrow> int \<Rightarrow> bool" where
  "midx G i \<longleftrightarrow> - nm G \<le> i \<and> i < 0"

section \<open>Error words\<close>

text \<open>The fields of an error word do not overlap: code, tag and index read back.\<close>

lemma small_bits:
  assumes "(x :: u64) < 2 ^ k" "k \<le> i" "k < 64"
  shows "\<not> bit x i"
proof -
  have "unat x < 2 ^ k" using assms by (simp add: word_less_nat_alt unat_exp)
  then have "take_bit k x = x" by (simp add: word_unat_eq_iff unsigned_take_bit_eq take_bit_nat_eq_self)
  then have "bit x i \<longleftrightarrow> i < k \<and> bit x i" by (metis bit_take_bit_iff)
  then show ?thesis using assms by simp
qed

lemma and_low_bits:
  "(x :: u64) AND 255 = take_bit 8 x" "(x :: u64) AND 15 = take_bit 4 x" "(x :: u64) AND 65535 = take_bit 16 x"
  by (simp_all add: take_bit_eq_mask mask_eq_exp_minus_1)

lemma error_word_unpack:
  assumes "code < 2 ^ 8" "f < 2 ^ 4" "x < 2 ^ 16"
  shows "FHK_ECODE (code OR E_META 1 f x) = code" "FHK_ETAG1 (code OR E_META 1 f x) = f"
    "FHK_EINFO1 (code OR E_META 1 f x) = x"
proof -
  note b = small_bits [OF assms(1)] small_bits [OF assms(2)] small_bits [OF assms(3)]
  show "FHK_ECODE (code OR E_META 1 f x) = code" unfolding FHK_ECODE_def E_META_def and_low_bits
    using b by (intro bit_word_eqI) (auto simp: bit_simps not_less)
  show "FHK_ETAG1 (code OR E_META 1 f x) = f" unfolding FHK_ETAG1_def E_META_def and_low_bits
    using b by (intro bit_word_eqI) (auto simp: bit_simps not_less)
  have x: "i < 16" if "bit x i" for i using b(3) [of i] that by (cases "16 \<le> i") auto
  show "FHK_EINFO1 (code OR E_META 1 f x) = x" unfolding FHK_EINFO1_def E_META_def and_low_bits
    using b(1,2) by (intro bit_word_eqI) (auto simp: bit_simps dest: x)
qed

end
