(* ===== verification/Fhk_Heap.thy ===== *)
theory Fhk_Heap
  imports Fhk_Float "HOL-Library.Multiset"
begin

text \<open>
  The binary heap of the pruner, \<^verbatim>\<open>src/src/fhk/prune.c\<close>. A node packs a cost, a colour and a
  variable index into 64 bits with the cost on top, and the heap orders nodes by those bits. Slots
  are numbered from 1; the array is a function from slots to nodes.
\<close>

section \<open>Nodes\<close>

definition HSIZE :: nat where "HSIZE = 64"
definition GRAY :: nat where "GRAY = 0"
definition BLACK :: nat where "BLACK = 1"

type_synonym hnode = u64

definition mknode :: "f32 \<Rightarrow> nat \<Rightarrow> int \<Rightarrow> hnode" where
  "mknode cost color xi = push_bit 32 (ucast cost) OR push_bit 16 (ucast (of_nat color :: u16)) OR ucast (of_int xi :: u16)"

definition node_cost :: "hnode \<Rightarrow> f32" where
  "node_cost n = ucast (drop_bit 32 n)"

definition node_color :: "hnode \<Rightarrow> nat" where
  "node_color n = unat (ucast (drop_bit 16 n) :: u16)"

definition node_xi :: "hnode \<Rightarrow> int" where
  "node_xi n = sint (ucast n :: u16)"

section \<open>The heap\<close>

record xheap =
  pos :: nat
  alloc :: nat
  nodes :: "nat \<Rightarrow> hnode"

definition heap_create :: xheap where
  "heap_create = \<lparr>pos = 0, alloc = HSIZE, nodes = (\<lambda>_. 0)\<rparr>"

fun sift_up :: "(nat \<Rightarrow> hnode) \<Rightarrow> nat \<Rightarrow> hnode \<Rightarrow> nat \<Rightarrow> hnode" where
  "sift_up a p node =
     (if p > 1
      then let pp = p div 2 in
        if a pp < node then a(p := node) else sift_up (a(p := a pp)) pp node
      else a(p := node))"

text \<open>\<open>ralloc n\<close> tells whether \<^verbatim>\<open>realloc\<close> gives room for \<open>n\<close> slots.\<close>

definition heap_insert :: "(nat \<Rightarrow> bool) \<Rightarrow> xheap \<Rightarrow> hnode \<Rightarrow> xheap option" where
  "heap_insert ralloc H node =
     (let num = 2 * alloc H mod 2 ^ 32 in
      if pos H = alloc H \<and> \<not> ralloc (num + 1) then None
      else
        let H1 = (if pos H = alloc H then H\<lparr>alloc := num\<rparr> else H);
            p = pos H1 + 1
        in Some (H1\<lparr>pos := p, nodes := sift_up (nodes H1) p node\<rparr>))"

function sift_down :: "(nat \<Rightarrow> hnode) \<Rightarrow> nat \<Rightarrow> nat \<Rightarrow> hnode \<Rightarrow> nat \<Rightarrow> hnode" where
  "sift_down a n p lst =
     (let (mp, mn) = (if 2 * p \<le> n \<and> a (2 * p) < lst then (2 * p, a (2 * p)) else (p, lst));
          (mp, mn) = (if 2 * p + 1 \<le> n \<and> a (2 * p + 1) < mn then (2 * p + 1, a (2 * p + 1)) else (mp, mn));
          a1 = a(p := mn)
      in if p = mp then a1 else sift_down a1 n mp lst)"
  by pat_completeness auto
termination
  by (relation "measure (\<lambda>(a, n, p, lst). Suc n - p)") (auto split: if_splits)

definition heap_remove :: "xheap \<Rightarrow> hnode \<times> xheap" where
  "heap_remove H =
     (let root = nodes H 1; lst = nodes H (pos H); n = pos H - 1
      in (root, H\<lparr>pos := n, nodes := sift_down (nodes H) n 1 lst\<rparr>))"

definition heap_empty :: "xheap \<Rightarrow> bool" where
  "heap_empty H \<longleftrightarrow> pos H = 0"

section \<open>Packing\<close>

lemma node_unpack [simp]:
  assumes "color < 65536" "- 32768 \<le> xi" "xi < 32768"
  shows "node_cost (mknode cost color xi) = cost" "node_color (mknode cost color xi) = color"
    "node_xi (mknode cost color xi) = xi"
proof -
  show "node_cost (mknode cost color xi) = cost" unfolding node_cost_def mknode_def
    by (rule bit_word_eqI) (auto simp: bit_simps)
  have "(ucast (drop_bit 16 (mknode cost color xi)) :: u16) = of_nat color" unfolding mknode_def
    by (rule bit_word_eqI) (auto simp: bit_simps)
  then show "node_color (mknode cost color xi) = color" using assms(1)
    by (simp add: node_color_def unat_of_nat_small)
  have "(ucast (mknode cost color xi) :: u16) = of_int xi" unfolding mknode_def
    by (rule bit_word_eqI) (auto simp: bit_simps)
  then show "node_xi (mknode cost color xi) = xi" using assms(2,3)
    by (simp add: node_xi_def signed_of_int signed_take_bit_int_eq_self)
qed

text \<open>The bits of a node order it by cost first.\<close>

lemma node_cost_unat: "unat (node_cost n) = unat n div 2 ^ 32"
proof -
  have d: "unat (drop_bit 32 n) = unat n div 2 ^ 32"
    using take_bit_nat_eq_self [of "unat n" 64] unat_lt64 [of n] by (subst unsigned_drop_bit_eq) (simp add: drop_bit_eq_div)
  moreover have "unat n div 2 ^ 32 < 2 ^ 32" using unat_lt64 [of n] by (simp add: less_mult_imp_div_less)
  ultimately have "take_bit 32 (unat (drop_bit 32 n)) = unat (drop_bit 32 n)" by (simp only: take_bit_nat_eq_self)
  then have "unat (node_cost n) = unat (drop_bit 32 n)"
    unfolding node_cost_def by (simp only: unsigned_ucast_eq unsigned_take_bit_eq) simp
  then show ?thesis using d by simp
qed

lemma node_cost_mono: "n \<le> n' \<Longrightarrow> node_cost n \<le> node_cost n'"
  by (simp add: word_le_nat_alt node_cost_unat div_le_mono)

section \<open>Heap order\<close>

definition heap_ord :: "nat \<Rightarrow> (nat \<Rightarrow> hnode) \<Rightarrow> bool" where
  "heap_ord n a \<longleftrightarrow> (\<forall>i. 2 \<le> i \<and> i \<le> n \<longrightarrow> a (i div 2) \<le> a i)"

definition content :: "nat \<Rightarrow> (nat \<Rightarrow> hnode) \<Rightarrow> hnode multiset" where
  "content n a = image_mset a (mset_set {1 .. n})"

definition heap_elems :: "xheap \<Rightarrow> hnode multiset" where
  "heap_elems H = content (pos H) (nodes H)"

definition heap_inv :: "xheap \<Rightarrow> bool" where
  "heap_inv H \<longleftrightarrow> heap_ord (pos H) (nodes H) \<and> pos H \<le> alloc H \<and> 0 < alloc H \<and> alloc H \<le> 2 ^ 30"

lemma content_Suc: "content (Suc n) a = add_mset (a (Suc n)) (content n a)"
  by (simp add: content_def atLeastAtMostSuc_conv)

lemma content_upd: "1 \<le> p \<Longrightarrow> p \<le> n \<Longrightarrow> add_mset (a p) (content n (a(p := x))) = add_mset x (content n a)"
proof -
  assume p: "1 \<le> p" "p \<le> n"
  then have s: "mset_set {1 .. n} = add_mset p (mset_set ({1 .. n} - {p}))" by (simp add: mset_set.remove)
  have "image_mset (a(p := x)) (mset_set ({1 .. n} - {p})) = image_mset a (mset_set ({1 .. n} - {p}))"
    by (rule image_mset_cong) auto
  then show ?thesis unfolding content_def s by (simp add: add_mset_commute)
qed

lemma content_upd_outside: "n < p \<Longrightarrow> content n (a(p := x)) = content n a"
  unfolding content_def by (rule image_mset_cong) auto

lemma heap_root_min: "heap_ord n a \<Longrightarrow> 1 \<le> i \<Longrightarrow> i \<le> n \<Longrightarrow> a 1 \<le> a i"
proof (induction i rule: less_induct)
  case (less i)
  show ?case
  proof (cases "i = 1")
    case False
    then have "a 1 \<le> a (i div 2)" using less by (intro less.IH) auto
    also have "a (i div 2) \<le> a i" using less.prems False by (simp add: heap_ord_def)
    finally show ?thesis .
  qed simp
qed

declare sift_up.simps [simp del] sift_down.simps [simp del]

text \<open>Sifting up: the hole at \<open>p\<close> may violate the order only towards its parent's old value.\<close>

lemma sift_up_content: "1 \<le> p \<Longrightarrow> p \<le> n \<Longrightarrow> add_mset (a p) (content n (sift_up a p x)) = add_mset x (content n a)"
proof (induction a p x rule: sift_up.induct)
  case (1 a p x)
  show ?case
  proof (cases "p > 1 \<and> \<not> a (p div 2) < x")
    case True
    let ?b = "a(p := a (p div 2))"
    have u: "sift_up a p x = sift_up ?b (p div 2) x" using True by (subst sift_up.simps) simp
    have "add_mset (?b (p div 2)) (content n (sift_up ?b (p div 2) x)) = add_mset x (content n ?b)"
      using True 1(2,3) by (intro 1(1) [OF _ refl]) auto
    moreover have "?b (p div 2) = a (p div 2)" using True by auto
    moreover have "add_mset (a p) (content n ?b) = add_mset (a (p div 2)) (content n a)" using 1(2,3) by (rule content_upd)
    ultimately have "add_mset (a (p div 2)) (add_mset (a p) (content n (sift_up a p x))) =
        add_mset (a (p div 2)) (add_mset x (content n a))"
      unfolding u by (metis add_mset_commute)
    then show ?thesis by simp
  next
    case False
    then have "sift_up a p x = a(p := x)" by (subst sift_up.simps) auto
    then show ?thesis using content_upd [OF 1(2,3)] by (simp only:)
  qed
qed

definition ord_hole :: "nat \<Rightarrow> nat \<Rightarrow> (nat \<Rightarrow> hnode) \<Rightarrow> bool" where
  "ord_hole n p a \<longleftrightarrow> (\<forall>i. 2 \<le> i \<and> i \<le> n \<and> i \<noteq> p \<and> i div 2 \<noteq> p \<longrightarrow> a (i div 2) \<le> a i) \<and>
     (\<forall>i. 2 \<le> i \<and> i \<le> n \<and> i div 2 = p \<and> 2 \<le> p \<longrightarrow> a (p div 2) \<le> a i)"

lemma ord_holeD:
  assumes "ord_hole n p a" "2 \<le> i" "i \<le> n"
  shows "i \<noteq> p \<Longrightarrow> i div 2 \<noteq> p \<Longrightarrow> a (i div 2) \<le> a i" "i div 2 = p \<Longrightarrow> 2 \<le> p \<Longrightarrow> a (p div 2) \<le> a i"
  using assms unfolding ord_hole_def by blast+

lemma heap_ord_fill:
  assumes h: "ord_hole n p a" and up: "2 \<le> p \<Longrightarrow> a (p div 2) \<le> x"
    and down: "\<And>i. 2 \<le> i \<Longrightarrow> i \<le> n \<Longrightarrow> i div 2 = p \<Longrightarrow> x \<le> a i"
  shows "heap_ord n (a(p := x))"
  unfolding heap_ord_def
proof (intro allI impI, elim conjE)
  fix i assume i: "2 \<le> i" "i \<le> n"
  have "i div 2 \<noteq> i" using i(1) by simp
  then show "(a(p := x)) (i div 2) \<le> (a(p := x)) i"
    using ord_holeD(1) [OF h i] up down [OF i] i(1) by (cases "i = p"; cases "i div 2 = p") auto
qed

lemma sift_up_ord:
  "ord_hole n p a \<Longrightarrow> 1 \<le> p \<Longrightarrow> p \<le> n \<Longrightarrow> (\<And>i. 2 \<le> i \<Longrightarrow> i \<le> n \<Longrightarrow> i div 2 = p \<Longrightarrow> x \<le> a i) \<Longrightarrow>
     heap_ord n (sift_up a p x)"
proof (induction a p x rule: sift_up.induct)
  case (1 a p x)
  note h = 1(2) and p = 1(3,4) and down = 1(5)
  show ?case
  proof (cases "p > 1 \<and> \<not> a (p div 2) < x")
    case True
    let ?q = "p div 2" and ?b = "a(p := a (p div 2))"
    have q: "1 \<le> ?q" "?q < p" "?q \<le> n" using True p by auto
    have xq: "x \<le> a ?q" using True by (simp add: not_less [symmetric])
    have kid: "a ?q \<le> ?b i" if "2 \<le> i" "i \<le> n" "i div 2 = ?q" for i
      using ord_holeD(1) [OF h that(1,2)] that q by (cases "i = p") auto
    have "ord_hole n ?q ?b" unfolding ord_hole_def
    proof (intro conjI allI impI; elim conjE)
      fix i assume i: "2 \<le> i" "i \<le> n" "i \<noteq> ?q" "i div 2 \<noteq> ?q"
      then have "i \<noteq> p" "2 \<le> p" using True by auto
      then show "?b (i div 2) \<le> ?b i" using ord_holeD [OF h i(1,2)] by simp
    next
      fix i assume i: "2 \<le> i" "i \<le> n" "i div 2 = ?q" "2 \<le> ?q"
      have "a (?q div 2) \<le> a ?q" using ord_holeD(1) [OF h, of ?q] i(4) q p by auto
      then have "a (?q div 2) \<le> ?b i" using kid [OF i(1-3)] by (rule order_trans)
      moreover have "?q div 2 \<noteq> p" using q by linarith
      ultimately show "?b (?q div 2) \<le> ?b i" by simp
    qed
    moreover have "x \<le> ?b i" if "2 \<le> i" "i \<le> n" "i div 2 = ?q" for i
      using order_trans [OF xq kid [OF that]] .
    ultimately have "heap_ord n (sift_up ?b ?q x)" using True q
      by - (rule 1(1) [OF _ refl], blast+)
    then show ?thesis using True by (subst sift_up.simps) simp
  next
    case False
    then have "sift_up a p x = a(p := x)" by (subst sift_up.simps) auto
    moreover have "heap_ord n (a(p := x))" using h down False by (intro heap_ord_fill) auto
    ultimately show ?thesis by (simp only:)
  qed
qed

lemma sift_down_cases:
  assumes "1 \<le> p"
  obtains (stop) "sift_down a n p x = a(p := x)" "\<And>i. 2 \<le> i \<Longrightarrow> i \<le> n \<Longrightarrow> i div 2 = p \<Longrightarrow> x \<le> a i"
  | (down) c where "sift_down a n p x = sift_down (a(p := a c)) n c x" "2 \<le> c" "c \<le> n" "c div 2 = p" "a c < x"
      "\<And>i. 2 \<le> i \<Longrightarrow> i \<le> n \<Longrightarrow> i div 2 = p \<Longrightarrow> a c \<le> a i" "Suc n - c < Suc n - p"
proof -
  have kids: "i = 2 * p \<or> i = 2 * p + 1" if "i div 2 = p" for i using that by linarith
  show thesis
  proof (cases "2 * p + 1 \<le> n \<and> a (2 * p + 1) < x \<and> (2 * p \<le> n \<and> a (2 * p) < x \<longrightarrow> a (2 * p + 1) < a (2 * p))")
    case True
    then have "sift_down a n p x = sift_down (a(p := a (2 * p + 1))) n (2 * p + 1) x"
      by (subst sift_down.simps) (cases "2 * p \<le> n \<and> a (2 * p) < x"; simp)
    moreover have "a (2 * p + 1) \<le> a i" if "2 \<le> i" "i \<le> n" "i div 2 = p" for i
      using kids [OF that(3)] True that by (auto simp: not_less)
    ultimately show thesis using True assms by (intro down [of "2 * p + 1"]) auto
  next
    case F: False
    show thesis
    proof (cases "2 * p \<le> n \<and> a (2 * p) < x")
      case True
      then have "\<not> (2 * p + 1 \<le> n \<and> a (2 * p + 1) < a (2 * p))" using F less_trans by blast
      then have "sift_down a n p x = sift_down (a(p := a (2 * p))) n (2 * p) x"
        using True assms by (subst sift_down.simps) (cases "2 * p + 1 \<le> n"; simp)
      moreover have "a (2 * p) \<le> a i" if "2 \<le> i" "i \<le> n" "i div 2 = p" for i
        using kids [OF that(3)] True F that by (auto simp: not_less)
      ultimately show thesis using True assms by (intro down [of "2 * p"]) auto
    next
      case False
      then have "sift_down a n p x = a(p := x)" using F assms
        by (subst sift_down.simps) (cases "2 * p \<le> n"; cases "2 * p + 1 \<le> n"; simp)
      moreover have "x \<le> a i" if "2 \<le> i" "i \<le> n" "i div 2 = p" for i
        using kids [OF that(3)] False F that by (auto simp: not_less)
      ultimately show thesis by (rule stop)
    qed
  qed
qed

lemma sift_down_spec:
  "ord_hole n p a \<Longrightarrow> 1 \<le> p \<Longrightarrow> p \<le> n \<Longrightarrow> (2 \<le> p \<Longrightarrow> a (p div 2) \<le> x) \<Longrightarrow>
     heap_ord n (sift_down a n p x) \<and> add_mset (a p) (content n (sift_down a n p x)) = add_mset x (content n a)"
proof (induction "Suc n - p" arbitrary: a p rule: less_induct)
  case less
  note h = less.prems(1) and p = less.prems(2,3) and up = less.prems(4)
  from p(1) show ?case
  proof (cases rule: sift_down_cases [where a = a and n = n and x = x])
    case stop
    then show ?thesis using heap_ord_fill [OF h up] content_upd [OF p] by (simp only:)
  next
    case (down c)
    let ?b = "a(p := a c)"
    have c: "p < c" using down(4) p(1) by linarith
    have "ord_hole n c ?b" unfolding ord_hole_def
    proof (intro conjI allI impI; elim conjE)
      fix i assume i: "2 \<le> i" "i \<le> n" "i \<noteq> c" "i div 2 \<noteq> c"
      consider "i = p" "i div 2 \<noteq> p" | "i \<noteq> p" "i div 2 = p" | "i \<noteq> p" "i div 2 \<noteq> p" using i(1) by linarith
      then show "?b (i div 2) \<le> ?b i"
      proof cases
        case 1
        have "a (p div 2) \<le> a c" using ord_holeD(2) [OF h down(2,3,4)] 1 i(1) by simp
        then show ?thesis using 1 by simp
      next
        case 2
        then show ?thesis using down(6) [OF i(1,2)] by simp
      next
        case 3
        then show ?thesis using ord_holeD(1) [OF h i(1,2)] by simp
      qed
    next
      fix i assume i: "2 \<le> i" "i \<le> n" "i div 2 = c" "2 \<le> c"
      have "i \<noteq> p" "c \<noteq> p" using i c by auto
      then show "?b (c div 2) \<le> ?b i" using ord_holeD(1) [OF h i(1,2)] i(3) down(4) by simp
    qed
    moreover have "?b (c div 2) \<le> x" using down(4,5) by simp
    ultimately have IH: "heap_ord n (sift_down ?b n c x) \<and>
        add_mset (?b c) (content n (sift_down ?b n c x)) = add_mset x (content n ?b)"
      using down(2,3) by - (rule less.hyps [OF down(7)], assumption, linarith, assumption, assumption)
    have "?b c = a c" using c by simp
    then have e: "add_mset (a c) (content n (sift_down ?b n c x)) = add_mset x (content n ?b)" using IH by (simp only:)
    have "add_mset (a c) (add_mset (a p) (content n (sift_down ?b n c x))) = add_mset x (add_mset (a p) (content n ?b))"
      unfolding add_mset_commute [of "a c" "a p"] e by (rule add_mset_commute)
    also have "\<dots> = add_mset (a c) (add_mset x (content n a))"
      unfolding content_upd [OF p] by (rule add_mset_commute)
    finally have "add_mset (a p) (content n (sift_down ?b n c x)) = add_mset x (content n a)" by simp
    then show ?thesis using IH down(1) by (simp only:)
  qed
qed

section \<open>A priority queue\<close>

text \<open>What the pruner relies on: an insertion adds a node, a removal takes a least one.\<close>

locale priority_queue =
  fixes inv :: "'q \<Rightarrow> bool"
    and elems :: "'q \<Rightarrow> 'a::linorder multiset"
    and ins :: "'q \<Rightarrow> 'a \<Rightarrow> 'q option"
    and rem :: "'q \<Rightarrow> 'a \<times> 'q"
    and isempty :: "'q \<Rightarrow> bool"
  assumes ins_elems: "inv q \<Longrightarrow> ins q x = Some q' \<Longrightarrow> inv q' \<and> elems q' = add_mset x (elems q)"
    and rem_elems: "inv q \<Longrightarrow> \<not> isempty q \<Longrightarrow> rem q = (x, q') \<Longrightarrow>
      inv q' \<and> elems q = add_mset x (elems q') \<and> (\<forall>y \<in># elems q. x \<le> y)"
    and empty_elems: "inv q \<Longrightarrow> isempty q \<longleftrightarrow> elems q = {#}"
begin

fun drain :: "nat \<Rightarrow> 'q \<Rightarrow> 'a list" where
  "drain 0 q = []"
| "drain (Suc n) q = (if isempty q then [] else let (x, q') = rem q in x # drain n q')"

lemma drain_sorted:
  "inv q \<Longrightarrow> n = size (elems q) \<Longrightarrow> sorted (drain n q) \<and> mset (drain n q) = elems q"
proof (induction n arbitrary: q)
  case 0
  then show ?case by simp
next
  case (Suc n)
  then have ne: "\<not> isempty q" using empty_elems by auto
  obtain x q' where r: "rem q = (x, q')" by fastforce
  note R = rem_elems [OF Suc.prems(1) ne r]
  have IH: "sorted (drain n q') \<and> mset (drain n q') = elems q'" using R Suc by simp
  then have "\<forall>y \<in> set (drain n q'). x \<le> y" using R by (metis set_mset_mset insert_iff set_mset_add_mset_insert)
  then show ?case using IH R ne r by simp
qed

end

text \<open>The environment refuses to grow the heap beyond \<open>2 ^ 30\<close> nodes, 8 GiB; the doubling of the
  32-bit size then never wraps.\<close>

definition bounded :: "(nat \<Rightarrow> bool) \<Rightarrow> nat \<Rightarrow> bool" where
  "bounded ralloc n \<longleftrightarrow> n \<le> 2 ^ 30 + 1 \<and> ralloc n"

lemma heap_ord_hole: "heap_ord n a \<Longrightarrow> ord_hole (Suc n) (Suc n) a"
  by (auto simp: heap_ord_def ord_hole_def)

lemma heap_insert_spec:
  assumes "heap_inv H" "heap_insert (bounded ralloc) H x = Some H'"
  shows "heap_inv H' \<and> heap_elems H' = add_mset x (heap_elems H)"
proof -
  let ?p = "Suc (pos H)" and ?a = "sift_up (nodes H) (Suc (pos H)) x"
  have H': "pos H' = ?p" "nodes H' = ?a" "?p \<le> alloc H'" "alloc H' \<le> 2 ^ 30"
    using assms by (auto simp: heap_insert_def heap_inv_def bounded_def split: if_splits)
  have "heap_ord ?p ?a" using assms(1) by (intro sift_up_ord heap_ord_hole) (auto simp: heap_inv_def)
  moreover have "add_mset (nodes H ?p) (content ?p ?a) = add_mset (nodes H ?p) (add_mset x (content (pos H) (nodes H)))"
    using sift_up_content [of ?p ?p "nodes H" x] by (simp add: content_Suc)
  ultimately show ?thesis using H' by (simp add: heap_inv_def heap_elems_def)
qed

lemma heap_remove_spec:
  assumes "heap_inv H" "\<not> heap_empty H" "heap_remove H = (x, H')"
  shows "heap_inv H' \<and> heap_elems H = add_mset x (heap_elems H') \<and> (\<forall>y \<in># heap_elems H. x \<le> y)"
proof -
  obtain n where n: "pos H = Suc n" using assms(2) by (cases "pos H") (auto simp: heap_empty_def)
  let ?a = "nodes H" and ?l = "nodes H (Suc n)"
  have H': "x = ?a 1" "pos H' = n" "nodes H' = sift_down ?a n 1 ?l" "alloc H' = alloc H"
    using assms(3) n by (auto simp: heap_remove_def)
  have ord: "heap_ord (Suc n) ?a" using assms(1) n by (simp add: heap_inv_def)
  have min: "\<forall>y \<in># heap_elems H. x \<le> y" using heap_root_min [OF ord] H'(1) n
    by (auto simp: heap_elems_def content_def)
  have "heap_ord n (sift_down ?a n 1 ?l) \<and> add_mset (?a 1) (content n (sift_down ?a n 1 ?l)) = add_mset ?l (content n ?a)"
  proof (cases "n = 0")
    case True
    then show ?thesis by (simp add: heap_ord_def content_def)
  next
    case False
    have "ord_hole n 1 ?a" using ord by (auto simp: heap_ord_def ord_hole_def)
    then show ?thesis using False by (intro sift_down_spec) auto
  qed
  then show ?thesis using H' n assms(1) min by (auto simp: heap_inv_def heap_elems_def content_Suc)
qed

interpretation hp: priority_queue heap_inv heap_elems "heap_insert (bounded ralloc)" heap_remove heap_empty for ralloc
proof
  fix q q' :: xheap and x :: hnode
  show "heap_inv q \<Longrightarrow> heap_insert (bounded ralloc) q x = Some q' \<Longrightarrow> heap_inv q' \<and> heap_elems q' = add_mset x (heap_elems q)"
    by (rule heap_insert_spec)
  show "heap_inv q \<Longrightarrow> \<not> heap_empty q \<Longrightarrow> heap_remove q = (x, q') \<Longrightarrow>
      heap_inv q' \<and> heap_elems q = add_mset x (heap_elems q') \<and> (\<forall>y \<in># heap_elems q. x \<le> y)"
    by (rule heap_remove_spec)
  show "heap_inv q \<Longrightarrow> heap_empty q \<longleftrightarrow> heap_elems q = {#}"
    by (auto simp: heap_empty_def heap_elems_def content_def mset_set_empty_iff)
qed

lemma heap_create_inv: "heap_inv heap_create" "heap_elems heap_create = {#}"
  by (simp_all add: heap_inv_def heap_create_def heap_ord_def heap_elems_def content_def HSIZE_def)

text \<open>Filling a heap and emptying it.\<close>

fun heap_insert_all :: "(nat \<Rightarrow> bool) \<Rightarrow> hnode list \<Rightarrow> xheap \<Rightarrow> xheap option" where
  "heap_insert_all ralloc [] H = Some H"
| "heap_insert_all ralloc (x # xs) H =
     (case heap_insert ralloc H x of None \<Rightarrow> None | Some H1 \<Rightarrow> heap_insert_all ralloc xs H1)"

fun heap_remove_all :: "nat \<Rightarrow> xheap \<Rightarrow> hnode list" where
  "heap_remove_all 0 H = []"
| "heap_remove_all (Suc n) H = (if heap_empty H then [] else let (x, H1) = heap_remove H in x # heap_remove_all n H1)"

lemma heap_remove_all_drain: "heap_remove_all n H = hp.drain n H"
  by (induction n arbitrary: H) (simp_all add: split_beta)

lemma heap_insert_all_spec:
  "heap_inv H \<Longrightarrow> heap_insert_all (bounded ralloc) xs H = Some H' \<Longrightarrow> heap_inv H' \<and> heap_elems H' = mset xs + heap_elems H"
proof (induction xs arbitrary: H)
  case (Cons x xs)
  then obtain H1 where H1: "heap_insert (bounded ralloc) H x = Some H1" "heap_insert_all (bounded ralloc) xs H1 = Some H'"
    by (auto split: option.splits)
  then show ?case using hp.ins_elems [OF Cons.prems(1) H1(1)] Cons.IH [of H1] by simp
qed simp

text \<open>
  C10. The pruner's heap is a priority queue on the packed nodes: nodes inserted in any order into a
  fresh heap (as far as memory allows) come out in increasing order, each as often as it went in.
\<close>

theorem heap_sorts:
  assumes "heap_insert_all (bounded ralloc) xs heap_create = Some H"
  shows "heap_remove_all (length xs) H = sort xs"
proof -
  have "heap_inv H \<and> heap_elems H = mset xs"
    using heap_insert_all_spec [OF heap_create_inv(1) assms] by (simp add: heap_create_inv)
  then have "sorted (heap_remove_all (length xs) H) \<and> mset (heap_remove_all (length xs) H) = mset xs"
    using hp.drain_sorted [of H "length xs"] by (simp add: heap_remove_all_drain)
  then show ?thesis by (metis properties_for_sort)
qed

theorem heap_sorts_witness:
  "\<exists>H. heap_insert_all (bounded (\<lambda>_. True)) [7, 3, 9, 3] heap_create = Some H \<and> heap_remove_all 4 H = [3, 3, 7, 9]"
proof -
  obtain H where H: "heap_insert_all (bounded (\<lambda>_. True)) [7, 3, 9, 3] heap_create = Some H"
    by (simp add: heap_create_def heap_insert_def HSIZE_def del: fun_upd_apply)
  have "length [7, 3, 9, 3 :: hnode] = 4" "sort [7, 3, 9, 3 :: hnode] = [3, 3, 7, 9]" by simp_all
  then have "heap_remove_all 4 H = [3, 3, 7, 9]" using heap_sorts [OF H] by (simp only:)
  then show ?thesis using H by blast
qed

end
