(* ===== verification/Fhk_Prune.thy ===== *)
theory Fhk_Prune
  imports Fhk_Graph Fhk_Heap
begin

text \<open>
  The pruner, \<^verbatim>\<open>src/src/fhk/prune.c\<close>. It computes for every variable and model a lower (gray) and an
  upper (black) bound of the cost, with one run of a Dijkstra-like propagation over the heap, and
  then selects the part of the graph that the wanted variables need.

  \<^verbatim>\<open>longjmp\<close> out of a failing run is the left side of a sum: the error word and the state at that
  moment. Assertions are not executed; \<open>ralloc\<close> is the allocation behaviour of the heap.
\<close>

section \<open>State\<close>

definition FHKF_GIVEN :: u8 where "FHKF_GIVEN = 1"
definition FHKF_SKIP :: u8 where "FHKF_SKIP = 2"
definition FHKF_SELECT :: u8 where "FHKF_SELECT = 4"
definition RETEDGE :: u8 where "RETEDGE = 0x10"
definition SELECTED :: u8 where "SELECTED = 0x20"

definition COLOR :: "nat \<Rightarrow> u8" where
  "COLOR c = push_bit c 0x40"

record prune =
  heap :: xheap
  flags :: "int \<Rightarrow> u8"
  bound :: "int \<Rightarrow> nat \<Rightarrow> f32"
  p_miss :: "int \<Rightarrow> nat \<Rightarrow> u8"

type_synonym fhk_ei = u64
type_synonym prune_result = "(fhk_ei \<times> prune) + prune"

text \<open>\<open>alloc_ok\<close> tells whether the four allocations succeed.\<close>

definition fhk_create_prune :: "bool \<Rightarrow> prune option" where
  "fhk_create_prune alloc_ok =
     (if alloc_ok then Some \<lparr>heap = heap_create, flags = (\<lambda>_. 0), bound = (\<lambda>_ _. 0), p_miss = (\<lambda>_ _. 0)\<rparr>
      else None)"

definition fhk_prune_flags :: "prune \<Rightarrow> int \<Rightarrow> u8" where
  "fhk_prune_flags P = flags P"

definition fhk_prune_bounds :: "prune \<Rightarrow> int \<Rightarrow> nat \<Rightarrow> f32" where
  "fhk_prune_bounds P = bound P"

definition has :: "prune \<Rightarrow> int \<Rightarrow> u8 \<Rightarrow> bool" where
  "has P i f \<longleftrightarrow> flags P i AND f \<noteq> 0"

definition set_flag :: "u8 \<Rightarrow> int \<Rightarrow> prune \<Rightarrow> prune" where
  "set_flag f i P = P\<lparr>flags := (flags P)(i := flags P i OR f)\<rparr>"

definition set_bound :: "int \<Rightarrow> nat \<Rightarrow> f32 \<Rightarrow> prune \<Rightarrow> prune" where
  "set_bound i c v P = P\<lparr>bound := (bound P)(i := (bound P i)(c := v))\<rparr>"

definition set_miss :: "int \<Rightarrow> nat \<Rightarrow> u8 \<Rightarrow> prune \<Rightarrow> prune" where
  "set_miss i c v P = P\<lparr>p_miss := (p_miss P)(i := (p_miss P i)(c := v))\<rparr>"

fun foldP :: "('a \<Rightarrow> prune \<Rightarrow> prune_result) \<Rightarrow> 'a list \<Rightarrow> prune \<Rightarrow> prune_result" where
  "foldP f [] P = Inr P"
| "foldP f (x # xs) P = (case f x P of Inl e \<Rightarrow> Inl e | Inr P1 \<Rightarrow> foldP f xs P1)"

section \<open>Propagation\<close>

definition xnonempty :: "fhk_graph \<Rightarrow> int \<Rightarrow> bool" where
  "xnonempty G m \<longleftrightarrow> \<not> MAP_ISUSER m (g_ng G)"

definition prune_fail :: "fhk_ei \<Rightarrow> prune \<Rightarrow> prune_result" where
  "prune_fail status P = Inl (status, P)"

definition prune_mark_given :: "fhk_graph \<Rightarrow> prune \<Rightarrow> prune" where
  "prune_mark_given G P =
     fold (\<lambda>i P. if has P i FHKF_GIVEN
                  then fold (\<lambda>e. set_flag FHKF_SKIP (e_idx e)) (v_models (gvar G i)) P else P)
       [0 .. nv G - 1] P"

definition prune_mark_skips :: "fhk_graph \<Rightarrow> prune \<Rightarrow> prune" where
  "prune_mark_skips G P =
     fold (\<lambda>i P. if has P i FHKF_SKIP
                  then fold (\<lambda>e. set_flag FHKF_SKIP (e_idx e)) (v_fwds (gvar G i))
                         (fold (\<lambda>e. set_flag FHKF_SKIP (e_idx e)) (v_models (gvar G i)) P) else P)
       [0 .. nv G - 1] P"

definition prune_init_mstate :: "fhk_graph \<Rightarrow> prune \<Rightarrow> prune" where
  "prune_init_mstate G P =
     fold (\<lambda>i P. let m = gmodel G (- 1 - i);
                      gray = fold (\<lambda>e n. n + (if xnonempty G (e_map e) then 1 else 0)) (m_params m) 0
                  in set_miss (- 1 - i) BLACK (of_nat (length (m_params m)))
                       (set_miss (- 1 - i) GRAY gray P))
       [0 .. nm G - 1] P"

definition prune_insert_var :: "(nat \<Rightarrow> bool) \<Rightarrow> int \<Rightarrow> f32 \<Rightarrow> nat \<Rightarrow> prune \<Rightarrow> prune_result" where
  "prune_insert_var ralloc xi cost color P =
     (case heap_insert ralloc (heap P) (mknode cost color xi) of
        None \<Rightarrow> prune_fail FHKE_MEM P
      | Some H \<Rightarrow> Inr (P\<lparr>heap := H\<rparr>))"

definition prune_insert_given :: "(nat \<Rightarrow> bool) \<Rightarrow> fhk_graph \<Rightarrow> prune \<Rightarrow> prune_result" where
  "prune_insert_given ralloc G P =
     foldP (\<lambda>i P. if has P i FHKF_GIVEN then
                     (if has P i FHKF_SKIP then prune_fail (FHKE_CHAIN OR E_META 1 FHKEI_I (of_int i)) P
                      else case prune_insert_var ralloc i 0 GRAY P of
                             Inl e \<Rightarrow> Inl e
                           | Inr P1 \<Rightarrow> prune_insert_var ralloc i 0 BLACK P1)
                   else Inr P)
       [0 .. nv G - 1] P"

definition shadow_skip :: "fhk_graph \<Rightarrow> prune \<Rightarrow> fhk_shedge \<Rightarrow> bool" where
  "shadow_skip G P sh \<longleftrightarrow> has P (w_xi (gshadow G (se_idx sh))) FHKF_SKIP"

definition prune_bound_model :: "(nat \<Rightarrow> bool) \<Rightarrow> fhk_graph \<Rightarrow> int \<Rightarrow> nat \<Rightarrow> prune \<Rightarrow> prune_result" where
  "prune_bound_model ralloc G mi color P =
     (if has P mi FHKF_SKIP then Inr P
      else
        let m = gmodel G mi;
            P1 = set_flag (COLOR color) mi P;
            total = fold (\<lambda>sh cost. if color = BLACK \<or> shadow_skip G P1 sh then fadd cost (se_penalty sh) else cost)
                    (m_shadows m) (bound P1 mi color);
            cost = m_costf m total
        in foldP (\<lambda>e P. if color = GRAY \<or> xnonempty G (e_map e)
                         then prune_insert_var ralloc (e_idx e) cost color P else Inr P)
             (m_returns m) (set_bound mi color cost P1))"

definition prune_insert_constmods :: "(nat \<Rightarrow> bool) \<Rightarrow> fhk_graph \<Rightarrow> prune \<Rightarrow> prune_result" where
  "prune_insert_constmods ralloc G P =
     foldP (\<lambda>i P. let mi = - 1 - i in
                   if has P mi FHKF_SKIP then Inr P
                   else case (if p_miss P mi GRAY = 0 then prune_bound_model ralloc G mi GRAY P else Inr P) of
                          Inl e \<Rightarrow> Inl e
                        | Inr P1 \<Rightarrow> if p_miss P1 mi BLACK = 0 then prune_bound_model ralloc G mi BLACK P1 else Inr P1)
       [0 .. nm G - 1] P"

definition prune_fwd :: "(nat \<Rightarrow> bool) \<Rightarrow> fhk_graph \<Rightarrow> f32 \<Rightarrow> nat \<Rightarrow> fhk_edge \<Rightarrow> prune \<Rightarrow> prune_result" where
  "prune_fwd ralloc G cost color e P =
     (if color = GRAY \<and> \<not> xnonempty G (e_map e) then Inr P
      else
        let mi = e_idx e;
            P1 = set_bound mi color (fadd (bound P mi color) cost) P;
            P2 = set_miss mi color (p_miss P1 mi color - 1) P1
        in if p_miss P2 mi color = 0 then prune_bound_model ralloc G mi color P2 else Inr P2)"

definition prune_bound_var :: "(nat \<Rightarrow> bool) \<Rightarrow> fhk_graph \<Rightarrow> int \<Rightarrow> f32 \<Rightarrow> nat \<Rightarrow> prune \<Rightarrow> prune_result" where
  "prune_bound_var ralloc G xi cost color P =
     (if has P xi (COLOR color) then Inr P
      else foldP (prune_fwd ralloc G cost color) (v_fwds (gvar G xi))
             (set_bound xi color cost (set_flag (COLOR color) xi P)))"

partial_function (option) prune_propagate :: "(nat \<Rightarrow> bool) \<Rightarrow> fhk_graph \<Rightarrow> prune \<Rightarrow> prune_result option" where
  "prune_propagate ralloc G P =
     (if heap_empty (heap P) then Some (Inr P)
      else
        let (n, H) = heap_remove (heap P) in
        case prune_bound_var ralloc G (node_xi n) (node_cost n) (node_color n) (P\<lparr>heap := H\<rparr>) of
          Inl e \<Rightarrow> Some (Inl e)
        | Inr P1 \<Rightarrow> prune_propagate ralloc G P1)"

definition prune_mark_unreachable :: "fhk_graph \<Rightarrow> prune \<Rightarrow> prune" where
  "prune_mark_unreachable G P =
     fold (\<lambda>i P. let P1 = (if has P i (COLOR GRAY) then P else set_bound i GRAY INFINITY P);
                      P2 = (if has P1 i (COLOR BLACK) then P1 else set_bound i BLACK INFINITY P1)
                  in if feq (bound P2 i GRAY) INFINITY then set_flag FHKF_SKIP i P2 else P2)
       [- nm G .. nv G - 1] P"

section \<open>Selection\<close>

text \<open>\<^verbatim>\<open>prune_select\<close> recurses over the graph; \<open>fuel\<close> bounds its depth and \<open>None\<close> means that it ran out.\<close>

fun select_models :: "(int \<Rightarrow> prune \<Rightarrow> prune option) \<Rightarrow> f32 \<Rightarrow> bool \<Rightarrow> fhk_edge list \<Rightarrow> prune \<Rightarrow> prune option" where
  "select_models sel beta need [] P = Some P"
| "select_models sel beta need (e # es) P =
     (let mi = e_idx e in
      if flt (bound P mi GRAY) beta \<or> (need \<and> feq (bound P mi BLACK) beta)
      then case sel mi P of
             None \<Rightarrow> None
           | Some P1 \<Rightarrow> select_models sel beta (need \<and> flt beta (bound P mi BLACK)) es P1
      else select_models sel beta need es P)"

fun select_all :: "(int \<Rightarrow> prune \<Rightarrow> prune option) \<Rightarrow> int list \<Rightarrow> prune \<Rightarrow> prune option" where
  "select_all sel [] P = Some P"
| "select_all sel (i # is) P = (case sel i P of None \<Rightarrow> None | Some P1 \<Rightarrow> select_all sel is P1)"

fun select_shadows :: "fhk_graph \<Rightarrow> (int \<Rightarrow> prune \<Rightarrow> prune option) \<Rightarrow> fhk_shedge list \<Rightarrow> prune \<Rightarrow> prune option" where
  "select_shadows G sel [] P = Some P"
| "select_shadows G sel (sh # shs) P =
     (let xi = w_xi (gshadow G (se_idx sh)) in
      if has P xi FHKF_SKIP then select_shadows G sel shs P
      else case sel xi P of None \<Rightarrow> None | Some P1 \<Rightarrow> select_shadows G sel shs P1)"

primrec prune_select :: "nat \<Rightarrow> fhk_graph \<Rightarrow> int \<Rightarrow> prune \<Rightarrow> prune option" where
  "prune_select 0 G idx P = None"
| "prune_select (Suc fuel) G idx P =
     (if has P idx SELECTED then Some P
      else
        let P1 = set_flag (SELECTED OR FHKF_SELECT) idx P in
        if ISVI idx then
          let beta = bound P1 idx BLACK
          in select_models (prune_select fuel G) beta (flt beta INFINITY) (v_models (gvar G idx)) P1
        else
          let m = gmodel G idx in
          case select_shadows G (prune_select fuel G) (m_shadows m) P1 of
            None \<Rightarrow> None
          | Some P2 \<Rightarrow>
              (case select_all (prune_select fuel G) (map e_idx (m_params m)) P2 of
                 None \<Rightarrow> None
               | Some P3 \<Rightarrow> Some (fold (\<lambda>e. set_flag RETEDGE (e_idx e)) (m_returns m) P3)))"

fun mark_selects :: "nat \<Rightarrow> fhk_graph \<Rightarrow> int list \<Rightarrow> prune \<Rightarrow> prune_result option" where
  "mark_selects fuel G [] P = Some (Inr P)"
| "mark_selects fuel G (i # is) P =
     (if has P i FHKF_SELECT then
        (if has P i FHKF_SKIP then Some (prune_fail (FHKE_CHAIN OR E_META 1 FHKEI_I (of_int i)) P)
         else case prune_select fuel G i P of None \<Rightarrow> None | Some P1 \<Rightarrow> mark_selects fuel G is P1)
      else mark_selects fuel G is P)"

definition prune_mark_selects :: "nat \<Rightarrow> fhk_graph \<Rightarrow> prune \<Rightarrow> prune_result option" where
  "prune_mark_selects fuel G P =
     (case mark_selects fuel G [- nm G .. nv G - 1] P of
        None \<Rightarrow> None
      | Some (Inl e) \<Rightarrow> Some (Inl e)
      | Some (Inr P1) \<Rightarrow>
          Some (Inr (fold (\<lambda>i P. if has P i RETEDGE then set_flag FHKF_SELECT i P else P) [0 .. nv G - 1] P1)))"

text \<open>The fuel for the selection: a path visits every index at most once.\<close>

definition select_fuel :: "fhk_graph \<Rightarrow> nat" where
  "select_fuel G = length (g_vars G) + length (g_models G) + 1"

definition fhk_prune_run :: "(nat \<Rightarrow> bool) \<Rightarrow> fhk_graph \<Rightarrow> prune \<Rightarrow> prune_result option" where
  "fhk_prune_run ralloc G P =
     (let P1 = prune_init_mstate G (prune_mark_skips G (prune_mark_given G P)) in
      case prune_insert_given ralloc G P1 of
        Inl e \<Rightarrow> Some (Inl e)
      | Inr P2 \<Rightarrow>
          (case prune_insert_constmods ralloc G P2 of
             Inl e \<Rightarrow> Some (Inl e)
           | Inr P3 \<Rightarrow>
               (case prune_propagate ralloc G P3 of
                  None \<Rightarrow> None
                | Some (Inl e) \<Rightarrow> Some (Inl e)
                | Some (Inr P4) \<Rightarrow> prune_mark_selects (select_fuel G) G (prune_mark_unreachable G P4))))"

end
