(* ===== verification/Fhk_Bounds.thy ===== *)
theory Fhk_Bounds
  imports Fhk_Prune
begin

text \<open>
  Correctness of the pruner's propagation. The specification is the set of derivations: a given
  variable costs nothing, and a model whose (relevant) parameters are derived with costs \<open>cs\<close> derives
  its (relevant) returns with the cost of the model on \<open>cs\<close>. The propagation computes, for each
  colour, the least derivable cost of every variable, with the rounding of the 32-bit floats.
\<close>

section \<open>Derivations\<close>

definition relp :: "fhk_graph \<Rightarrow> nat \<Rightarrow> fhk_edge \<Rightarrow> bool" where
  "relp G c e \<longleftrightarrow> \<not> (c = GRAY \<and> \<not> xnonempty G (e_map e))"

definition relr :: "fhk_graph \<Rightarrow> nat \<Rightarrow> fhk_edge \<Rightarrow> bool" where
  "relr G c e \<longleftrightarrow> c = GRAY \<or> xnonempty G (e_map e)"

definition params_rel :: "fhk_graph \<Rightarrow> nat \<Rightarrow> int \<Rightarrow> fhk_edge list" where
  "params_rel G c mi = filter (relp G c) (m_params (gmodel G mi))"

definition pens :: "fhk_graph \<Rightarrow> (int \<Rightarrow> bool) \<Rightarrow> nat \<Rightarrow> int \<Rightarrow> f32 list" where
  "pens G sk c mi =
     map se_penalty (filter (\<lambda>sh. c = BLACK \<or> sk (w_xi (gshadow G (se_idx sh)))) (m_shadows (gmodel G mi)))"

text \<open>The cost of a model on parameter costs: the sum in increasing order, the penalties, the cost
  function.\<close>

definition mcost :: "fhk_graph \<Rightarrow> (int \<Rightarrow> bool) \<Rightarrow> nat \<Rightarrow> int \<Rightarrow> f32 list \<Rightarrow> f32" where
  "mcost G sk c mi cs = m_costf (gmodel G mi) (fsum (fsum 0 (sort cs)) (pens G sk c mi))"

inductive derives :: "fhk_graph \<Rightarrow> (int \<Rightarrow> bool) \<Rightarrow> (int \<Rightarrow> bool) \<Rightarrow> nat \<Rightarrow> int \<Rightarrow> f32 \<Rightarrow> bool"
  for G sk gv c where
  given: "vidx G x \<Longrightarrow> gv x \<Longrightarrow> derives G sk gv c x 0"
| model: "midx G mi \<Longrightarrow> \<not> sk mi \<Longrightarrow>
    list_all2 (\<lambda>e s. derives G sk gv c (e_idx e) s) (params_rel G c mi) cs \<Longrightarrow>
    e \<in> set (m_returns (gmodel G mi)) \<Longrightarrow> relr G c e \<Longrightarrow> derives G sk gv c (e_idx e) (mcost G sk c mi cs)"

section \<open>Well-formed graphs\<close>

definition cnt :: "fhk_graph \<Rightarrow> nat \<Rightarrow> int \<Rightarrow> int \<Rightarrow> nat" where
  "cnt G c mi x = length (filter (\<lambda>e. e_idx e = x) (params_rel G c mi))"

definition model_wf :: "fhk_graph \<Rightarrow> int \<Rightarrow> bool" where
  "model_wf G mi \<longleftrightarrow> (let m = gmodel G mi in
     (\<forall>e \<in> set (m_params m). vidx G (e_idx e)) \<and> (\<forall>e \<in> set (m_returns m). vidx G (e_idx e)) \<and>
     (\<forall>e \<in> set (m_returns m). mi \<in> e_idx ` set (v_models (gvar G (e_idx e)))) \<and>
     (\<forall>sh \<in> set (m_shadows m). is_cost (se_penalty sh) \<and> vidx G (w_xi (gshadow G (se_idx sh)))) \<and>
     length (m_params m) \<le> 255 \<and> cost_par (m_k m) (m_c m))"

definition var_wf :: "fhk_graph \<Rightarrow> int \<Rightarrow> bool" where
  "var_wf G x \<longleftrightarrow> (let v = gvar G x in
     (\<forall>e \<in> set (v_fwds v). midx G (e_idx e)) \<and> (\<forall>e \<in> set (v_models v). midx G (e_idx e)) \<and>
     (\<forall>c \<in> {GRAY, BLACK}. \<forall>mi. midx G mi \<longrightarrow>
        length (filter (\<lambda>e. e_idx e = mi) (filter (relp G c) (v_fwds v))) = cnt G c mi x))"

text \<open>What \<^verbatim>\<open>fhk_build_graph\<close> guarantees: edges are in range and stored at both ends.\<close>

definition graph_wf :: "fhk_graph \<Rightarrow> bool" where
  "graph_wf G \<longleftrightarrow> nv G \<le> 32767 \<and> nm G \<le> 32768 \<and> (\<forall>mi. midx G mi \<longrightarrow> model_wf G mi) \<and> (\<forall>x. vidx G x \<longrightarrow> var_wf G x)"

lemma vm_disjoint: "vidx G x \<Longrightarrow> midx G x \<Longrightarrow> False"
  by (simp add: vidx_def midx_def)

section \<open>Contributions\<close>

text \<open>The costs that the variables bound so far, in order, add to a model.\<close>

definition contrib :: "fhk_graph \<Rightarrow> nat \<Rightarrow> int \<Rightarrow> (int \<times> f32) list \<Rightarrow> f32 list" where
  "contrib G c mi L = concat (map (\<lambda>(x, s). replicate (cnt G c mi x) s) L)"

definition pend :: "int \<Rightarrow> fhk_edge list \<Rightarrow> nat" where
  "pend mi R = length (filter (\<lambda>e. e_idx e = mi) R)"

definition nadd :: "fhk_graph \<Rightarrow> nat \<Rightarrow> int \<Rightarrow> (int \<times> f32) list \<Rightarrow> fhk_edge list \<Rightarrow> nat" where
  "nadd G c mi L R = length (contrib G c mi L) - pend mi R"

lemma contrib_simps [simp]:
  "contrib G c mi [] = []" "contrib G c mi (L @ [(x, s)]) = contrib G c mi L @ replicate (cnt G c mi x) s"
  "contrib G c mi ((x, s) # L) = replicate (cnt G c mi x) s @ contrib G c mi L"
  by (simp_all add: contrib_def)

lemma pend_simps [simp]: "pend mi [] = 0" "pend mi (e # R) = (if e_idx e = mi then 1 else 0) + pend mi R"
  by (simp_all add: pend_def)

lemma contrib_sorted: "sorted (map snd L) \<Longrightarrow> sorted (contrib G c mi L) \<and> set (contrib G c mi L) \<subseteq> snd ` set L"
  by (induction L) (auto simp: sorted_append contrib_def)

lemma sum_mset_split: "mset (map f (filter P xs)) + mset (map f (filter (\<lambda>x. Q x \<and> \<not> P x) xs)) =
    mset (map f (filter (\<lambda>x. P x \<or> Q x) xs))"
  by (induction xs) auto

lemma map_filter_const: "map (\<lambda>e. the (if e_idx e = x then Some s else f e)) (filter (\<lambda>e. e_idx e = x) Q) =
    replicate (length (filter (\<lambda>e. e_idx e = x) Q)) s"
  by (induction Q) auto

lemma contrib_mset:
  "distinct (map fst L) \<Longrightarrow> mset (contrib G c mi L) =
     mset (map (\<lambda>e. the (map_of L (e_idx e))) (filter (\<lambda>e. e_idx e \<in> fst ` set L) (params_rel G c mi)))"
proof (induction L)
  case (Cons p L)
  obtain x s where p: "p = (x, s)" by fastforce
  let ?Q = "params_rel G c mi"
  let ?f = "\<lambda>e. the (map_of ((x, s) # L) (e_idx e))"
  have x: "x \<notin> fst ` set L" and d: "distinct (map fst L)" using Cons.prems p by auto
  have "mset (replicate (cnt G c mi x) s) = mset (map ?f (filter (\<lambda>e. e_idx e = x) ?Q))"
    unfolding cnt_def by (simp only: map_of.simps fun_upd_apply fst_conv snd_conv map_filter_const)
  moreover have "mset (contrib G c mi L) = mset (map ?f (filter (\<lambda>e. e_idx e \<in> fst ` set L \<and> e_idx e \<noteq> x) ?Q))"
  proof -
    have "map ?f (filter (\<lambda>e. e_idx e \<in> fst ` set L \<and> e_idx e \<noteq> x) ?Q) =
      map (\<lambda>e. the (map_of L (e_idx e))) (filter (\<lambda>e. e_idx e \<in> fst ` set L) ?Q)"
      using x by (intro map_cong filter_cong) auto
    then show ?thesis using Cons.IH [OF d] by simp
  qed
  ultimately have "mset (contrib G c mi (p # L)) = mset (map ?f (filter (\<lambda>e. e_idx e = x \<or> e_idx e \<in> fst ` set L) ?Q))"
    unfolding p contrib_simps mset_append by (simp only: sum_mset_split)
  then show ?case by (simp only: p list.set image_insert insert_iff fst_conv)
qed simp

lemma contrib_le:
  assumes "distinct (map fst L)"
  shows "length (contrib G c mi L) \<le> length (params_rel G c mi)"
    and "length (contrib G c mi L) = length (params_rel G c mi) \<Longrightarrow> \<forall>e \<in> set (params_rel G c mi). e_idx e \<in> fst ` set L"
proof -
  let ?F = "filter (\<lambda>e. e_idx e \<in> fst ` set L) (params_rel G c mi)"
  have "length (contrib G c mi L) = length ?F" using mset_eq_length [OF contrib_mset [OF assms]] by (simp only: length_map)
  then show "length (contrib G c mi L) \<le> length (params_rel G c mi)"
    and "length (contrib G c mi L) = length (params_rel G c mi) \<Longrightarrow> \<forall>e \<in> set (params_rel G c mi). e_idx e \<in> fst ` set L"
    by (simp_all add: length_filter_le) (metis length_filter_less nat_neq_iff)
qed

lemma contrib_full:
  assumes "distinct (map fst L)" "length (contrib G c mi L) = length (params_rel G c mi)" "sorted (map snd L)"
  shows "sort (map (\<lambda>e. the (map_of L (e_idx e))) (params_rel G c mi)) = contrib G c mi L"
proof -
  have "filter (\<lambda>e. e_idx e \<in> fst ` set L) (params_rel G c mi) = params_rel G c mi"
    using contrib_le(2) [OF assms(1,2)] by (simp add: filter_id_conv)
  then have "mset (map (\<lambda>e. the (map_of L (e_idx e))) (params_rel G c mi)) = mset (contrib G c mi L)"
    using contrib_mset [OF assms(1), of G c mi] by simp
  then show ?thesis using contrib_sorted [OF assms(3)] by (intro properties_for_sort) auto
qed

section \<open>Monotone sums\<close>

lemma insort_mono:
  "list_all2 (\<le>) xs ys \<Longrightarrow> sorted xs \<Longrightarrow> sorted ys \<Longrightarrow> x \<le> y \<Longrightarrow> list_all2 (\<le>) (insort x xs) (insort y ys)"
  for x y :: "'a::linorder"
proof (induction xs ys arbitrary: x y rule: list_all2_induct)
  case (Cons a as b bs)
  have "list_all2 (\<le>) (insort a as) (insort b bs)" "insort a as = a # as" "insort b bs = b # bs"
    using Cons by (auto simp: insort_is_Cons)
  moreover have "list_all2 (\<le>) (insort x as) (insort b bs)" if "x \<le> b" using Cons that by simp
  moreover have "list_all2 (\<le>) (insort a as) (insort y bs)" if "a \<le> y" using Cons that by simp
  ultimately show ?case using Cons by (auto simp: le_less_trans)
qed simp

lemma sort_mono: "list_all2 (\<le>) xs ys \<Longrightarrow> list_all2 (\<le>) (sort xs) (sort ys)"
  for xs ys :: "'a::linorder list"
  by (induction rule: list_all2_induct) (auto simp: insort_mono)

section \<open>The invariant of one colour\<close>

text \<open>\<open>L\<close> lists the variables bound so far with their costs, in the order they left the heap; \<open>R\<close> the
  forward edges of the last one that are still to be processed; \<open>K\<close> the models and \<open>GK\<close> the given
  variables that the start-up phases have not reached yet. \<open>C\<close>, \<open>B\<close>, \<open>M\<close> and \<open>N\<close> are the colour
  flags, bounds, missing parameters and heap nodes of the colour.\<close>

definition covered :: "nat \<Rightarrow> (int \<times> f32) list \<Rightarrow> hnode multiset \<Rightarrow> int \<Rightarrow> f32 \<Rightarrow> bool" where
  "covered c L N x s \<longleftrightarrow> (\<exists>s'. (x, s') \<in> set L \<and> s' \<le> s) \<or> mknode s c x \<in># N"

definition L_ok :: "fhk_graph \<Rightarrow> (int \<Rightarrow> bool) \<Rightarrow> (int \<Rightarrow> bool) \<Rightarrow> nat \<Rightarrow> (int \<times> f32) list \<Rightarrow> (int \<Rightarrow> bool) \<Rightarrow> (int \<Rightarrow> f32) \<Rightarrow> bool" where
  "L_ok G sk gv c L C B \<longleftrightarrow> distinct (map fst L) \<and> sorted (map snd L) \<and>
     (\<forall>(x, s) \<in> set L. vidx G x \<and> is_cost s \<and> B x = s \<and> derives G sk gv c x s) \<and>
     (\<forall>x. vidx G x \<longrightarrow> (C x \<longleftrightarrow> x \<in> fst ` set L))"

definition N_ok :: "fhk_graph \<Rightarrow> (int \<Rightarrow> bool) \<Rightarrow> (int \<Rightarrow> bool) \<Rightarrow> nat \<Rightarrow> (int \<times> f32) list \<Rightarrow> hnode multiset \<Rightarrow> bool" where
  "N_ok G sk gv c L N \<longleftrightarrow> (\<forall>n \<in># N. node_color n = c \<and> vidx G (node_xi n) \<and> is_cost (node_cost n) \<and>
     derives G sk gv c (node_xi n) (node_cost n) \<and> (\<forall>(x, s) \<in> set L. s \<le> node_cost n))"

definition R_ok :: "fhk_graph \<Rightarrow> nat \<Rightarrow> (int \<times> f32) list \<Rightarrow> fhk_edge list \<Rightarrow> bool" where
  "R_ok G c L R \<longleftrightarrow> (R \<noteq> [] \<longrightarrow> L \<noteq> []) \<and> (\<forall>e \<in> set R. midx G (e_idx e)) \<and>
     (\<forall>mi. midx G mi \<longrightarrow> pend mi R \<le> (if L = [] then 0 else cnt G c mi (fst (last L))))"

definition total_cost :: "fhk_graph \<Rightarrow> (int \<Rightarrow> bool) \<Rightarrow> nat \<Rightarrow> int \<Rightarrow> f32 \<Rightarrow> f32" where
  "total_cost G sk c mi S = m_costf (gmodel G mi) (fsum S (pens G sk c mi))"

definition M_done :: "fhk_graph \<Rightarrow> (int \<Rightarrow> bool) \<Rightarrow> nat \<Rightarrow> (int \<times> f32) list \<Rightarrow> hnode multiset \<Rightarrow> (int \<Rightarrow> bool) \<Rightarrow> (int \<Rightarrow> f32) \<Rightarrow> int \<Rightarrow> bool" where
  "M_done G sk c L N C B mi \<longleftrightarrow> C mi \<and> B mi = total_cost G sk c mi (fsum 0 (contrib G c mi L)) \<and>
     (\<forall>e \<in> set (m_returns (gmodel G mi)). relr G c e \<longrightarrow> covered c L N (e_idx e) (B mi))"

definition M_ok :: "fhk_graph \<Rightarrow> (int \<Rightarrow> bool) \<Rightarrow> nat \<Rightarrow> (int \<times> f32) list \<Rightarrow> fhk_edge list \<Rightarrow> int set \<Rightarrow>
    hnode multiset \<Rightarrow> (int \<Rightarrow> bool) \<Rightarrow> (int \<Rightarrow> f32) \<Rightarrow> (int \<Rightarrow> u8) \<Rightarrow> int \<Rightarrow> bool" where
  "M_ok G sk c L R K N C B M mi \<longleftrightarrow>
     nadd G c mi L R \<le> length (params_rel G c mi) \<and>
     unat (M mi) = length (params_rel G c mi) - nadd G c mi L R \<and>
     (if nadd G c mi L R < length (params_rel G c mi) \<or> mi \<in> K
      then B mi = fsum 0 (take (nadd G c mi L R) (contrib G c mi L)) \<and> \<not> C mi
      else if sk mi then \<not> C mi
      else M_done G sk c L N C B mi)"

definition pinv :: "fhk_graph \<Rightarrow> (int \<Rightarrow> bool) \<Rightarrow> (int \<Rightarrow> bool) \<Rightarrow> nat \<Rightarrow> (int \<times> f32) list \<Rightarrow> fhk_edge list \<Rightarrow>
    int set \<Rightarrow> int set \<Rightarrow> (int \<Rightarrow> bool) \<Rightarrow> (int \<Rightarrow> f32) \<Rightarrow> (int \<Rightarrow> u8) \<Rightarrow> hnode multiset \<Rightarrow> bool" where
  "pinv G sk gv c L R K GK C B M N \<longleftrightarrow> L_ok G sk gv c L C B \<and> N_ok G sk gv c L N \<and> R_ok G c L R \<and>
     (\<forall>mi. midx G mi \<longrightarrow> M_ok G sk c L R K N C B M mi) \<and>
     (\<forall>x. vidx G x \<and> gv x \<and> x \<notin> GK \<longrightarrow> covered c L N x 0)"

lemma node_in_range:
  assumes "graph_wf G" "vidx G x" "c < 2"
  shows "node_cost (mknode s c x) = s" "node_color (mknode s c x) = c" "node_xi (mknode s c x) = x"
  using assms by (auto simp: graph_wf_def vidx_def)

lemma pinvD:
  assumes "pinv G sk gv c L R K GK C B M N"
  shows "L_ok G sk gv c L C B" "N_ok G sk gv c L N" "R_ok G c L R"
    "midx G mi \<Longrightarrow> M_ok G sk c L R K N C B M mi" "vidx G x \<Longrightarrow> gv x \<Longrightarrow> x \<notin> GK \<Longrightarrow> covered c L N x 0"
  using assms unfolding pinv_def by blast+

lemma returns_vidx: "graph_wf G \<Longrightarrow> midx G mi \<Longrightarrow> e \<in> set (m_returns (gmodel G mi)) \<Longrightarrow> vidx G (e_idx e)"
  by (auto simp: graph_wf_def model_wf_def)

lemma M_ok_transfer:
  assumes M: "M_ok G sk c L R K N C B M mi"
    and n: "nadd G c mi L' R' = nadd G c mi L R"
    and t: "take (nadd G c mi L R) (contrib G c mi L') = take (nadd G c mi L R) (contrib G c mi L)"
    and f: "nadd G c mi L R = length (params_rel G c mi) \<Longrightarrow> contrib G c mi L' = contrib G c mi L"
    and eq: "C' mi = C mi" "B' mi = B mi" "M' mi = M mi"
    and cov: "\<And>e s. e \<in> set (m_returns (gmodel G mi)) \<Longrightarrow> covered c L N (e_idx e) s \<Longrightarrow> covered c L' N' (e_idx e) s"
  shows "M_ok G sk c L' R' K N' C' B' M' mi"
proof (cases "nadd G c mi L R < length (params_rel G c mi) \<or> mi \<in> K")
  case True
  then show ?thesis using M unfolding M_ok_def n t eq by simp
next
  case F: False
  then have full: "nadd G c mi L R = length (params_rel G c mi)" using M by (auto simp: M_ok_def)
  show ?thesis
  proof (cases "sk mi")
    case True
    then show ?thesis using M F unfolding M_ok_def n t eq by simp
  next
    case False
    then have "M_done G sk c L N C B mi" using M F by (simp add: M_ok_def)
    then have "M_done G sk c L' N' C' B' mi" using cov unfolding M_done_def f [OF full] eq by blast
    then show ?thesis using M F False unfolding M_ok_def n t eq by simp
  qed
qed

text \<open>Removing a node whose variable is bound already keeps everything covered.\<close>

lemma covered_pop_old:
  assumes wf: "graph_wf G" "c < 2" "vidx G x" and cov: "covered c L (add_mset n N) x s"
    and old: "(node_xi n, s0) \<in> set L" "s0 \<le> node_cost n"
  shows "covered c L N x s"
  using cov old node_in_range [OF wf(1,3,2), of s] unfolding covered_def by auto

lemma pinv_pop_old:
  assumes wf: "graph_wf G" "c < 2" and inv: "pinv G sk gv c L [] K GK C B M (add_mset n N)"
    and old: "C (node_xi n)"
  shows "pinv G sk gv c L [] K GK C B M N"
proof -
  note I = pinvD [OF inv]
  have n: "vidx G (node_xi n)" "\<forall>(x, s) \<in> set L. s \<le> node_cost n" using I(2) by (auto simp: N_ok_def)
  then obtain s0 where s0: "(node_xi n, s0) \<in> set L" "s0 \<le> node_cost n"
    using I(1) old by (fastforce simp: L_ok_def)
  note cov = covered_pop_old [OF wf _ _ s0]
  have "M_ok G sk c L [] K N C B M mi" if "midx G mi" for mi
    using I(4) [OF that] by (rule M_ok_transfer) (use cov returns_vidx [OF wf(1) that] in auto)
  moreover have "N_ok G sk gv c L N" using I(2) by (simp add: N_ok_def)
  ultimately show ?thesis using I(1,3,5) cov unfolding pinv_def by blast
qed

lemma covered_pop_new:
  assumes wf: "graph_wf G" "c < 2" "vidx G x" and cov: "covered c L (add_mset n N) x s"
  shows "covered c (L @ [(node_xi n, node_cost n)]) N x s"
  using cov node_in_range [OF wf(1,3,2), of s] unfolding covered_def by auto

lemma nadd_pop_new:
  assumes wf: "graph_wf G" "c < 2" and x: "vidx G x" and mi: "midx G mi"
  shows "pend mi (filter (relp G c) (v_fwds (gvar G x))) = cnt G c mi x"
    "nadd G c mi (L @ [(x, s)]) (filter (relp G c) (v_fwds (gvar G x))) = nadd G c mi L []"
proof -
  have "c \<in> {GRAY, BLACK}" using wf(2) by (auto simp: GRAY_def BLACK_def)
  then show "pend mi (filter (relp G c) (v_fwds (gvar G x))) = cnt G c mi x"
    using wf(1) x mi by (auto simp: graph_wf_def var_wf_def pend_def)
  then show "nadd G c mi (L @ [(x, s)]) (filter (relp G c) (v_fwds (gvar G x))) = nadd G c mi L []"
    by (simp add: nadd_def)
qed

lemma pinv_pop_new:
  assumes wf: "graph_wf G" "c < 2" and inv: "pinv G sk gv c L [] {} {} C B M (add_mset n N)"
    and new: "\<not> C x" and x: "x = node_xi n" "s = node_cost n" and min: "\<forall>n' \<in># N. node_cost n \<le> node_cost n'"
  shows "pinv G sk gv c (L @ [(x, s)]) (filter (relp G c) (v_fwds (gvar G x))) {} {} (C(x := True)) (B(x := s)) M N"
proof -
  note I = pinvD [OF inv]
  have n: "vidx G x" "is_cost s" "derives G sk gv c x s" "\<forall>(y, t) \<in> set L. t \<le> s" "node_color n = c"
    using I(2) by (auto simp: N_ok_def x)
  have nx: "x \<notin> fst ` set L" using I(1) new n(1) by (auto simp: L_ok_def)
  let ?L = "L @ [(x, s)]" and ?R = "filter (relp G c) (v_fwds (gvar G x))"
  note cov = covered_pop_new [OF wf, of _ L n N, folded x]
  have "L_ok G sk gv c ?L (C(x := True)) (B(x := s))"
    unfolding L_ok_def
  proof (intro conjI)
    show "distinct (map fst ?L)" using I(1) nx by (simp add: L_ok_def)
    have "\<forall>t \<in> set (map snd L). t \<le> s" using n(4) by auto
    then show "sorted (map snd ?L)" using I(1) by (simp add: L_ok_def sorted_append)
    show "\<forall>(y, t) \<in> set ?L. vidx G y \<and> is_cost t \<and> (B(x := s)) y = t \<and> derives G sk gv c y t"
    proof
      fix p assume p: "p \<in> set ?L"
      show "case p of (y, t) \<Rightarrow> vidx G y \<and> is_cost t \<and> (B(x := s)) y = t \<and> derives G sk gv c y t"
      proof (cases "p \<in> set L")
        case True
        then have "fst p \<noteq> x" using nx by auto
        then show ?thesis using I(1) True by (auto simp: L_ok_def)
      next
        case False
        then show ?thesis using p n by simp
      qed
    qed
    show "\<forall>y. vidx G y \<longrightarrow> (C(x := True)) y = (y \<in> fst ` set ?L)" using I(1) by (simp add: L_ok_def)
  qed
  moreover have "N_ok G sk gv c ?L N" using I(2) min unfolding N_ok_def x by auto
  moreover have "R_ok G c ?L ?R"
    using nadd_pop_new(1) [OF wf n(1)] wf(1) n(1) by (auto simp: R_ok_def graph_wf_def var_wf_def)
  moreover have "M_ok G sk c ?L ?R {} N (C(x := True)) (B(x := s)) M mi" if mi: "midx G mi" for mi
  proof -
    have ne: "mi \<noteq> x" using vm_disjoint [OF n(1)] mi by auto
    note na = nadd_pop_new(2) [OF wf n(1) mi]
    have M: "M_ok G sk c L [] {} (add_mset n N) C B M mi" using I(4) mi by blast
    have tk: "take (nadd G c mi L []) (contrib G c mi ?L) = take (nadd G c mi L []) (contrib G c mi L)"
      by (simp add: nadd_def)
    have full: "contrib G c mi ?L = contrib G c mi L" if "nadd G c mi L [] = length (params_rel G c mi)"
    proof -
      have "length (contrib G c mi ?L) \<le> length (params_rel G c mi)"
        using I(1) nx by (intro contrib_le(1)) (auto simp: L_ok_def)
      then show ?thesis using that by (simp add: nadd_def)
    qed
    from M show ?thesis by (rule M_ok_transfer) (use full na tk ne cov returns_vidx [OF wf(1) mi] in auto)
  qed
  moreover have "covered c ?L N y 0" if "vidx G y" "gv y" for y using I(5) [OF that] cov [OF that(1)] by simp
  ultimately show ?thesis unfolding pinv_def by blast
qed

section \<open>Completing a model\<close>

lemma pens_cost: "graph_wf G \<Longrightarrow> midx G mi \<Longrightarrow> \<forall>p \<in> set (pens G sk c mi). is_cost p"
  by (auto simp: pens_def graph_wf_def model_wf_def)

lemma total_cost_ge:
  assumes "graph_wf G" "midx G mi" "is_cost S"
  shows "is_cost (total_cost G sk c mi S)" "S \<le> total_cost G sk c mi S"
proof -
  have par: "cost_par (m_k (gmodel G mi)) (m_c (gmodel G mi))" using assms(1,2) by (auto simp: graph_wf_def model_wf_def)
  have c: "is_cost (fsum S (pens G sk c mi))" using assms(3) pens_cost [OF assms(1,2)] by (intro fsum_cost) auto
  then show "is_cost (total_cost G sk c mi S)" using par by (simp add: total_cost_def m_costf_def costf_cost)
  have "S \<le> fsum S (pens G sk c mi)" using assms(3) pens_cost [OF assms(1,2)] by (intro fsum_ge)
  also have "\<dots> \<le> total_cost G sk c mi S" using par c by (simp add: total_cost_def m_costf_def costf_ge)
  finally show "S \<le> total_cost G sk c mi S" .
qed

lemma total_cost_mono:
  assumes "graph_wf G" "midx G mi" "is_cost S'" "S \<le> S'"
  shows "total_cost G sk c mi S \<le> total_cost G sk c mi S'"
proof -
  have par: "cost_par (m_k (gmodel G mi)) (m_c (gmodel G mi))" using assms(1,2) by (auto simp: graph_wf_def model_wf_def)
  have "fsum S (pens G sk c mi) \<le> fsum S' (pens G sk c mi)"
    using assms(3,4) pens_cost [OF assms(1,2)] by (intro fsum_mono) (auto simp: list_all2_refl)
  moreover have "is_cost (fsum S' (pens G sk c mi))" using assms(3) pens_cost [OF assms(1,2)] by (intro fsum_cost) auto
  ultimately show ?thesis using par by (simp add: total_cost_def m_costf_def costf_mono)
qed

definition ret_nodes :: "fhk_graph \<Rightarrow> nat \<Rightarrow> int \<Rightarrow> f32 \<Rightarrow> hnode multiset" where
  "ret_nodes G c mi v = mset (map (\<lambda>e. mknode v c (e_idx e)) (filter (relr G c) (m_returns (gmodel G mi))))"

lemma contrib_cost: "L_ok G sk gv c L C B \<Longrightarrow> \<forall>t \<in> set (contrib G c mi L). is_cost t"
  using contrib_sorted [of L G c mi] by (fastforce simp: L_ok_def)

lemma complete_derives:
  assumes wf: "graph_wf G" and L: "L_ok G sk gv c L C B" and mi: "midx G mi" "\<not> sk mi"
    and full: "length (contrib G c mi L) = length (params_rel G c mi)"
    and e: "e \<in> set (m_returns (gmodel G mi))" "relr G c e"
  shows "derives G sk gv c (e_idx e) (total_cost G sk c mi (fsum 0 (contrib G c mi L)))"
proof -
  let ?Q = "params_rel G c mi" and ?cs = "map (\<lambda>e. the (map_of L (e_idx e))) (params_rel G c mi)"
  have d: "distinct (map fst L)" "sorted (map snd L)" using L by (auto simp: L_ok_def)
  have "derives G sk gv c (e_idx q) (the (map_of L (e_idx q)))" if "q \<in> set ?Q" for q
  proof -
    have "e_idx q \<in> fst ` set L" using contrib_le(2) [OF d(1) full] that by blast
    then obtain t where "(e_idx q, t) \<in> set L" by auto
    then show ?thesis using L d(1) by (auto simp: L_ok_def)
  qed
  then have "list_all2 (\<lambda>e s. derives G sk gv c (e_idx e) s) ?Q ?cs" by (simp add: list_all2_conv_all_nth)
  from derives.model [OF mi this e] show ?thesis
    by (simp add: mcost_def total_cost_def contrib_full [OF d(1) full d(2)])
qed

lemma covered_mono: "covered c L N x s \<Longrightarrow> N \<subseteq># N' \<Longrightarrow> covered c L N' x s"
  by (auto simp: covered_def mset_subset_eqD)

lemma pinv_complete:
  assumes wf: "graph_wf G" "c < 2"
    and L: "L_ok G sk gv c L C B" and N: "N_ok G sk gv c L N" and mi: "midx G mi" "\<not> sk mi"
    and full: "length (contrib G c mi L) = length (params_rel G c mi)"
    and top: "\<forall>(x, t) \<in> set L. t \<le> fsum 0 (contrib G c mi L)"
    and v: "v = total_cost G sk c mi (fsum 0 (contrib G c mi L))"
  shows "N_ok G sk gv c L (N + ret_nodes G c mi v)"
    and "M_done G sk c L (N + ret_nodes G c mi v) (C(mi := True)) (B(mi := v)) mi"
proof -
  have s: "is_cost (fsum 0 (contrib G c mi L))" using contrib_cost [OF L] by (intro fsum_cost) auto
  note t = total_cost_ge [OF wf(1) mi(1) s, of sk c, folded v]
  have node: "node_color n = c \<and> vidx G (node_xi n) \<and> is_cost (node_cost n) \<and> derives G sk gv c (node_xi n) (node_cost n) \<and>
      (\<forall>(x, s) \<in> set L. s \<le> node_cost n)" if n: "n \<in># ret_nodes G c mi v" for n
  proof -
    obtain e where e: "e \<in> set (m_returns (gmodel G mi))" "relr G c e" "n = mknode v c (e_idx e)"
      using n by (auto simp: ret_nodes_def)
    note vi = returns_vidx [OF wf(1) mi(1) e(1)]
    have "\<forall>(x, s) \<in> set L. s \<le> v" using top order_trans [OF _ t(2)] by auto
    then show ?thesis using e node_in_range [OF wf(1) vi wf(2)] vi t(1) complete_derives [OF wf(1) L mi full e(1,2)]
      by (simp add: v)
  qed
  show "N_ok G sk gv c L (N + ret_nodes G c mi v)" unfolding N_ok_def
  proof
    fix n assume "n \<in># N + ret_nodes G c mi v"
    then show "node_color n = c \<and> vidx G (node_xi n) \<and> is_cost (node_cost n) \<and> derives G sk gv c (node_xi n) (node_cost n) \<and>
      (\<forall>(x, s) \<in> set L. s \<le> node_cost n)" using node N unfolding N_ok_def union_iff by blast
  qed
  have "covered c L (N + ret_nodes G c mi v) (e_idx e) v"
    if "e \<in> set (m_returns (gmodel G mi))" "relr G c e" for e
    using that by (auto simp: covered_def ret_nodes_def)
  then show "M_done G sk c L (N + ret_nodes G c mi v) (C(mi := True)) (B(mi := v)) mi"
    by (simp add: M_done_def v)
qed

section \<open>One forward edge\<close>

lemma fwd_facts:
  assumes inv: "pinv G sk gv c L (e # R) {} {} C B M N"
  defines "mi \<equiv> e_idx e" and "a \<equiv> nadd G c (e_idx e) L (e # R)" and "q \<equiv> length (params_rel G c (e_idx e))"
  shows "midx G mi" "a < q" "unat (M mi) = q - a" "B mi = fsum 0 (take a (contrib G c mi L))" "\<not> C mi"
    "nadd G c mi L R = Suc a" "Suc a \<le> length (contrib G c mi L)" "length (contrib G c mi L) \<le> q"
    "take (Suc a) (contrib G c mi L) = take a (contrib G c mi L) @ [snd (last L)]" "L \<noteq> []"
    "\<And>mj. mj \<noteq> mi \<Longrightarrow> nadd G c mj L R = nadd G c mj L (e # R)" "R_ok G c L R"
proof -
  note I = pinvD [OF inv]
  show mi: "midx G mi" and L: "L \<noteq> []" using I(3) by (auto simp: R_ok_def mi_def)
  obtain L0 x s where Ls: "L = L0 @ [(x, s)]" using L by (metis surj_pair rev_exhaust)
  then have ls: "snd (last L) = s" by simp
  have pe: "pend mi (e # R) \<le> cnt G c mi x" using I(3) mi L by (simp add: R_ok_def Ls)
  then have p1: "Suc (pend mi R) \<le> cnt G c mi x" by (simp add: mi_def)
  have ct: "contrib G c mi L = contrib G c mi L0 @ replicate (cnt G c mi x) s" by (simp add: Ls)
  have av: "a = length (contrib G c mi L) - Suc (pend mi R)" by (simp add: a_def nadd_def mi_def)
  have a: "a = length (contrib G c mi L0) + (cnt G c mi x - Suc (pend mi R))"
    using p1 unfolding av ct by simp
  show na: "nadd G c mi L R = Suc a" using p1 ct by (simp add: nadd_def a)
  show le: "Suc a \<le> length (contrib G c mi L)" using p1 by (simp add: a ct)
  show cq: "length (contrib G c mi L) \<le> q" unfolding q_def using I(1) contrib_le(1) [of L G c mi] by (simp add: L_ok_def mi_def)
  then show aq: "a < q" using le by simp
  have M: "M_ok G sk c L (e # R) {} N C B M mi" using I(4) mi by blast
  then show "unat (M mi) = q - a" "B mi = fsum 0 (take a (contrib G c mi L))" "\<not> C mi"
    using aq unfolding M_ok_def a_def q_def mi_def by auto
  have "length (contrib G c mi L0) \<le> a" "a - length (contrib G c mi L0) < cnt G c mi x" using p1 a by linarith+
  then have "contrib G c mi L ! a = s" by (simp add: ct nth_append)
  then show "take (Suc a) (contrib G c mi L) = take a (contrib G c mi L) @ [snd (last L)]"
    using take_Suc_conv_app_nth [of a "contrib G c mi L"] le ls by simp
  show "nadd G c mj L R = nadd G c mj L (e # R)" if "mj \<noteq> mi" for mj using that by (simp add: nadd_def mi_def)
  have "pend mj R \<le> cnt G c mj (fst (last L))" if "midx G mj" for mj
  proof -
    have "pend mj (e # R) \<le> cnt G c mj (fst (last L))" using I(3) L that unfolding R_ok_def by simp
    then show ?thesis by simp
  qed
  moreover have "\<forall>e \<in> set R. midx G (e_idx e)" using I(3) unfolding R_ok_def by simp
  ultimately show "R_ok G c L R" using L unfolding R_ok_def by simp
qed

text \<open>The other models are untouched.\<close>

lemma fwd_other:
  assumes inv: "pinv G sk gv c L (e # R) {} {} C B M N" and mj: "midx G mj" "mj \<noteq> e_idx e" and sub: "N \<subseteq># N'"
    and eq: "C' mj = C mj" "B' mj = B mj" "M' mj = M mj"
  shows "M_ok G sk c L R {} N' C' B' M' mj"
  using pinvD(4) [OF inv mj(1)]
  by (rule M_ok_transfer) (use fwd_facts(11) [OF inv mj(2)] eq covered_mono [OF _ sub] in auto)

lemma L_ok_models:
  assumes "L_ok G sk gv c L C B" "midx G mi" "\<And>x. x \<noteq> mi \<Longrightarrow> C' x = C x \<and> B' x = B x"
  shows "L_ok G sk gv c L C' B'"
proof -
  have ne: "x \<noteq> mi" if "vidx G x" for x using that assms(2) vm_disjoint by blast
  have "B' x = s" if "(x, s) \<in> set L" for x s using assms(1,3) that ne [of x] by (auto simp: L_ok_def)
  moreover have "C' x = C x" if "vidx G x" for x using assms(3) ne [OF that] by blast
  ultimately show ?thesis using assms(1) unfolding L_ok_def by auto
qed

lemma pinv_fwd_more:
  assumes inv: "pinv G sk gv c L (e # R) {} {} C B M N" and mi: "mi = e_idx e"
    and more: "M mi - 1 \<noteq> 0 \<or> sk mi"
  shows "pinv G sk gv c L R {} {} C (B(mi := fadd (B mi) (snd (last L)))) (M(mi := M mi - 1)) N"
    (is "pinv G sk gv c L R {} {} C ?B ?M N")
proof -
  note I = pinvD [OF inv] and F = fwd_facts [OF inv, folded mi]
  have m1: "unat (M mi - 1) = length (params_rel G c mi) - Suc (nadd G c mi L (e # R))"
    using F(2,3) unat_minus_one [of "M mi"] by (cases "M mi = 0") auto
  have b: "?B mi = fsum 0 (take (Suc (nadd G c mi L (e # R))) (contrib G c mi L))"
    using F(4,9) by simp
  have "M_ok G sk c L R {} N C ?B ?M mi"
    using F(2,5,6) m1 b more unfolding M_ok_def by (auto simp: unat_eq_0)
  moreover have "M_ok G sk c L R {} N C ?B ?M mj" if "midx G mj" "mj \<noteq> mi" for mj
    using that mi by (intro fwd_other [OF inv]) auto
  ultimately have "M_ok G sk c L R {} N C ?B ?M mj" if "midx G mj" for mj using that by blast
  moreover have "L_ok G sk gv c L C ?B" using I(1) F(1) by (rule L_ok_models) simp
  ultimately show ?thesis using I(2,5) F(12) unfolding pinv_def by blast
qed

lemma pinv_fwd_done:
  assumes wf: "graph_wf G" "c < 2" and inv: "pinv G sk gv c L (e # R) {} {} C B M N" and mi: "mi = e_idx e"
    and don: "M mi - 1 = 0" "\<not> sk mi" and v: "v = total_cost G sk c mi (fadd (B mi) (snd (last L)))"
  shows "pinv G sk gv c L R {} {} (C(mi := True)) (B(mi := v)) (M(mi := 0)) (N + ret_nodes G c mi v)"
    (is "pinv G sk gv c L R {} {} ?C ?B ?M ?N")
proof -
  note I = pinvD [OF inv] and F = fwd_facts [OF inv, folded mi]
  have "M mi = 1" using don(1) by simp
  then have M1: "unat (M mi) = 1" by simp
  then have q: "length (params_rel G c mi) = Suc (nadd G c mi L (e # R))" using F(2,3) by linarith
  then have full: "length (contrib G c mi L) = length (params_rel G c mi)" using F(7,8) by simp
  then have tk: "take (Suc (nadd G c mi L (e # R))) (contrib G c mi L) = contrib G c mi L" using q by simp
  have S: "fadd (B mi) (snd (last L)) = fsum 0 (contrib G c mi L)"
    using F(4,9) unfolding tk by (metis fsum_simps)
  have "snd (last L) \<in> set (contrib G c mi L)" using F(9) unfolding tk by (metis in_set_conv_decomp)
  then have top: "snd (last L) \<le> fsum 0 (contrib G c mi L)" using contrib_cost [OF I(1)] by (intro fsum_mem_ge) auto
  have "t \<le> snd (last L)" if "(x, t) \<in> set L" for x t
  proof -
    obtain L0 y s where Ls: "L = L0 @ [(y, s)]" using F(10) by (metis surj_pair rev_exhaust)
    then have "\<forall>u \<in> set (map snd L0). u \<le> s" using I(1) by (simp add: L_ok_def sorted_append)
    then show ?thesis using that Ls by force
  qed
  then have top': "\<forall>(x, t) \<in> set L. t \<le> fsum 0 (contrib G c mi L)" using order_trans [OF _ top] by blast
  note P = pinv_complete [OF wf I(1,2) F(1) don(2) full top' v [unfolded S]]
  have "M_ok G sk c L R {} ?N ?C ?B ?M mi" unfolding M_ok_def using F(6) q P(2) don(2) by simp
  moreover have "M_ok G sk c L R {} ?N ?C ?B ?M mj" if "midx G mj" "mj \<noteq> mi" for mj
    using that mi by (intro fwd_other [OF inv]) auto
  ultimately have "M_ok G sk c L R {} ?N ?C ?B ?M mj" if "midx G mj" for mj using that by blast
  moreover have "L_ok G sk gv c L ?C ?B" using I(1) F(1) by (rule L_ok_models) simp
  moreover have "covered c L ?N x 0" if "vidx G x" "gv x" for x
    using I(5) [OF that] covered_mono [of c L N x 0 ?N] by simp
  ultimately show ?thesis using P(1) F(12) unfolding pinv_def by blast
qed

section \<open>The start-up phases\<close>

lemma nadd_Nil [simp]: "nadd G c mi [] R = 0"
  by (simp add: nadd_def)

lemma pinv_const_done:
  assumes wf: "graph_wf G" "c < 2" and inv: "pinv G sk gv c [] [] K GK C B M N" and mi: "midx G mi" "mi \<in> K"
    and don: "M mi = 0" "\<not> sk mi" and v: "v = total_cost G sk c mi (B mi)"
  shows "pinv G sk gv c [] [] (K - {mi}) GK (C(mi := True)) (B(mi := v)) M (N + ret_nodes G c mi v)"
    (is "pinv G sk gv c [] [] ?K GK ?C ?B M ?N")
proof -
  note I = pinvD [OF inv]
  have M: "params_rel G c mi = []" "B mi = 0" using I(4) [OF mi(1)] mi(2) don(1) by (auto simp: M_ok_def)
  note P = pinv_complete [OF wf I(1,2) mi(1) don(2), of v] 
  have "M_ok G sk c [] [] ?K ?N ?C ?B M mi" using P(2) M don v by (simp add: M_ok_def)
  moreover have "M_ok G sk c [] [] ?K ?N ?C ?B M mj" if "midx G mj" "mj \<noteq> mi" for mj
  proof -
    have "M_ok G sk c [] [] ?K N C B M mj" using I(4) [OF that(1)] that(2) by (simp add: M_ok_def)
    then show ?thesis by (rule M_ok_transfer) (use that(2) covered_mono [of c "[]" N _ _ ?N] in auto)
  qed
  ultimately have "M_ok G sk c [] [] ?K ?N ?C ?B M mj" if "midx G mj" for mj using that by blast
  moreover have "L_ok G sk gv c [] ?C ?B" using I(1) mi(1) by (rule L_ok_models) simp
  moreover have "covered c [] ?N x 0" if "vidx G x" "gv x" "x \<notin> GK" for x
    using I(5) [OF that] covered_mono [of c "[]" N x 0 ?N] by simp
  moreover have "N_ok G sk gv c [] ?N" using P(1) M v by simp
  ultimately show ?thesis using I(3) unfolding pinv_def by blast
qed

lemma pinv_const_other:
  assumes inv: "pinv G sk gv c [] [] K GK C B M N" and other: "M mi \<noteq> 0 \<or> sk mi"
  shows "pinv G sk gv c [] [] (K - {mi}) GK C B M N"
proof -
  note I = pinvD [OF inv]
  have "M_ok G sk c [] [] (K - {mi}) N C B M mj" if "midx G mj" for mj
    using I(4) [OF that] other by (cases "mj = mi") (auto simp: M_ok_def unat_eq_zero split: if_splits)
  then show ?thesis using I(1-3,5) unfolding pinv_def by blast
qed

lemma pinv_given:
  assumes wf: "graph_wf G" "c < 2" and inv: "pinv G sk gv c [] [] K GK C B M N" and x: "vidx G x" "gv x"
  shows "pinv G sk gv c [] [] K (GK - {x}) C B M (add_mset (mknode 0 c x) N)" (is "pinv G sk gv c [] [] K ?GK C B M ?N")
proof -
  note I = pinvD [OF inv] and cov = covered_mono [of c "[]" N _ _ ?N]
  have "M_ok G sk c [] [] K ?N C B M mj" if "midx G mj" for mj
    using I(4) [OF that] by (rule M_ok_transfer) (use cov in auto)
  moreover have "N_ok G sk gv c [] ?N" using I(2) node_in_range [OF wf(1) x(1) wf(2)] x derives.given [of G x gv sk c]
    by (simp add: N_ok_def)
  moreover have "covered c [] ?N y 0" if "vidx G y" "gv y" "y \<notin> ?GK" for y
    using I(5) [OF that(1,2)] that(3) cov by (cases "y = x") (auto simp: covered_def)
  ultimately show ?thesis using I(1,3) unfolding pinv_def by blast
qed

lemma pinv_start:
  assumes "\<forall>mi. midx G mi \<longrightarrow> unat (M mi) = length (params_rel G c mi) \<and> B mi = 0 \<and> \<not> C mi" "\<forall>x. vidx G x \<longrightarrow> \<not> C x"
  shows "pinv G sk gv c [] [] {mi. midx G mi} {x. vidx G x} C B M {#}"
  using assms by (auto simp: pinv_def L_ok_def N_ok_def R_ok_def M_ok_def)

section \<open>Flags\<close>

lemma or_zero_iff: "(a :: u8) OR b = 0 \<longleftrightarrow> a = 0 \<and> b = 0"
  by (auto simp: bit_eq_iff bit_or_iff)

lemma has_set_flag [simp]: "has (set_flag f i P) j g \<longleftrightarrow> has P j g \<or> (i = j \<and> f AND g \<noteq> 0)"
  by (auto simp: has_def set_flag_def bit.conj_disj_distrib2 or_zero_iff)

lemma set_fields [simp]:
  "heap (set_flag f i P) = heap P" "bound (set_flag f i P) = bound P" "p_miss (set_flag f i P) = p_miss P"
  "heap (set_bound i c v P) = heap P" "has (set_bound i c v P) = has P" "p_miss (set_bound i c v P) = p_miss P"
  "heap (set_miss i c w P) = heap P" "has (set_miss i c w P) = has P" "bound (set_miss i c w P) = bound P"
  "bound (set_bound i c v P) = (bound P)(i := (bound P i)(c := v))"
  "p_miss (set_miss i c w P) = (p_miss P)(i := (p_miss P i)(c := w))"
  "has (P\<lparr>heap := H\<rparr>) = has P"
  by (simp_all add: set_flag_def set_bound_def set_miss_def has_def fun_eq_iff)

lemmas flag_defs = FHKF_GIVEN_def FHKF_SKIP_def FHKF_SELECT_def RETEDGE_def SELECTED_def COLOR_def GRAY_def BLACK_def

lemma color_nonzero [simp]: "c < 2 \<Longrightarrow> COLOR c \<noteq> 0"
  by (auto simp: flag_defs less_2_cases_iff)

lemma color_flags [simp]:
  "c < 2 \<Longrightarrow> d < 2 \<Longrightarrow> COLOR c AND COLOR d \<noteq> 0 \<longleftrightarrow> c = d"
  "c < 2 \<Longrightarrow> COLOR c AND SELECTED = 0" "c < 2 \<Longrightarrow> COLOR c AND FHKF_SKIP = 0" "c < 2 \<Longrightarrow> COLOR c AND FHKF_GIVEN = 0"
  "c < 2 \<Longrightarrow> FHKF_SKIP AND COLOR c = 0" "c < 2 \<Longrightarrow> (SELECTED OR FHKF_SELECT) AND COLOR c = 0" "c < 2 \<Longrightarrow> RETEDGE AND COLOR c = 0"
  by (auto simp: flag_defs less_2_cases_iff)


section \<open>The invariant on the pruner's state\<close>

definition nodes_of :: "nat \<Rightarrow> prune \<Rightarrow> hnode multiset" where
  "nodes_of c P = filter_mset (\<lambda>n. node_color n = c) (heap_elems (heap P))"

definition view :: "fhk_graph \<Rightarrow> (int \<Rightarrow> bool) \<Rightarrow> (int \<Rightarrow> bool) \<Rightarrow> nat \<Rightarrow> (int \<times> f32) list \<Rightarrow> fhk_edge list \<Rightarrow>
    int set \<Rightarrow> int set \<Rightarrow> prune \<Rightarrow> bool" where
  "view G sk gv c L R K GK P \<longleftrightarrow>
     pinv G sk gv c L R K GK (\<lambda>i. has P i (COLOR c)) (\<lambda>i. bound P i c) (\<lambda>i. p_miss P i c) (nodes_of c P)"

text \<open>The part of the state that does not belong to one colour.\<close>

definition common :: "fhk_graph \<Rightarrow> (int \<Rightarrow> bool) \<Rightarrow> prune \<Rightarrow> bool" where
  "common G sk P \<longleftrightarrow> heap_inv (heap P) \<and> (\<forall>n \<in># heap_elems (heap P). node_color n < 2) \<and> (\<forall>i. has P i FHKF_SKIP \<longleftrightarrow> sk i) \<and> (\<forall>i. \<not> has P i SELECTED)"

text \<open>What a step of colour \<open>c\<close> leaves alone.\<close>

definition other_same :: "nat \<Rightarrow> prune \<Rightarrow> prune \<Rightarrow> bool" where
  "other_same c P P' \<longleftrightarrow> (\<forall>d < 2. d \<noteq> c \<longrightarrow> (\<forall>i. has P' i (COLOR d) = has P i (COLOR d) \<and> bound P' i d = bound P i d \<and>
     p_miss P' i d = p_miss P i d) \<and> nodes_of d P' = nodes_of d P)"

lemma other_same_view:
  assumes "other_same c P P'" "d < 2" "d \<noteq> c" "view G sk gv d L R K GK P"
  shows "view G sk gv d L R K GK P'"
  using assms by (simp add: view_def other_same_def)

lemma other_same_trans: "other_same c P P' \<Longrightarrow> other_same c P' P'' \<Longrightarrow> other_same c P P''"
  by (simp add: other_same_def)

lemma other_same_refl: "other_same c P P"
  by (simp add: other_same_def)

lemma insert_var_spec:
  assumes wf: "graph_wf G" "c < 2" "vidx G x" and com: "common G sk P"
    and ins: "prune_insert_var (bounded ralloc) x v c P = Inr P'"
  shows "P' = P\<lparr>heap := heap P'\<rparr>" "common G sk P'" "nodes_of c P' = add_mset (mknode v c x) (nodes_of c P)"
    "other_same c P P'"
proof -
  obtain H where H: "heap_insert (bounded ralloc) (heap P) (mknode v c x) = Some H" "P' = P\<lparr>heap := H\<rparr>"
    using ins by (auto simp: prune_insert_var_def prune_fail_def split: option.splits)
  have h: "heap_inv H \<and> heap_elems H = add_mset (mknode v c x) (heap_elems (heap P))"
    using com H(1) by (intro hp.ins_elems) (auto simp: common_def)
  note n = node_in_range [OF wf(1,3,2)]
  show "P' = P\<lparr>heap := heap P'\<rparr>" using H(2) by simp
  show "common G sk P'" using com h H(2) n wf(2) by (simp add: common_def)
  show "nodes_of c P' = add_mset (mknode v c x) (nodes_of c P)" using h H(2) n by (simp add: nodes_of_def)
  show "other_same c P P'" using h H(2) n by (simp add: other_same_def nodes_of_def)
qed

lemma insert_returns_spec:
  assumes wf: "graph_wf G" "c < 2"
  shows "\<forall>e \<in> set es. vidx G (e_idx e) \<Longrightarrow> common G sk P \<Longrightarrow>
     foldP (\<lambda>e P. if c = GRAY \<or> xnonempty G (e_map e) then prune_insert_var (bounded ralloc) (e_idx e) v c P else Inr P) es P
       = Inr P' \<Longrightarrow>
     P' = P\<lparr>heap := heap P'\<rparr> \<and> common G sk P' \<and> other_same c P P' \<and>
     nodes_of c P' = nodes_of c P + mset (map (\<lambda>e. mknode v c (e_idx e)) (filter (relr G c) es))"
proof (induction es arbitrary: P)
  case Nil
  then show ?case by (simp add: other_same_refl)
next
  case (Cons e es)
  show ?case
  proof (cases "relr G c e")
    case False
    then show ?thesis using Cons by (simp add: relr_def)
  next
    case True
    then obtain P1 where P1: "prune_insert_var (bounded ralloc) (e_idx e) v c P = Inr P1"
      and rest: "foldP (\<lambda>e P. if c = GRAY \<or> xnonempty G (e_map e)
          then prune_insert_var (bounded ralloc) (e_idx e) v c P else Inr P) es P1 = Inr P'"
      using Cons.prems(3) unfolding relr_def by (auto split: sum.splits)
    note S = insert_var_spec [OF wf _ Cons.prems(2) P1]
    have vi: "vidx G (e_idx e)" using Cons.prems(1) by simp
    note IH = Cons.IH [OF _ S(2) [OF vi] rest]
    have "P' = P\<lparr>heap := heap P'\<rparr>"
      using IH Cons.prems(1) arg_cong [OF S(1) [OF vi], of "\<lambda>p. p\<lparr>heap := heap P'\<rparr>"] by simp
    then show ?thesis using IH S [OF vi] Cons.prems(1) True other_same_trans by auto
  qed
qed

lemma shadow_fold:
  assumes "\<forall>i. has P i FHKF_SKIP \<longleftrightarrow> sk i"
  shows "fold (\<lambda>sh cost. if c = BLACK \<or> shadow_skip G P sh then fadd cost (se_penalty sh) else cost) shs b =
     fsum b (map se_penalty (filter (\<lambda>sh. c = BLACK \<or> sk (w_xi (gshadow G (se_idx sh)))) shs))"
  using assms by (induction shs arbitrary: b) (auto simp: shadow_skip_def)

lemma bound_model_spec:
  assumes wf: "graph_wf G" "c < 2" and mi: "midx G mi" and com: "common G sk P"
    and run: "prune_bound_model (bounded ralloc) G mi c P = Inr P'"
  defines "v \<equiv> total_cost G sk c mi (bound P mi c)"
  shows "sk mi \<Longrightarrow> P' = P"
    and "\<not> sk mi \<Longrightarrow> common G sk P' \<and> other_same c P P' \<and> nodes_of c P' = nodes_of c P + ret_nodes G c mi v \<and>
       (\<lambda>i. has P' i (COLOR c)) = (\<lambda>i. has P i (COLOR c))(mi := True) \<and>
       (\<lambda>i. bound P' i c) = (\<lambda>i. bound P i c)(mi := v) \<and> (\<lambda>i. p_miss P' i c) = (\<lambda>i. p_miss P i c)"
proof -
  have sk: "\<forall>i. has P i FHKF_SKIP \<longleftrightarrow> sk i" using com by (simp add: common_def)
  show "sk mi \<Longrightarrow> P' = P" using run sk by (simp add: prune_bound_model_def)
  assume ns: "\<not> sk mi"
  let ?P1 = "set_flag (COLOR c) mi P"
  let ?P2 = "set_bound mi c v ?P1"
  have sk1: "\<forall>i. has ?P1 i FHKF_SKIP \<longleftrightarrow> sk i" using sk wf(2) by simp
  have tot: "m_costf (gmodel G mi) (fold (\<lambda>sh cost. if c = BLACK \<or> shadow_skip G ?P1 sh then fadd cost (se_penalty sh) else cost)
      (m_shadows (gmodel G mi)) (bound ?P1 mi c)) = v"
    unfolding shadow_fold [OF sk1] v_def total_cost_def pens_def by simp
  have run2: "foldP (\<lambda>e P. if c = GRAY \<or> xnonempty G (e_map e) then prune_insert_var (bounded ralloc) (e_idx e) v c P else Inr P)
      (m_returns (gmodel G mi)) ?P2 = Inr P'"
    using run ns sk unfolding prune_bound_model_def Let_def tot by simp
  have com2: "common G sk ?P2" using com wf(2) by (auto simp: common_def)
  have vi: "\<forall>e \<in> set (m_returns (gmodel G mi)). vidx G (e_idx e)" using returns_vidx [OF wf(1) mi] by blast
  note S = insert_returns_spec [OF wf vi com2 run2]
  have e: "P' = ?P2\<lparr>heap := heap P'\<rparr>" using S by blast
  have P': "has P' = has ?P2" "bound P' = bound ?P2" "p_miss P' = p_miss ?P2"
    using arg_cong [OF e, of has] arg_cong [OF e, of bound] arg_cong [OF e, of p_miss] by simp_all
  have n2: "nodes_of d ?P2 = nodes_of d P" for d by (simp add: nodes_of_def)
  have "other_same c P ?P2" using wf(2) n2 by (auto simp: other_same_def)
  then have "other_same c P P'" using S other_same_trans by blast
  then show "common G sk P' \<and> other_same c P P' \<and> nodes_of c P' = nodes_of c P + ret_nodes G c mi v \<and>
       (\<lambda>i. has P' i (COLOR c)) = (\<lambda>i. has P i (COLOR c))(mi := True) \<and>
       (\<lambda>i. bound P' i c) = (\<lambda>i. bound P i c)(mi := v) \<and> (\<lambda>i. p_miss P' i c) = (\<lambda>i. p_miss P i c)"
    using S n2 wf(2) unfolding P' by (auto simp: ret_nodes_def fun_eq_iff)
qed

section \<open>Propagation keeps the invariant\<close>

lemma other_same_set:
  "c < 2 \<Longrightarrow> other_same c P (set_bound i c v P)" "c < 2 \<Longrightarrow> other_same c P (set_miss i c w P)"
  "c < 2 \<Longrightarrow> other_same c P (set_flag (COLOR c) i P)"
  by (auto simp: other_same_def nodes_of_def)

lemma common_set: 
  "common G sk (set_bound i c v P) = common G sk P" "common G sk (set_miss i c w P) = common G sk P"
  "c < 2 \<Longrightarrow> common G sk (set_flag (COLOR c) i P) = common G sk P"
  by (auto simp: common_def)

lemma fwd_spec:
  assumes wf: "graph_wf G" "c < 2" and com: "common G sk P" and vw: "view G sk gv c L (e # R) {} {} P"
    and rel: "relp G c e" and run: "prune_fwd (bounded ralloc) G (snd (last L)) c e P = Inr P'"
  shows "common G sk P' \<and> other_same c P P' \<and> view G sk gv c L R {} {} P'"
proof -
  let ?mi = "e_idx e" and ?s = "snd (last L)"
  note inv = vw [unfolded view_def]
  have mi: "midx G ?mi" by (rule fwd_facts(1) [OF inv])
  let ?P2 = "set_miss ?mi c (p_miss P ?mi c - 1) (set_bound ?mi c (fadd (bound P ?mi c) ?s) P)"
  have run2: "(if p_miss P ?mi c - 1 = 0 then prune_bound_model (bounded ralloc) G ?mi c ?P2 else Inr ?P2) = Inr P'"
    using run unfolding prune_fwd_def Let_def if_not_P [OF rel [unfolded relp_def]]
    by (simp only: set_fields fun_upd_same)
  have com2: "common G sk ?P2" and os2: "other_same c P ?P2"
    using com wf(2) other_same_trans [OF other_same_set(1) other_same_set(2)] by (auto simp: common_set)
  have n2: "nodes_of d ?P2 = nodes_of d P" for d by (simp add: nodes_of_def)
  have more: "view G sk gv c L R {} {} ?P2" if "p_miss P ?mi c - 1 \<noteq> 0 \<or> sk ?mi"
  proof -
    have "(\<lambda>i. bound ?P2 i c) = (\<lambda>i. bound P i c)(?mi := fadd (bound P ?mi c) ?s)"
      "(\<lambda>i. p_miss ?P2 i c) = (\<lambda>i. p_miss P i c)(?mi := p_miss P ?mi c - 1)"
      "(\<lambda>i. has ?P2 i (COLOR c)) = (\<lambda>i. has P i (COLOR c))" by (simp_all add: fun_eq_iff)
    then show ?thesis using pinv_fwd_more [OF inv refl that] unfolding view_def n2 by (simp only:)
  qed
  show ?thesis
  proof (cases "p_miss P ?mi c - 1 = 0")
    case False
    then show ?thesis using run2 more com2 os2 by simp
  next
    case True
    then have bm: "prune_bound_model (bounded ralloc) G ?mi c ?P2 = Inr P'" using run2 by simp
    note B = bound_model_spec [OF wf mi com2 bm]
    show ?thesis
    proof (cases "sk ?mi")
      case sk: True
      then show ?thesis using B(1) more com2 os2 by simp
    next
      case False
      define v where "v = total_cost G sk c ?mi (fadd (bound P ?mi c) ?s)"
      have v: "total_cost G sk c ?mi (bound ?P2 ?mi c) = v" by (simp add: v_def)
      note B2 = B(2) [OF False, unfolded v]
      have "view G sk gv c L R {} {} P'"
      proof -
        have "(\<lambda>i. bound ?P2 i c)(?mi := v) = (\<lambda>i. bound P i c)(?mi := v)"
          "(\<lambda>i. p_miss ?P2 i c) = (\<lambda>i. p_miss P i c)(?mi := 0)" "(\<lambda>i. has ?P2 i (COLOR c)) = (\<lambda>i. has P i (COLOR c))"
          using True by (simp_all add: fun_eq_iff)
        then show ?thesis using pinv_fwd_done [OF wf inv refl True False v_def] B2 unfolding view_def n2 by (simp only:)
      qed
      then show ?thesis using B2 other_same_trans [OF os2] by blast
    qed
  qed
qed

lemma fwds_spec:
  assumes wf: "graph_wf G" "c < 2"
  shows "common G sk P \<Longrightarrow> view G sk gv c L (filter (relp G c) es) {} {} P \<Longrightarrow>
     foldP (prune_fwd (bounded ralloc) G (snd (last L)) c) es P = Inr P' \<Longrightarrow>
     common G sk P' \<and> other_same c P P' \<and> view G sk gv c L [] {} {} P'"
proof (induction es arbitrary: P)
  case Nil
  then show ?case by (simp add: other_same_refl)
next
  case (Cons e es)
  obtain P1 where P1: "prune_fwd (bounded ralloc) G (snd (last L)) c e P = Inr P1"
    "foldP (prune_fwd (bounded ralloc) G (snd (last L)) c) es P1 = Inr P'"
    using Cons.prems(3) by (auto split: sum.splits)
  show ?case
  proof (cases "relp G c e")
    case True
    then have "common G sk P1 \<and> other_same c P P1 \<and> view G sk gv c L (filter (relp G c) es) {} {} P1"
      using Cons.prems(1,2) P1(1) by (intro fwd_spec [OF wf, of sk P gv L e _ ralloc]) auto
    then show ?thesis using Cons.IH [OF _ _ P1(2)] other_same_trans by blast
  next
    case False
    then have "P1 = P" using P1(1) by (simp add: prune_fwd_def relp_def)
    then show ?thesis using Cons.IH [OF _ _ P1(2)] Cons.prems False by simp
  qed
qed

text \<open>Both colours between two removals from the heap.\<close>

definition big :: "fhk_graph \<Rightarrow> (int \<Rightarrow> bool) \<Rightarrow> (int \<Rightarrow> bool) \<Rightarrow> (nat \<Rightarrow> (int \<times> f32) list) \<Rightarrow> prune \<Rightarrow> bool" where
  "big G sk gv LL P \<longleftrightarrow> common G sk P \<and> (\<forall>c < 2. view G sk gv c (LL c) [] {} {} P)"

lemma propagate_step:
  assumes wf: "graph_wf G" and inv: "big G sk gv LL P" and ne: "\<not> heap_empty (heap P)"
    and rm: "heap_remove (heap P) = (n, H)"
    and run: "prune_bound_var (bounded ralloc) G (node_xi n) (node_cost n) (node_color n) (P\<lparr>heap := H\<rparr>) = Inr P'"
  shows "if has P (node_xi n) (COLOR (node_color n)) then P' = P\<lparr>heap := H\<rparr> \<and> big G sk gv LL P'
     else big G sk gv (LL(node_color n := LL (node_color n) @ [(node_xi n, node_cost n)])) P'"
proof -
  let ?c = "node_color n" and ?x = "node_xi n" and ?s = "node_cost n" and ?P = "P\<lparr>heap := H\<rparr>"
  have com: "common G sk P" and vw: "\<And>c. c < 2 \<Longrightarrow> view G sk gv c (LL c) [] {} {} P" using inv by (auto simp: big_def)
  have R: "heap_inv H \<and> heap_elems (heap P) = add_mset n (heap_elems H) \<and> (\<forall>y \<in># heap_elems (heap P). n \<le> y)"
    using hp.rem_elems [OF _ ne rm] com by (simp add: common_def)
  have c: "?c < 2" using com R by (simp add: common_def)
  have com1: "common G sk ?P" using com R by (simp add: common_def)
  have nc: "nodes_of ?c P = add_mset n (nodes_of ?c ?P)" and no: "d \<noteq> ?c \<Longrightarrow> nodes_of d ?P = nodes_of d P" for d
    using R by (simp_all add: nodes_of_def)
  have os1: "other_same ?c P ?P" using no by (simp add: other_same_def)
  have pv: "pinv G sk gv ?c (LL ?c) [] {} {} (\<lambda>i. has P i (COLOR ?c)) (\<lambda>i. bound P i ?c) (\<lambda>i. p_miss P i ?c)
      (add_mset n (nodes_of ?c ?P))" using vw [OF c] by (simp add: view_def nc)
  show ?thesis
  proof (cases "has P ?x (COLOR ?c)")
    case True
    then have P': "P' = ?P" using run by (simp add: prune_bound_var_def)
    have "view G sk gv ?c (LL ?c) [] {} {} ?P" using pinv_pop_old [OF wf c pv True] by (simp add: view_def)
    then have "view G sk gv d (LL d) [] {} {} ?P" if "d < 2" for d
      using other_same_view [OF os1 that _ vw [OF that]] by (cases "d = ?c") auto
    then show ?thesis using True P' com1 by (simp add: big_def)
  next
    case False
    let ?P2 = "set_bound ?x ?c ?s (set_flag (COLOR ?c) ?x ?P)" and ?L = "LL ?c @ [(?x, ?s)]"
    have run2: "foldP (prune_fwd (bounded ralloc) G (snd (last ?L)) ?c) (v_fwds (gvar G ?x)) ?P2 = Inr P'"
      using run False by (simp add: prune_bound_var_def)
    have min: "\<forall>n' \<in># nodes_of ?c ?P. ?s \<le> node_cost n'" using R by (auto simp: nodes_of_def node_cost_mono)
    have "view G sk gv ?c ?L (filter (relp G ?c) (v_fwds (gvar G ?x))) {} {} ?P2"
    proof -
      have "(\<lambda>i. has ?P2 i (COLOR ?c)) = (\<lambda>i. has P i (COLOR ?c))(?x := True)"
        "(\<lambda>i. bound ?P2 i ?c) = (\<lambda>i. bound P i ?c)(?x := ?s)" "(\<lambda>i. p_miss ?P2 i ?c) = (\<lambda>i. p_miss P i ?c)"
        "nodes_of ?c ?P2 = nodes_of ?c ?P"
        using c by (auto simp: fun_eq_iff nodes_of_def)
      then show ?thesis using pinv_pop_new [OF wf c pv False refl refl min] by (simp add: view_def)
    qed
    moreover have "common G sk ?P2" "other_same ?c P ?P2"
      using com1 c other_same_trans [OF os1] other_same_trans [OF other_same_set(3) other_same_set(1)]
      by (auto simp: common_set)
    ultimately have "common G sk P' \<and> other_same ?c P P' \<and> view G sk gv ?c ?L [] {} {} P'"
      using fwds_spec [OF wf c _ _ run2] other_same_trans by blast
    then show ?thesis using False other_same_view [OF _ _ _ vw] by (auto simp: big_def)
  qed
qed

section \<open>The propagation ends\<close>

lemma L_length:
  assumes "L_ok G sk gv c L C B"
  shows "length L \<le> length (g_vars G)"
proof -
  have "fst ` set L \<subseteq> {0 ..< nv G}" using assms by (auto simp: L_ok_def vidx_def)
  then have "card (fst ` set L) \<le> card {0 ..< nv G}" by (intro card_mono) auto
  moreover have "card (fst ` set L) = length L" using assms by (metis L_ok_def distinct_card set_map length_map)
  ultimately show ?thesis by simp
qed

definition work :: "fhk_graph \<Rightarrow> (nat \<Rightarrow> (int \<times> f32) list) \<Rightarrow> nat" where
  "work G LL = 2 * length (g_vars G) - (length (LL 0) + length (LL 1))"

lemma work_less:
  assumes "big G sk gv (LL(c := LL c @ [p])) P'" "c < 2"
  shows "work G (LL(c := LL c @ [p])) < work G LL"
proof -
  have "length ((LL(c := LL c @ [p])) d) \<le> length (g_vars G)" if "d < 2" for d
  proof -
    have "view G sk gv d ((LL(c := LL c @ [p])) d) [] {} {} P'" using assms(1) that unfolding big_def by blast
    then show ?thesis unfolding view_def by (rule L_length [OF pinvD(1)])
  qed
  from this [of 0] this [of 1] show ?thesis using assms(2) by (auto simp: work_def less_2_cases_iff)
qed

lemma propagate_total:
  assumes wf: "graph_wf G" and inv: "big G sk gv LL P"
  shows "\<exists>r. prune_propagate (bounded ralloc) G P = Some r \<and>
     (\<forall>P'. r = Inr P' \<longrightarrow> (\<exists>LL'. big G sk gv LL' P' \<and> heap_elems (heap P') = {#}))"
  using inv
proof (induction "(work G LL, size (heap_elems (heap P)))" arbitrary: LL P
    rule: wf_induct_rule [OF wf_lex_prod [OF wf_less_than wf_less_than]])
  case 1
  note inv = 1(2)
  have hi: "heap_inv (heap P)" using inv by (simp add: big_def common_def)
  show ?case
  proof (cases "heap_empty (heap P)")
    case True
    then have "prune_propagate (bounded ralloc) G P = Some (Inr P)" by (subst prune_propagate.simps) simp
    moreover have "heap_elems (heap P) = {#}" using hp.empty_elems [OF hi] True by simp
    ultimately show ?thesis using inv by auto
  next
    case False
    obtain n H where rm: "heap_remove (heap P) = (n, H)" by fastforce
    note R = hp.rem_elems [OF hi False rm]
    let ?r = "prune_bound_var (bounded ralloc) G (node_xi n) (node_cost n) (node_color n) (P\<lparr>heap := H\<rparr>)"
    have eq: "prune_propagate (bounded ralloc) G P =
      (case ?r of Inl e \<Rightarrow> Some (Inl e) | Inr P1 \<Rightarrow> prune_propagate (bounded ralloc) G P1)"
      using False rm by (subst prune_propagate.simps) simp
    show ?thesis
    proof (cases ?r)
      case (Inl e)
      then show ?thesis using eq by simp
    next
      case (Inr P1)
      note S = propagate_step [OF wf inv False rm Inr]
      have c: "node_color n < 2" using inv R by (auto simp: big_def common_def)
      have "\<exists>LL1. big G sk gv LL1 P1 \<and> ((work G LL1, size (heap_elems (heap P1))), (work G LL, size (heap_elems (heap P))))
          \<in> less_than <*lex*> less_than"
      proof (cases "has P (node_xi n) (COLOR (node_color n))")
        case True
        then show ?thesis using S R by (intro exI [of _ LL]) auto
      next
        case F: False
        then show ?thesis using S work_less [OF _ c] by (auto intro!: exI)
      qed
      then obtain LL1 where L1: "big G sk gv LL1 P1" "((work G LL1, size (heap_elems (heap P1))),
          (work G LL, size (heap_elems (heap P)))) \<in> less_than <*lex*> less_than" by blast
      show ?thesis using 1(1) [OF L1(2,1)] eq Inr by simp
    qed
  qed
qed

section \<open>Optimality\<close>

lemma derives_cost: "derives G sk gv c x s \<Longrightarrow> graph_wf G \<Longrightarrow> is_cost s"
proof (induction rule: derives.induct)
  case (model mi cs e)
  have "\<forall>s \<in> set cs. is_cost s" using model.IH model.prems by (auto simp: list_all2_conv_all_nth in_set_conv_nth)
  then have "is_cost (fsum 0 (sort cs))" by (intro fsum_cost) auto
  then show ?case using total_cost_ge(1) [OF model.prems model.hyps(1)] by (simp add: mcost_def total_cost_def)
qed simp

lemma derives_bound:
  assumes wf: "graph_wf G" and vw: "view G sk gv c L [] {} {} P" and e: "heap_elems (heap P) = {#}"
  shows "derives G sk gv c x s \<Longrightarrow> \<exists>s'. (x, s') \<in> set L \<and> s' \<le> s"
proof (induction rule: derives.induct)
  have N: "nodes_of c P = {#}" using e by (simp add: nodes_of_def)
  note inv = vw [unfolded view_def N] and I = pinvD [OF vw [unfolded view_def N]]
  {
    case (given x)
    then show ?case using I(5) [OF given] by (simp add: covered_def)
  next
    case (model mi cs e)
    let ?Q = "params_rel G c mi" and ?f = "\<lambda>e. the (map_of L (e_idx e))"
    have d: "distinct (map fst L)" "sorted (map snd L)" using I(1) by (auto simp: L_ok_def)
    have len: "length cs = length ?Q" using model.IH by (simp add: list_all2_lengthD)
    have each: "e_idx (?Q ! i) \<in> fst ` set L \<and> ?f (?Q ! i) \<le> cs ! i \<and> is_cost (cs ! i)" if i: "i < length ?Q" for i
    proof -
      have "derives G sk gv c (e_idx (?Q ! i)) (cs ! i)" "\<exists>s'. (e_idx (?Q ! i), s') \<in> set L \<and> s' \<le> cs ! i"
        using model.IH i by (auto simp: list_all2_conv_all_nth)
      then show ?thesis using d(1) derives_cost [OF _ wf] by (force simp: image_iff)
    qed
    then have all: "\<forall>q \<in> set ?Q. e_idx q \<in> fst ` set L" by (metis in_set_conv_nth)
    have full: "length (contrib G c mi L) = length ?Q"
    proof -
      have "filter (\<lambda>e. e_idx e \<in> fst ` set L) ?Q = ?Q" using all by (simp add: filter_id_conv)
      then show ?thesis using mset_eq_length [OF contrib_mset [OF d(1), of G c mi]] by simp
    qed
    have "list_all2 (\<le>) (sort (map ?f ?Q)) (sort cs)"
      using each len by (intro sort_mono) (simp add: list_all2_conv_all_nth)
    then have "list_all2 (\<le>) (contrib G c mi L) (sort cs)" using contrib_full [OF d(1) full d(2)] by simp
    moreover have cc: "\<forall>s \<in> set (sort cs). is_cost s" using each len by (auto simp: in_set_conv_nth)
    ultimately have "fsum 0 (contrib G c mi L) \<le> fsum 0 (sort cs)" by (intro fsum_mono) auto
    then have le: "total_cost G sk c mi (fsum 0 (contrib G c mi L)) \<le> mcost G sk c mi cs"
      using total_cost_mono [OF wf model.hyps(1), of "fsum 0 (sort cs)"] cc fsum_cost [of 0 "sort cs"]
      by (simp add: mcost_def total_cost_def)
    have "nadd G c mi L [] = length ?Q" using full by (simp add: nadd_def)
    then have "M_done G sk c L {#} (\<lambda>i. has P i (COLOR c)) (\<lambda>i. bound P i c) mi"
      using I(4) [OF model.hyps(1)] model.hyps(2) by (simp add: M_ok_def)
    then have "\<exists>s'. (e_idx e, s') \<in> set L \<and> s' \<le> total_cost G sk c mi (fsum 0 (contrib G c mi L))"
      using model.hyps(3,4) by (auto simp: M_done_def covered_def)
    then show ?case using le order_trans by blast
  }
qed
end
