(* ===== verification/Fhk_PruneRun.thy ===== *)
theory Fhk_PruneRun
  imports Fhk_Bounds
begin

text \<open>
  A whole run of the pruner: the marking phases, the start of the propagation, and the selection.
\<close>

section \<open>Marking\<close>

definition fresh :: "prune \<Rightarrow> bool" where
  "fresh P \<longleftrightarrow> heap P = heap_create \<and> (\<forall>i. \<not> has P i (COLOR GRAY) \<and> \<not> has P i (COLOR BLACK) \<and> \<not> has P i SELECTED) \<and>
     (\<forall>i c. bound P i c = 0)"

text \<open>What the user's flags exclude: the marked indices, the models of given variables, and the models
  that return or use a skipped variable.\<close>

definition skipped :: "fhk_graph \<Rightarrow> prune \<Rightarrow> int \<Rightarrow> bool" where
  "skipped G P i \<longleftrightarrow> has P i FHKF_SKIP \<or>
     (\<exists>x. vidx G x \<and> has P x FHKF_GIVEN \<and> i \<in> e_idx ` set (v_models (gvar G x))) \<or>
     (\<exists>x. vidx G x \<and> has P x FHKF_SKIP \<and> i \<in> e_idx ` (set (v_models (gvar G x)) \<union> set (v_fwds (gvar G x))))"

definition given_var :: "prune \<Rightarrow> int \<Rightarrow> bool" where
  "given_var P i \<longleftrightarrow> has P i FHKF_GIVEN"

lemma fold_set_flag [simp]:
  "has (fold (\<lambda>e. set_flag f (e_idx e)) es P) j g \<longleftrightarrow> has P j g \<or> (j \<in> e_idx ` set es \<and> f AND g \<noteq> 0)"
  "heap (fold (\<lambda>e. set_flag f (e_idx e)) es P) = heap P" "bound (fold (\<lambda>e. set_flag f (e_idx e)) es P) = bound P"
  "p_miss (fold (\<lambda>e. set_flag f (e_idx e)) es P) = p_miss P"
  by (induction es arbitrary: P) auto

lemma mark_loop:
  fixes E :: "int \<Rightarrow> fhk_edge list"
  assumes step: "\<And>i P. F i P = (if has P i t then fold (\<lambda>e. set_flag f (e_idx e)) (E i) P else P)"
    and xs: "\<forall>i \<in> set xs. 0 \<le> i \<and> (\<forall>e \<in> set (E i). e_idx e < 0)"
  shows "has (fold F xs P) j g \<longleftrightarrow> has P j g \<or> (f AND g \<noteq> 0 \<and> (\<exists>i \<in> set xs. has P i t \<and> j \<in> e_idx ` set (E i)))"
    and "heap (fold F xs P) = heap P \<and> bound (fold F xs P) = bound P \<and> p_miss (fold F xs P) = p_miss P"
  using xs
proof (induction xs arbitrary: P)
  case Nil
  { case 1 show ?case by simp }
  { case 2 show ?case by simp }
next
  case (Cons x xs)
  { case 1
    have same: "has (F x P) i t \<longleftrightarrow> has P i t" if "0 \<le> i" for i
      using that 1 by (auto simp: step)
    have "has (fold F (x # xs) P) j g \<longleftrightarrow> has (F x P) j g \<or> (f AND g \<noteq> 0 \<and> (\<exists>i \<in> set xs. has P i t \<and> j \<in> e_idx ` set (E i)))"
      using Cons.IH(1) [of "F x P"] 1 same by auto
    moreover have "has (F x P) j g \<longleftrightarrow> has P j g \<or> (has P x t \<and> f AND g \<noteq> 0 \<and> j \<in> e_idx ` set (E x))"
      by (simp add: step) blast
    ultimately show ?case by auto }
  { case 2
    then show ?case using Cons.IH(2) [of "F x P"] by (simp add: step) }
qed

lemma vidx_range: "i \<in> set [0 .. nv G - 1] \<longleftrightarrow> vidx G i"
  by (auto simp: vidx_def)

lemma var_edges_neg:
  assumes "graph_wf G" "vidx G x"
  shows "\<forall>e \<in> set (v_models (gvar G x)) \<union> set (v_fwds (gvar G x)). e_idx e < 0"
  using assms by (auto simp: graph_wf_def var_wf_def midx_def)

lemma mark_given_spec:
  assumes "graph_wf G"
  shows "has (prune_mark_given G P) j g \<longleftrightarrow> has P j g \<or> (FHKF_SKIP AND g \<noteq> 0 \<and>
      (\<exists>x. vidx G x \<and> has P x FHKF_GIVEN \<and> j \<in> e_idx ` set (v_models (gvar G x))))"
    and "heap (prune_mark_given G P) = heap P \<and> bound (prune_mark_given G P) = bound P"
proof -
  have xs: "\<forall>i \<in> set [0 .. nv G - 1]. 0 \<le> i \<and> (\<forall>e \<in> set (v_models (gvar G i)). e_idx e < 0)"
    using var_edges_neg [OF assms] unfolding vidx_range by (auto simp: vidx_def)
  note L = mark_loop [where E = "\<lambda>i. v_models (gvar G i)" and t = FHKF_GIVEN and f = FHKF_SKIP, OF refl xs]
  show "has (prune_mark_given G P) j g \<longleftrightarrow> has P j g \<or> (FHKF_SKIP AND g \<noteq> 0 \<and>
      (\<exists>x. vidx G x \<and> has P x FHKF_GIVEN \<and> j \<in> e_idx ` set (v_models (gvar G x))))"
    unfolding prune_mark_given_def L(1) by (auto simp: vidx_def)
  show "heap (prune_mark_given G P) = heap P \<and> bound (prune_mark_given G P) = bound P"
    unfolding prune_mark_given_def using L(2) by blast
qed

lemma mark_skips_spec:
  assumes "graph_wf G"
  shows "has (prune_mark_skips G P) j g \<longleftrightarrow> has P j g \<or> (FHKF_SKIP AND g \<noteq> 0 \<and>
      (\<exists>x. vidx G x \<and> has P x FHKF_SKIP \<and> j \<in> e_idx ` (set (v_models (gvar G x)) \<union> set (v_fwds (gvar G x)))))"
    and "heap (prune_mark_skips G P) = heap P \<and> bound (prune_mark_skips G P) = bound P"
proof -
  let ?E = "\<lambda>i. v_models (gvar G i) @ v_fwds (gvar G i)"
  have xs: "\<forall>i \<in> set [0 .. nv G - 1]. 0 \<le> i \<and> (\<forall>e \<in> set (?E i). e_idx e < 0)"
    using var_edges_neg [OF assms] unfolding vidx_range by (auto simp: vidx_def)
  have step: "(\<lambda>i P. if has P i FHKF_SKIP then fold (\<lambda>e. set_flag FHKF_SKIP (e_idx e)) (v_fwds (gvar G i))
        (fold (\<lambda>e. set_flag FHKF_SKIP (e_idx e)) (v_models (gvar G i)) P) else P) i P
      = (if has P i FHKF_SKIP then fold (\<lambda>e. set_flag FHKF_SKIP (e_idx e)) (?E i) P else P)" for i P by simp
  note L = mark_loop [where E = ?E and t = FHKF_SKIP and f = FHKF_SKIP, OF step xs]
  show "has (prune_mark_skips G P) j g \<longleftrightarrow> has P j g \<or> (FHKF_SKIP AND g \<noteq> 0 \<and>
      (\<exists>x. vidx G x \<and> has P x FHKF_SKIP \<and> j \<in> e_idx ` (set (v_models (gvar G x)) \<union> set (v_fwds (gvar G x)))))"
    unfolding prune_mark_skips_def L(1) by (auto simp: vidx_def)
  show "heap (prune_mark_skips G P) = heap P \<and> bound (prune_mark_skips G P) = bound P"
    unfolding prune_mark_skips_def using L(2) by blast
qed

lemma flag_bits [simp]:
  "FHKF_SKIP \<noteq> 0" "FHKF_SKIP AND FHKF_GIVEN = 0" "FHKF_SKIP AND SELECTED = 0" "FHKF_SKIP AND FHKF_SKIP = FHKF_SKIP"
  "FHKF_SKIP AND FHKF_SELECT = 0"
  by (simp_all add: flag_defs)

definition marked :: "fhk_graph \<Rightarrow> prune \<Rightarrow> prune" where
  "marked G P = prune_mark_skips G (prune_mark_given G P)"

lemma marked_spec:
  assumes "graph_wf G"
  shows "has (marked G P) i FHKF_SKIP \<longleftrightarrow> skipped G P i"
    and "FHKF_SKIP AND g = 0 \<Longrightarrow> has (marked G P) i g \<longleftrightarrow> has P i g"
    and "heap (marked G P) = heap P" "bound (marked G P) = bound P"
proof -
  have v: "has (prune_mark_given G P) x FHKF_SKIP \<longleftrightarrow> has P x FHKF_SKIP" if "vidx G x" for x
  proof -
    have "x \<notin> e_idx ` set (v_models (gvar G y))" if "vidx G y" for y
    proof
      assume "x \<in> e_idx ` set (v_models (gvar G y))"
      then obtain e where "e \<in> set (v_models (gvar G y))" "x = e_idx e" by blast
      then have "x < 0" using var_edges_neg [OF assms \<open>vidx G y\<close>] by blast
      then show False using \<open>vidx G x\<close> by (simp add: vidx_def)
    qed
    then show ?thesis by (auto simp: mark_given_spec [OF assms])
  qed
  show "has (marked G P) i FHKF_SKIP \<longleftrightarrow> skipped G P i"
  proof -
    have "(\<exists>x. vidx G x \<and> has (prune_mark_given G P) x FHKF_SKIP \<and> Q x) \<longleftrightarrow> (\<exists>x. vidx G x \<and> has P x FHKF_SKIP \<and> Q x)" for Q
      using v by blast
    then show ?thesis unfolding marked_def mark_skips_spec(1) [OF assms] skipped_def
      by (simp add: mark_given_spec(1) [OF assms])
  qed
  show "FHKF_SKIP AND g = 0 \<Longrightarrow> has (marked G P) i g \<longleftrightarrow> has P i g"
    unfolding marked_def mark_skips_spec(1) [OF assms] mark_given_spec(1) [OF assms] by simp
  show "heap (marked G P) = heap P" "bound (marked G P) = bound P"
    using mark_skips_spec(2) [OF assms] mark_given_spec(2) [OF assms] by (auto simp: marked_def)
qed

section \<open>Starting the propagation\<close>

lemma count_fold: "fold (\<lambda>e n. n + (if Q e then 1 else 0)) es (of_nat k :: u8) = of_nat (k + length (filter Q es))"
proof (induction es arbitrary: k)
  case (Cons e es)
  show ?case using Cons [of "k + 1"] Cons [of k] by (simp add: add.commute)
qed simp

lemma params_rel_counts:
  "length (params_rel G BLACK mi) = length (m_params (gmodel G mi))"
  "length (params_rel G GRAY mi) = length (filter (\<lambda>e. xnonempty G (e_map e)) (m_params (gmodel G mi)))"
  by (simp_all add: params_rel_def relp_def [abs_def] BLACK_def GRAY_def)

lemma init_mstate_spec:
  assumes "graph_wf G"
  shows "midx G mi \<Longrightarrow> c < 2 \<Longrightarrow> unat (p_miss (prune_init_mstate G P) mi c) = length (params_rel G c mi)"
    and "has (prune_init_mstate G P) = has P" "heap (prune_init_mstate G P) = heap P" "bound (prune_init_mstate G P) = bound P"
proof -
  define F where "F = (\<lambda>i P. let m = gmodel G (- 1 - i);
                      gray = fold (\<lambda>e n. n + (if xnonempty G (e_map e) then 1 else 0)) (m_params m) 0
                  in set_miss (- 1 - i) BLACK (of_nat (length (m_params m))) (set_miss (- 1 - i) GRAY gray P))"
  have init: "prune_init_mstate G P = fold F [0 .. nm G - 1] P" by (simp add: prune_init_mstate_def F_def)
  have one: "p_miss (F i P) = (p_miss P)(- 1 - i := (p_miss P (- 1 - i))(GRAY := of_nat (length (params_rel G GRAY (- 1 - i))),
      BLACK := of_nat (length (params_rel G BLACK (- 1 - i)))))" for i P
    using count_fold [of "\<lambda>e. xnonempty G (e_map e)" "m_params (gmodel G (- 1 - i))" 0]
    by (simp add: F_def params_rel_counts)
  have rest: "has (F i P) = has P" "heap (F i P) = heap P" "bound (F i P) = bound P" for i P by (simp_all add: F_def)
  have "has (fold F is P) = has P \<and> heap (fold F is P) = heap P \<and> bound (fold F is P) = bound P" for "is"
    by (induction "is" arbitrary: P) (simp_all add: rest)
  then show "has (prune_init_mstate G P) = has P" "heap (prune_init_mstate G P) = heap P" "bound (prune_init_mstate G P) = bound P"
    unfolding init by blast+
  have all: "- 1 - mi \<in> set is \<Longrightarrow> c < 2 \<Longrightarrow> p_miss (fold F is P) mi c = of_nat (length (params_rel G c mi))" for "is" mi c
  proof (induction "is" rule: rev_induct)
    case (snoc i "is")
    then show ?case by (cases "i = - 1 - mi") (auto simp: one less_2_cases_iff GRAY_def BLACK_def)
  qed simp
  assume mi: "midx G mi" and c: "c < 2"
  have "length (params_rel G c mi) \<le> length (m_params (gmodel G mi))" by (simp add: params_rel_def)
  then have "length (params_rel G c mi) \<le> 255" using assms mi by (auto simp: graph_wf_def model_wf_def)
  moreover have "- 1 - mi \<in> set [0 .. nm G - 1]" using mi by (auto simp: midx_def)
  ultimately show "unat (p_miss (prune_init_mstate G P) mi c) = length (params_rel G c mi)"
    unfolding init using all [OF _ c] by (simp add: unat_of_nat_small)
qed


definition views :: "fhk_graph \<Rightarrow> (int \<Rightarrow> bool) \<Rightarrow> (int \<Rightarrow> bool) \<Rightarrow> int set \<Rightarrow> int set \<Rightarrow> prune \<Rightarrow> bool" where
  "views G sk gv K GK P \<longleftrightarrow> common G sk P \<and> (\<forall>c < 2. view G sk gv c [] [] K GK P)"

lemma start_views:
  assumes wf: "graph_wf G" and f: "fresh P"
  shows "views G (skipped G P) (given_var P) {mi. midx G mi} {x. vidx G x} (prune_init_mstate G (marked G P))"
    (is "views G ?sk ?gv ?K ?GK ?P")
proof -
  note M = marked_spec [OF wf, where P = P] and I = init_mstate_spec [OF wf]
  have h: "heap ?P = heap_create" using f M(3) by (simp add: I(3) fresh_def)
  have "common G ?sk ?P" using f M(2) [of SELECTED] by (simp add: common_def h heap_create_inv I(2) M(1) fresh_def)
  moreover have "view G ?sk ?gv c [] [] ?K ?GK ?P" if c: "c < 2" for c
  proof -
    have "nodes_of c ?P = {#}" by (simp add: nodes_of_def h heap_create_inv)
    moreover have "\<not> has ?P i (COLOR c)" for i
      using f c M(2) [of "COLOR c" i] by (auto simp: I(2) fresh_def less_2_cases_iff GRAY_def BLACK_def)
    moreover have "bound ?P i c = 0" for i using f by (simp add: I(4) M(4) fresh_def)
    ultimately show ?thesis unfolding view_def using I(1) [OF _ c] by (simp, intro pinv_start) auto
  qed
  ultimately show ?thesis by (simp add: views_def)
qed

lemma insert_var_view:
  assumes wf: "graph_wf G" "c < 2" "vidx G x" and com: "common G sk P" and gv: "gv x"
    and ins: "prune_insert_var (bounded ralloc) x 0 c P = Inr P'" and vw: "view G sk gv c [] [] K GK P"
  shows "view G sk gv c [] [] K (GK - {x}) P'"
proof -
  note S = insert_var_spec [OF wf com ins]
  have "has P' = has P" "bound P' = bound P" "p_miss P' = p_miss P"
    using arg_cong [OF S(1), of has] arg_cong [OF S(1), of bound] arg_cong [OF S(1), of p_miss] by simp_all
  then show ?thesis using pinv_given [OF wf(1,2) vw [unfolded view_def] wf(3) gv] S(3) by (simp add: view_def)
qed

lemma view_GK: "view G sk gv c [] [] K GK P \<Longrightarrow> \<not> gv x \<Longrightarrow> view G sk gv c [] [] K (GK - {x}) P"
  by (auto simp: view_def pinv_def)

lemma insert_given_views:
  assumes wf: "graph_wf G"
  shows "views G sk gv K GK P \<Longrightarrow> \<forall>i. has P i FHKF_GIVEN \<longleftrightarrow> gv i \<Longrightarrow> \<forall>i \<in> set xs. vidx G i \<Longrightarrow>
     foldP (\<lambda>i P. if has P i FHKF_GIVEN then
                     (if has P i FHKF_SKIP then prune_fail (FHKE_CHAIN OR E_META 1 FHKEI_I (of_int i)) P
                      else case prune_insert_var (bounded ralloc) i 0 GRAY P of
                             Inl e \<Rightarrow> Inl e
                           | Inr P1 \<Rightarrow> prune_insert_var (bounded ralloc) i 0 BLACK P1)
                   else Inr P) xs P = Inr P' \<Longrightarrow>
     views G sk gv K (GK - set xs) P'"
proof (induction xs arbitrary: P GK)
  case (Cons x xs)
  let ?f = "\<lambda>i P. if has P i FHKF_GIVEN then
                     (if has P i FHKF_SKIP then prune_fail (FHKE_CHAIN OR E_META 1 FHKEI_I (of_int i)) P
                      else case prune_insert_var (bounded ralloc) i 0 GRAY P of
                             Inl e \<Rightarrow> Inl e
                           | Inr P1 \<Rightarrow> prune_insert_var (bounded ralloc) i 0 BLACK P1)
                   else Inr P"
  obtain P2 where P2: "?f x P = Inr P2" and rest: "foldP ?f xs P2 = Inr P'"
    using Cons.prems(4) by (auto simp del: if_split split: sum.splits)
  have vi: "vidx G x" using Cons.prems(3) by simp
  have com: "common G sk P" and vw: "\<And>c. c < 2 \<Longrightarrow> view G sk gv c [] [] K GK P" using Cons.prems(1) by (auto simp: views_def)
  have "views G sk gv K (GK - {x}) P2 \<and> (\<forall>i. has P2 i FHKF_GIVEN \<longleftrightarrow> gv i)"
  proof (cases "gv x")
    case False
    then have "P2 = P" using P2 Cons.prems(2) by simp
    then show ?thesis using Cons.prems(1,2) view_GK [where gv = gv] False by (auto simp: views_def)
  next
    case True
    then obtain P1 where P1: "prune_insert_var (bounded ralloc) x 0 GRAY P = Inr P1"
      "prune_insert_var (bounded ralloc) x 0 BLACK P1 = Inr P2"
      using P2 Cons.prems(2) by (auto simp: prune_fail_def split: if_splits sum.splits)
    have g: "GRAY < 2" "BLACK < 2" "GRAY \<noteq> BLACK" by (simp_all add: GRAY_def BLACK_def)
    note S1 = insert_var_spec [OF wf g(1) vi com P1(1)]
    note S2 = insert_var_spec [OF wf g(2) vi S1(2) P1(2)]
    have "view G sk gv GRAY [] [] K (GK - {x}) P2"
      using other_same_view [OF S2(4) g(1,3) insert_var_view [where gv = gv, OF wf g(1) vi com True P1(1) vw [OF g(1)]]] .
    moreover have "view G sk gv BLACK [] [] K (GK - {x}) P2"
      using insert_var_view [where gv = gv, OF wf g(2) vi S1(2) True P1(2)]
        other_same_view [OF S1(4) g(2) g(3) [symmetric] vw [OF g(2)]] by blast
    ultimately have "views G sk gv K (GK - {x}) P2" using S2(2) by (auto simp: views_def less_2_cases_iff GRAY_def BLACK_def)
    moreover have "has P2 = has P" using arg_cong [OF S1(1), of has] arg_cong [OF S2(1), of has] by simp
    ultimately show ?thesis using Cons.prems(2) by simp
  qed
  then have "views G sk gv K (GK - {x} - set xs) P'" using Cons.prems(3) rest by (intro Cons.IH) auto
  moreover have "GK - {x} - set xs = GK - set (x # xs)" by auto
  ultimately show ?case by simp
qed simp

lemma bound_const_view:
  assumes wf: "graph_wf G" "c < 2" and mi: "midx G mi" "mi \<in> K" and com: "common G sk P"
    and run: "(if p_miss P mi c = 0 then prune_bound_model (bounded ralloc) G mi c P else Inr P) = Inr P'"
    and vw: "view G sk gv c [] [] K GK P"
  shows "common G sk P' \<and> other_same c P P' \<and> view G sk gv c [] [] (K - {mi}) GK P'"
proof (cases "p_miss P mi c = 0")
  case False
  then show ?thesis using run com other_same_refl pinv_const_other [OF vw [unfolded view_def], of mi] by (simp add: view_def)
next
  case True
  note B = bound_model_spec [OF wf mi(1) com] and run' = run [unfolded if_P [OF True]]
  show ?thesis
  proof (cases "sk mi")
    case sk: True
    then show ?thesis using B(1) [OF run'] com other_same_refl pinv_const_other [OF vw [unfolded view_def], of mi]
      by (simp add: view_def)
  next
    case False
    note B2 = B(2) [OF run' False]
    have "view G sk gv c [] [] (K - {mi}) GK P'"
      using pinv_const_done [OF wf vw [unfolded view_def] mi _ False refl] True B2 by (simp add: view_def)
    then show ?thesis using B2 by blast
  qed
qed

lemma insert_constmods_views:
  assumes wf: "graph_wf G"
  shows "views G sk gv K {} P \<Longrightarrow> \<forall>i \<in> set is. midx G (- 1 - i) \<and> - 1 - i \<in> K \<Longrightarrow> distinct is \<Longrightarrow>
     foldP (\<lambda>i P. let mi = - 1 - i in
                   if has P mi FHKF_SKIP then Inr P
                   else case (if p_miss P mi GRAY = 0 then prune_bound_model (bounded ralloc) G mi GRAY P else Inr P) of
                          Inl e \<Rightarrow> Inl e
                        | Inr P1 \<Rightarrow> if p_miss P1 mi BLACK = 0 then prune_bound_model (bounded ralloc) G mi BLACK P1 else Inr P1)
       is P = Inr P' \<Longrightarrow> views G sk gv (K - (\<lambda>i. - 1 - i) ` set is) {} P'"
proof (induction "is" arbitrary: P K)
  case (Cons i "is")
  let ?f = "\<lambda>i P. let mi = - 1 - i in
                   if has P mi FHKF_SKIP then Inr P
                   else case (if p_miss P mi GRAY = 0 then prune_bound_model (bounded ralloc) G mi GRAY P else Inr P) of
                          Inl e \<Rightarrow> Inl e
                        | Inr P1 \<Rightarrow> if p_miss P1 mi BLACK = 0 then prune_bound_model (bounded ralloc) G mi BLACK P1 else Inr P1"
  let ?mi = "- 1 - i"
  obtain P2 where P2: "?f i P = Inr P2" and rest: "foldP ?f is P2 = Inr P'"
    using Cons.prems(4) by (auto simp del: if_split split: sum.splits)
  have mi: "midx G ?mi" "?mi \<in> K" using Cons.prems(2) by auto
  have com: "common G sk P" and vw: "\<And>c. c < 2 \<Longrightarrow> view G sk gv c [] [] K {} P" using Cons.prems(1) by (auto simp: views_def)
  have g: "GRAY < 2" "BLACK < 2" "GRAY \<noteq> BLACK" by (simp_all add: GRAY_def BLACK_def)
  have two: "c < 2 \<longleftrightarrow> c = GRAY \<or> c = BLACK" for c by (auto simp: GRAY_def BLACK_def)
  have "views G sk gv (K - {?mi}) {} P2"
  proof (cases "sk ?mi")
    case True
    then have "P2 = P" using P2 com by (simp add: common_def)
    moreover have "view G sk gv c [] [] (K - {?mi}) {} P" if "c < 2" for c
      using pinv_const_other [OF vw [OF that, unfolded view_def], of ?mi] True by (simp add: view_def)
    ultimately show ?thesis using com by (simp add: views_def)
  next
    case False
    then have "\<not> has P ?mi FHKF_SKIP" using com by (simp add: common_def)
    then obtain P1 where P1: "(if p_miss P ?mi GRAY = 0 then prune_bound_model (bounded ralloc) G ?mi GRAY P else Inr P) = Inr P1"
      "(if p_miss P1 ?mi BLACK = 0 then prune_bound_model (bounded ralloc) G ?mi BLACK P1 else Inr P1) = Inr P2"
      using P2 unfolding Let_def by (auto simp del: if_split simp: if_not_P split: sum.splits)
    note S1 = bound_const_view [OF wf g(1) mi com P1(1) vw [OF g(1)]]
    have S2: "common G sk P2 \<and> other_same BLACK P1 P2 \<and> view G sk gv BLACK [] [] (K - {?mi}) {} P2"
      using S1 other_same_view [OF _ g(2) g(3) [symmetric] vw [OF g(2)]] by (intro bound_const_view [OF wf g(2) mi _ P1(2)]) auto
    moreover have "view G sk gv GRAY [] [] (K - {?mi}) {} P2" using other_same_view [OF _ g(1,3)] S1 S2 by blast
    ultimately show ?thesis by (simp add: views_def two)
  qed
  then have "views G sk gv (K - {?mi} - (\<lambda>i. - 1 - i) ` set is) {} P'"
    using Cons.prems(2,3) rest by (intro Cons.IH) auto
  moreover have "K - {?mi} - (\<lambda>i. - 1 - i) ` set is = K - (\<lambda>i. - 1 - i) ` set (i # is)" by auto
  ultimately show ?case by simp
qed simp
section \<open>Selection\<close>

text \<open>What selecting an index promises: a variable keeps every model that may beat its upper bound and,
  if the bound is finite, one that attains it; a model keeps its parameters and the variables its checks
  look at, and marks its returns.\<close>

definition good :: "fhk_graph \<Rightarrow> prune \<Rightarrow> int \<Rightarrow> bool" where
  "good G P i \<longleftrightarrow>
     (if ISVI i then
        (\<forall>e \<in> set (v_models (gvar G i)). flt (bound P (e_idx e) GRAY) (bound P i BLACK) \<longrightarrow> has P (e_idx e) SELECTED) \<and>
        (flt (bound P i BLACK) INFINITY \<and> (\<exists>e \<in> set (v_models (gvar G i)). feq (bound P (e_idx e) BLACK) (bound P i BLACK)) \<longrightarrow>
           (\<exists>e \<in> set (v_models (gvar G i)). has P (e_idx e) SELECTED \<and> \<not> flt (bound P i BLACK) (bound P (e_idx e) BLACK)))
      else
        (\<forall>sh \<in> set (m_shadows (gmodel G i)). has P (w_xi (gshadow G (se_idx sh))) FHKF_SKIP \<or>
           has P (w_xi (gshadow G (se_idx sh))) SELECTED) \<and>
        (\<forall>e \<in> set (m_params (gmodel G i)). has P (e_idx e) SELECTED) \<and>
        (\<forall>e \<in> set (m_returns (gmodel G i)). has P (e_idx e) RETEDGE))"

definition grows :: "prune \<Rightarrow> prune \<Rightarrow> bool" where
  "grows P P' \<longleftrightarrow> bound P' = bound P \<and> (\<forall>i. has P' i FHKF_SKIP = has P i FHKF_SKIP) \<and> (\<forall>i f. has P i f \<longrightarrow> has P' i f)"

definition newgood :: "fhk_graph \<Rightarrow> prune \<Rightarrow> prune \<Rightarrow> bool" where
  "newgood G P P' \<longleftrightarrow> (\<forall>i. has P' i SELECTED \<and> \<not> has P i SELECTED \<longrightarrow> good G P' i)"

definition inr :: "fhk_graph \<Rightarrow> int \<Rightarrow> bool" where
  "inr G i \<longleftrightarrow> - nm G \<le> i \<and> i < nv G"

definition unsel :: "fhk_graph \<Rightarrow> prune \<Rightarrow> int set" where
  "unsel G P = {i. inr G i \<and> \<not> has P i SELECTED}"

lemma grows_refl [simp]: "grows P P"
  by (simp add: grows_def)

lemma grows_trans: "grows P P' \<Longrightarrow> grows P' P'' \<Longrightarrow> grows P P''"
  by (simp add: grows_def)

lemma good_grows: "grows P P' \<Longrightarrow> good G P i \<Longrightarrow> good G P' i"
  unfolding good_def grows_def by (cases "ISVI i") (simp_all, blast+)

lemma newgood_trans:
  assumes "newgood G P P'" "newgood G P' P''" "grows P' P''"
  shows "newgood G P P''"
  using assms good_grows unfolding newgood_def by blast

lemma finite_unsel: "finite (unsel G P)"
  by (rule finite_subset [of _ "{- nm G .. nv G}"]) (auto simp: unsel_def inr_def)

lemma unsel_mono: "grows P P' \<Longrightarrow> card (unsel G P') \<le> card (unsel G P)"
  by (intro card_mono finite_unsel) (auto simp: unsel_def grows_def)

lemma unsel_less: "inr G i \<Longrightarrow> \<not> has P i SELECTED \<Longrightarrow> has P' i SELECTED \<Longrightarrow> grows P P' \<Longrightarrow> card (unsel G P') < card (unsel G P)"
  by (intro psubset_card_mono finite_unsel) (auto simp: unsel_def grows_def)

definition sel_spec :: "nat \<Rightarrow> fhk_graph \<Rightarrow> (int \<Rightarrow> prune \<Rightarrow> prune option) \<Rightarrow> bool" where
  "sel_spec k G sel \<longleftrightarrow> (\<forall>i P. inr G i \<longrightarrow> card (unsel G P) < k \<longrightarrow>
     (\<exists>P'. sel i P = Some P' \<and> grows P P' \<and> has P' i SELECTED \<and> newgood G P P'))"

lemma sel_specD:
  assumes "sel_spec k G sel" "inr G i" "card (unsel G P) < k"
  obtains P' where "sel i P = Some P'" "grows P P'" "has P' i SELECTED" "newgood G P P'"
  using assms unfolding sel_spec_def by blast

lemma select_all_ok:
  assumes sel: "sel_spec k G sel"
  shows "\<forall>i \<in> set is. inr G i \<Longrightarrow> card (unsel G P) < k \<Longrightarrow>
     \<exists>P'. select_all sel is P = Some P' \<and> grows P P' \<and> (\<forall>i \<in> set is. has P' i SELECTED) \<and> newgood G P P'"
proof (induction "is" arbitrary: P)
  case Nil
  then show ?case by (simp add: newgood_def)
next
  case (Cons i "is")
  obtain P1 where P1: "sel i P = Some P1" "grows P P1" "has P1 i SELECTED" "newgood G P P1"
    using sel_specD [OF sel _ Cons.prems(2)] Cons.prems(1) by (metis list.set_intros(1))
  obtain P' where P': "select_all sel is P1 = Some P'" "grows P1 P'" "\<forall>i \<in> set is. has P' i SELECTED" "newgood G P1 P'"
    using Cons.IH [of P1] Cons.prems unsel_mono [OF P1(2), of G] by auto
  then show ?case using P1 grows_trans [OF P1(2) P'(2)] newgood_trans [OF P1(4) P'(4,2)] by (auto simp: grows_def)
qed

lemma select_shadows_ok:
  assumes sel: "sel_spec k G sel"
  shows "\<forall>sh \<in> set shs. inr G (w_xi (gshadow G (se_idx sh))) \<Longrightarrow> card (unsel G P) < k \<Longrightarrow>
     \<exists>P'. select_shadows G sel shs P = Some P' \<and> grows P P' \<and> newgood G P P' \<and>
       (\<forall>sh \<in> set shs. has P' (w_xi (gshadow G (se_idx sh))) FHKF_SKIP \<or> has P' (w_xi (gshadow G (se_idx sh))) SELECTED)"
proof (induction shs arbitrary: P)
  case Nil
  then show ?case by (simp add: newgood_def)
next
  case (Cons sh shs)
  let ?x = "w_xi (gshadow G (se_idx sh))"
  show ?case
  proof (cases "has P ?x FHKF_SKIP")
    case True
    then show ?thesis using Cons.IH [of P] Cons.prems by (auto simp: grows_def)
  next
    case False
    obtain P1 where P1: "sel ?x P = Some P1" "grows P P1" "has P1 ?x SELECTED" "newgood G P P1"
      using sel_specD [OF sel _ Cons.prems(2)] Cons.prems(1) by (metis list.set_intros(1))
    obtain P' where P': "select_shadows G sel shs P1 = Some P'" "grows P1 P'" "newgood G P1 P'"
      "\<forall>sh \<in> set shs. has P' (w_xi (gshadow G (se_idx sh))) FHKF_SKIP \<or> has P' (w_xi (gshadow G (se_idx sh))) SELECTED"
      using Cons.IH [of P1] Cons.prems unsel_mono [OF P1(2), of G] by auto
    then show ?thesis using P1 False grows_trans [OF P1(2) P'(2)] newgood_trans [OF P1(4) P'(3,2)] by (auto simp: grows_def)
  qed
qed

text \<open>The models of a variable: \<open>need\<close> says that an attaining model is still wanted.\<close>

lemma select_models_ok:
  assumes sel: "sel_spec k G sel"
  shows "\<forall>e \<in> set es. inr G (e_idx e) \<Longrightarrow> card (unsel G P) < k \<Longrightarrow>
     \<exists>P'. select_models sel beta need es P = Some P' \<and> grows P P' \<and> newgood G P P' \<and>
       (\<forall>e \<in> set es. flt (bound P (e_idx e) GRAY) beta \<longrightarrow> has P' (e_idx e) SELECTED) \<and>
       (need \<and> (\<exists>e \<in> set es. feq (bound P (e_idx e) BLACK) beta) \<longrightarrow>
          (\<exists>e \<in> set es. has P' (e_idx e) SELECTED \<and> \<not> flt beta (bound P (e_idx e) BLACK)))"
proof (induction es arbitrary: P need)
  case Nil
  then show ?case by (simp add: newgood_def)
next
  case (Cons e es)
  let ?m = "e_idx e"
  show ?case
  proof (cases "flt (bound P ?m GRAY) beta \<or> (need \<and> feq (bound P ?m BLACK) beta)")
    case False
    then show ?thesis using Cons.IH [of P need] Cons.prems by auto
  next
    case True
    obtain P1 where P1: "sel ?m P = Some P1" "grows P P1" "has P1 ?m SELECTED" "newgood G P P1"
      using sel_specD [OF sel _ Cons.prems(2)] Cons.prems(1) by (metis list.set_intros(1))
    let ?n = "need \<and> flt beta (bound P ?m BLACK)"
    have b: "bound P1 = bound P" using P1(2) by (simp add: grows_def)
    obtain P' where P': "select_models sel beta ?n es P1 = Some P'" "grows P1 P'" "newgood G P1 P'"
      "\<forall>e \<in> set es. flt (bound P (e_idx e) GRAY) beta \<longrightarrow> has P' (e_idx e) SELECTED"
      "?n \<and> (\<exists>e \<in> set es. feq (bound P (e_idx e) BLACK) beta) \<longrightarrow>
          (\<exists>e \<in> set es. has P' (e_idx e) SELECTED \<and> \<not> flt beta (bound P (e_idx e) BLACK))"
      using Cons.IH [of P1 ?n] Cons.prems unsel_mono [OF P1(2), of G] b by auto
    have m: "has P' ?m SELECTED" using P1(3) P'(2) by (simp add: grows_def)
    have ne: "\<not> feq a beta" if "flt beta a" for a using that by (auto simp: flt_def feq_def)
    have run: "select_models sel beta need (e # es) P = Some P'" using True P1(1) P'(1) by simp
    moreover have "need \<and> (\<exists>e' \<in> set (e # es). feq (bound P (e_idx e') BLACK) beta) \<longrightarrow>
          (\<exists>e' \<in> set (e # es). has P' (e_idx e') SELECTED \<and> \<not> flt beta (bound P (e_idx e') BLACK))"
      using P'(5) m ne by (cases "flt beta (bound P ?m BLACK)") auto
    ultimately show ?thesis using grows_trans [OF P1(2) P'(2)] newgood_trans [OF P1(4) P'(3,2)] P'(4) m by auto
  qed
qed

lemma sel_bits [simp]:
  "(SELECTED OR FHKF_SELECT) AND SELECTED \<noteq> 0" "(SELECTED OR FHKF_SELECT) AND FHKF_SKIP = 0" "RETEDGE AND FHKF_SKIP = 0"
  "RETEDGE AND SELECTED = 0" "RETEDGE AND RETEDGE \<noteq> 0" "RETEDGE \<noteq> 0" "FHKF_SELECT AND SELECTED = 0" "FHKF_SELECT AND FHKF_SKIP = 0"
  "(SELECTED OR FHKF_SELECT) AND FHKF_SELECT \<noteq> 0" "(SELECTED OR FHKF_SELECT) AND RETEDGE = 0" "FHKF_SELECT AND RETEDGE = 0" "SELECTED \<noteq> 0" "FHKF_SELECT \<noteq> 0"
  by (simp_all add: flag_defs)

lemma grows_set_flag: "f AND FHKF_SKIP = 0 \<Longrightarrow> grows P (set_flag f i P)"
  by (simp add: grows_def)

lemma grows_fold_flag: "f AND FHKF_SKIP = 0 \<Longrightarrow> grows P (fold (\<lambda>e. set_flag f (e_idx e)) es P)"
  by (auto simp: grows_def)

lemma model_edges_inr:
  assumes "graph_wf G" "inr G i" "\<not> ISVI i"
  shows "\<forall>sh \<in> set (m_shadows (gmodel G i)). inr G (w_xi (gshadow G (se_idx sh)))"
    "\<forall>e \<in> set (m_params (gmodel G i)). inr G (e_idx e)"
proof -
  have "model_wf G i" using assms by (auto simp: graph_wf_def inr_def midx_def ISVI_def)
  then show "\<forall>sh \<in> set (m_shadows (gmodel G i)). inr G (w_xi (gshadow G (se_idx sh)))"
    "\<forall>e \<in> set (m_params (gmodel G i)). inr G (e_idx e)" by (auto simp: model_wf_def inr_def vidx_def)
qed

lemma var_edges_inr:
  assumes "graph_wf G" "inr G i" "ISVI i"
  shows "\<forall>e \<in> set (v_models (gvar G i)). inr G (e_idx e)"
proof -
  have "var_wf G i" using assms by (auto simp: graph_wf_def inr_def vidx_def ISVI_def)
  then show ?thesis by (auto simp: var_wf_def inr_def midx_def)
qed

lemma newgood_step:
  assumes "newgood G (set_flag (SELECTED OR FHKF_SELECT) i P) P'" "good G P' i"
  shows "newgood G P P'"
  using assms unfolding newgood_def by auto

lemma prune_select_ok:
  assumes wf: "graph_wf G"
  shows "sel_spec n G (prune_select n G)"
proof (induction n)
  case 0
  then show ?case by (simp add: sel_spec_def)
next
  case (Suc n)
  show ?case unfolding sel_spec_def
  proof (intro allI impI)
    fix i P assume i: "inr G i" and k: "card (unsel G P) < Suc n"
    show "\<exists>P'. prune_select (Suc n) G i P = Some P' \<and> grows P P' \<and> has P' i SELECTED \<and> newgood G P P'"
    proof (cases "has P i SELECTED")
      case True
      then show ?thesis by (simp add: newgood_def)
    next
      case False
      let ?P1 = "set_flag (SELECTED OR FHKF_SELECT) i P"
      have g1: "grows P ?P1" by (rule grows_set_flag) simp
      have k1: "card (unsel G ?P1) < n" using unsel_less [OF i False _ g1] k by simp
      show ?thesis
      proof (cases "ISVI i")
        case vi: True
        obtain P' where P': "select_models (prune_select n G) (bound P i BLACK) (flt (bound P i BLACK) INFINITY)
            (v_models (gvar G i)) ?P1 = Some P'" "grows ?P1 P'" "newgood G ?P1 P'"
          "\<forall>e \<in> set (v_models (gvar G i)). flt (bound P (e_idx e) GRAY) (bound P i BLACK) \<longrightarrow> has P' (e_idx e) SELECTED"
          "flt (bound P i BLACK) INFINITY \<and> (\<exists>e \<in> set (v_models (gvar G i)). feq (bound P (e_idx e) BLACK) (bound P i BLACK)) \<longrightarrow>
            (\<exists>e \<in> set (v_models (gvar G i)). has P' (e_idx e) SELECTED \<and> \<not> flt (bound P i BLACK) (bound P (e_idx e) BLACK))"
          using select_models_ok [OF Suc.IH var_edges_inr [OF wf i vi] k1, of "bound P i BLACK" "flt (bound P i BLACK) INFINITY"]
          by auto
        have b: "bound P' = bound P" using P'(2) by (simp add: grows_def)
        have "good G P' i" unfolding good_def using vi P'(4,5) by (simp only: b if_True simp_thms)
        moreover have "prune_select (Suc n) G i P = Some P'" using False vi P'(1) by simp
        moreover have "has P' i SELECTED" using P'(2) by (simp add: grows_def)
        ultimately show ?thesis using grows_trans [OF g1 P'(2)] newgood_step [OF P'(3)] by blast
      next
        case mi: False
        let ?m = "gmodel G i"
        obtain P2 where P2: "select_shadows G (prune_select n G) (m_shadows ?m) ?P1 = Some P2" "grows ?P1 P2" "newgood G ?P1 P2"
          "\<forall>sh \<in> set (m_shadows ?m). has P2 (w_xi (gshadow G (se_idx sh))) FHKF_SKIP \<or> has P2 (w_xi (gshadow G (se_idx sh))) SELECTED"
          using select_shadows_ok [OF Suc.IH model_edges_inr(1) [OF wf i mi] k1] by blast
        have "\<forall>j \<in> set (map e_idx (m_params ?m)). inr G j" using model_edges_inr(2) [OF wf i mi] by simp
        then obtain P3 where P3: "select_all (prune_select n G) (map e_idx (m_params ?m)) P2 = Some P3" "grows P2 P3"
          "\<forall>j \<in> set (map e_idx (m_params ?m)). has P3 j SELECTED" "newgood G P2 P3"
          using select_all_ok [OF Suc.IH, of "map e_idx (m_params ?m)" P2] le_less_trans [OF unsel_mono [OF P2(2)] k1] by blast
        let ?P4 = "fold (\<lambda>e. set_flag RETEDGE (e_idx e)) (m_returns ?m) P3"
        have g4: "grows P3 ?P4" by (rule grows_fold_flag) simp
        have n4: "newgood G P3 ?P4" by (auto simp: newgood_def)
        have g24: "grows P2 ?P4" and g14: "grows ?P1 ?P4" using grows_trans [OF P3(2) g4] grows_trans [OF P2(2)] by auto
        have n: "newgood G ?P1 ?P4" using newgood_trans [OF newgood_trans [OF P2(3) P3(4,2)] n4 g4] .
        have "\<forall>sh \<in> set (m_shadows ?m). has ?P4 (w_xi (gshadow G (se_idx sh))) FHKF_SKIP \<or> has ?P4 (w_xi (gshadow G (se_idx sh))) SELECTED"
          using P2(4) g24 unfolding grows_def by blast
        moreover have "\<forall>e \<in> set (m_params ?m). has ?P4 (e_idx e) SELECTED" using P3(3) by simp
        moreover have "\<forall>e \<in> set (m_returns ?m). has ?P4 (e_idx e) RETEDGE" by simp
        ultimately have "good G ?P4 i" unfolding good_def using mi by (simp only: if_False simp_thms)
        moreover have "prune_select (Suc n) G i P = Some ?P4" using False mi P2(1) P3(1) by simp
        moreover have "has ?P4 i SELECTED"
        proof -
          have "has ?P1 i SELECTED" by simp
          then show ?thesis using g14 unfolding grows_def by blast
        qed
        ultimately show ?thesis using grows_trans [OF g1 g14] newgood_step [OF n] by blast
      qed
    qed
  qed
qed

lemma mark_selects_ok:
  assumes wf: "graph_wf G"
  shows "\<forall>i \<in> set is. inr G i \<Longrightarrow> card (unsel G P) < n \<Longrightarrow>
     \<exists>r. mark_selects n G is P = Some r \<and> (\<forall>P'. r = Inr P' \<longrightarrow> grows P P' \<and> newgood G P P' \<and>
       (\<forall>i \<in> set is. has P i FHKF_SELECT \<longrightarrow> has P' i SELECTED))"
proof (induction "is" arbitrary: P)
  case Nil
  then show ?case by (simp add: newgood_def)
next
  case (Cons i "is")
  show ?case
  proof (cases "has P i FHKF_SELECT")
    case False
    then show ?thesis using Cons.IH [of P] Cons.prems by auto
  next
    case sel: True
    show ?thesis
    proof (cases "has P i FHKF_SKIP")
      case True
      then show ?thesis using sel by (simp add: prune_fail_def)
    next
      case False
      obtain P1 where P1: "prune_select n G i P = Some P1" "grows P P1" "has P1 i SELECTED" "newgood G P P1"
        using sel_specD [OF prune_select_ok [OF wf] _ Cons.prems(2)] Cons.prems(1) by (metis list.set_intros(1))
      obtain r where r: "mark_selects n G is P1 = Some r" "\<forall>P'. r = Inr P' \<longrightarrow> grows P1 P' \<and> newgood G P1 P' \<and>
          (\<forall>i \<in> set is. has P1 i FHKF_SELECT \<longrightarrow> has P' i SELECTED)"
        using Cons.IH [of P1] Cons.prems unsel_mono [OF P1(2), of G] by auto
      have "grows P P' \<and> newgood G P P' \<and> (\<forall>j \<in> set (i # is). has P j FHKF_SELECT \<longrightarrow> has P' j SELECTED)" if "r = Inr P'" for P'
        using r(2) that P1 grows_trans [OF P1(2)] newgood_trans [OF P1(4)] by (auto simp: grows_def)
      then show ?thesis using sel False P1(1) r(1) by simp
    qed
  qed
qed

section \<open>Unreachable nodes\<close>

definition unreach :: "int \<Rightarrow> prune \<Rightarrow> prune" where
  "unreach i P = (let P1 = (if has P i (COLOR GRAY) then P else set_bound i GRAY INFINITY P);
                      P2 = (if has P1 i (COLOR BLACK) then P1 else set_bound i BLACK INFINITY P1)
                  in if feq (bound P2 i GRAY) INFINITY then set_flag FHKF_SKIP i P2 else P2)"

lemma unreach_fields:
  "FHKF_SKIP AND g = 0 \<Longrightarrow> has (unreach i P) j g = has P j g"
  "c < 2 \<Longrightarrow> bound (unreach i P) j c = (if j = i \<and> \<not> has P i (COLOR c) then INFINITY else bound P j c)"
  by (auto simp: unreach_def less_2_cases_iff GRAY_def BLACK_def)

lemma mark_unreachable_fold: "prune_mark_unreachable G P = fold unreach [- nm G .. nv G - 1] P"
  by (simp add: prune_mark_unreachable_def unreach_def [abs_def])

lemma fold_unreach:
  "FHKF_SKIP AND g = 0 \<Longrightarrow> has (fold unreach is P) j g = has P j g"
  "c < 2 \<Longrightarrow> bound (fold unreach is P) j c = (if j \<in> set is \<and> \<not> has P j (COLOR c) then INFINITY else bound P j c)"
  by (induction "is" arbitrary: P) (auto simp: unreach_fields)

section \<open>The whole run\<close>

definition final_flags :: "fhk_graph \<Rightarrow> prune \<Rightarrow> prune" where
  "final_flags G P = fold (\<lambda>i P. if has P i RETEDGE then set_flag FHKF_SELECT i P else P) [0 .. nv G - 1] P"

lemma final_flags_fields:
  "bound (final_flags G P) = bound P" "FHKF_SELECT AND g = 0 \<Longrightarrow> has (final_flags G P) j g = has P j g"
proof -
  have "bound (fold (\<lambda>i P. if has P i RETEDGE then set_flag FHKF_SELECT i P else P) is P) = bound P \<and>
    (FHKF_SELECT AND g = 0 \<longrightarrow> has (fold (\<lambda>i P. if has P i RETEDGE then set_flag FHKF_SELECT i P else P) is P) j g = has P j g)" for "is" g j
    by (induction "is" arbitrary: P) auto
  then show "bound (final_flags G P) = bound P" "FHKF_SELECT AND g = 0 \<Longrightarrow> has (final_flags G P) j g = has P j g"
    unfolding final_flags_def by blast+
qed

text \<open>A run of a fresh pruner always returns; when it succeeds, it has gone through a finished
  propagation and a finished selection.\<close>

lemma prune_run_phases:
  assumes wf: "graph_wf G" and f: "fresh P"
  shows "\<exists>r. fhk_prune_run (bounded ralloc) G P = Some r \<and> (\<forall>P'. r = Inr P' \<longrightarrow>
     (\<exists>P4 LL P6. big G (skipped G P) (given_var P) LL P4 \<and> heap_elems (heap P4) = {#} \<and>
        grows (prune_mark_unreachable G P4) P6 \<and> newgood G (prune_mark_unreachable G P4) P6 \<and> P' = final_flags G P6))"
proof -
  let ?P1 = "prune_init_mstate G (marked G P)" and ?sk = "skipped G P" and ?gv = "given_var P"
  have run: "fhk_prune_run (bounded ralloc) G P =
     (case prune_insert_given (bounded ralloc) G ?P1 of
        Inl e \<Rightarrow> Some (Inl e)
      | Inr P2 \<Rightarrow>
          (case prune_insert_constmods (bounded ralloc) G P2 of
             Inl e \<Rightarrow> Some (Inl e)
           | Inr P3 \<Rightarrow>
               (case prune_propagate (bounded ralloc) G P3 of
                  None \<Rightarrow> None
                | Some (Inl e) \<Rightarrow> Some (Inl e)
                | Some (Inr P4) \<Rightarrow> prune_mark_selects (select_fuel G) G (prune_mark_unreachable G P4))))"
    by (simp add: fhk_prune_run_def marked_def)
  show ?thesis
  proof (cases "prune_insert_given (bounded ralloc) G ?P1")
    case (Inl e)
    then show ?thesis using run by simp
  next
    case P2: (Inr P2)
    have gv: "\<forall>i. has ?P1 i FHKF_GIVEN \<longleftrightarrow> ?gv i"
      using marked_spec(2) [OF wf, of FHKF_GIVEN P] by (simp add: init_mstate_spec(2) [OF wf] given_var_def)
    have "\<forall>i \<in> set [0 .. nv G - 1]. vidx G i" by (auto simp: vidx_def)
    then have "views G ?sk ?gv {mi. midx G mi} ({x. vidx G x} - set [0 .. nv G - 1]) P2"
      using start_views [OF wf f] gv P2 unfolding prune_insert_given_def by (intro insert_given_views [OF wf]) auto
    moreover have "{x. vidx G x} - set [0 .. nv G - 1] = {}" by (auto simp: vidx_def)
    ultimately have v2: "views G ?sk ?gv {mi. midx G mi} {} P2" by (simp only:)
    show ?thesis
    proof (cases "prune_insert_constmods (bounded ralloc) G P2")
      case (Inl e)
      then show ?thesis using run P2 by simp
    next
      case P3: (Inr P3)
      have "views G ?sk ?gv ({mi. midx G mi} - (\<lambda>i. - 1 - i) ` set [0 .. nm G - 1]) {} P3"
        using v2 P3 unfolding prune_insert_constmods_def by (intro insert_constmods_views [OF wf]) (auto simp: midx_def)
      moreover have "{mi. midx G mi} - (\<lambda>i. - 1 - i) ` set [0 .. nm G - 1] = {}"
      proof -
        have "mi \<in> (\<lambda>i. - 1 - i) ` set [0 .. nm G - 1]" if "midx G mi" for mi
          using that by (intro image_eqI [of _ _ "- 1 - mi"]) (auto simp: midx_def)
        then show ?thesis by blast
      qed
      ultimately have "views G ?sk ?gv {} {} P3" by (simp only:)
      then have "big G ?sk ?gv (\<lambda>_. []) P3" by (simp add: views_def big_def)
      from propagate_total [OF wf this, of ralloc] obtain r where r: "prune_propagate (bounded ralloc) G P3 = Some r"
        "\<forall>P'. r = Inr P' \<longrightarrow> (\<exists>LL'. big G ?sk ?gv LL' P' \<and> heap_elems (heap P') = {#})" by blast
      show ?thesis
      proof (cases r)
        case (Inl e)
        then show ?thesis using run P2 P3 r(1) by simp
      next
        case P4: (Inr P4)
        let ?P5 = "prune_mark_unreachable G P4"
        have "card (unsel G ?P5) \<le> card {- nm G .. nv G - 1}"
          by (intro card_mono) (auto simp: unsel_def inr_def)
        then have "card (unsel G ?P5) < select_fuel G" by (simp add: select_fuel_def)
        moreover have "\<forall>i \<in> set [- nm G .. nv G - 1]. inr G i" by (auto simp: inr_def)
        ultimately obtain q where q: "mark_selects (select_fuel G) G [- nm G .. nv G - 1] ?P5 = Some q"
          "\<forall>P'. q = Inr P' \<longrightarrow> grows ?P5 P' \<and> newgood G ?P5 P'"
          using mark_selects_ok [OF wf] by blast
        then show ?thesis using run P2 P3 r P4
          by (cases q) (auto simp: prune_mark_selects_def final_flags_def)
      qed
    qed
  qed
qed

lemma run_bounds_least:
  assumes "graph_wf G" "fresh P" "fhk_prune_run (bounded ralloc) G P = Some (Inr P')" "vidx G x" "c < 2"
  shows "(\<forall>s. derives G (skipped G P) (given_var P) c x s \<longrightarrow> bound P' x c \<le> s) \<and>
     (derives G (skipped G P) (given_var P) c x (bound P' x c) \<or>
      bound P' x c = INFINITY \<and> (\<forall>s. \<not> derives G (skipped G P) (given_var P) c x s))"
proof -
  let ?D = "derives G (skipped G P) (given_var P) c x"
  obtain P4 LL P6 where B: "big G (skipped G P) (given_var P) LL P4" "heap_elems (heap P4) = {#}"
    "grows (prune_mark_unreachable G P4) P6" "P' = final_flags G P6"
    using prune_run_phases [OF assms(1,2), of ralloc] assms(3) by auto
  have b: "bound P' x c = (if has P4 x (COLOR c) then bound P4 x c else INFINITY)"
    using B(3,4) assms(4,5) by (auto simp: final_flags_fields grows_def mark_unreachable_fold fold_unreach vidx_def)
  have vw: "view G (skipped G P) (given_var P) c (LL c) [] {} {} P4" using B(1) assms(5) by (simp add: big_def)
  note low = derives_bound [OF assms(1) vw B(2)]
  have L: "L_ok G (skipped G P) (given_var P) c (LL c) (\<lambda>i. has P4 i (COLOR c)) (\<lambda>i. bound P4 i c)"
    using pinvD(1) [OF vw [unfolded view_def]] .
  show ?thesis
  proof (cases "has P4 x (COLOR c)")
    case True
    then obtain s where s: "(x, s) \<in> set (LL c)" using L assms(4) by (auto simp: L_ok_def)
    then have "?D s" "bound P4 x c = s" and d: "distinct (map fst (LL c))" using L by (auto simp: L_ok_def)
    moreover have "s \<le> t" if "?D t" for t using low [OF that] eq_key_imp_eq_value [OF d s] by auto
    ultimately show ?thesis using b True by auto
  next
    case False
    then have "\<not> ?D s" for s using low [of x s] L assms(4) by (force simp: L_ok_def)
    then show ?thesis using b False by simp
  qed
qed

text \<open>
  C3. The bounds are optimal. After a successful run of a fresh pruner on a well-formed graph, the bound
  of every variable, for the lower and the upper colour, is the least cost of any derivation of it
  from the given variables, in the arithmetic of 32-bit floats, and infinity when there is none.
\<close>

theorem prune_bounds_optimal:
  assumes "graph_wf G" "fresh P" "fhk_prune_run (bounded ralloc) G P = Some (Inr P')" "vidx G x" "c < 2"
  shows "(\<forall>s. derives G (skipped G P) (given_var P) c x s \<longrightarrow> bound P' x c \<le> s) \<and>
     (derives G (skipped G P) (given_var P) c x (bound P' x c) \<or>
      bound P' x c = INFINITY \<and> (\<forall>s. \<not> derives G (skipped G P) (given_var P) c x s))"
  using run_bounds_least [OF assms] .


text \<open>
  C35. A run of the pruner always returns: the propagation loop ends and the depth of the recursive
  selection is at most the number of variables and models plus one.
\<close>

theorem prune_run_returns:
  assumes "graph_wf G" "fresh P"
  shows "\<exists>r. fhk_prune_run (bounded ralloc) G P = Some r"
  using prune_run_phases [OF assms] by blast

section \<open>An example run\<close>

text \<open>Variable 1 is computed by one model of cost 2 from the given variable 0.\<close>

definition demo_graph :: fhk_graph where
  "demo_graph = \<lparr>g_models =
      [\<lparr>m_params = [\<lparr>e_idx = 0, e_map = MAP_IDENT, e_ex = 0\<rparr>], m_shadows = [],
        m_returns = [\<lparr>e_idx = 1, e_map = MAP_IDENT, e_ex = 0\<rparr>], m_group = 0, m_cparam = 0, m_flags = 0,
        m_k = 0x40000000, m_c = ONE, m_ki = 0, m_ci = ONE, m_cmin = 0\<rparr>],
     g_vars =
      [\<lparr>v_models = [], v_fwds = [\<lparr>e_idx = -1, e_map = MAP_IDENT, e_ex = 0\<rparr>], v_group = 0, v_size = 8\<rparr>,
       \<lparr>v_models = [\<lparr>e_idx = -1, e_map = MAP_IDENT, e_ex = 0\<rparr>], v_fwds = [], v_group = 0, v_size = 8\<rparr>],
     g_shadows = [], g_ng = 1, g_nkmap = 1, g_nimap = 0, g_umap_assoc = []\<rparr>"

definition demo_prune :: prune where
  "demo_prune = \<lparr>heap = heap_create, flags = (\<lambda>_. 0)(0 := FHKF_GIVEN, 1 := FHKF_SELECT), bound = (\<lambda>_ _. 0), p_miss = (\<lambda>_ _. 0)\<rparr>"

lemma demo_floats:
  "fadd 0x40000000 0 = 0x40000000" "fadd 0 0x40000000 = 0x40000000" "fadd 0 0 = 0" "fmul ONE 0 = 0" "fmul ONE 0x40000000 = 0x40000000"
  by (simp_all add: fmul_ONE is_cost_def INFINITY_def)

lemma demo_nodes:
  "mknode 0 0 0 = 0" "mknode 0 (Suc 0) 0 = 0x10000" "mknode 0x40000000 0 1 = 0x4000000000000001" "mknode 0x40000000 (Suc 0) 1 = 0x4000000000010001"
  "node_cost 0 = 0" "node_color 0 = 0" "node_xi 0 = 0" 
  "node_cost 0x10000 = 0" "node_color 0x10000 = 1" "node_xi 0x10000 = 0" 
  "node_cost 0x4000000000000001 = 0x40000000" "node_color 0x4000000000000001 = 0" "node_xi 0x4000000000000001 = 1" 
  "node_cost 0x4000000000010001 = 0x40000000" "node_color 0x4000000000010001 = 1" "node_xi 0x4000000000010001 = 1" 
  by (simp_all add: mknode_def node_cost_def node_color_def node_xi_def)

lemmas demo_eval = demo_graph_def demo_prune_def gvar_def gmodel_def has_def set_flag_def set_bound_def set_miss_def
  flag_defs xnonempty_def MAP_ISUSER_def MAP_IDENT_def prune_insert_var_def prune_fail_def heap_insert_def heap_remove_def
  heap_empty_def bounded_def HSIZE_def heap_create_def demo_floats demo_nodes sift_up.simps sift_down.simps
  m_costf_def costf_def upto_rec1

text \<open>The state of the run of the example when the propagation starts.\<close>

definition demo_P1 :: prune where
  "demo_P1 = \<lparr>heap = \<lparr>pos = 2, alloc = 64, nodes = (\<lambda>_. 0)(1 := 0, 2 := 0x10000)\<rparr>,
     flags = (\<lambda>_. 0)(0 := 1, 1 := 4), bound = \<lambda>_ _. 0,
     p_miss = (\<lambda>_ _. 0)(- 1 := (\<lambda>_. 0)(0 := 1, 1 := 1))\<rparr>"


definition demo_P0 :: prune where
  "demo_P0 = \<lparr>heap = heap_create, flags = (\<lambda>_. 0)(0 := 1, 1 := 4), bound = \<lambda>_ _. 0,
     p_miss = (\<lambda>_ _. 0)(- 1 := (\<lambda>_. 0)(0 := 1, 1 := 1))\<rparr>"

lemma demo_init:
  "prune_init_mstate demo_graph (prune_mark_skips demo_graph (prune_mark_given demo_graph demo_prune)) = demo_P0"
  by (simp add: prune_mark_given_def prune_mark_skips_def prune_init_mstate_def demo_eval demo_P0_def)

lemma demo_start: "prune_insert_given (bounded (\<lambda>_. True)) demo_graph demo_P0 = Inr demo_P1"
  by (simp add: demo_eval prune_insert_given_def demo_P1_def demo_P0_def, simp only: numeral_2_eq_2)

lemma demo_const: "prune_insert_constmods (bounded (\<lambda>_. True)) demo_graph demo_P1 = Inr demo_P1"
  by (simp add: prune_insert_constmods_def demo_P1_def demo_eval)


definition demo_P2 :: prune where
  "demo_P2 = \<lparr>heap = \<lparr>pos = 0, alloc = 64, nodes = (\<lambda>_. 0)(2 := 4611686018427453441, 1 := 4611686018427453441)\<rparr>,
     flags = (\<lambda>_. 0)(0 := 193, - 1 := 192, 1 := 196),
     bound = (\<lambda>_ _. 0)(- 1 := (\<lambda>_. 0)(0 := 1073741824, 1 := 1073741824), 1 := (\<lambda>_. 0)(0 := 1073741824, 1 := 1073741824)),
     p_miss = \<lambda>_ _. 0\<rparr>"

lemma demo_prop: "prune_propagate (bounded (\<lambda>_. True)) demo_graph demo_P1 = Some (Inr demo_P2)"
  by (subst prune_propagate.simps, simp add: demo_P1_def demo_eval prune_bound_var_def prune_fwd_def prune_bound_model_def)+
    (auto simp: demo_P2_def fun_eq_iff)

lemma demo_fuel: "select_fuel demo_graph = Suc (Suc (Suc (Suc 0)))"
  by (simp add: select_fuel_def demo_graph_def)

lemma demo_feq: "\<not> feq 0 INFINITY" "\<not> feq 0x40000000 INFINITY" "feq 0x40000000 0x40000000" "\<not> flt 0x40000000 0x40000000" "flt 0x40000000 INFINITY"
  by (simp_all add: flt_def feq_def f32_nan_def f32_key_def f32_mag_def f32_neg_def f32_defs)

lemma demo_unreach: "prune_mark_unreachable demo_graph demo_P2 = demo_P2"
  by (simp add: prune_mark_unreachable_def demo_P2_def demo_eval demo_feq)


definition demo_P3 :: prune where
  "demo_P3 = demo_P2\<lparr>flags := (\<lambda>_. 0)(- 1 := 228, 0 := 229, 1 := 244)\<rparr>"

lemma demo_sel: "prune_mark_selects (Suc (Suc (Suc (Suc 0)))) demo_graph demo_P2 = Some (Inr demo_P3)"
  by (simp add: prune_mark_selects_def demo_P2_def demo_P3_def demo_eval demo_feq ISVI_def)

lemma demo_run: "fhk_prune_run (bounded (\<lambda>_. True)) demo_graph demo_prune = Some (Inr demo_P3)"
  by (simp add: fhk_prune_run_def demo_init demo_start demo_const demo_prop demo_fuel demo_unreach demo_sel)

lemma demo_wf: "graph_wf demo_graph"
proof -
  have m: "midx demo_graph mi \<longleftrightarrow> mi = - 1" for mi by (auto simp: midx_def demo_graph_def)
  have v: "vidx demo_graph x \<longleftrightarrow> x = 0 \<or> x = 1" for x by (auto simp: vidx_def demo_graph_def)
  have c: "cost_par 0x40000000 ONE" by (simp add: cost_par_def is_cost_def f32_defs)
  have "model_wf demo_graph (- 1)"
    by (simp add: model_wf_def v) (simp add: demo_graph_def gmodel_def gvar_def c)
  moreover have "var_wf demo_graph 0" "var_wf demo_graph 1"
    by (simp_all add: var_wf_def m cnt_def params_rel_def)
      (simp_all add: demo_graph_def gmodel_def gvar_def relp_def xnonempty_def MAP_ISUSER_def)
  ultimately show ?thesis unfolding graph_wf_def m v by (auto simp: demo_graph_def)
qed

lemma demo_fresh: "fresh demo_prune"
  by (auto simp: fresh_def demo_prune_def has_def flag_defs heap_create_def)

theorem prune_bounds_optimal_witness:
  "vidx demo_graph 1 \<and> bound demo_P3 1 BLACK = 0x40000000 \<and> 
   \<not> derives demo_graph (skipped demo_graph demo_prune) (given_var demo_prune) BLACK 1 ONE \<and>
   derives demo_graph (skipped demo_graph demo_prune) (given_var demo_prune) BLACK 1 0x40000000"
proof -
  have v: "vidx demo_graph 1" by (simp add: vidx_def demo_graph_def)
  have b: "bound demo_P3 1 BLACK = 0x40000000" by (simp add: demo_P3_def demo_P2_def BLACK_def)
  show ?thesis using prune_bounds_optimal [OF demo_wf demo_fresh demo_run v, of BLACK] v
    unfolding b by (fastforce simp: BLACK_def f32_defs)
qed


theorem prune_run_returns_witness: "\<exists>r. fhk_prune_run (bounded (\<lambda>_. False)) demo_graph demo_prune = Some r"
  by (rule prune_run_returns [OF demo_wf demo_fresh])

end
