(* ===== verification/Fhk_Def.thy ===== *)
theory Fhk_Def
  imports Fhk_Graph "HOL-Library.Monad_Syntax"
begin

text \<open>
  The definition object of \<^verbatim>\<open>src/src/fhk/build.c\<close>: the growing description of a graph, from which
  the graph is built. Every \<^verbatim>\<open>fhk_def_add_*\<close> call is a function on \<open>fhk_def\<close> that returns the
  object or error word of the C function together with the new definition.

  The value \<open>None\<close> stands for a call that has no defined result: it reads outside an array, or the
  size loop of \<^verbatim>\<open>vec_alloc\<close> does not end. \<open>ralloc n\<close> tells whether \<^verbatim>\<open>realloc\<close> to \<open>n\<close> bytes succeeds.
\<close>

section \<open>Limits and integer conversions\<close>

definition G_MAXIDX :: int where "G_MAXIDX = 0x7ffe"
definition G_MAXEDGE :: int where "G_MAXEDGE = 0x7f"
definition G_MAXFWDE :: u16 where "G_MAXFWDE = 0xffff"
definition G_MAXMODE :: u8 where "G_MAXMODE = 0xff"
definition G_MINUMAP :: int where "G_MINUMAP = - 127"
definition G_MAXUMAP :: int where "G_MAXUMAP = 0x7f"
definition FHK_NGRP :: u8 where "FHK_NGRP = 0xff"
definition FHK_NIDX :: int where "FHK_NIDX = 0x7fff"

lemmas g_limits = G_MAXIDX_def G_MAXEDGE_def G_MAXFWDE_def G_MAXMODE_def G_MINUMAP_def G_MAXUMAP_def
  FHK_NGRP_def FHK_NIDX_def

text \<open>Conversions of C to \<^verbatim>\<open>int8_t\<close> and \<^verbatim>\<open>int16_t\<close>.\<close>

definition s8 :: "int \<Rightarrow> int" where "s8 x = (x + 128) mod 256 - 128"
definition s16 :: "int \<Rightarrow> int" where "s16 x = (x + 0x8000) mod 0x10000 - 0x8000"

lemma s8_range: "- 128 \<le> s8 x" "s8 x \<le> 127"
  by (simp_all add: s8_def)

lemma s8_id: "- 128 \<le> x \<Longrightarrow> x \<le> 127 \<Longrightarrow> s8 x = x"
  by (simp add: s8_def)

lemma s16_id: "- 0x8000 \<le> x \<Longrightarrow> x \<le> 0x7fff \<Longrightarrow> s16 x = x"
  by (simp add: s16_def)

section \<open>Objects and maps\<close>

type_synonym fhk_obj = u64
type_synonym fhk_extmap = int

definition FHKO_ERROR :: u64 where "FHKO_ERROR = 0"
definition FHKO_MODEL :: u64 where "FHKO_MODEL = 1"
definition FHKO_VAR :: u64 where "FHKO_VAR = 2"
definition FHKO_SHADOW :: u64 where "FHKO_SHADOW = 3"

lemmas fhko_defs = FHKO_ERROR_def FHKO_MODEL_def FHKO_VAR_def FHKO_SHADOW_def

definition FHKO_TAG :: "fhk_obj \<Rightarrow> u64" where "FHKO_TAG obj = drop_bit 60 obj"
definition OIDX :: "fhk_obj \<Rightarrow> int" where "OIDX obj = s16 (uint (obj AND 0xffff))"
definition OTAG :: "u64 \<Rightarrow> fhk_obj" where "OTAG tag = push_bit 60 tag"

definition FHKMAP_USER :: "int \<Rightarrow> int \<Rightarrow> fhk_extmap" where
  "FHKMAP_USER m i = (i mod 256) * 256 + m mod 256"

definition FHKMAP_IDENT :: fhk_extmap where "FHKMAP_IDENT = 0x10000"
definition FHKMAP_SPACE :: fhk_extmap where "FHKMAP_SPACE = 0x10001"

definition EXTMAP :: "fhk_extmap \<Rightarrow> int" where "EXTMAP m = s8 (m mod 256)"
definition EXTINVERSE :: "fhk_extmap \<Rightarrow> int" where "EXTINVERSE m = s8 (m div 256 mod 256)"

lemma s8_mod: "s8 (x mod 256) = s8 x"
  by (simp add: s8_def mod_simps)

lemma extmap_user:
  assumes "- 128 \<le> m" "m \<le> 127" "- 128 \<le> i" "i \<le> 127"
  shows "EXTMAP (FHKMAP_USER m i) = m" "EXTINVERSE (FHKMAP_USER m i) = i" "FHKMAP_USER m i < FHKMAP_IDENT"
proof -
  have d: "FHKMAP_USER m i mod 256 = m mod 256" "FHKMAP_USER m i div 256 = i mod 256"
    by (simp_all add: FHKMAP_USER_def)
  show "EXTMAP (FHKMAP_USER m i) = m" "EXTINVERSE (FHKMAP_USER m i) = i"
    using assms by (simp_all add: EXTMAP_def EXTINVERSE_def d s8_mod s8_id)
  have "i mod 256 \<le> 255" "m mod 256 < 256" by simp_all
  then show "FHKMAP_USER m i < FHKMAP_IDENT" unfolding FHKMAP_USER_def FHKMAP_IDENT_def by linarith
qed

section \<open>Growing vectors\<close>

text \<open>A vector of elements of \<open>sz\<close> bytes. Its header holds the end position and the capacity in bytes;
  \<^verbatim>\<open>NULL\<close> is the empty vector with no capacity.\<close>

record 'a dvec =
  dv_data :: "'a list"
  dv_alloc :: u32

definition vec_null :: "'a dvec" where
  "vec_null = \<lparr>dv_data = [], dv_alloc = 0\<rparr>"

definition vec_pos :: "nat \<Rightarrow> 'a dvec \<Rightarrow> u32" where
  "vec_pos sz v = of_nat (sz * length (dv_data v))"

definition vec_num :: "nat \<Rightarrow> 'a dvec \<Rightarrow> int" where
  "vec_num sz v = int (unat (vec_pos sz v) div sz)"

partial_function (option) vec_grow :: "u32 \<Rightarrow> u32 \<Rightarrow> u32 option" where
  "vec_grow need al =
     (let al1 = (if al \<noteq> 0 then 2 * al else 64) in
      if need > al1 then vec_grow need al1 else Some al1)"

text \<open>\<^verbatim>\<open>vec_alloc\<close> followed by the assignment of the new element: \<open>Some None\<close> is the failing \<^verbatim>\<open>realloc\<close>.\<close>

definition vec_alloc :: "(nat \<Rightarrow> bool) \<Rightarrow> nat \<Rightarrow> 'a \<Rightarrow> 'a dvec \<Rightarrow> 'a dvec option option" where
  "vec_alloc ralloc sz x v =
     (let need = vec_pos sz v + of_nat sz in
      if need > dv_alloc v
      then do {
        al \<leftarrow> vec_grow need (dv_alloc v);
        if ralloc (unat al + 8) then Some (Some \<lparr>dv_data = dv_data v @ [x], dv_alloc = al\<rparr>) else Some None
      }
      else Some (Some (v\<lparr>dv_data := dv_data v @ [x]\<rparr>)))"

definition get :: "'a list \<Rightarrow> int \<Rightarrow> 'a option" where
  "get xs i = (if 0 \<le> i \<and> i < int (length xs) then Some (xs ! nat i) else None)"

section \<open>The definition object\<close>

record def_edge =
  de_idx :: int
  de_map :: fhk_extmap

record def_shedge =
  dse_idx :: int
  dse_map :: fhk_extmap
  dse_penalty :: f32

record def_model =
  dm_params :: "def_edge dvec"
  dm_returns :: "def_edge dvec"
  dm_shadows :: "def_shedge dvec"
  dm_group :: u8
  dm_k :: f32
  dm_c :: f32
  dm_cmin :: f32

record def_var =
  dx_group :: u8
  dx_size :: u16
  dx_n_fwd :: u16
  dx_n_mod :: u8
  dx_cdiff :: f32

record def_shadow =
  dw_arg :: u64
  dw_xi :: int
  dw_guard :: u8

record fhk_def =
  d_models :: "def_model dvec"
  d_vars :: "def_var dvec"
  d_shadows :: "def_shadow dvec"
  maxg :: int
  minimap :: int
  maxkmap :: int
  umap_assoc :: "u8 list"

text \<open>The sizes of the structures on the LP64 target.\<close>

definition SZ_edge :: nat where "SZ_edge = 8"
definition SZ_shedge :: nat where "SZ_shedge = 12"
definition SZ_model :: nat where "SZ_model = 40"
definition SZ_var :: nat where "SZ_var = 12"
definition SZ_shadow :: nat where "SZ_shadow = 16"

lemmas def_sizes = SZ_edge_def SZ_shedge_def SZ_model_def SZ_var_def SZ_shadow_def

definition fhk_create_def :: fhk_def where
  "fhk_create_def = \<lparr>d_models = vec_null, d_vars = vec_null, d_shadows = vec_null, maxg = - 1, minimap = 0,
     maxkmap = - 1, umap_assoc = replicate (nat (- G_MINUMAP)) FHK_NGRP\<rparr>"

definition fhk_graph_idx :: "fhk_def \<Rightarrow> fhk_obj \<Rightarrow> int" where
  "fhk_graph_idx D ob =
     (if FHKO_TAG ob = FHKO_MODEL then - 1 - OIDX ob
      else if FHKO_TAG ob = FHKO_VAR then OIDX ob
      else if FHKO_TAG ob = FHKO_SHADOW then s16 (vec_num SZ_var (d_vars D) + OIDX ob)
      else FHK_NIDX)"

section \<open>Adding nodes\<close>

type_synonym def_result = "(u64 \<times> fhk_def) option"

definition einval_i :: "int \<Rightarrow> u64" where
  "einval_i i = FHKE_INVAL OR E_META 1 FHKEI_I (of_int i)"

definition fhk_def_add_model :: "(nat \<Rightarrow> bool) \<Rightarrow> fhk_def \<Rightarrow> u8 \<Rightarrow> f32 \<Rightarrow> f32 \<Rightarrow> f32 \<Rightarrow> def_result" where
  "fhk_def_add_model ralloc D grp k c cmin =
     (if vec_num SZ_model (d_models D) = G_MAXIDX then Some (einval_i G_MAXIDX, D)
      else if uint grp + maxkmap D > G_MAXUMAP then Some (FHKE_INVAL OR E_META 1 FHKEI_G (ucast grp), D)
      else if flt k 0 \<or> flt c ONE then Some (FHKE_INVAL, D)
      else do {
        r \<leftarrow> vec_alloc ralloc SZ_model \<lparr>dm_params = vec_null, dm_returns = vec_null, dm_shadows = vec_null,
               dm_group = grp, dm_k = k, dm_c = c, dm_cmin = cmin\<rparr> (d_models D);
        case r of
          None \<Rightarrow> Some (FHKE_MEM, D)
        | Some v \<Rightarrow> Some (OTAG FHKO_MODEL OR of_int (vec_num SZ_model v - 1),
                       D\<lparr>d_models := v, maxg := max (maxg D) (uint grp)\<rparr>)
      })"

definition fhk_def_add_var :: "(nat \<Rightarrow> bool) \<Rightarrow> fhk_def \<Rightarrow> u8 \<Rightarrow> u16 \<Rightarrow> f32 \<Rightarrow> def_result" where
  "fhk_def_add_var ralloc D grp sz cdiff =
     (if vec_num SZ_var (d_vars D) + vec_num SZ_shadow (d_shadows D) = G_MAXIDX then Some (einval_i G_MAXIDX, D)
      else if uint grp + maxkmap D > G_MAXUMAP then Some (FHKE_INVAL OR E_META 1 FHKEI_G (ucast grp), D)
      else if sz AND (sz - 1) \<noteq> 0 then Some (FHKE_INVAL, D)
      else do {
        r \<leftarrow> vec_alloc ralloc SZ_var \<lparr>dx_group = grp, dx_size = sz, dx_n_fwd = 0, dx_n_mod = 0, dx_cdiff = cdiff\<rparr> (d_vars D);
        case r of
          None \<Rightarrow> Some (FHKE_MEM, D)
        | Some v \<Rightarrow> Some (OTAG FHKO_VAR OR of_int (vec_num SZ_var v - 1),
                       D\<lparr>d_vars := v, maxg := max (maxg D) (uint grp)\<rparr>)
      })"

definition fhk_def_add_shadow :: "(nat \<Rightarrow> bool) \<Rightarrow> fhk_def \<Rightarrow> fhk_obj \<Rightarrow> u8 \<Rightarrow> u64 \<Rightarrow> def_result" where
  "fhk_def_add_shadow ralloc D var guard arg =
     (if vec_num SZ_var (d_vars D) + vec_num SZ_shadow (d_shadows D) = G_MAXIDX then Some (einval_i G_MAXIDX, D)
      else if FHKO_TAG var \<noteq> FHKO_VAR then Some (FHKE_INVAL, D)
      else
        let xi = OIDX var in
        if xi mod 0x10000 > vec_num SZ_var (d_vars D) then Some (einval_i xi, D)
        else do {
          r \<leftarrow> vec_alloc ralloc SZ_shadow \<lparr>dw_arg = arg, dw_xi = xi, dw_guard = guard\<rparr> (d_shadows D);
          case r of
            None \<Rightarrow> Some (FHKE_MEM, D)
          | Some v \<Rightarrow> Some (OTAG FHKO_SHADOW OR of_int (vec_num SZ_shadow v - 1), D\<lparr>d_shadows := v\<rparr>)
        })"

section \<open>Adding edges\<close>

text \<open>One half of \<^verbatim>\<open>d_checkmap\<close>: a nonconstant map belongs to one source group.\<close>

definition assoc_umap :: "fhk_def \<Rightarrow> int \<Rightarrow> u8 \<Rightarrow> (bool \<times> fhk_def) option" where
  "assoc_umap D m g =
     (if MAP_ISNONCONST m then do {
        a \<leftarrow> get (umap_assoc D) (m - G_MINUMAP);
        if a = FHK_NGRP then Some (True, D\<lparr>umap_assoc := (umap_assoc D)[nat (m - G_MINUMAP) := g]\<rparr>)
        else Some (a = g, D)
      }
      else Some (True, D))"

definition d_checkmap :: "fhk_def \<Rightarrow> fhk_extmap \<Rightarrow> u8 \<Rightarrow> u8 \<Rightarrow> (bool \<times> fhk_def) option" where
  "d_checkmap D emap from to =
     (if emap \<ge> FHKMAP_IDENT then Some (True, D)
      else
        let m = EXTMAP emap; i = EXTINVERSE emap in do {
          (ok1, D1) \<leftarrow> assoc_umap D m from;
          if \<not> ok1 then Some (False, D1)
          else do {
            (ok2, D2) \<leftarrow> assoc_umap D1 i to;
            if \<not> ok2 then Some (False, D2)
            else
              let mk = max (maxkmap D2) (max m i); mi = min (minimap D2) (min m i) in
              if maxg D2 + mk > G_MAXUMAP then Some (False, D2)
              else if mi < G_MINUMAP then Some (False, D2)
              else Some (True, D2\<lparr>maxkmap := mk, minimap := mi\<rparr>)
          }
        })"

definition set_model :: "int \<Rightarrow> def_model \<Rightarrow> fhk_def \<Rightarrow> fhk_def" where
  "set_model mi dm D = D\<lparr>d_models := (d_models D)\<lparr>dv_data := (dv_data (d_models D))[nat mi := dm]\<rparr>\<rparr>"

definition set_var :: "int \<Rightarrow> def_var \<Rightarrow> fhk_def \<Rightarrow> fhk_def" where
  "set_var xi dx D = D\<lparr>d_vars := (d_vars D)\<lparr>dv_data := (dv_data (d_vars D))[nat xi := dx]\<rparr>\<rparr>"

definition fhk_def_add_param :: "(nat \<Rightarrow> bool) \<Rightarrow> fhk_def \<Rightarrow> fhk_obj \<Rightarrow> fhk_obj \<Rightarrow> fhk_extmap \<Rightarrow> def_result" where
  "fhk_def_add_param ralloc D model var emap =
     (if FHKO_TAG model \<noteq> FHKO_MODEL \<or> FHKO_TAG var \<noteq> FHKO_VAR then Some (FHKE_INVAL, D)
      else
        let mi = OIDX model; xi = OIDX var in
        if mi mod 0x10000 > vec_num SZ_model (d_models D) then Some (einval_i mi, D)
        else if xi mod 0x10000 > vec_num SZ_var (d_vars D) then Some (einval_i xi, D)
        else do {
          dm \<leftarrow> get (dv_data (d_models D)) mi;
          if vec_num SZ_edge (dm_params dm) = G_MAXEDGE then Some (FHKE_INVAL, D)
          else do {
            dx \<leftarrow> get (dv_data (d_vars D)) xi;
            if dx_n_fwd dx = G_MAXFWDE then Some (FHKE_INVAL, D)
            else do {
            (ok, D1) \<leftarrow> d_checkmap D emap (dm_group dm) (dx_group dx);
            if \<not> ok then Some (FHKE_INVAL, D1)
            else do {
              r \<leftarrow> vec_alloc ralloc SZ_edge \<lparr>de_idx = xi, de_map = emap\<rparr> (dm_params dm);
              case r of
                None \<Rightarrow> Some (FHKE_MEM, D1)
              | Some v \<Rightarrow> Some (0, set_var xi (dx\<lparr>dx_n_fwd := dx_n_fwd dx + 1\<rparr>) (set_model mi (dm\<lparr>dm_params := v\<rparr>) D1))
            }
          }
          }
        })"

definition fhk_def_add_return :: "(nat \<Rightarrow> bool) \<Rightarrow> fhk_def \<Rightarrow> fhk_obj \<Rightarrow> fhk_obj \<Rightarrow> fhk_extmap \<Rightarrow> def_result" where
  "fhk_def_add_return ralloc D model var emap =
     (if FHKO_TAG model \<noteq> FHKO_MODEL \<or> FHKO_TAG var \<noteq> FHKO_VAR then Some (FHKE_INVAL, D)
      else
        let mi = OIDX model; xi = OIDX var in
        if mi mod 0x10000 > vec_num SZ_model (d_models D) then Some (einval_i mi, D)
        else if xi mod 0x10000 > vec_num SZ_var (d_vars D) then Some (einval_i xi, D)
        else do {
          dm \<leftarrow> get (dv_data (d_models D)) mi;
          if vec_num SZ_edge (dm_returns dm) = G_MAXEDGE then Some (FHKE_INVAL, D)
          else do {
            dx \<leftarrow> get (dv_data (d_vars D)) xi;
            if dx_n_mod dx = G_MAXMODE then Some (FHKE_INVAL, D)
            else do {
            (ok, D1) \<leftarrow> d_checkmap D emap (dm_group dm) (dx_group dx);
            if \<not> ok then Some (FHKE_INVAL, D1)
            else do {
              r \<leftarrow> vec_alloc ralloc SZ_edge \<lparr>de_idx = xi, de_map = emap\<rparr> (dm_returns dm);
              case r of
                None \<Rightarrow> Some (FHKE_MEM, D1)
              | Some v \<Rightarrow> Some (0, set_var xi (dx\<lparr>dx_n_mod := dx_n_mod dx + 1\<rparr>) (set_model mi (dm\<lparr>dm_returns := v\<rparr>) D1))
            }
          }
          }
        })"

definition fhk_def_add_check :: "(nat \<Rightarrow> bool) \<Rightarrow> fhk_def \<Rightarrow> fhk_obj \<Rightarrow> fhk_obj \<Rightarrow> fhk_extmap \<Rightarrow> f32 \<Rightarrow> def_result" where
  "fhk_def_add_check ralloc D model shadow emap penalty =
     (if FHKO_TAG model \<noteq> FHKO_MODEL \<or> FHKO_TAG shadow \<noteq> FHKO_SHADOW then Some (FHKE_INVAL, D)
      else
        let mi = OIDX model; wi = OIDX shadow in
        if mi mod 0x10000 > vec_num SZ_model (d_models D) then Some (einval_i mi, D)
        else if wi mod 0x10000 > vec_num SZ_shadow (d_shadows D) then Some (einval_i wi, D)
        else do {
          dm \<leftarrow> get (dv_data (d_models D)) mi;
          if vec_num SZ_shedge (dm_shadows dm) = G_MAXEDGE then Some (FHKE_INVAL, D)
          else do {
            ds \<leftarrow> get (dv_data (d_shadows D)) wi;
            dx \<leftarrow> get (dv_data (d_vars D)) (dw_xi ds);
            (ok, D1) \<leftarrow> d_checkmap D emap (dm_group dm) (dx_group dx);
            if \<not> ok then Some (FHKE_INVAL, D1)
            else do {
              r \<leftarrow> vec_alloc ralloc SZ_shedge \<lparr>dse_idx = wi, dse_map = emap, dse_penalty = penalty\<rparr> (dm_shadows dm);
              case r of
                None \<Rightarrow> Some (FHKE_MEM, D1)
              | Some v \<Rightarrow> Some (0, set_model mi (dm\<lparr>dm_shadows := v\<rparr>) D1)
            }
          }
        })"

end
