(* ===== verification/Fhk_DefInv.thy ===== *)
theory Fhk_DefInv
  imports Fhk_Def
begin

text \<open>
  The invariant of the definition object: vectors within their capacity, counters equal to the
  number of edges they count, edges in range, maps within the recorded bounds and every
  nonconstant user map associated with one group. Every call that has a defined result keeps it.
\<close>

section \<open>Vectors\<close>

definition dvec_ok :: "nat \<Rightarrow> 'a dvec \<Rightarrow> bool" where
  "dvec_ok sz v \<longleftrightarrow> sz * length (dv_data v) \<le> unat (dv_alloc v) \<and>
     (dv_alloc v = 0 \<or> (\<exists>k. 6 \<le> k \<and> k \<le> 31 \<and> dv_alloc v = 2 ^ k))"

lemma dvec_ok_null [simp]: "dvec_ok sz vec_null"
  by (simp add: dvec_ok_def vec_null_def)

lemma vec_pos_unat: "sz * length (dv_data v) < 2 ^ 32 \<Longrightarrow> unat (vec_pos sz v) = sz * length (dv_data v)"
  unfolding vec_pos_def by (rule unat_of_nat_small) simp

lemma vec_num_length:
  assumes "sz * length (dv_data v) < 2 ^ 32" "0 < sz"
  shows "vec_num sz v = int (length (dv_data v))"
  using assms by (simp add: vec_num_def vec_pos_unat)

lemma vec_grow_pow2:
  assumes "k \<le> j" "j \<le> 31" "6 \<le> k" "unat need \<le> 2 ^ j" "\<not> unat need \<le> 2 ^ k"
  shows "\<exists>i. k < i \<and> i \<le> 31 \<and> vec_grow need (2 ^ k) = Some (2 ^ i) \<and> unat need \<le> 2 ^ i"
  using assms(1,3,5)
proof (induction k rule: inc_induct)
  case base
  then show ?case using assms(4) by simp
next
  case (step k)
  have k: "k < 31" using step.hyps assms(2) by simp
  have nz: "(2 :: u32) ^ k \<noteq> 0" using k unat_exp [of k, where 'a = 32] by fastforce
  have le: "(need > 2 * 2 ^ k) \<longleftrightarrow> \<not> unat need \<le> 2 ^ Suc k"
    using k unat_exp [of "Suc k", where 'a = 32] by (simp add: word_less_nat_alt not_le)
  show ?case
  proof (cases "unat need \<le> 2 ^ Suc k")
    case True
    then have "vec_grow need (2 ^ k) = Some (2 ^ Suc k)"
      by (subst vec_grow.simps) (use nz le in simp)
    then show ?thesis using True k by (intro exI [of _ "Suc k"]) simp
  next
    case False
    then obtain i where "Suc k < i" "i \<le> 31" "vec_grow need (2 ^ Suc k) = Some (2 ^ i)" "unat need \<le> 2 ^ i"
      using step.IH step.prems by auto
    moreover have "vec_grow need (2 ^ k) = vec_grow need (2 ^ Suc k)"
      by (subst vec_grow.simps) (use nz le False in simp)
    ultimately show ?thesis by (metis Suc_lessD)
  qed
qed


lemma vec_grow_zero:
  assumes "unat need \<le> 2 ^ 31"
  shows "\<exists>i. 6 \<le> i \<and> i \<le> 31 \<and> vec_grow need 0 = Some (2 ^ i) \<and> unat need \<le> 2 ^ i"
proof (cases "unat need \<le> 64")
  case True
  then have "vec_grow need 0 = Some (2 ^ 6)" by (subst vec_grow.simps) (simp add: word_less_nat_alt)
  then show ?thesis using True by (intro exI [of _ 6]) simp
next
  case False
  then have "vec_grow need 0 = vec_grow need (2 ^ 6)" by (subst vec_grow.simps) (simp add: word_less_nat_alt)
  moreover have "\<exists>i. 6 < i \<and> i \<le> 31 \<and> vec_grow need (2 ^ 6) = Some (2 ^ i) \<and> unat need \<le> 2 ^ i"
    by (rule vec_grow_pow2 [of 6 31]) (use assms False in simp_all)
  ultimately show ?thesis by (metis less_imp_le)
qed

text \<open>Adding an element ends, and fails only when \<^verbatim>\<open>realloc\<close> does.\<close>

lemma vec_alloc_ok:
  assumes v: "dvec_ok sz v" and sz: "sz * Suc (length (dv_data v)) \<le> 2 ^ 31"
  shows "(\<exists>n. vec_alloc ralloc sz x v = Some None \<and> \<not> ralloc n) \<or>
     (\<exists>v'. vec_alloc ralloc sz x v = Some (Some v') \<and> dv_data v' = dv_data v @ [x] \<and> dvec_ok sz v')"
proof -
  define need where "need = vec_pos sz v + of_nat sz"
  have "unat (of_nat sz :: u32) = sz" using sz by (intro unat_of_nat_small) simp
  moreover have "unat (vec_pos sz v) = sz * length (dv_data v)" using sz by (intro vec_pos_unat) simp
  ultimately have need: "unat need = sz * Suc (length (dv_data v))"
    unfolding need_def using sz by (subst unat_add32) simp_all
  have bound: "unat need \<le> 2 ^ 31" using sz need by simp
  show ?thesis
  proof (cases "need > dv_alloc v")
    case False
    then have "vec_alloc ralloc sz x v = Some (Some (v\<lparr>dv_data := dv_data v @ [x]\<rparr>))"
      by (simp add: vec_alloc_def need_def)
    moreover have "dvec_ok sz (v\<lparr>dv_data := dv_data v @ [x]\<rparr>)"
      using v False need by (simp add: dvec_ok_def word_less_nat_alt not_less)
    ultimately show ?thesis by simp
  next
    case True
    have "\<exists>i. 6 \<le> i \<and> i \<le> 31 \<and> vec_grow need (dv_alloc v) = Some (2 ^ i) \<and> unat need \<le> 2 ^ i"
    proof (cases "dv_alloc v = 0")
      case True
      then show ?thesis using vec_grow_zero [OF bound] by simp
    next
      case False
      then obtain k where k: "6 \<le> k" "k \<le> 31" "dv_alloc v = 2 ^ k" using v by (auto simp: dvec_ok_def)
      then have "\<not> unat need \<le> 2 ^ k" using True unat_exp [of k, where 'a = 32] by (simp add: word_less_nat_alt)
      from vec_grow_pow2 [OF k(2) order_refl k(1) bound this] show ?thesis using k by (metis order.trans less_imp_le)
    qed
    then obtain i where i: "6 \<le> i" "i \<le> 31" "vec_grow need (dv_alloc v) = Some (2 ^ i)" "unat need \<le> 2 ^ i" by blast
    show ?thesis
    proof (cases "ralloc (unat (2 ^ i :: u32) + 8)")
      case True
      have "dvec_ok sz \<lparr>dv_data = dv_data v @ [x], dv_alloc = 2 ^ i\<rparr>"
        using i need unat_exp [of i, where 'a = 32] by (auto simp: dvec_ok_def)
      then show ?thesis using True \<open>need > dv_alloc v\<close> i(3) by (simp add: vec_alloc_def need_def)
    next
      case False
      then show ?thesis using \<open>need > dv_alloc v\<close> i(3) by (auto simp: vec_alloc_def need_def)
    qed
  qed
qed

section \<open>The invariant\<close>

abbreviation dmodels :: "fhk_def \<Rightarrow> def_model list" where "dmodels D \<equiv> dv_data (d_models D)"
abbreviation dvars :: "fhk_def \<Rightarrow> def_var list" where "dvars D \<equiv> dv_data (d_vars D)"
abbreviation dshadows :: "fhk_def \<Rightarrow> def_shadow list" where "dshadows D \<equiv> dv_data (d_shadows D)"
abbreviation params :: "def_model \<Rightarrow> def_edge list" where "params dm \<equiv> dv_data (dm_params dm)"
abbreviation returns :: "def_model \<Rightarrow> def_edge list" where "returns dm \<equiv> dv_data (dm_returns dm)"
abbreviation checks :: "def_model \<Rightarrow> def_shedge list" where "checks dm \<equiv> dv_data (dm_shadows dm)"

text \<open>A nonconstant map \<open>m\<close> belongs to group \<open>g\<close>.\<close>

definition assoc :: "fhk_def \<Rightarrow> int \<Rightarrow> u8 \<Rightarrow> bool" where
  "assoc D m g \<longleftrightarrow> (m < 0 \<longrightarrow> get (umap_assoc D) (m - G_MINUMAP) = Some g \<and> g \<noteq> FHK_NGRP) \<and> minimap D \<le> m \<and> m \<le> maxkmap D"

definition map_ok :: "fhk_def \<Rightarrow> fhk_extmap \<Rightarrow> u8 \<Rightarrow> u8 \<Rightarrow> bool" where
  "map_ok D em from to \<longleftrightarrow> em \<ge> FHKMAP_IDENT \<or> assoc D (EXTMAP em) from \<and> assoc D (EXTINVERSE em) to"

definition edge_ok :: "fhk_def \<Rightarrow> u8 \<Rightarrow> def_edge \<Rightarrow> bool" where
  "edge_ok D g e \<longleftrightarrow> (\<exists>dx. get (dvars D) (de_idx e) = Some dx \<and> map_ok D (de_map e) g (dx_group dx))"

definition check_ok :: "fhk_def \<Rightarrow> u8 \<Rightarrow> def_shedge \<Rightarrow> bool" where
  "check_ok D g e \<longleftrightarrow> (\<exists>ds dx. get (dshadows D) (dse_idx e) = Some ds \<and> get (dvars D) (dw_xi ds) = Some dx \<and>
     map_ok D (dse_map e) g (dx_group dx))"

definition dmodel_ok :: "fhk_def \<Rightarrow> def_model \<Rightarrow> bool" where
  "dmodel_ok D dm \<longleftrightarrow>
     dvec_ok SZ_edge (dm_params dm) \<and> dvec_ok SZ_edge (dm_returns dm) \<and> dvec_ok SZ_shedge (dm_shadows dm) \<and>
     int (length (params dm)) \<le> G_MAXEDGE \<and> int (length (returns dm)) \<le> G_MAXEDGE \<and> int (length (checks dm)) \<le> G_MAXEDGE \<and>
     (\<forall>e \<in> set (params dm). edge_ok D (dm_group dm) e) \<and> (\<forall>e \<in> set (returns dm). edge_ok D (dm_group dm) e) \<and>
     (\<forall>e \<in> set (checks dm). check_ok D (dm_group dm) e) \<and>
     uint (dm_group dm) \<le> maxg D \<and> \<not> flt (dm_k dm) 0 \<and> \<not> flt (dm_c dm) ONE"

text \<open>How often the edges of a list meet \<open>x\<close>.\<close>

definition hits :: "int \<Rightarrow> def_edge list \<Rightarrow> nat" where
  "hits x es = length (filter (\<lambda>e. de_idx e = x) es)"

lemma hits_simps [simp]: "hits x [] = 0" "hits x (e # es) = (if de_idx e = x then 1 else 0) + hits x es"
  "hits x (es @ fs) = hits x es + hits x fs"
  by (simp_all add: hits_def)

definition dvar_ok :: "fhk_def \<Rightarrow> int \<Rightarrow> def_var \<Rightarrow> bool" where
  "dvar_ok D x dx \<longleftrightarrow> unat (dx_n_fwd dx) = (\<Sum>dm\<leftarrow>dmodels D. hits x (params dm)) \<and>
     unat (dx_n_mod dx) = (\<Sum>dm\<leftarrow>dmodels D. hits x (returns dm)) \<and>
     uint (dx_group dx) \<le> maxg D \<and> dx_size dx AND (dx_size dx - 1) = 0"

definition glob_ok :: "fhk_def \<Rightarrow> bool" where
  "glob_ok D \<longleftrightarrow> dvec_ok SZ_model (d_models D) \<and> dvec_ok SZ_var (d_vars D) \<and> dvec_ok SZ_shadow (d_shadows D) \<and>
     int (length (dmodels D)) \<le> G_MAXIDX \<and> int (length (dvars D)) + int (length (dshadows D)) \<le> G_MAXIDX \<and>
     - 1 \<le> maxg D \<and> - 1 \<le> maxkmap D \<and> maxg D + maxkmap D \<le> G_MAXUMAP \<and> G_MINUMAP \<le> minimap D \<and> minimap D \<le> 0 \<and>
     length (umap_assoc D) = 127 \<and>
     (\<forall>ds \<in> set (dshadows D). 0 \<le> dw_xi ds \<and> dw_xi ds \<le> int (length (dvars D)))"

definition def_ok :: "fhk_def \<Rightarrow> bool" where
  "def_ok D \<longleftrightarrow> glob_ok D \<and> (\<forall>dm \<in> set (dmodels D). dmodel_ok D dm) \<and>
     (\<forall>x < length (dvars D). dvar_ok D (int x) (dvars D ! x))"

lemma create_def_ok: "def_ok fhk_create_def"
  by (simp add: def_ok_def glob_ok_def fhk_create_def_def g_limits) (simp add: vec_null_def)

section \<open>Growth\<close>

text \<open>What every call keeps of the old definition.\<close>

definition def_le :: "fhk_def \<Rightarrow> fhk_def \<Rightarrow> bool" where
  "def_le D D' \<longleftrightarrow> minimap D' \<le> minimap D \<and> maxkmap D \<le> maxkmap D' \<and> maxg D \<le> maxg D' \<and>
     (\<forall>i dx. get (dvars D) i = Some dx \<longrightarrow> (\<exists>dx'. get (dvars D') i = Some dx' \<and> dx_group dx' = dx_group dx)) \<and>
     (\<forall>i ds. get (dshadows D) i = Some ds \<longrightarrow> get (dshadows D') i = Some ds) \<and>
     (\<forall>k a. get (umap_assoc D) k = Some a \<longrightarrow> a \<noteq> FHK_NGRP \<longrightarrow> get (umap_assoc D') k = Some a)"

lemma get_append: "get xs i = Some x \<Longrightarrow> get (xs @ ys) i = Some x"
  by (auto simp: get_def nth_append split: if_splits)

lemma get_update: "get (xs[k := x]) i = (if 0 \<le> i \<and> nat i = k \<and> k < length xs then Some x else get xs i)"
  by (auto simp: get_def nth_list_update)

lemma get_set: "get xs i = Some x \<Longrightarrow> x \<in> set xs"
  by (auto simp: get_def split: if_splits)

lemma get_Some: "get xs i = Some x \<longleftrightarrow> 0 \<le> i \<and> nat i < length xs \<and> x = xs ! nat i"
  by (auto simp: get_def)

lemma assoc_mono: "assoc D m g \<Longrightarrow> def_le D D' \<Longrightarrow> assoc D' m g"
  by (auto simp: assoc_def def_le_def)

lemma map_ok_mono: "map_ok D em a b \<Longrightarrow> def_le D D' \<Longrightarrow> map_ok D' em a b"
  by (auto simp: map_ok_def assoc_mono)

lemma def_le_var:
  assumes "def_le D D'" "get (dvars D) i = Some dx"
  obtains dx' where "get (dvars D') i = Some dx'" "dx_group dx' = dx_group dx"
  using assms unfolding def_le_def by blast

lemma edge_ok_mono: assumes "edge_ok D g e" "def_le D D'" shows "edge_ok D' g e"
proof -
  obtain dx where dx: "get (dvars D) (de_idx e) = Some dx" "map_ok D (de_map e) g (dx_group dx)"
    using assms(1) by (auto simp: edge_ok_def)
  obtain dx' where "get (dvars D') (de_idx e) = Some dx'" "dx_group dx' = dx_group dx"
    using def_le_var [OF assms(2) dx(1)] .
  then show ?thesis using map_ok_mono [OF dx(2) assms(2)] by (auto simp: edge_ok_def)
qed

lemma check_ok_mono: assumes "check_ok D g e" "def_le D D'" shows "check_ok D' g e"
proof -
  obtain ds dx where dx: "get (dshadows D) (dse_idx e) = Some ds" "get (dvars D) (dw_xi ds) = Some dx"
    "map_ok D (dse_map e) g (dx_group dx)"
    using assms(1) by (auto simp: check_ok_def)
  obtain dx' where "get (dvars D') (dw_xi ds) = Some dx'" "dx_group dx' = dx_group dx"
    using def_le_var [OF assms(2) dx(2)] .
  moreover have "get (dshadows D') (dse_idx e) = Some ds" using dx(1) assms(2) by (simp add: def_le_def)
  ultimately show ?thesis using map_ok_mono [OF dx(3) assms(2)] by (auto simp: check_ok_def)
qed

lemma dmodel_ok_mono: "dmodel_ok D dm \<Longrightarrow> def_le D D' \<Longrightarrow> dmodel_ok D' dm"
  using edge_ok_mono [of D _ _ D'] check_ok_mono [of D _ _ D'] by (auto simp: dmodel_ok_def def_le_def)

lemma def_le_refl [simp]: "def_le D D"
  by (simp add: def_le_def)

lemma def_le_trans: assumes "def_le A B" "def_le B C" shows "def_le A C"
proof -
  have "\<exists>dx'. get (dvars C) i = Some dx' \<and> dx_group dx' = dx_group dx" if "get (dvars A) i = Some dx" for i dx
    using def_le_var [OF assms(1) that] def_le_var [OF assms(2)] by metis
  then show ?thesis using assms by (auto simp: def_le_def)
qed

section \<open>Maps\<close>

text \<open>Calls that only record maps.\<close>

definition same_nodes :: "fhk_def \<Rightarrow> fhk_def \<Rightarrow> bool" where
  "same_nodes D D' \<longleftrightarrow> d_models D' = d_models D \<and> d_vars D' = d_vars D \<and> d_shadows D' = d_shadows D \<and> maxg D' = maxg D"

lemma same_nodes_ok: "def_ok D \<Longrightarrow> same_nodes D D' \<Longrightarrow> def_le D D' \<Longrightarrow> glob_ok D' \<Longrightarrow> def_ok D'"
  using dmodel_ok_mono [of D _ D'] by (auto simp: def_ok_def same_nodes_def dvar_ok_def)

lemma assoc_umap_ok:
  assumes "assoc_umap D m g = Some (b, D1)" "glob_ok D" "g \<noteq> FHK_NGRP"
  shows "glob_ok D1" "same_nodes D D1" "def_le D D1" "minimap D1 = minimap D" "maxkmap D1 = maxkmap D"
    "b \<Longrightarrow> m < 0 \<Longrightarrow> get (umap_assoc D1) (m - G_MINUMAP) = Some g"
proof -
  show "glob_ok D1" "same_nodes D D1" "minimap D1 = minimap D" "maxkmap D1 = maxkmap D" "def_le D D1"
    using assms
    by (auto simp: assoc_umap_def glob_ok_def same_nodes_def def_le_def get_update get_Some nth_list_update split: if_splits Option.bind_splits)
  show "get (umap_assoc D1) (m - G_MINUMAP) = Some g" if "b" "m < 0"
    using assms that by (auto simp: assoc_umap_def MAP_ISNONCONST_def get_update get_Some split: if_splits Option.bind_splits)
qed

lemma checkmap_ok:
  assumes c: "d_checkmap D em a b = Some (ok, D1)" and g: "glob_ok D" "a \<noteq> FHK_NGRP" "b \<noteq> FHK_NGRP"
  shows "glob_ok D1 \<and> same_nodes D D1 \<and> def_le D D1 \<and> (ok \<longrightarrow> map_ok D1 em a b)"
proof (cases "em \<ge> FHKMAP_IDENT")
  case True
  then show ?thesis using c g by (simp add: d_checkmap_def map_ok_def same_nodes_def)
next
  case False
  let ?m = "EXTMAP em" and ?i = "EXTINVERSE em"
  obtain o1 E1 where 1: "assoc_umap D ?m a = Some (o1, E1)" using c False by (auto simp: d_checkmap_def split: Option.bind_splits)
  note E1 = assoc_umap_ok [OF 1 g(1,2)]
  show ?thesis
  proof (cases o1)
    case False
    then show ?thesis using c \<open>\<not> em \<ge> FHKMAP_IDENT\<close> 1 E1 by (simp add: d_checkmap_def)
  next
    case o1: True
    obtain o2 E2 where 2: "assoc_umap E1 ?i b = Some (o2, E2)" using c False 1 o1 by (auto simp: d_checkmap_def split: Option.bind_splits)
    note E2 = assoc_umap_ok [OF 2 E1(1) g(3)]
    let ?mk = "max (maxkmap E2) (max ?m ?i)" and ?mi = "min (minimap E2) (min ?m ?i)"
    let ?F = "E2\<lparr>maxkmap := ?mk, minimap := ?mi\<rparr>"
    have le: "def_le D E2" using def_le_trans [OF E1(3) E2(3)] .
    have sn: "same_nodes D E2" using E1(2) E2(2) by (simp add: same_nodes_def)
    show ?thesis
    proof (cases "o2 \<and> maxg E2 + ?mk \<le> G_MAXUMAP \<and> ?mi \<ge> G_MINUMAP")
      case False
      then have "ok = False \<and> D1 = E2" using c \<open>\<not> em \<ge> FHKMAP_IDENT\<close> 1 o1 2 by (auto simp: d_checkmap_def split: if_splits)
      then show ?thesis using E2(1) sn le by simp
    next
      case True
      then have r: "ok" "D1 = ?F" using c \<open>\<not> em \<ge> FHKMAP_IDENT\<close> 1 o1 2 by (auto simp: d_checkmap_def split: if_splits)
      have "glob_ok ?F" using E2(1) True by (auto simp: glob_ok_def)
      moreover have "same_nodes D ?F" "def_le D ?F" using sn le by (auto simp: same_nodes_def def_le_def)
      moreover have "get (umap_assoc ?F) (?m - G_MINUMAP) = Some a" if "?m < 0"
        using E1(6) [OF o1 that] E2(3) g(2) by (simp add: def_le_def)
      moreover have "get (umap_assoc ?F) (?i - G_MINUMAP) = Some b" if "?i < 0" using E2(6) True that by simp
      ultimately show ?thesis using r g(2,3) by (auto simp: map_ok_def assoc_def)
    qed
  qed
qed


section \<open>Calls\<close>

lemma set_node_fields [simp]:
  "d_vars (set_model mi dm D) = d_vars D" "d_shadows (set_model mi dm D) = d_shadows D" "maxg (set_model mi dm D) = maxg D"
  "minimap (set_model mi dm D) = minimap D" "maxkmap (set_model mi dm D) = maxkmap D"
  "umap_assoc (set_model mi dm D) = umap_assoc D" "dmodels (set_model mi dm D) = (dmodels D)[nat mi := dm]"
  "dv_alloc (d_models (set_model mi dm D)) = dv_alloc (d_models D)"
  "d_models (set_var xi dx D) = d_models D" "d_shadows (set_var xi dx D) = d_shadows D" "maxg (set_var xi dx D) = maxg D"
  "minimap (set_var xi dx D) = minimap D" "maxkmap (set_var xi dx D) = maxkmap D"
  "umap_assoc (set_var xi dx D) = umap_assoc D" "dvars (set_var xi dx D) = (dvars D)[nat xi := dx]"
  "dv_alloc (d_vars (set_var xi dx D)) = dv_alloc (d_vars D)"
  by (simp_all add: set_model_def set_var_def)

lemma set_glob_ok [simp]:
  "glob_ok (set_model mi dm D) \<longleftrightarrow> glob_ok D" "glob_ok (set_var xi dx D) \<longleftrightarrow> glob_ok D"
  by (simp_all add: glob_ok_def dvec_ok_def)

lemma set_model_le: "def_le D (set_model mi dm D)"
  by (simp add: def_le_def)

lemma set_var_le: "get (dvars D) xi = Some dx \<Longrightarrow> dx_group dx' = dx_group dx \<Longrightarrow> def_le D (set_var xi dx' D)"
  by (auto simp: def_le_def get_update) (auto simp: get_Some)

lemma def_okD:
  assumes "def_ok D"
  shows "glob_ok D" "get (dmodels D) i = Some dm \<Longrightarrow> dmodel_ok D dm" "get (dvars D) j = Some dx \<Longrightarrow> dvar_ok D j dx"
  using assms by (auto simp: def_ok_def get_Some)

lemma group_small: "glob_ok D \<Longrightarrow> uint (g :: u8) \<le> maxg D \<Longrightarrow> g \<noteq> FHK_NGRP"
  by (auto simp: glob_ok_def g_limits)

lemma def_num:
  assumes "glob_ok D"
  shows "vec_num SZ_model (d_models D) = int (length (dmodels D))" "vec_num SZ_var (d_vars D) = int (length (dvars D))"
    "vec_num SZ_shadow (d_shadows D) = int (length (dshadows D))"
proof -
  have "length (dmodels D) \<le> 32766" "length (dvars D) \<le> 32766" "length (dshadows D) \<le> 32766"
    using assms by (auto simp: glob_ok_def g_limits)
  then show "vec_num SZ_model (d_models D) = int (length (dmodels D))" "vec_num SZ_var (d_vars D) = int (length (dvars D))"
    "vec_num SZ_shadow (d_shadows D) = int (length (dshadows D))" by (auto intro!: vec_num_length simp: def_sizes)
qed

lemma model_num:
  assumes "dmodel_ok D dm"
  shows "vec_num SZ_edge (dm_params dm) = int (length (params dm))" "vec_num SZ_edge (dm_returns dm) = int (length (returns dm))"
    "vec_num SZ_shedge (dm_shadows dm) = int (length (checks dm))"
  using assms by (auto intro!: vec_num_length simp: def_sizes dmodel_ok_def g_limits)

text \<open>The outcome of adding an element to a vector whose size stays small.\<close>

lemma vec_alloc_cases:
  assumes "vec_alloc ralloc sz x v = Some r" "dvec_ok sz v" "sz * Suc (length (dv_data v)) \<le> 2 ^ 31"
  obtains (fail) "r = None" | (ok) v' where "r = Some v'" "dv_data v' = dv_data v @ [x]" "dvec_ok sz v'"
  using vec_alloc_ok [OF assms(2,3), of ralloc x] assms(1) by auto

text \<open>The index of an object is a 16-bit number; one that passes the range check is not negative.\<close>

lemma OIDX_range: "- 32768 \<le> OIDX ob" "OIDX ob \<le> 32767"
  by (simp_all add: OIDX_def s16_def)

lemma small_index:
  assumes "OIDX ob mod 0x10000 \<le> int n" "n \<le> 32766"
  shows "0 \<le> OIDX ob" "OIDX ob \<le> int n"
proof -
  have "(OIDX ob + 0x10000) mod 0x10000 = OIDX ob + 0x10000" if "OIDX ob < 0"
    using that OIDX_range [of ob] by (intro mod_pos_pos_trivial) auto
  then show p: "0 \<le> OIDX ob" using assms OIDX_range [of ob] by fastforce
  have "OIDX ob mod 0x10000 = OIDX ob" using p OIDX_range [of ob] by (intro mod_pos_pos_trivial) auto
  then show "OIDX ob \<le> int n" using assms by simp
qed

lemma add_model_ok:
  assumes D: "def_ok D" and r: "fhk_def_add_model ralloc D g k c cmin = Some (ob, D')"
  shows "def_ok D' \<and> def_le D D'"
proof -
  let ?m = "\<lparr>dm_params = vec_null, dm_returns = vec_null, dm_shadows = vec_null, dm_group = g, dm_k = k, dm_c = c, dm_cmin = cmin\<rparr>"
  note G = def_okD(1) [OF D]
  show ?thesis
  proof (cases "D' = D")
    case True
    then show ?thesis using D by simp
  next
    case False
    then obtain v where n: "vec_num SZ_model (d_models D) \<noteq> G_MAXIDX" "uint g + maxkmap D \<le> G_MAXUMAP" "\<not> flt k 0" "\<not> flt c ONE"
      and v: "vec_alloc ralloc SZ_model ?m (d_models D) = Some (Some v)"
      and D': "D' = D\<lparr>d_models := v, maxg := max (maxg D) (uint g)\<rparr>"
      using r by (auto simp: fhk_def_add_model_def split: if_splits Option.bind_splits option.splits)
    have len: "int (length (dmodels D)) < G_MAXIDX" using n(1) G by (simp add: def_num glob_ok_def)
    have "SZ_model * Suc (length (dmodels D)) \<le> 2 ^ 31" using len by (simp add: g_limits SZ_model_def)
    then have v': "dv_data v = dmodels D @ [?m]" "dvec_ok SZ_model v"
      using vec_alloc_ok [of SZ_model "d_models D" ralloc ?m] v G by (auto simp: glob_ok_def)
    have le: "def_le D D'" unfolding D' by (auto simp: def_le_def)
    have "glob_ok D'" using G len n(2) v' unfolding D' by (auto simp: glob_ok_def max_def)
    moreover have "dmodel_ok D' ?m" using n(3,4) unfolding D'
      by (simp add: dmodel_ok_def) (simp add: vec_null_def g_limits)
    then have "dmodel_ok D' dm" if "dm \<in> set (dmodels D')" for dm
      using that D dmodel_ok_mono [OF _ le] by (auto simp: def_ok_def D' v')
    moreover have "dvar_ok D' (int x) (dvars D' ! x)" if "x < length (dvars D')" for x
      using that D unfolding D' by (auto simp: def_ok_def dvar_ok_def v' vec_null_def)
    ultimately show ?thesis using le by (auto simp: def_ok_def)
  qed
qed

lemma add_var_ok:
  assumes D: "def_ok D" and r: "fhk_def_add_var ralloc D g sz cdiff = Some (ob, D')"
  shows "def_ok D' \<and> def_le D D'"
proof -
  let ?x = "\<lparr>dx_group = g, dx_size = sz, dx_n_fwd = 0, dx_n_mod = 0, dx_cdiff = cdiff\<rparr>"
  note G = def_okD(1) [OF D]
  show ?thesis
  proof (cases "D' = D")
    case True
    then show ?thesis using D by simp
  next
    case False
    then obtain v where n: "vec_num SZ_var (d_vars D) + vec_num SZ_shadow (d_shadows D) \<noteq> G_MAXIDX"
        "uint g + maxkmap D \<le> G_MAXUMAP" "sz AND (sz - 1) = 0"
      and v: "vec_alloc ralloc SZ_var ?x (d_vars D) = Some (Some v)"
      and D': "D' = D\<lparr>d_vars := v, maxg := max (maxg D) (uint g)\<rparr>"
      using r by (auto simp: fhk_def_add_var_def split: if_splits Option.bind_splits option.splits)
    have len: "int (length (dvars D)) + int (length (dshadows D)) < G_MAXIDX" using n(1) G by (simp add: def_num glob_ok_def)
    have "SZ_var * Suc (length (dvars D)) \<le> 2 ^ 31" using len by (simp add: g_limits SZ_var_def)
    then have v': "dv_data v = dvars D @ [?x]" "dvec_ok SZ_var v"
      using vec_alloc_ok [of SZ_var "d_vars D" ralloc ?x] v G by (auto simp: glob_ok_def)
    have le: "def_le D D'" unfolding D' by (auto simp: def_le_def v' dest: get_append)
    have "hits (int (length (dvars D))) es = 0" if "\<forall>e \<in> set es. edge_ok D h e" for es h
      using that by (induction es) (auto simp: edge_ok_def get_Some)
    then have none: "hits (int (length (dvars D))) (params dm) = 0" "hits (int (length (dvars D))) (returns dm) = 0"
      if "dm \<in> set (dmodels D)" for dm using that D unfolding def_ok_def dmodel_ok_def by blast+
    have "glob_ok D'" using G len n(2) v' unfolding D' by (auto simp: glob_ok_def max_def)
    moreover have "dmodel_ok D' dm" if "dm \<in> set (dmodels D')" for dm
      using that D dmodel_ok_mono [OF _ le] by (auto simp: def_ok_def D')
    moreover have "(\<Sum>dm\<leftarrow>dmodels D. hits (int (length (dvars D))) (params dm)) = 0"
      "(\<Sum>dm\<leftarrow>dmodels D. hits (int (length (dvars D))) (returns dm)) = 0"
      using none by (simp_all add: sum_list_eq_0_iff)
    then have "dvar_ok D' (int x) (dvars D' ! x)" if "x < length (dvars D')" for x
      using that D n(3) unfolding D' by (auto simp: def_ok_def dvar_ok_def v' nth_append less_Suc_eq)
    ultimately show ?thesis using le by (auto simp: def_ok_def)
  qed
qed

lemma add_shadow_ok:
  assumes D: "def_ok D" and r: "fhk_def_add_shadow ralloc D var guard arg = Some (ob, D')"
  shows "def_ok D' \<and> def_le D D'"
proof -
  let ?w = "\<lparr>dw_arg = arg, dw_xi = OIDX var, dw_guard = guard\<rparr>"
  note G = def_okD(1) [OF D]
  show ?thesis
  proof (cases "D' = D")
    case True
    then show ?thesis using D by simp
  next
    case False
    then obtain v where n: "vec_num SZ_var (d_vars D) + vec_num SZ_shadow (d_shadows D) \<noteq> G_MAXIDX"
        "OIDX var mod 0x10000 \<le> vec_num SZ_var (d_vars D)"
      and v: "vec_alloc ralloc SZ_shadow ?w (d_shadows D) = Some (Some v)"
      and D': "D' = D\<lparr>d_shadows := v\<rparr>"
      using r by (auto simp: fhk_def_add_shadow_def split: if_splits Option.bind_splits option.splits)
    have len: "int (length (dvars D)) + int (length (dshadows D)) < G_MAXIDX" using n(1) G by (simp add: def_num glob_ok_def)
    have "SZ_shadow * Suc (length (dshadows D)) \<le> 2 ^ 31" using len by (simp add: g_limits SZ_shadow_def)
    then have v': "dv_data v = dshadows D @ [?w]" "dvec_ok SZ_shadow v"
      using vec_alloc_ok [of SZ_shadow "d_shadows D" ralloc ?w] v G by (auto simp: glob_ok_def)
    have xi: "0 \<le> OIDX var" "OIDX var \<le> int (length (dvars D))"
      using small_index [of var "length (dvars D)"] n(2) len G by (simp_all add: def_num g_limits)
    have le: "def_le D D'" unfolding D' by (auto simp: def_le_def v' dest: get_append)
    have "glob_ok D'" using G len v' xi unfolding D' by (auto simp: glob_ok_def)
    moreover have "dmodel_ok D' dm" if "dm \<in> set (dmodels D')" for dm
      using that D dmodel_ok_mono [OF _ le] by (auto simp: def_ok_def D')
    moreover have "dvar_ok D' (int x) (dvars D' ! x)" if "x < length (dvars D')" for x
      using that D unfolding D' by (auto simp: def_ok_def dvar_ok_def)
    ultimately show ?thesis using le by (auto simp: def_ok_def)
  qed
qed


lemma unat_inc: "x \<noteq> - 1 \<Longrightarrow> unat (x + 1) = unat x + 1"
  by (metis add.commute add_eq_0_iff plus_1_eq_Suc unatSuc)

lemma edge_limits: "G_MAXFWDE = - 1" "G_MAXMODE = - 1"
  by (simp_all add: G_MAXFWDE_def G_MAXMODE_def)

lemma sum_update: "k < length ms \<Longrightarrow> f m = f (ms ! k) + (a :: nat) \<Longrightarrow> (\<Sum>x\<leftarrow>ms[k := m]. f x) = (\<Sum>x\<leftarrow>ms. f x) + a"
  by (induction ms arbitrary: k) (auto simp: nth_Cons split: nat.splits)

text \<open>Replacing a model and a variable by ones with more edges between them.\<close>

lemma add_edge_ok:
  assumes D: "def_ok D" and dm: "get (dmodels D) mi = Some dm" and dx: "get (dvars D) xi = Some dx"
    and dm': "dmodel_ok D dm'" and dx': "dx_group dx' = dx_group dx" "dx_size dx' = dx_size dx"
    and na: "\<And>x. hits x (params dm') = hits x (params dm) + (if x = xi then na else 0)"
      "unat (dx_n_fwd dx') = unat (dx_n_fwd dx) + na"
    and nb: "\<And>x. hits x (returns dm') = hits x (returns dm) + (if x = xi then nb else 0)"
      "unat (dx_n_mod dx') = unat (dx_n_mod dx) + nb"
  shows "def_ok (set_var xi dx' (set_model mi dm' D)) \<and> def_le D (set_var xi dx' (set_model mi dm' D))"
proof -
  let ?D = "set_var xi dx' (set_model mi dm' D)"
  have le: "def_le D ?D" using set_model_le set_var_le [of "set_model mi dm' D" xi dx dx'] dx dx'(1) by (auto intro: def_le_trans)
  have mi: "nat mi < length (dmodels D)" "dm = dmodels D ! nat mi" and xi: "0 \<le> xi" "nat xi < length (dvars D)" "dx = dvars D ! nat xi"
    using dm dx by (auto simp: get_Some)
  have "dmodel_ok ?D m" if "m \<in> set (dmodels ?D)" for m
  proof -
    have "m = dm' \<or> m \<in> set (dmodels D)" using that set_update_subset_insert [of "dmodels D" "nat mi" dm'] by auto
    then show ?thesis using dm' D dmodel_ok_mono [OF _ le] by (auto simp: def_ok_def)
  qed
  moreover have "dvar_ok ?D (int x) (dvars ?D ! x)" if "x < length (dvars ?D)" for x
  proof -
    have "(\<Sum>m\<leftarrow>dmodels ?D. hits (int x) (params m)) = (\<Sum>m\<leftarrow>dmodels D. hits (int x) (params m)) + (if int x = xi then na else 0)"
      unfolding set_node_fields by (rule sum_update) (use mi na(1) [of "int x"] in auto)
    moreover have "(\<Sum>m\<leftarrow>dmodels ?D. hits (int x) (returns m)) = (\<Sum>m\<leftarrow>dmodels D. hits (int x) (returns m)) + (if int x = xi then nb else 0)"
      unfolding set_node_fields by (rule sum_update) (use mi nb(1) [of "int x"] in auto)
    moreover have "dvar_ok D (int x) (dvars D ! x)" using D that by (simp add: def_ok_def)
    ultimately show ?thesis using that xi na(2) nb(2) dx'
      by (cases "int x = xi") (auto simp: dvar_ok_def nth_list_update)
  qed
  ultimately show ?thesis using le D by (simp add: def_ok_def)
qed

lemma same_nodes_get: "same_nodes D D1 \<Longrightarrow> dmodels D1 = dmodels D \<and> dvars D1 = dvars D \<and> dshadows D1 = dshadows D"
  by (simp add: same_nodes_def)

lemma edge_target:
  assumes "def_ok D" "get (dmodels D) mi = Some dm" "get (dvars D) xi = Some dx" "d_checkmap D em (dm_group dm) (dx_group dx) = Some (ok, D1)"
  shows "def_ok D1 \<and> def_le D D1 \<and> same_nodes D D1 \<and> (ok \<longrightarrow> map_ok D1 em (dm_group dm) (dx_group dx))"
proof -
  have "uint (dm_group dm) \<le> maxg D" "uint (dx_group dx) \<le> maxg D"
    using def_okD(2,3) [OF assms(1)] assms(2,3) by (auto simp: dmodel_ok_def dvar_ok_def)
  then show ?thesis using checkmap_ok [OF assms(4)] def_okD(1) [OF assms(1)] same_nodes_ok [OF assms(1)] by (auto dest: group_small)
qed

lemma add_param_ok:
  assumes D: "def_ok D" and r: "fhk_def_add_param ralloc D model var em = Some (e, D')"
  shows "def_ok D' \<and> def_le D D'"
proof (cases "D' = D")
  case True
  then show ?thesis using D by simp
next
  case False
  let ?mi = "OIDX model" and ?xi = "OIDX var"
  obtain dm dx ok D1 where n: "get (dmodels D) ?mi = Some dm" "vec_num SZ_edge (dm_params dm) \<noteq> G_MAXEDGE" "get (dvars D) ?xi = Some dx"
      "dx_n_fwd dx \<noteq> G_MAXFWDE" and c: "d_checkmap D em (dm_group dm) (dx_group dx) = Some (ok, D1)"
    using r False by (auto simp: fhk_def_add_param_def split: if_splits Option.bind_splits)
  note E = edge_target [OF D n(1,3) c]
  have dm: "dmodel_ok D dm" "dmodel_ok D1 dm" using def_okD(2) [OF D n(1)] dmodel_ok_mono E by auto
  show ?thesis
  proof (cases "D' = D1")
    case True
    then show ?thesis using E by simp
  next
    case False
    let ?e = "\<lparr>de_idx = ?xi, de_map = em\<rparr>"
    obtain v where ok: ok and v: "vec_alloc ralloc SZ_edge ?e (dm_params dm) = Some (Some v)"
      and D': "D' = set_var ?xi (dx\<lparr>dx_n_fwd := dx_n_fwd dx + 1\<rparr>) (set_model ?mi (dm\<lparr>dm_params := v\<rparr>) D1)"
      using r False \<open>D' \<noteq> D\<close> n c by (auto simp: fhk_def_add_param_def split: if_splits Option.bind_splits option.splits)
    have len: "int (length (params dm)) < G_MAXEDGE" using n(2) dm(1) by (auto simp: model_num [OF dm(1)] dmodel_ok_def)
    then have v': "dv_data v = params dm @ [?e]" "dvec_ok SZ_edge v"
      using vec_alloc_ok [of SZ_edge "dm_params dm" ralloc ?e] v dm(1) by (auto simp: dmodel_ok_def def_sizes g_limits)
    have "edge_ok D1 (dm_group dm) ?e" using n(3) E ok same_nodes_get [of D D1] by (auto simp: edge_ok_def)
    then have "dmodel_ok D1 (dm\<lparr>dm_params := v\<rparr>)" using dm(2) v' len by (auto simp: dmodel_ok_def)
    moreover have "unat (dx_n_fwd dx + 1) = unat (dx_n_fwd dx) + 1"
      by (rule unat_inc) (use n(4) in \<open>simp only: edge_limits not_False_eq_True\<close>)
    ultimately have "def_ok D' \<and> def_le D1 D'" unfolding D'
      using E n(1,3) same_nodes_get [of D D1] by (intro add_edge_ok [where na = 1 and nb = 0 and dm = dm and dx = dx]) (auto simp: v')
    then show ?thesis using E def_le_trans by blast
  qed
qed

lemma add_return_ok:
  assumes D: "def_ok D" and r: "fhk_def_add_return ralloc D model var em = Some (e, D')"
  shows "def_ok D' \<and> def_le D D'"
proof (cases "D' = D")
  case True
  then show ?thesis using D by simp
next
  case False
  let ?mi = "OIDX model" and ?xi = "OIDX var"
  obtain dm dx ok D1 where n: "get (dmodels D) ?mi = Some dm" "vec_num SZ_edge (dm_returns dm) \<noteq> G_MAXEDGE" "get (dvars D) ?xi = Some dx"
      "dx_n_mod dx \<noteq> G_MAXMODE" and c: "d_checkmap D em (dm_group dm) (dx_group dx) = Some (ok, D1)"
    using r False by (auto simp: fhk_def_add_return_def split: if_splits Option.bind_splits)
  note E = edge_target [OF D n(1,3) c]
  have dm: "dmodel_ok D dm" "dmodel_ok D1 dm" using def_okD(2) [OF D n(1)] dmodel_ok_mono E by auto
  show ?thesis
  proof (cases "D' = D1")
    case True
    then show ?thesis using E by simp
  next
    case False
    let ?e = "\<lparr>de_idx = ?xi, de_map = em\<rparr>"
    obtain v where ok: ok and v: "vec_alloc ralloc SZ_edge ?e (dm_returns dm) = Some (Some v)"
      and D': "D' = set_var ?xi (dx\<lparr>dx_n_mod := dx_n_mod dx + 1\<rparr>) (set_model ?mi (dm\<lparr>dm_returns := v\<rparr>) D1)"
      using r False \<open>D' \<noteq> D\<close> n c by (auto simp: fhk_def_add_return_def split: if_splits Option.bind_splits option.splits)
    have len: "int (length (returns dm)) < G_MAXEDGE" using n(2) dm(1) by (auto simp: model_num [OF dm(1)] dmodel_ok_def)
    then have v': "dv_data v = returns dm @ [?e]" "dvec_ok SZ_edge v"
      using vec_alloc_ok [of SZ_edge "dm_returns dm" ralloc ?e] v dm(1) by (auto simp: dmodel_ok_def def_sizes g_limits)
    have "edge_ok D1 (dm_group dm) ?e" using n(3) E ok same_nodes_get [of D D1] by (auto simp: edge_ok_def)
    then have "dmodel_ok D1 (dm\<lparr>dm_returns := v\<rparr>)" using dm(2) v' len by (auto simp: dmodel_ok_def)
    moreover have "unat (dx_n_mod dx + 1) = unat (dx_n_mod dx) + 1"
      by (rule unat_inc) (use n(4) in \<open>simp only: edge_limits not_False_eq_True\<close>)
    ultimately have "def_ok D' \<and> def_le D1 D'" unfolding D'
      using E n(1,3) same_nodes_get [of D D1] by (intro add_edge_ok [where na = 0 and nb = 1 and dm = dm and dx = dx]) (auto simp: v')
    then show ?thesis using E def_le_trans by blast
  qed
qed

lemma set_var_same: "get (dvars D) xi = Some dx \<Longrightarrow> set_var xi dx D = D"
  by (simp add: set_var_def get_Some)

lemma add_check_ok:
  assumes D: "def_ok D" and r: "fhk_def_add_check ralloc D model shadow em pen = Some (e, D')"
  shows "def_ok D' \<and> def_le D D'"
proof (cases "D' = D")
  case True
  then show ?thesis using D by simp
next
  case False
  let ?mi = "OIDX model" and ?wi = "OIDX shadow"
  obtain dm ds dx ok D1 where n: "get (dmodels D) ?mi = Some dm" "vec_num SZ_shedge (dm_shadows dm) \<noteq> G_MAXEDGE"
      "get (dshadows D) ?wi = Some ds" "get (dvars D) (dw_xi ds) = Some dx"
      and c: "d_checkmap D em (dm_group dm) (dx_group dx) = Some (ok, D1)"
    using r False by (auto simp: fhk_def_add_check_def split: if_splits Option.bind_splits)
  note E = edge_target [OF D n(1,4) c]
  have dm: "dmodel_ok D dm" "dmodel_ok D1 dm" using def_okD(2) [OF D n(1)] dmodel_ok_mono E by auto
  show ?thesis
  proof (cases "D' = D1")
    case True
    then show ?thesis using E by simp
  next
    case False
    let ?e = "\<lparr>dse_idx = ?wi, dse_map = em, dse_penalty = pen\<rparr>"
    obtain v where ok: ok and v: "vec_alloc ralloc SZ_shedge ?e (dm_shadows dm) = Some (Some v)"
      and D': "D' = set_model ?mi (dm\<lparr>dm_shadows := v\<rparr>) D1"
      using r False \<open>D' \<noteq> D\<close> n c by (auto simp: fhk_def_add_check_def split: if_splits Option.bind_splits option.splits)
    have len: "int (length (checks dm)) < G_MAXEDGE" using n(2) dm(1) by (auto simp: model_num [OF dm(1)] dmodel_ok_def)
    then have v': "dv_data v = checks dm @ [?e]" "dvec_ok SZ_shedge v"
      using vec_alloc_ok [of SZ_shedge "dm_shadows dm" ralloc ?e] v dm(1) by (auto simp: dmodel_ok_def def_sizes g_limits)
    have dx: "get (dvars D1) (dw_xi ds) = Some dx" using n(4) E same_nodes_get [of D D1] by simp
    have "check_ok D1 (dm_group dm) ?e" using n(3) dx E ok same_nodes_get [of D D1] by (auto simp: check_ok_def)
    then have "dmodel_ok D1 (dm\<lparr>dm_shadows := v\<rparr>)" using dm(2) v' len by (auto simp: dmodel_ok_def)
    then have "def_ok (set_var (dw_xi ds) dx D') \<and> def_le D1 (set_var (dw_xi ds) dx D')" unfolding D'
      using E n(1) dx same_nodes_get [of D D1] by (intro add_edge_ok [where na = 0 and nb = 0 and dm = dm and dx = dx]) auto
    moreover have "set_var (dw_xi ds) dx D' = D'" using dx by (intro set_var_same) (simp add: D')
    ultimately show ?thesis using E def_le_trans by metis
  qed
qed

section \<open>Reachable definitions\<close>

inductive def_reach :: "fhk_def \<Rightarrow> bool" where
  create: "def_reach fhk_create_def"
| model: "def_reach D \<Longrightarrow> fhk_def_add_model ralloc D g k c cmin = Some (r, D') \<Longrightarrow> def_reach D'"
| var: "def_reach D \<Longrightarrow> fhk_def_add_var ralloc D g sz cdiff = Some (r, D') \<Longrightarrow> def_reach D'"
| shadow: "def_reach D \<Longrightarrow> fhk_def_add_shadow ralloc D var guard arg = Some (r, D') \<Longrightarrow> def_reach D'"
| param: "def_reach D \<Longrightarrow> fhk_def_add_param ralloc D m x em = Some (r, D') \<Longrightarrow> def_reach D'"
| return: "def_reach D \<Longrightarrow> fhk_def_add_return ralloc D m x em = Some (r, D') \<Longrightarrow> def_reach D'"
| check: "def_reach D \<Longrightarrow> fhk_def_add_check ralloc D m w em pen = Some (r, D') \<Longrightarrow> def_reach D'"

lemma reach_ok: "def_reach D \<Longrightarrow> def_ok D"
  by (induction rule: def_reach.induct)
    (blast intro: create_def_ok dest: add_model_ok add_var_ok add_shadow_ok add_param_ok add_return_ok add_check_ok)+

text \<open>
  C16. Every definition that calls produce from \<^verbatim>\<open>fhk_create_def\<close> satisfies the invariant: vectors fit
  their capacity, the edge counters of a variable are the numbers of its edges, every edge is in
  range, and every nonconstant user map belongs to exactly one group.
\<close>

theorem def_always_ok: "def_reach D \<Longrightarrow> def_ok D"
  by (rule reach_ok)

section \<open>Object handles\<close>

lemma small_int_bits:
  assumes "n < 32768" "15 \<le> i"
  shows "\<not> bit (of_nat n :: u64) i"
proof -
  have "(of_nat n :: u64) < 2 ^ 15" using assms by (simp add: word_less_nat_alt unsigned_of_nat take_bit_nat_eq_self)
  then show ?thesis using assms by (intro small_bits) auto
qed

lemma object_fields:
  assumes "n < 32768" "tag < 2 ^ 4"
  shows "FHKO_TAG (OTAG tag OR of_nat n) = tag" "OIDX (OTAG tag OR of_nat n) = int n"
proof -
  define w :: u64 where "w = of_nat n"
  have w: "\<not> bit w i" if "15 \<le> i" for i using small_int_bits [OF assms(1) that] by (simp add: w_def)
  have t: "i < 4" if "bit tag i" for i using small_bits [OF assms(2), of i] that by (cases "i < 4") auto
  have "FHKO_TAG (OTAG tag OR w) = tag" unfolding FHKO_TAG_def OTAG_def
    using w by (intro bit_word_eqI) (auto simp: bit_simps dest: t)
  then show "FHKO_TAG (OTAG tag OR of_nat n) = tag" by (simp add: w_def)
  have "(OTAG tag OR w) AND 0xffff = w" unfolding and_low_bits OTAG_def
    using w by (intro bit_word_eqI) (auto simp: bit_simps not_less)
  then show "OIDX (OTAG tag OR of_nat n) = int n"
    using assms(1) by (simp add: OIDX_def s16_id unsigned_of_nat take_bit_nat_eq_self uint_nat w_def)
qed

lemma vec_num_snoc: "dv_data v' = dv_data v @ [x] \<Longrightarrow> sz * Suc (length (dv_data v)) < 2 ^ 32 \<Longrightarrow> 0 < sz \<Longrightarrow>
    vec_num sz v' - 1 = int (length (dv_data v))"
  by (subst vec_num_length) auto

lemma add_model_object:
  assumes "def_ok D" "fhk_def_add_model ralloc D g k c cmin = Some (ob, D')" "d_models D' \<noteq> d_models D"
  shows "ob = OTAG FHKO_MODEL OR of_nat (length (dmodels D)) \<and> length (dmodels D) < 32766"
proof -
  let ?m = "\<lparr>dm_params = vec_null, dm_returns = vec_null, dm_shadows = vec_null, dm_group = g, dm_k = k, dm_c = c, dm_cmin = cmin\<rparr>"
  note G = def_okD(1) [OF assms(1)]
  obtain v where v: "vec_alloc ralloc SZ_model ?m (d_models D) = Some (Some v)" "vec_num SZ_model (d_models D) \<noteq> G_MAXIDX"
     "ob = OTAG FHKO_MODEL OR of_int (vec_num SZ_model v - 1)"
    using assms(2,3) by (auto simp: fhk_def_add_model_def split: if_splits Option.bind_splits option.splits)
  have len: "length (dmodels D) < 32766" using v(2) G by (simp add: def_num glob_ok_def G_MAXIDX_def)
  then have "dv_data v = dmodels D @ [?m]" using vec_alloc_ok [of SZ_model "d_models D" ralloc ?m] v G by (auto simp: glob_ok_def SZ_model_def)
  then have "vec_num SZ_model v - 1 = int (length (dmodels D))" using len by (intro vec_num_snoc) (auto simp: SZ_model_def)
  then show ?thesis using v(3) len by simp
qed

lemma add_var_object:
  assumes "def_ok D" "fhk_def_add_var ralloc D g sz cdiff = Some (ob, D')" "d_vars D' \<noteq> d_vars D"
  shows "ob = OTAG FHKO_VAR OR of_nat (length (dvars D)) \<and> length (dvars D) < 32766"
proof -
  let ?x = "\<lparr>dx_group = g, dx_size = sz, dx_n_fwd = 0, dx_n_mod = 0, dx_cdiff = cdiff\<rparr>"
  note G = def_okD(1) [OF assms(1)]
  obtain v where v: "vec_alloc ralloc SZ_var ?x (d_vars D) = Some (Some v)"
     "vec_num SZ_var (d_vars D) + vec_num SZ_shadow (d_shadows D) \<noteq> G_MAXIDX" "ob = OTAG FHKO_VAR OR of_int (vec_num SZ_var v - 1)"
    using assms(2,3) by (auto simp: fhk_def_add_var_def split: if_splits Option.bind_splits option.splits)
  have len: "length (dvars D) < 32766" using v(2) G by (simp add: def_num glob_ok_def G_MAXIDX_def)
  then have "dv_data v = dvars D @ [?x]" using vec_alloc_ok [of SZ_var "d_vars D" ralloc ?x] v G by (auto simp: glob_ok_def SZ_var_def)
  then have "vec_num SZ_var v - 1 = int (length (dvars D))" using len by (intro vec_num_snoc) (auto simp: SZ_var_def)
  then show ?thesis using v(3) len by simp
qed

lemma add_shadow_object:
  assumes "def_ok D" "fhk_def_add_shadow ralloc D var guard arg = Some (ob, D')" "d_shadows D' \<noteq> d_shadows D"
  shows "ob = OTAG FHKO_SHADOW OR of_nat (length (dshadows D)) \<and> length (dshadows D) < 32766"
proof -
  let ?w = "\<lparr>dw_arg = arg, dw_xi = OIDX var, dw_guard = guard\<rparr>"
  note G = def_okD(1) [OF assms(1)]
  obtain v where v: "vec_alloc ralloc SZ_shadow ?w (d_shadows D) = Some (Some v)"
     "vec_num SZ_var (d_vars D) + vec_num SZ_shadow (d_shadows D) \<noteq> G_MAXIDX" "ob = OTAG FHKO_SHADOW OR of_int (vec_num SZ_shadow v - 1)"
    using assms(2,3) by (auto simp: fhk_def_add_shadow_def split: if_splits Option.bind_splits option.splits)
  have len: "length (dshadows D) < 32766" using v(2) G by (simp add: def_num glob_ok_def G_MAXIDX_def)
  then have "dv_data v = dshadows D @ [?w]" using vec_alloc_ok [of SZ_shadow "d_shadows D" ralloc ?w] v G by (auto simp: glob_ok_def SZ_shadow_def)
  then have "vec_num SZ_shadow v - 1 = int (length (dshadows D))" using len by (intro vec_num_snoc) (auto simp: SZ_shadow_def)
  then show ?thesis using v(3) len by simp
qed

text \<open>
  C37. The object that a call returns names the node it added: \<^verbatim>\<open>fhk_graph_idx\<close> of a new model is the
  complement of its number, of a new variable its number, and of a new shadow its number after
  the variables of the finished definition \<open>E\<close>.
\<close>

theorem object_index_roundtrip:
  assumes "def_ok D" "def_ok E"
  shows "(fhk_def_add_model ralloc D g k c cmin = Some (ob, D') \<and> d_models D' \<noteq> d_models D \<longrightarrow>
      fhk_graph_idx E ob = - 1 - int (length (dmodels D))) \<and>
    (fhk_def_add_var ralloc D g sz cdiff = Some (ob, D') \<and> d_vars D' \<noteq> d_vars D \<longrightarrow>
      fhk_graph_idx E ob = int (length (dvars D))) \<and>
    (fhk_def_add_shadow ralloc D var guard arg = Some (ob, D') \<and> d_shadows D' \<noteq> d_shadows D \<and>
      length (dshadows D) < length (dshadows E) \<longrightarrow>
      fhk_graph_idx E ob = int (length (dvars E)) + int (length (dshadows D)))"
proof -
  have G: "glob_ok E" using assms(2) by (simp add: def_ok_def)
  have "fhk_graph_idx E ob = - 1 - int (length (dmodels D))"
    if "fhk_def_add_model ralloc D g k c cmin = Some (ob, D')" "d_models D' \<noteq> d_models D"
    using add_model_object [OF assms(1) that] by (auto simp: fhk_graph_idx_def object_fields fhko_defs)
  moreover have "fhk_graph_idx E ob = int (length (dvars D))"
    if "fhk_def_add_var ralloc D g sz cdiff = Some (ob, D')" "d_vars D' \<noteq> d_vars D"
    using add_var_object [OF assms(1) that] by (auto simp: fhk_graph_idx_def object_fields fhko_defs)
  moreover have "fhk_graph_idx E ob = int (length (dvars E)) + int (length (dshadows D))"
    if "fhk_def_add_shadow ralloc D var guard arg = Some (ob, D')" "d_shadows D' \<noteq> d_shadows D" "length (dshadows D) < length (dshadows E)"
    using add_shadow_object [OF assms(1) that(1,2)] that(3) G
    by (auto simp: fhk_graph_idx_def object_fields fhko_defs def_num glob_ok_def G_MAXIDX_def s16_id)
  ultimately show ?thesis by blast
qed

section \<open>Calls that are defined\<close>

lemma assoc_umap_defined: "glob_ok D \<Longrightarrow> - 128 < m \<Longrightarrow> \<exists>b D1. assoc_umap D m g = Some (b, D1)"
  by (auto simp: assoc_umap_def get_def glob_ok_def MAP_ISNONCONST_def G_MINUMAP_def)

lemma checkmap_defined:
  assumes "glob_ok D" "em \<ge> FHKMAP_IDENT \<or> EXTMAP em \<noteq> - 128 \<and> EXTINVERSE em \<noteq> - 128" "g \<noteq> FHK_NGRP"
  shows "\<exists>ok D1. d_checkmap D em g h = Some (ok, D1)"
proof (cases "em \<ge> FHKMAP_IDENT")
  case False
  have r: "- 128 < EXTMAP em" "- 128 < EXTINVERSE em"
    using assms(2) False s8_range by (auto simp: EXTMAP_def EXTINVERSE_def order_less_le)
  obtain b D1 where 1: "assoc_umap D (EXTMAP em) g = Some (b, D1)" using assoc_umap_defined [OF assms(1) r(1)] by blast
  obtain b2 D2 where "assoc_umap D1 (EXTINVERSE em) h = Some (b2, D2)"
    using assoc_umap_defined [OF assoc_umap_ok(1) [OF 1 assms(1,3)] r(2)] by blast
  then show ?thesis using False 1 by (auto simp: d_checkmap_def)
qed (auto simp: d_checkmap_def)

definition indices_defined :: "fhk_def \<Rightarrow> fhk_obj \<Rightarrow> fhk_obj \<Rightarrow> fhk_extmap \<Rightarrow> bool" where
  "indices_defined D m x em \<longleftrightarrow> OIDX m \<noteq> int (length (dmodels D)) \<and> OIDX x \<noteq> int (length (dvars D)) \<and>
     (em \<ge> FHKMAP_IDENT \<or> EXTMAP em \<noteq> - 128 \<and> EXTINVERSE em \<noteq> - 128)"

lemma edge_call_setup:
  assumes D: "def_ok D" and i: "indices_defined D m x em"
    and l: "OIDX m mod 0x10000 \<le> vec_num SZ_model (d_models D)" "OIDX x mod 0x10000 \<le> vec_num SZ_var (d_vars D)"
  obtains dm dx b D1 where "get (dmodels D) (OIDX m) = Some dm" "get (dvars D) (OIDX x) = Some dx" "dmodel_ok D dm"
    "d_checkmap D em (dm_group dm) (dx_group dx) = Some (b, D1)"
proof -
  note G = def_okD(1) [OF D]
  have "length (dmodels D) \<le> 32766" "length (dvars D) \<le> 32766" using G by (auto simp: glob_ok_def G_MAXIDX_def)
  then have i': "0 \<le> OIDX m" "OIDX m < int (length (dmodels D))" "0 \<le> OIDX x" "OIDX x < int (length (dvars D))"
    using small_index [of m "length (dmodels D)"] small_index [of x "length (dvars D)"] i l
    unfolding indices_defined_def def_num [OF G] by linarith+
  obtain dm dx where dm: "get (dmodels D) (OIDX m) = Some dm" and dx: "get (dvars D) (OIDX x) = Some dx"
    using i' by (auto simp: get_def)
  have ok: "dmodel_ok D dm" using def_okD(2) [OF D dm] .
  have "dm_group dm \<noteq> FHK_NGRP" using group_small [OF G] ok by (simp add: dmodel_ok_def)
  then obtain b D1 where "d_checkmap D em (dm_group dm) (dx_group dx) = Some (b, D1)"
    using checkmap_defined [OF G] i unfolding indices_defined_def by blast
  then show thesis using that dm dx ok by blast
qed

lemma edge_alloc_defined:
  assumes "dmodel_ok D dm"
  shows "\<exists>r. vec_alloc ralloc SZ_edge e (dm_params dm) = Some r" "\<exists>r. vec_alloc ralloc SZ_edge e (dm_returns dm) = Some r"
proof -
  have "SZ_edge * Suc (length (params dm)) \<le> 2 ^ 31" "SZ_edge * Suc (length (returns dm)) \<le> 2 ^ 31"
      "dvec_ok SZ_edge (dm_params dm)" "dvec_ok SZ_edge (dm_returns dm)"
    using assms by (simp_all add: dmodel_ok_def G_MAXEDGE_def SZ_edge_def)
  then show "\<exists>r. vec_alloc ralloc SZ_edge e (dm_params dm) = Some r" "\<exists>r. vec_alloc ralloc SZ_edge e (dm_returns dm) = Some r"
    using vec_alloc_ok [of SZ_edge "dm_params dm" ralloc e] vec_alloc_ok [of SZ_edge "dm_returns dm" ralloc e] by auto
qed

text \<open>
  A call that adds a parameter or a return edge has a result, whatever the objects and the map, unless
  an index is exactly the number of models or variables, or a user map is \<open>-128\<close>. Those cases pass the
  checks of the code and read outside an array.
\<close>

theorem add_edge_defined:
  assumes "def_ok D" "indices_defined D m x em"
  shows "fhk_def_add_param ralloc D m x em \<noteq> None \<and> fhk_def_add_return ralloc D m x em \<noteq> None"
proof (cases "FHKO_TAG m \<noteq> FHKO_MODEL \<or> FHKO_TAG x \<noteq> FHKO_VAR \<or> OIDX m mod 0x10000 > vec_num SZ_model (d_models D) \<or>
    OIDX x mod 0x10000 > vec_num SZ_var (d_vars D)")
  case True
  then show ?thesis by (auto simp: fhk_def_add_param_def fhk_def_add_return_def)
next
  case False
  then obtain dm dx b D1 where s: "get (dmodels D) (OIDX m) = Some dm" "get (dvars D) (OIDX x) = Some dx" "dmodel_ok D dm"
      "d_checkmap D em (dm_group dm) (dx_group dx) = Some (b, D1)"
    using edge_call_setup [OF assms] by (metis not_le)
  let ?e = "\<lparr>de_idx = OIDX x, de_map = em\<rparr>"
  obtain r q where "vec_alloc ralloc SZ_edge ?e (dm_params dm) = Some r" "vec_alloc ralloc SZ_edge ?e (dm_returns dm) = Some q"
    using edge_alloc_defined [OF s(3)] by metis
  then show ?thesis using False s by (cases r; cases q) (simp_all add: fhk_def_add_param_def fhk_def_add_return_def)
qed

lemma add_param_off_by_one:
  assumes "def_ok D" "FHKO_TAG m = FHKO_MODEL" "FHKO_TAG x = FHKO_VAR" "OIDX m = int (length (dmodels D))"
    "0 \<le> OIDX x" "OIDX x < int (length (dvars D))"
  shows "fhk_def_add_param ralloc D m x em = None"
  using assms def_num [OF def_okD(1) [OF assms(1)]] OIDX_range [of x] OIDX_range [of m] by (auto simp: fhk_def_add_param_def get_def)

section \<open>An example definition\<close>

text \<open>Two variables and a model that computes the second from the first, and a user map from group 0.\<close>

definition demo_vars :: "def_var list" where
  "demo_vars = [\<lparr>dx_group = 0, dx_size = 8, dx_n_fwd = 1, dx_n_mod = 0, dx_cdiff = 0\<rparr>,
     \<lparr>dx_group = 0, dx_size = 8, dx_n_fwd = 0, dx_n_mod = 1, dx_cdiff = 0\<rparr>]"

definition demo_model :: def_model where
  "demo_model = \<lparr>dm_params = \<lparr>dv_data = [\<lparr>de_idx = 0, de_map = FHKMAP_USER (- 1) 0\<rparr>], dv_alloc = 64\<rparr>,
     dm_returns = \<lparr>dv_data = [\<lparr>de_idx = 1, de_map = FHKMAP_IDENT\<rparr>], dv_alloc = 64\<rparr>,
     dm_shadows = vec_null, dm_group = 0, dm_k = ONE, dm_c = ONE, dm_cmin = 0\<rparr>"

definition demo_def :: fhk_def where
  "demo_def = \<lparr>d_models = \<lparr>dv_data = [demo_model], dv_alloc = 64\<rparr>, d_vars = \<lparr>dv_data = demo_vars, dv_alloc = 64\<rparr>,
     d_shadows = vec_null, maxg = 0, minimap = - 1, maxkmap = 0, umap_assoc = (replicate 127 FHK_NGRP)[126 := 0]\<rparr>"

lemma grow_64: "vec_grow 8 0 = Some 64" "vec_grow 12 0 = Some 64" "vec_grow 16 0 = Some 64" "vec_grow 40 0 = Some 64"
  by (subst vec_grow.simps, simp)+

lemmas demo_def_eval = vec_alloc_def vec_pos_def vec_num_def grow_64 vec_null_def def_sizes g_limits fhko_defs OTAG_def OIDX_def FHKO_TAG_def
  s16_def get_def set_model_def set_var_def

definition demo_d1 :: fhk_def where
  "demo_d1 = fhk_create_def\<lparr>d_vars := \<lparr>dv_data = [\<lparr>dx_group = 0, dx_size = 8, dx_n_fwd = 0, dx_n_mod = 0, dx_cdiff = 0\<rparr>], dv_alloc = 64\<rparr>, maxg := 0\<rparr>"

lemma demo_step1: "fhk_def_add_var (\<lambda>_. True) fhk_create_def 0 8 0 = Some (0x2000000000000000, demo_d1)"
  by (simp add: fhk_def_add_var_def fhk_create_def_def demo_def_eval demo_d1_def)

definition demo_d2 :: fhk_def where
  "demo_d2 = fhk_create_def\<lparr>d_vars := \<lparr>dv_data = [\<lparr>dx_group = 0, dx_size = 8, dx_n_fwd = 0, dx_n_mod = 0, dx_cdiff = 0\<rparr>, \<lparr>dx_group = 0, dx_size = 8, dx_n_fwd = 0, dx_n_mod = 0, dx_cdiff = 0\<rparr>], dv_alloc = 64\<rparr>, maxg := 0\<rparr>"

lemma demo_step2: "fhk_def_add_var (\<lambda>_. True) demo_d1 0 8 0 = Some (0x2000000000000001, demo_d2)"
  by (simp add: fhk_def_add_var_def fhk_create_def_def demo_def_eval demo_d1_def demo_d2_def)

definition demo_d3 :: fhk_def where
  "demo_d3 = demo_d2\<lparr>d_models := \<lparr>dv_data = [demo_model\<lparr>dm_params := vec_null, dm_returns := vec_null\<rparr>], dv_alloc = 64\<rparr>\<rparr>"

lemma demo_step3: "fhk_def_add_model (\<lambda>_. True) demo_d2 0 ONE ONE 0 = Some (0x1000000000000000, demo_d3)"
  by (simp add: fhk_def_add_model_def fhk_create_def_def demo_def_eval demo_d2_def demo_d3_def demo_model_def flt_def f32_key_def f32_defs)

definition demo_d4 :: fhk_def where
  "demo_d4 = demo_d3\<lparr>d_models := \<lparr>dv_data = [demo_model\<lparr>dm_params := vec_null\<rparr>], dv_alloc = 64\<rparr>, d_vars := \<lparr>dv_data =
      [\<lparr>dx_group = 0, dx_size = 8, dx_n_fwd = 0, dx_n_mod = 0, dx_cdiff = 0\<rparr>,
     \<lparr>dx_group = 0, dx_size = 8, dx_n_fwd = 0, dx_n_mod = 1, dx_cdiff = 0\<rparr>], dv_alloc = 64\<rparr>\<rparr>"

lemma demo_step4: "fhk_def_add_return (\<lambda>_. True) demo_d3 0x1000000000000000 0x2000000000000001 FHKMAP_IDENT = Some (0, demo_d4)"
  by (simp add: fhk_def_add_return_def fhk_create_def_def demo_def_eval demo_d2_def demo_d3_def demo_d4_def demo_model_def
     d_checkmap_def)

lemma demo_umap: "d_checkmap demo_d4 (FHKMAP_USER (- 1) 0) 0 0 =
    Some (True, demo_d4\<lparr>minimap := - 1, maxkmap := 0, umap_assoc := (replicate 127 FHK_NGRP)[126 := 0]\<rparr>)"
proof -
  have "EXTMAP (FHKMAP_USER (- 1) 0) = - 1" "EXTINVERSE (FHKMAP_USER (- 1) 0) = 0" "\<not> FHKMAP_IDENT \<le> FHKMAP_USER (- 1) 0"
    using extmap_user [of "- 1" 0] by (simp_all add: not_le)
  then show ?thesis
    by (simp add: d_checkmap_def assoc_umap_def MAP_ISNONCONST_def demo_d4_def demo_d3_def demo_d2_def fhk_create_def_def get_def G_MINUMAP_def
      G_MAXUMAP_def)
qed

lemma demo_step5: "fhk_def_add_param (\<lambda>_. True) demo_d4 0x1000000000000000 0x2000000000000000 (FHKMAP_USER (- 1) 0) = Some (0, demo_def)"
  using demo_umap
  by (simp add: fhk_def_add_param_def demo_def_eval demo_d4_def demo_model_def demo_def_def demo_vars_def
    demo_d3_def demo_d2_def fhk_create_def_def)

lemma demo_reach: "def_reach demo_def"
  by (rule def_reach.param [OF def_reach.return [OF def_reach.model [OF def_reach.var [OF def_reach.var [OF def_reach.create
      demo_step1] demo_step2] demo_step3] demo_step4] demo_step5])

lemma demo_ok: "def_ok demo_d1" "def_ok demo_d2" "def_ok demo_def"
proof -
  show 1: "def_ok demo_d1" using add_var_ok [OF create_def_ok demo_step1] by simp
  show 2: "def_ok demo_d2" using add_var_ok [OF 1 demo_step2] by simp
  have 3: "def_ok demo_d3" using add_model_ok [OF 2 demo_step3] by simp
  have 4: "def_ok demo_d4" using add_return_ok [OF 3 demo_step4] by simp
  show "def_ok demo_def" using add_param_ok [OF 4 demo_step5] by simp
qed

theorem def_always_ok_witness: "def_reach demo_def \<and> def_ok demo_def"
  using demo_reach def_always_ok [OF demo_reach] by simp


theorem object_index_roundtrip_witness:
  "fhk_graph_idx demo_def 0x2000000000000001 = 1 \<and> fhk_graph_idx demo_def 0x1000000000000000 = - 1"
proof -
  have l: "length (dvars demo_d1) = 1" "length (dmodels demo_d2) = 0" "d_vars demo_d2 \<noteq> d_vars demo_d1" "d_models demo_d3 \<noteq> d_models demo_d2"
    by (simp_all add: demo_d1_def demo_d2_def demo_d3_def fhk_create_def_def vec_null_def)
  show ?thesis using object_index_roundtrip [OF demo_ok(1,3), where g = 0 and sz = 8 and cdiff = 0 and ralloc = "\<lambda>_. True" and ob = "0x2000000000000001" and D' = demo_d2]
      object_index_roundtrip [OF demo_ok(2,3), of "\<lambda>_. True" 0 ONE ONE 0 "0x1000000000000000" demo_d3] demo_step2 demo_step3 l by auto
qed

theorem add_edge_defined_witness:
  "fhk_def_add_param (\<lambda>_. False) demo_def 0x1000000000000000 0x2000000000000001 FHKMAP_SPACE \<noteq> None \<and>
   fhk_def_add_return (\<lambda>_. False) demo_def 0x1000000000000000 0x2000000000000001 FHKMAP_SPACE \<noteq> None"
proof -
  have "indices_defined demo_def 0x1000000000000000 0x2000000000000001 FHKMAP_SPACE"
    by (simp add: indices_defined_def OIDX_def s16_def demo_def_def demo_vars_def FHKMAP_SPACE_def FHKMAP_IDENT_def)
  then show ?thesis using add_edge_defined [OF demo_ok(3)] by blast
qed

end
