(* ===== verification/Fhk_Build.thy ===== *)
theory Fhk_Build
  imports Fhk_DefInv Fhk_Bounds
begin

text \<open>
  The graph builder of \<^verbatim>\<open>src/src/fhk/build.c\<close>: it copies the nodes of a definition, lays the edge
  arrays out behind them in one buffer, writes the edges at both ends, sorts the parameters and the
  checks of every model, and sets the model flags.

  The content of the graph and the addresses of its arrays are two results of the model:
  \<open>fhk_graph\<close> holds the edges as lists, \<open>layout\<close> the addresses that \<^verbatim>\<open>g_build_edges\<close> assigns. Bytes that
  the code never writes are the parameter \<open>junk\<close>. \<open>None\<close> is a read outside an array.
\<close>

section \<open>Nodes\<close>

definition M_NORETBUF :: u8 where "M_NORETBUF = 1"
definition W_COMPUTED :: u8 where "W_COMPUTED = 1"

definition copy_var :: "def_var \<Rightarrow> fhk_var" where
  "copy_var dx = \<lparr>v_models = [], v_fwds = [], v_group = unat (dx_group dx), v_size = unat (dx_size dx)\<rparr>"

definition copy_shadow :: "u8 \<Rightarrow> fhk_def \<Rightarrow> def_shadow \<Rightarrow> fhk_shadow option" where
  "copy_shadow junk D ds = do {
     dx \<leftarrow> get (dvars D) (dw_xi ds);
     Some \<lparr>w_arg = dw_arg ds, w_xi = dw_xi ds, w_group = unat (dx_group dx), w_flags = junk, w_guard = unat (dw_guard ds)\<rparr>
   }"

definition copy_model :: "def_model \<Rightarrow> fhk_model" where
  "copy_model dm = \<lparr>m_params = [], m_shadows = [], m_returns = [], m_group = unat (dm_group dm), m_cparam = 0, m_flags = 0,
     m_k = dm_k dm, m_c = dm_c dm, m_ki = fdiv (fneg (dm_k dm)) (dm_c dm), m_ci = fdiv ONE (dm_c dm), m_cmin = dm_cmin dm\<rparr>"

definition g_copy_nodes :: "u8 \<Rightarrow> fhk_def \<Rightarrow> fhk_graph option" where
  "g_copy_nodes junk D = do {
     ws \<leftarrow> those (map (copy_shadow junk D) (dshadows D));
     let ng = (maxg D + 1) mod 256;
     Some \<lparr>g_models = map copy_model (dmodels D), g_vars = map copy_var (dvars D), g_shadows = ws, g_ng = ng,
       g_nkmap = (ng + maxkmap D + 1) mod 256, g_nimap = (- minimap D) mod 256, g_umap_assoc = []\<rparr>
   }"

section \<open>Edges\<close>

definition g_extmap :: "fhk_graph \<Rightarrow> int \<Rightarrow> fhk_extmap \<Rightarrow> int" where
  "g_extmap G xi emap =
     (if emap = FHKMAP_IDENT then MAP_IDENT
      else if emap = FHKMAP_SPACE then s8 (int (v_group (gvar G xi)))
      else s8 (MAP_UMAP (EXTMAP emap) (g_ng G)))"

definition g_extmapi :: "fhk_graph \<Rightarrow> int \<Rightarrow> fhk_extmap \<Rightarrow> int" where
  "g_extmapi G mi emap =
     (if emap = FHKMAP_IDENT then MAP_IDENT
      else if emap = FHKMAP_SPACE then s8 (int (m_group (gmodel G mi)))
      else s8 (MAP_UMAP (EXTINVERSE emap) (g_ng G)))"

text \<open>\<open>G\<close> are the copied nodes, whose groups the map functions read; the edges are written into the
  lists of models and variables that the loops pass along.\<close>

definition computed :: "fhk_def \<Rightarrow> int \<Rightarrow> bool" where
  "computed D xi \<longleftrightarrow> dx_n_mod (dvars D ! nat xi) \<noteq> 0"

definition build_check :: "fhk_graph \<Rightarrow> fhk_def \<Rightarrow> def_shedge \<Rightarrow> fhk_shedge" where
  "build_check G D e =
     (let w = g_shadows G ! nat (dse_idx e) in
      \<lparr>se_idx = nv G + dse_idx e, se_map = g_extmap G (w_xi w) (dse_map e),
       se_flags = (if computed D (w_xi w) then W_COMPUTED else 0), se_penalty = dse_penalty e\<rparr>)"

definition add_fwd :: "int \<Rightarrow> fhk_edge \<Rightarrow> fhk_var list \<Rightarrow> fhk_var list" where
  "add_fwd xi e vs = vs[nat xi := (vs ! nat xi)\<lparr>v_fwds := v_fwds (vs ! nat xi) @ [e]\<rparr>]"

definition add_mod :: "int \<Rightarrow> fhk_edge \<Rightarrow> fhk_var list \<Rightarrow> fhk_var list" where
  "add_mod xi e vs = vs[nat xi := (vs ! nat xi)\<lparr>v_models := v_models (vs ! nat xi) @ [e]\<rparr>]"

fun build_params :: "nat \<Rightarrow> fhk_graph \<Rightarrow> fhk_def \<Rightarrow> int \<Rightarrow> def_edge list \<Rightarrow> nat \<Rightarrow> nat \<Rightarrow> nat \<Rightarrow>
    fhk_edge list \<times> fhk_var list \<Rightarrow> fhk_edge list \<times> fhk_var list" where
  "build_params junk G D mi [] j pc pg (ps, vs) = (ps, vs)"
| "build_params junk G D mi (de # des) j pc pg (ps, vs) =
     (let c = computed D (de_idx de);
          ps1 = ps[(if c then pc else pg) := \<lparr>e_idx = de_idx de, e_map = g_extmap G (de_idx de) (de_map de), e_ex = j mod 256\<rparr>];
          vs1 = add_fwd (de_idx de) \<lparr>e_idx = mi, e_map = g_extmapi G mi (de_map de), e_ex = junk\<rparr> vs
      in build_params junk G D mi des (j + 1) (if c then pc + 1 else pc) (if c then pg else pg + 1) (ps1, vs1))"

fun build_returns :: "fhk_graph \<Rightarrow> int \<Rightarrow> def_edge list \<Rightarrow> nat \<Rightarrow>
    fhk_edge list \<times> fhk_var list \<Rightarrow> fhk_edge list \<times> fhk_var list" where
  "build_returns G mi [] j (rs, vs) = (rs, vs)"
| "build_returns G mi (de # des) j (rs, vs) =
     build_returns G mi des (j + 1)
       (rs @ [\<lparr>e_idx = de_idx de, e_map = g_extmap G (de_idx de) (de_map de), e_ex = j mod 256\<rparr>],
        add_mod (de_idx de) \<lparr>e_idx = mi, e_map = g_extmapi G mi (de_map de), e_ex = j mod 256\<rparr> vs)"

definition count_cparams :: "fhk_def \<Rightarrow> def_model \<Rightarrow> nat" where
  "count_cparams D dm = length (filter (\<lambda>e. computed D (de_idx e)) (params dm))"

definition no_edge :: fhk_edge where
  "no_edge = \<lparr>e_idx = 0, e_map = 0, e_ex = 0\<rparr>"

definition build_model :: "nat \<Rightarrow> fhk_graph \<Rightarrow> fhk_def \<Rightarrow> nat \<Rightarrow> def_model \<Rightarrow> fhk_var list \<Rightarrow> fhk_model \<times> fhk_var list" where
  "build_model junk G D i dm vs =
     (let mi = - 1 - int i;
          nc = count_cparams D dm;
          sh = fold (\<lambda>e acc. build_check G D e # acc) (checks dm) [];
          (ps, vs1) = build_params junk G D mi (params dm) 0 0 nc (replicate (length (params dm)) no_edge, vs);
          (rs, vs2) = build_returns G mi (returns dm) 0 ([], vs1)
      in ((g_models G ! i)\<lparr>m_params := ps, m_cparam := nc, m_shadows := sh, m_returns := rs\<rparr>, vs2))"

fun build_models :: "nat \<Rightarrow> fhk_graph \<Rightarrow> fhk_def \<Rightarrow> nat \<Rightarrow> def_model list \<Rightarrow>
    fhk_model list \<times> fhk_var list \<Rightarrow> fhk_model list \<times> fhk_var list" where
  "build_models junk G D i [] (ms, vs) = (ms, vs)"
| "build_models junk G D i (dm # dms) (ms, vs) =
     (let (m, vs1) = build_model junk G D i dm vs in build_models junk G D (i + 1) dms (ms @ [m], vs1))"

section \<open>Layout\<close>

text \<open>The sizes of the structures of \<^verbatim>\<open>def.h\<close> on the LP64 target.\<close>

definition SZ_fhk_graph :: nat where "SZ_fhk_graph = 24"
definition SZ_fhk_model :: nat where "SZ_fhk_model = 48"
definition SZ_fhk_var :: nat where "SZ_fhk_var = 24"
definition SZ_fhk_edge :: nat where "SZ_fhk_edge = 4"
definition SZ_fhk_shedge :: nat where "SZ_fhk_shedge = 8"

lemmas graph_sizes = SZ_fhk_graph_def SZ_fhk_model_def SZ_fhk_var_def SZ_fhk_edge_def SZ_fhk_shedge_def

definition fhk_graph_size :: "fhk_def \<Rightarrow> nat" where
  "fhk_graph_size D =
     (let ne = (\<Sum>dm\<leftarrow>dmodels D. 2 * (length (params dm) + length (returns dm)));
          nc = (\<Sum>dm\<leftarrow>dmodels D. length (checks dm))
      in SZ_fhk_graph + length (dmodels D) * SZ_fhk_model + (length (dvars D) + length (dshadows D)) * SZ_fhk_var +
         nc * SZ_fhk_shedge + ne * SZ_fhk_edge + nat (- minimap D))"

text \<open>The temporary edges from variables to models, in the order the first loop constructs them.\<close>

fun tmp_edges :: "(def_model \<Rightarrow> def_edge list) \<Rightarrow> nat \<Rightarrow> def_model list \<Rightarrow> nat list list \<Rightarrow> nat list list" where
  "tmp_edges es i [] xs = xs"
| "tmp_edges es i (dm # dms) xs =
     tmp_edges es (i + 1) dms (fold (\<lambda>e xs. xs[nat (de_idx e) := xs ! nat (de_idx e) @ [i]]) (es dm) xs)"

record layout =
  l_p :: nat
  l_models :: "nat list"
  l_fwds :: "nat list"
  l_params :: "nat option list"
  l_returns :: "nat option list"

definition place_params :: "fhk_def \<Rightarrow> nat \<Rightarrow> layout \<Rightarrow> layout" where
  "place_params D i L =
     (if l_params L ! i \<noteq> None then L
      else
        let dm = dmodels D ! i;
            p = (if checks dm \<noteq> [] then round_up (l_p L) 4 else l_p L) + length (checks dm) * SZ_fhk_shedge
        in L\<lparr>l_params := (l_params L)[i := Some p], l_p := p + length (params dm) * SZ_fhk_edge\<rparr>)"

definition place_returns :: "fhk_def \<Rightarrow> nat \<Rightarrow> layout \<Rightarrow> layout" where
  "place_returns D i L =
     (if l_returns L ! i \<noteq> None then L
      else L\<lparr>l_returns := (l_returns L)[i := Some (l_p L)], l_p := l_p L + length (returns (dmodels D ! i)) * SZ_fhk_edge\<rparr>)"

definition place_var_models :: "fhk_def \<Rightarrow> nat list \<Rightarrow> layout \<Rightarrow> layout" where
  "place_var_models D ms L =
     fold (place_params D) ms (L\<lparr>l_models := l_models L @ [l_p L], l_p := l_p L + length ms * SZ_fhk_edge\<rparr>)"

definition place_var_fwds :: "fhk_def \<Rightarrow> nat list \<Rightarrow> layout \<Rightarrow> layout" where
  "place_var_fwds D ms L =
     fold (place_returns D) ms (L\<lparr>l_fwds := l_fwds L @ [l_p L], l_p := l_p L + length ms * SZ_fhk_edge\<rparr>)"

definition g_layout :: "fhk_def \<Rightarrow> nat \<Rightarrow> layout" where
  "g_layout D p =
     (let none = replicate (length (dvars D)) [];
          mods = tmp_edges returns 0 (dmodels D) none;
          fwds = tmp_edges params 0 (dmodels D) none;
          L0 = \<lparr>l_p = p, l_models = [], l_fwds = [], l_params = replicate (length (dmodels D)) None,
                l_returns = replicate (length (dmodels D)) None\<rparr>;
          L1 = fold (place_var_models D) mods L0;
          L2 = fold (place_var_fwds D) fwds L1
      in fold (\<lambda>i L. place_returns D i (place_params D i L)) [0 ..< length (dmodels D)] L2)"

definition g_build_edges :: "nat \<Rightarrow> fhk_def \<Rightarrow> fhk_graph \<Rightarrow> nat \<Rightarrow> fhk_graph \<times> layout" where
  "g_build_edges junk D G p =
     (let (ms, vs) = build_models junk G D 0 (dmodels D) ([], g_vars G)
      in (G\<lparr>g_models := ms, g_vars := vs\<rparr>, g_layout D p))"

definition g_copy_umaps :: "fhk_def \<Rightarrow> fhk_graph \<Rightarrow> nat \<Rightarrow> fhk_graph \<times> nat" where
  "g_copy_umaps D G p =
     (G\<lparr>g_umap_assoc := take (nat (- minimap D)) (drop (nat (minimap D - G_MINUMAP)) (umap_assoc D))\<rparr>, p + nat (- minimap D))"

section \<open>Order and flags\<close>

fun exchange_inner :: "('a \<Rightarrow> 'a \<Rightarrow> bool) \<Rightarrow> nat \<Rightarrow> nat \<Rightarrow> nat \<Rightarrow> 'a list \<Rightarrow> 'a list" where
  "exchange_inner gt j k 0 xs = xs"
| "exchange_inner gt j k (Suc n) xs =
     exchange_inner gt j (k + 1) n (if gt (xs ! j) (xs ! k) then xs[j := xs ! k, k := xs ! j] else xs)"

fun exchange_outer :: "('a \<Rightarrow> 'a \<Rightarrow> bool) \<Rightarrow> nat \<Rightarrow> nat \<Rightarrow> 'a list \<Rightarrow> 'a list" where
  "exchange_outer gt j 0 xs = xs"
| "exchange_outer gt j (Suc n) xs = exchange_outer gt (j + 1) n (exchange_inner gt j (j + 1) n xs)"

text \<open>The two nested loops over the first \<open>n\<close> elements.\<close>

definition exchange_sort :: "('a \<Rightarrow> 'a \<Rightarrow> bool) \<Rightarrow> nat \<Rightarrow> 'a list \<Rightarrow> 'a list" where
  "exchange_sort gt n xs = exchange_outer gt 0 n xs"

definition cdiff_gt :: "fhk_def \<Rightarrow> fhk_edge \<Rightarrow> fhk_edge \<Rightarrow> bool" where
  "cdiff_gt D a b \<longleftrightarrow> flt (dx_cdiff (dvars D ! nat (e_idx b))) (dx_cdiff (dvars D ! nat (e_idx a)))"

definition penalty_lt :: "fhk_shedge \<Rightarrow> fhk_shedge \<Rightarrow> bool" where
  "penalty_lt a b \<longleftrightarrow> flt (se_penalty a) (se_penalty b)"

definition reorder_model :: "fhk_def \<Rightarrow> fhk_model \<Rightarrow> fhk_model" where
  "reorder_model D m = m\<lparr>m_params := exchange_sort (cdiff_gt D) (m_cparam m) (m_params m),
     m_shadows := exchange_sort penalty_lt (length (m_shadows m)) (m_shadows m)\<rparr>"

definition g_reorder_edges :: "fhk_def \<Rightarrow> fhk_graph \<Rightarrow> fhk_graph" where
  "g_reorder_edges D G = G\<lparr>g_models := map (reorder_model D) (g_models G)\<rparr>"

definition g_mretbuf :: "fhk_graph \<Rightarrow> fhk_model \<Rightarrow> bool" where
  "g_mretbuf G m =
     (if length (m_returns m) = 1 \<and> e_map (m_returns m ! 0) = MAP_IDENT then False
      else list_ex (\<lambda>e. length (v_models (gvar G (e_idx e))) \<noteq> 1 \<or> MAP_ISUSER (e_map e) (g_ng G)) (m_returns m))"

definition g_mflags :: "fhk_graph \<Rightarrow> fhk_graph" where
  "g_mflags G = G\<lparr>g_models := map (\<lambda>m. m\<lparr>m_flags := (if g_mretbuf G m then 0 else M_NORETBUF)\<rparr>) (g_models G)\<rparr>"

text \<open>\<^verbatim>\<open>p\<close> is the address of the buffer, the result the graph, the layout and the end of what is used.\<close>

definition fhk_build_graph :: "u8 \<Rightarrow> fhk_def \<Rightarrow> nat \<Rightarrow> (fhk_graph \<times> layout \<times> nat) option" where
  "fhk_build_graph junk D p = do {
     G0 \<leftarrow> g_copy_nodes junk D;
     let p1 = p + length (dmodels D) * SZ_fhk_model + SZ_fhk_graph + (length (dvars D) + length (dshadows D)) * SZ_fhk_var;
     let (G1, L) = g_build_edges (unat junk) D G0 p1;
     let (G2, q) = g_copy_umaps D G1 (l_p L);
     Some (g_mflags (g_reorder_edges D G2), L, q)
   }"

end
