(* ===== verification/Fhk_Layout.thy ===== *)
theory Fhk_Layout
  imports Fhk_Build
begin

text \<open>
  The memory layout of a built graph: the arrays that \<^verbatim>\<open>g_build_edges\<close> places behind the nodes tile
  the buffer, with no gap and no overlap, and the whole takes \<^verbatim>\<open>fhk_graph_size\<close> bytes.
\<close>

section \<open>Consecutive blocks\<close>

text \<open>\<open>packed a b B\<close>: the blocks \<open>B\<close>, given by address and size, fill the addresses from \<open>a\<close> to \<open>b\<close> one after
  the other.\<close>

inductive packed :: "nat \<Rightarrow> nat \<Rightarrow> (nat \<times> nat) multiset \<Rightarrow> bool" for a where
  none: "packed a a {#}"
| block: "packed a b B \<Longrightarrow> packed a (b + n) (add_mset (b, n) B)"

lemma packed_total: "packed a b B \<Longrightarrow> b = a + (\<Sum>x \<in># B. snd x)"
  by (induction rule: packed.induct) auto

lemma packed_inside: "packed a b B \<Longrightarrow> (c, n) \<in># B \<Longrightarrow> a \<le> c \<and> c + n \<le> b"
  by (induction rule: packed.induct) (auto dest: packed_total)

lemma packed_disjoint:
  assumes "packed a b (add_mset (c, n) (add_mset (d, m) B))"
  shows "c + n \<le> d \<or> d + m \<le> c"
  using assms
proof (induction b "add_mset (c, n) (add_mset (d, m) B)" arbitrary: B rule: packed.induct)
  case (block b C k)
  from block.hyps(3) consider "(b, k) = (c, n)" "C = add_mset (d, m) B" | "(b, k) = (d, m)" "C = add_mset (c, n) B"
    | B' where "C = add_mset (c, n) (add_mset (d, m) B')" 
    by (auto simp: add_eq_conv_ex)
  then show ?case
  proof cases
    case 1
    then show ?thesis using packed_inside [OF block.hyps(1), of d m] by simp
  next
    case 2
    then show ?thesis using packed_inside [OF block.hyps(1), of c n] by simp
  next
    case 3
    then show ?thesis using block.hyps(2) by blast
  qed
qed simp

section \<open>The blocks of a layout\<close>

definition pblock :: "fhk_def \<Rightarrow> layout \<Rightarrow> nat \<Rightarrow> (nat \<times> nat) multiset" where
  "pblock D L i = (case l_params L ! i of None \<Rightarrow> {#}
     | Some p \<Rightarrow> {#(p - 8 * length (checks (dmodels D ! i)), 8 * length (checks (dmodels D ! i)) + 4 * length (params (dmodels D ! i)))#})"

definition rblock :: "fhk_def \<Rightarrow> layout \<Rightarrow> nat \<Rightarrow> (nat \<times> nat) multiset" where
  "rblock D L i = (case l_returns L ! i of None \<Rightarrow> {#} | Some p \<Rightarrow> {#(p, 4 * length (returns (dmodels D ! i)))#})"

definition vblocks :: "nat list \<Rightarrow> nat list list \<Rightarrow> (nat \<times> nat) multiset" where
  "vblocks ps ms = mset (map (\<lambda>(p, m). (p, 4 * length m)) (zip ps ms))"

text \<open>Every array of the graph with its size: the models and the forward edges of a variable, the checks
  and parameters of a model, the returns of a model.\<close>

definition blocks :: "fhk_def \<Rightarrow> nat list list \<Rightarrow> nat list list \<Rightarrow> layout \<Rightarrow> (nat \<times> nat) multiset" where
  "blocks D mods fwds L = vblocks (l_models L) mods + vblocks (l_fwds L) fwds +
     (\<Sum>i < length (dmodels D). pblock D L i) + (\<Sum>i < length (dmodels D). rblock D L i)"

definition lay_ok :: "fhk_def \<Rightarrow> nat list list \<Rightarrow> nat list list \<Rightarrow> nat \<Rightarrow> layout \<Rightarrow> bool" where
  "lay_ok D mods fwds p0 L \<longleftrightarrow> packed p0 (l_p L) (blocks D mods fwds L) \<and> 4 dvd l_p L \<and>
     length (l_params L) = length (dmodels D) \<and> length (l_returns L) = length (dmodels D)"

lemma sum_mset_update:
  fixes f g :: "nat \<Rightarrow> 'a multiset"
  assumes "i < n" "\<And>k. k \<noteq> i \<Longrightarrow> g k = f k" "f i = {#}"
  shows "(\<Sum>k < n. g k) = g i + (\<Sum>k < n. f k)"
proof -
  have "(\<Sum>k < n. g k) = g i + (\<Sum>k \<in> {..< n} - {i}. g k)" using assms(1) by (simp add: sum.remove)
  also have "(\<Sum>k \<in> {..< n} - {i}. g k) = (\<Sum>k \<in> {..< n} - {i}. f k)" using assms(2) by (intro sum.cong) auto
  also have "\<dots> = (\<Sum>k < n. f k)" using assms(1,3) by (simp add: sum.remove)
  finally show ?thesis .
qed

lemma place_params_ok:
  assumes L: "lay_ok D mods fwds p0 L" and i: "i < length (dmodels D)"
  shows "lay_ok D mods fwds p0 (place_params D i L)"
proof (cases "l_params L ! i")
  case None
  let ?c = "length (checks (dmodels D ! i))" and ?p = "length (params (dmodels D ! i))"
  let ?L = "L\<lparr>l_params := (l_params L)[i := Some (l_p L + 8 * ?c)], l_p := l_p L + (8 * ?c + 4 * ?p)\<rparr>"
  have a: "4 dvd l_p L" using L by (simp add: lay_ok_def)
  then have eq: "place_params D i L = ?L" using None by (auto simp: place_params_def graph_sizes algebra_simps)
  have li: "i < length (l_params L)" using L i by (simp add: lay_ok_def)
  have r: "rblock D ?L k = rblock D L k" for k by (simp add: rblock_def)
  have "(\<Sum>k < length (dmodels D). pblock D ?L k) = pblock D ?L i + (\<Sum>k < length (dmodels D). pblock D L k)"
    by (rule sum_mset_update) (use i None in \<open>auto simp: pblock_def\<close>)
  also have "pblock D ?L i = {#(l_p L, 8 * ?c + 4 * ?p)#}" using li by (simp add: pblock_def)
  finally have "blocks D mods fwds ?L = add_mset (l_p L, 8 * ?c + 4 * ?p) (blocks D mods fwds L)"
    by (simp add: blocks_def r)
  then have "packed p0 (l_p ?L) (blocks D mods fwds ?L)" using packed.block L by (simp add: lay_ok_def)
  then show ?thesis using L a unfolding eq lay_ok_def by simp
qed (use L in \<open>simp add: place_params_def\<close>)

lemma place_returns_ok:
  assumes L: "lay_ok D mods fwds p0 L" and i: "i < length (dmodels D)"
  shows "lay_ok D mods fwds p0 (place_returns D i L)"
proof (cases "l_returns L ! i")
  case None
  let ?r = "length (returns (dmodels D ! i))"
  let ?L = "L\<lparr>l_returns := (l_returns L)[i := Some (l_p L)], l_p := l_p L + 4 * ?r\<rparr>"
  have eq: "place_returns D i L = ?L" using None by (simp add: place_returns_def graph_sizes)
  have li: "i < length (l_returns L)" using L i by (simp add: lay_ok_def)
  have r: "pblock D ?L k = pblock D L k" for k by (simp add: pblock_def)
  have "(\<Sum>k < length (dmodels D). rblock D ?L k) = rblock D ?L i + (\<Sum>k < length (dmodels D). rblock D L k)"
    by (rule sum_mset_update) (use i None in \<open>auto simp: rblock_def\<close>)
  also have "rblock D ?L i = {#(l_p L, 4 * ?r)#}" using li by (simp add: rblock_def)
  finally have "blocks D mods fwds ?L = add_mset (l_p L, 4 * ?r) (blocks D mods fwds L)"
    by (simp add: blocks_def r)
  then have "packed p0 (l_p ?L) (blocks D mods fwds ?L)" using packed.block L by (simp add: lay_ok_def)
  then show ?thesis using L unfolding eq lay_ok_def by simp
qed (use L in \<open>simp add: place_returns_def\<close>)

lemma place_fields:
  "l_models (place_params D i L) = l_models L" "l_fwds (place_params D i L) = l_fwds L"
  "l_models (place_returns D i L) = l_models L" "l_fwds (place_returns D i L) = l_fwds L"
  "l_returns (place_params D i L) = l_returns L" "l_params (place_returns D i L) = l_params L"
  by (simp_all add: place_params_def place_returns_def)

lemma fold_params_ok:
  "lay_ok D mods fwds p0 L \<Longrightarrow> \<forall>i \<in> set is. i < length (dmodels D) \<Longrightarrow> lay_ok D mods fwds p0 (fold (place_params D) is L) \<and>
     l_models (fold (place_params D) is L) = l_models L \<and> l_fwds (fold (place_params D) is L) = l_fwds L"
  by (induction "is" arbitrary: L) (auto simp: place_params_ok place_fields)

lemma fold_returns_ok:
  "lay_ok D mods fwds p0 L \<Longrightarrow> \<forall>i \<in> set is. i < length (dmodels D) \<Longrightarrow> lay_ok D mods fwds p0 (fold (place_returns D) is L) \<and>
     l_models (fold (place_returns D) is L) = l_models L \<and> l_fwds (fold (place_returns D) is L) = l_fwds L"
  by (induction "is" arbitrary: L) (auto simp: place_returns_ok place_fields)

lemma vblocks_snoc:
  "length ps = length ms \<Longrightarrow> vblocks (ps @ [p]) (ms @ m # ms') = add_mset (p, 4 * length m) (vblocks ps (ms @ m # ms'))"
  by (simp add: vblocks_def zip_append2)

lemma place_var_models_ok:
  assumes L: "lay_ok D (pre @ ms # rest) fwds p0 L" "length (l_models L) = length pre" "\<forall>i \<in> set ms. i < length (dmodels D)"
  shows "lay_ok D (pre @ ms # rest) fwds p0 (place_var_models D ms L) \<and>
     length (l_models (place_var_models D ms L)) = Suc (length pre) \<and> l_fwds (place_var_models D ms L) = l_fwds L"
proof -
  let ?L = "L\<lparr>l_models := l_models L @ [l_p L], l_p := l_p L + 4 * length ms\<rparr>"
  have e: "place_var_models D ms L = fold (place_params D) ms ?L" by (simp add: place_var_models_def graph_sizes mult.commute)
  have "blocks D (pre @ ms # rest) fwds ?L = add_mset (l_p L, 4 * length ms) (blocks D (pre @ ms # rest) fwds L)"
    using L(2) by (simp add: blocks_def vblocks_snoc pblock_def rblock_def)
  then have "lay_ok D (pre @ ms # rest) fwds p0 ?L" using L(1) packed.block by (simp add: lay_ok_def)
  then show ?thesis using fold_params_ok [OF _ L(3)] L(2) unfolding e by simp
qed

lemma place_var_fwds_ok:
  assumes L: "lay_ok D mods (pre @ ms # rest) p0 L" "length (l_fwds L) = length pre" "\<forall>i \<in> set ms. i < length (dmodels D)"
  shows "lay_ok D mods (pre @ ms # rest) p0 (place_var_fwds D ms L) \<and>
     length (l_fwds (place_var_fwds D ms L)) = Suc (length pre) \<and> l_models (place_var_fwds D ms L) = l_models L"
proof -
  let ?L = "L\<lparr>l_fwds := l_fwds L @ [l_p L], l_p := l_p L + 4 * length ms\<rparr>"
  have e: "place_var_fwds D ms L = fold (place_returns D) ms ?L" by (simp add: place_var_fwds_def graph_sizes mult.commute)
  have "blocks D mods (pre @ ms # rest) ?L = add_mset (l_p L, 4 * length ms) (blocks D mods (pre @ ms # rest) L)"
    using L(2) by (simp add: blocks_def vblocks_snoc pblock_def rblock_def)
  then have "lay_ok D mods (pre @ ms # rest) p0 ?L" using L(1) packed.block by (simp add: lay_ok_def)
  then show ?thesis using fold_returns_ok [OF _ L(3)] L(2) unfolding e by simp
qed


lemma fold_var_models_ok:
  assumes "lay_ok D (pre @ rest) fwds p0 L" "length (l_models L) = length pre" "\<forall>ms \<in> set rest. \<forall>i \<in> set ms. i < length (dmodels D)"
  shows "lay_ok D (pre @ rest) fwds p0 (fold (place_var_models D) rest L) \<and>
     length (l_models (fold (place_var_models D) rest L)) = length pre + length rest \<and> l_fwds (fold (place_var_models D) rest L) = l_fwds L"
  using assms
proof (induction rest arbitrary: pre L)
  case (Cons ms rest)
  have "lay_ok D (pre @ ms # rest) fwds p0 (place_var_models D ms L)" "length (l_models (place_var_models D ms L)) = length (pre @ [ms])"
    "l_fwds (place_var_models D ms L) = l_fwds L"
    using place_var_models_ok [of D pre ms rest fwds p0 L] Cons.prems by auto
  then show ?case using Cons.IH [of "pre @ [ms]" "place_var_models D ms L"] Cons.prems(3) by simp
qed simp

lemma fold_var_fwds_ok:
  assumes "lay_ok D mods (pre @ rest) p0 L" "length (l_fwds L) = length pre" "\<forall>ms \<in> set rest. \<forall>i \<in> set ms. i < length (dmodels D)"
  shows "lay_ok D mods (pre @ rest) p0 (fold (place_var_fwds D) rest L) \<and>
     length (l_fwds (fold (place_var_fwds D) rest L)) = length pre + length rest \<and> l_models (fold (place_var_fwds D) rest L) = l_models L"
  using assms
proof (induction rest arbitrary: pre L)
  case (Cons ms rest)
  have "lay_ok D mods (pre @ ms # rest) p0 (place_var_fwds D ms L)" "length (l_fwds (place_var_fwds D ms L)) = length (pre @ [ms])"
    "l_models (place_var_fwds D ms L) = l_models L"
    using place_var_fwds_ok [of D mods pre ms rest p0 L] Cons.prems by auto
  then show ?case using Cons.IH [of "pre @ [ms]" "place_var_fwds D ms L"] Cons.prems(3) by simp
qed simp

lemma fold_rest_ok:
  assumes "lay_ok D mods fwds p0 L" "\<forall>i \<in> set is. i < length (dmodels D)"
  defines "F \<equiv> fold (\<lambda>i L. place_returns D i (place_params D i L)) is L"
  shows "lay_ok D mods fwds p0 F \<and> l_models F = l_models L \<and> l_fwds F = l_fwds L \<and>
     (\<forall>i < length (dmodels D). i \<in> set is \<or> l_params L ! i \<noteq> None \<longrightarrow> l_params F ! i \<noteq> None) \<and>
     (\<forall>i < length (dmodels D). i \<in> set is \<or> l_returns L ! i \<noteq> None \<longrightarrow> l_returns F ! i \<noteq> None)"
  unfolding F_def using assms(1,2)
proof (induction "is" arbitrary: L)
  case (Cons i "is")
  let ?L = "place_returns D i (place_params D i L)"
  have ok: "lay_ok D mods fwds p0 ?L" using Cons.prems by (simp add: place_returns_ok place_params_ok)
  have len: "i < length (l_params L)" "i < length (l_returns L)" using Cons.prems by (auto simp: lay_ok_def)
  have some: "l_params ?L ! k \<noteq> None" if "k = i \<or> l_params L ! k \<noteq> None" for k
    using that len by (cases "k = i") (auto simp: place_fields place_params_def)
  have some': "l_returns ?L ! k \<noteq> None" if "k = i \<or> l_returns L ! k \<noteq> None" for k
    using that len by (cases "k = i") (auto simp: place_fields place_returns_def)
  show ?case using Cons.IH [OF ok] Cons.prems(2) some some' by (auto simp: place_fields)
qed simp

section \<open>The temporary edges\<close>

lemma fold_tmp:
  fixes i :: nat
  assumes "\<forall>e \<in> set es. nat (de_idx e) < length xs"
  defines "ys \<equiv> fold (\<lambda>e xs. xs[nat (de_idx e) := xs ! nat (de_idx e) @ [i]]) es xs"
  shows "length ys = length xs \<and> (\<Sum>x\<leftarrow>ys. length x) = (\<Sum>x\<leftarrow>xs. length x) + length es \<and> \<Union> (set ` set ys) \<subseteq> \<Union> (set ` set xs) \<union> {i}"
  unfolding ys_def using assms(1)
proof (induction es arbitrary: xs)
  case (Cons e es)
  let ?k = "nat (de_idx e)" and ?xs = "xs[nat (de_idx e) := xs ! nat (de_idx e) @ [i]]"
  have k: "?k < length xs" using Cons.prems by simp
  have "(\<Sum>x\<leftarrow>?xs. length x) = (\<Sum>x\<leftarrow>xs. length x) + 1" using sum_update [OF k, of length _ 1] by simp
  moreover have "\<Union> (set ` set ?xs) \<subseteq> \<Union> (set ` set xs) \<union> {i}"
    using set_update_subset_insert [of xs ?k "xs ! ?k @ [i]"] k by fastforce
  moreover have "\<forall>e \<in> set es. nat (de_idx e) < length ?xs" using Cons.prems by simp
  note IH = Cons.IH [OF this]
  ultimately have "\<Union> (set ` set (fold (\<lambda>e xs. xs[nat (de_idx e) := xs ! nat (de_idx e) @ [i]]) es ?xs)) \<subseteq> \<Union> (set ` set xs) \<union> {i}"
    by blast
  then show ?case using IH \<open>(\<Sum>x\<leftarrow>?xs. length x) = _\<close> by simp
qed auto

lemma tmp_edges_spec:
  assumes "\<forall>dm \<in> set dms. \<forall>e \<in> set (es dm). nat (de_idx e) < length xs"
  shows "length (tmp_edges es n dms xs) = length xs \<and>
     (\<Sum>x\<leftarrow>tmp_edges es n dms xs. length x) = (\<Sum>x\<leftarrow>xs. length x) + (\<Sum>dm\<leftarrow>dms. length (es dm)) \<and>
     \<Union> (set ` set (tmp_edges es n dms xs)) \<subseteq> \<Union> (set ` set xs) \<union> {n ..< n + length dms}"
  using assms
proof (induction dms arbitrary: n xs)
  case (Cons dm dms)
  let ?ys = "fold (\<lambda>e xs. xs[nat (de_idx e) := xs ! nat (de_idx e) @ [n]]) (es dm) xs"
  have y: "length ?ys = length xs" "(\<Sum>x\<leftarrow>?ys. length x) = (\<Sum>x\<leftarrow>xs. length x) + length (es dm)"
    "\<Union> (set ` set ?ys) \<subseteq> \<Union> (set ` set xs) \<union> {n}"
    using fold_tmp [of "es dm" xs n] Cons.prems by auto
  have "length (tmp_edges es (Suc n) dms ?ys) = length ?ys"
    "(\<Sum>x\<leftarrow>tmp_edges es (Suc n) dms ?ys. length x) = (\<Sum>x\<leftarrow>?ys. length x) + (\<Sum>dm\<leftarrow>dms. length (es dm))"
    "\<Union> (set ` set (tmp_edges es (Suc n) dms ?ys)) \<subseteq> \<Union> (set ` set ?ys) \<union> {Suc n ..< Suc n + length dms}"
    using Cons.IH [of ?ys "Suc n"] Cons.prems y(1) by auto
  then show ?case using y by fastforce
qed simp


section \<open>The finished layout\<close>

definition mod_lists :: "fhk_def \<Rightarrow> nat list list" where
  "mod_lists D = tmp_edges returns 0 (dmodels D) (replicate (length (dvars D)) [])"

definition fwd_lists :: "fhk_def \<Rightarrow> nat list list" where
  "fwd_lists D = tmp_edges params 0 (dmodels D) (replicate (length (dvars D)) [])"

lemma edge_ok_nat: "edge_ok D g e \<Longrightarrow> nat (de_idx e) < length (dvars D)"
  by (auto simp: edge_ok_def get_Some)

lemma lists_spec:
  assumes "def_ok D"
  shows "length (mod_lists D) = length (dvars D)" "(\<Sum>x\<leftarrow>mod_lists D. length x) = (\<Sum>dm\<leftarrow>dmodels D. length (returns dm))"
    "\<forall>ms \<in> set (mod_lists D). \<forall>i \<in> set ms. i < length (dmodels D)"
    "length (fwd_lists D) = length (dvars D)" "(\<Sum>x\<leftarrow>fwd_lists D. length x) = (\<Sum>dm\<leftarrow>dmodels D. length (params dm))"
    "\<forall>ms \<in> set (fwd_lists D). \<forall>i \<in> set ms. i < length (dmodels D)"
proof -
  have ok: "\<forall>dm \<in> set (dmodels D). \<forall>e \<in> set (params dm). nat (de_idx e) < length (dvars D)"
    "\<forall>dm \<in> set (dmodels D). \<forall>e \<in> set (returns dm). nat (de_idx e) < length (dvars D)"
    using assms by (auto simp: def_ok_def dmodel_ok_def dest!: bspec intro: edge_ok_nat)
  have z: "(\<Sum>x\<leftarrow>replicate n []. length x) = 0" "\<Union> (set ` set (replicate n [])) = {}" for n by (auto simp: sum_list_eq_0_iff)
  note T = tmp_edges_spec [where n = 0 and xs = "replicate (length (dvars D)) []" and dms = "dmodels D", unfolded length_replicate z]
  show "length (mod_lists D) = length (dvars D)" "(\<Sum>x\<leftarrow>mod_lists D. length x) = (\<Sum>dm\<leftarrow>dmodels D. length (returns dm))"
    "\<forall>ms \<in> set (mod_lists D). \<forall>i \<in> set ms. i < length (dmodels D)"
    using T [OF ok(2)] unfolding mod_lists_def by auto
  show "length (fwd_lists D) = length (dvars D)" "(\<Sum>x\<leftarrow>fwd_lists D. length x) = (\<Sum>dm\<leftarrow>dmodels D. length (params dm))"
    "\<forall>ms \<in> set (fwd_lists D). \<forall>i \<in> set ms. i < length (dmodels D)"
    using T [OF ok(1)] unfolding fwd_lists_def by auto
qed

lemma layout_ok:
  assumes D: "def_ok D" and p: "4 dvd p"
  defines "L \<equiv> g_layout D p"
  shows "lay_ok D (mod_lists D) (fwd_lists D) p L" "length (l_models L) = length (dvars D)" "length (l_fwds L) = length (dvars D)"
    "i < length (dmodels D) \<Longrightarrow> l_params L ! i \<noteq> None" "i < length (dmodels D) \<Longrightarrow> l_returns L ! i \<noteq> None"
proof -
  note S = lists_spec [OF D]
  let ?L0 = "\<lparr>l_p = p, l_models = [], l_fwds = [], l_params = replicate (length (dmodels D)) None, l_returns = replicate (length (dmodels D)) None\<rparr>"
  let ?L1 = "fold (place_var_models D) (mod_lists D) ?L0"
  let ?L2 = "fold (place_var_fwds D) (fwd_lists D) ?L1"
  have "lay_ok D (mod_lists D) (fwd_lists D) p ?L0"
    using packed.none p by (simp add: lay_ok_def blocks_def vblocks_def pblock_def rblock_def)
  then have 1: "lay_ok D (mod_lists D) (fwd_lists D) p ?L1" "length (l_models ?L1) = length (dvars D)" "l_fwds ?L1 = []"
    using fold_var_models_ok [of D "[]" "mod_lists D" "fwd_lists D" p ?L0] S by simp_all
  then have 2: "lay_ok D (mod_lists D) (fwd_lists D) p ?L2" "length (l_fwds ?L2) = length (dvars D)" "l_models ?L2 = l_models ?L1"
    using fold_var_fwds_ok [of D "mod_lists D" "[]" "fwd_lists D" p ?L1] S by simp_all
  have L: "L = fold (\<lambda>i L. place_returns D i (place_params D i L)) [0 ..< length (dmodels D)] ?L2"
    by (simp add: L_def g_layout_def mod_lists_def fwd_lists_def)
  note R = fold_rest_ok [OF 2(1), of "[0 ..< length (dmodels D)]", folded L]
  show "lay_ok D (mod_lists D) (fwd_lists D) p L" "length (l_models L) = length (dvars D)" "length (l_fwds L) = length (dvars D)"
    using R 1(2) 2(2,3) by auto
  show "l_params L ! i \<noteq> None" "l_returns L ! i \<noteq> None" if "i < length (dmodels D)" using R that by auto
qed

lemma vblocks_size: "length ps = length ms \<Longrightarrow> (\<Sum>x \<in># vblocks ps ms. snd x) = 4 * (\<Sum>m\<leftarrow>ms. length m)"
  unfolding vblocks_def by (induction ps ms rule: list_induct2) auto

lemma sum_mset_sum: "(\<Sum>x \<in># (\<Sum>i < n. f i). g x) = (\<Sum>i < n. \<Sum>x \<in># f i. (g x :: nat))" for n :: nat
  by (induction n) (auto simp: add.commute)

lemma layout_size:
  assumes "def_ok D" "4 dvd p"
  shows "l_p (g_layout D p) = p + 8 * (\<Sum>dm\<leftarrow>dmodels D. length (checks dm)) +
     8 * (\<Sum>dm\<leftarrow>dmodels D. length (params dm) + length (returns dm))"
proof -
  let ?L = "g_layout D p"
  note K = layout_ok [OF assms] and S = lists_spec [OF assms(1)]
  have pb: "(\<Sum>x \<in># pblock D ?L i. snd x) = 8 * length (checks (dmodels D ! i)) + 4 * length (params (dmodels D ! i))"
    if "i < length (dmodels D)" for i using K(4) [OF that] by (auto simp: pblock_def)
  have rb: "(\<Sum>x \<in># rblock D ?L i. snd x) = 4 * length (returns (dmodels D ! i))"
    if "i < length (dmodels D)" for i using K(5) [OF that] by (auto simp: rblock_def)
  have nth: "(\<Sum>i < length (dmodels D). f (dmodels D ! i)) = (\<Sum>dm\<leftarrow>dmodels D. f dm)" for f :: "def_model \<Rightarrow> nat"
    by (simp add: sum_list_sum_nth atLeast0LessThan)
  have "(\<Sum>x \<in># blocks D (mod_lists D) (fwd_lists D) ?L. snd x) =
      4 * (\<Sum>dm\<leftarrow>dmodels D. length (returns dm)) + 4 * (\<Sum>dm\<leftarrow>dmodels D. length (params dm)) +
      (\<Sum>dm\<leftarrow>dmodels D. 8 * length (checks dm) + 4 * length (params dm)) + (\<Sum>dm\<leftarrow>dmodels D. 4 * length (returns dm))"
    using S by (simp add: blocks_def vblocks_size K(2,3) sum_mset_sum pb rb flip: nth)
  moreover have "l_p ?L = p + (\<Sum>x \<in># blocks D (mod_lists D) (fwd_lists D) ?L. snd x)"
    using packed_total K(1) by (auto simp: lay_ok_def)
  ultimately show ?thesis by (simp add: sum_list_addf sum_list_const_mult)
qed

text \<open>
  C11. The buffer of \<^verbatim>\<open>fhk_graph_size\<close> bytes is used exactly: behind the nodes, the edge arrays of all
  variables and models lie one after the other without overlap or gap, every array is placed, and
  the copied user maps end at the last byte.
\<close>

theorem build_graph_fills_buffer:
  assumes "def_ok D" "8 dvd p" "fhk_build_graph junk D p = Some (G, L, q)"
  shows "q = p + fhk_graph_size D \<and>
     packed (p + length (dmodels D) * SZ_fhk_model + SZ_fhk_graph + (length (dvars D) + length (dshadows D)) * SZ_fhk_var)
       (q - nat (- minimap D)) (blocks D (mod_lists D) (fwd_lists D) L) \<and>
     None \<notin> set (l_params L) \<and> None \<notin> set (l_returns L) \<and> length (l_models L) = length (dvars D) \<and> length (l_fwds L) = length (dvars D)"
proof -
  let ?p1 = "p + length (dmodels D) * SZ_fhk_model + SZ_fhk_graph + (length (dvars D) + length (dshadows D)) * SZ_fhk_var"
  have a: "4 dvd ?p1" using assms(2) by (simp add: graph_sizes) presburger
  have L: "L = g_layout D ?p1" and q: "q = l_p L + nat (- minimap D)"
    using assms(3) by (auto simp: fhk_build_graph_def g_build_edges_def g_copy_umaps_def split: Option.bind_splits prod.splits)
  note K = layout_ok [OF assms(1) a, folded L]
  have "q = p + fhk_graph_size D" using layout_size [OF assms(1) a, folded L]
    by (simp add: q fhk_graph_size_def graph_sizes sum_list_addf sum_list_const_mult algebra_simps)
  moreover have "q - nat (- minimap D) = l_p L" by (simp add: q)
  moreover have "None \<notin> set (l_params L)" "None \<notin> set (l_returns L)"
    using K(1,4,5) by (auto simp: lay_ok_def in_set_conv_nth)
  ultimately show ?thesis using K(1,2,3) by (simp add: lay_ok_def)
qed

end
