(* ===== verification/Fhk_BuildWf.thy ===== *)
theory Fhk_BuildWf
  imports Fhk_Layout
begin

text \<open>
  What the graph builder guarantees: the sorts are permutations in the right order, the edges are
  written at both ends, and the graph satisfies the well-formedness that the pruner relies on.
\<close>

section \<open>The exchange sort\<close>

definition keyed :: "('a \<Rightarrow> 'a \<Rightarrow> bool) \<Rightarrow> ('a \<Rightarrow> int) \<Rightarrow> 'a list \<Rightarrow> bool" where
  "keyed gt key xs \<longleftrightarrow> (\<forall>a \<in> set xs. \<forall>b \<in> set xs. gt a b \<longleftrightarrow> key b < key a)"

lemma mset_swap_nth: "j < length xs \<Longrightarrow> k < length xs \<Longrightarrow> mset (xs[j := xs ! k, k := xs ! j]) = mset xs"
  by (rule mset_swap)

text \<open>The elements at the positions \<open>I\<close> of \<open>ys\<close> are those of \<open>xs\<close>, the others have not moved.\<close>

definition moved :: "nat set \<Rightarrow> 'a list \<Rightarrow> 'a list \<Rightarrow> bool" where
  "moved I xs ys \<longleftrightarrow> mset ys = mset xs \<and> (\<forall>i < length xs. i \<notin> I \<longrightarrow> ys ! i = xs ! i) \<and>
     (\<forall>i \<in> I. i < length xs \<longrightarrow> ys ! i \<in> (!) xs ` (I \<inter> {..< length xs}))"

lemma movedD:
  assumes "moved I xs ys"
  shows "mset ys = mset xs" "length ys = length xs" "set ys = set xs"
    "i < length xs \<Longrightarrow> i \<notin> I \<Longrightarrow> ys ! i = xs ! i"
  using assms mset_eq_length [of ys xs] mset_eq_setD [of ys xs] by (simp_all add: moved_def)

lemma moved_refl [simp]: "moved I xs xs"
  by (auto simp: moved_def)

lemma moved_trans:
  assumes "moved I xs ys" "moved J ys zs" "J \<subseteq> K" "I \<subseteq> K"
  shows "moved K xs zs"
proof -
  have l: "length ys = length xs" using movedD(2) [OF assms(1)] .
  have yx: "ys ! i \<in> (!) xs ` (K \<inter> {..< length xs})" if "i \<in> K" "i < length xs" for i
  proof (cases "i \<in> I")
    case True
    then have "ys ! i \<in> (!) xs ` (I \<inter> {..< length xs})" using assms(1) that(2) by (simp add: moved_def)
    then show ?thesis using assms(4) by auto
  next
    case False
    then show ?thesis using assms(1) that by (auto simp: moved_def)
  qed
  have "zs ! i \<in> (!) xs ` (K \<inter> {..< length xs})" if i: "i \<in> K" "i < length xs" for i
  proof (cases "i \<in> J")
    case True
    then have "zs ! i \<in> (!) ys ` (J \<inter> {..< length xs})" using assms(2) i(2) l by (simp add: moved_def)
    then obtain i' where "i' \<in> J" "i' < length xs" "zs ! i = ys ! i'" by auto
    then show ?thesis using yx [of i'] assms(3) by auto
  next
    case False
    then have "zs ! i = ys ! i" using assms(2) i l by (simp add: moved_def)
    then show ?thesis using yx [OF i] by simp
  qed
  moreover have "zs ! i = xs ! i" if "i < length xs" "i \<notin> K" for i
  proof -
    have "i \<notin> I" "i \<notin> J" using that assms(3,4) by auto
    then show ?thesis using movedD(4) [OF assms(1)] movedD(4) [OF assms(2)] that(1) l by simp
  qed
  ultimately show ?thesis using movedD(1) [OF assms(1)] movedD(1) [OF assms(2)] by (simp add: moved_def)
qed

lemma moved_swap: "j < length xs \<Longrightarrow> k < length xs \<Longrightarrow> {j, k} \<subseteq> I \<Longrightarrow> moved I xs (xs[j := xs ! k, k := xs ! j])"
  by (auto simp: moved_def mset_swap nth_list_update)

lemma exchange_inner_spec:
  assumes "j < k" "k + n \<le> length xs" "keyed gt key xs"
  shows "moved (insert j {k ..< k + n}) xs (exchange_inner gt j k n xs) \<and>
     key (exchange_inner gt j k n xs ! j) \<le> key (xs ! j) \<and>
     (\<forall>i \<in> {k ..< k + n}. key (exchange_inner gt j k n xs ! j) \<le> key (exchange_inner gt j k n xs ! i))"
  using assms
proof (induction gt j k n xs rule: exchange_inner.induct)
  case (1 gt j k xs)
  then show ?case by simp
next
  case (2 gt j k n xs)
  define ys where "ys = (if gt (xs ! j) (xs ! k) then xs[j := xs ! k, k := xs ! j] else xs)"
  define zs where "zs = exchange_inner gt j (k + 1) n ys"
  have jk: "j < length xs" "k < length xs" using 2 by auto
  have mv: "moved {j, k} xs ys" unfolding ys_def using moved_swap [OF jk, of "{j, k}"] by auto
  have le: "key (ys ! j) \<le> key (ys ! k)" "key (ys ! j) \<le> key (xs ! j)"
    using 2(4) jk \<open>j < k\<close> unfolding ys_def keyed_def by (auto simp: nth_list_update not_less)
  have "keyed gt key ys" using 2(4) movedD(3) [OF mv] by (simp add: keyed_def)
  moreover have "k + 1 + n \<le> length ys" using 2(3) movedD(2) [OF mv] by simp
  ultimately have IH: "moved (insert j {k + 1 ..< k + 1 + n}) ys zs" "key (zs ! j) \<le> key (ys ! j)"
     "\<forall>i \<in> {k + 1 ..< k + 1 + n}. key (zs ! j) \<le> key (zs ! i)"
    using "2.IH" 2(2) unfolding ys_def [symmetric] zs_def by simp_all
  have zk: "zs ! k = ys ! k" using movedD(4) [OF IH(1), of k] jk 2(2) movedD(2) [OF mv] by simp
  have "moved (insert j {k ..< k + Suc n}) xs zs" by (rule moved_trans [OF mv IH(1)]) auto
  moreover have "key (zs ! j) \<le> key (zs ! i)" if "i \<in> {k ..< k + Suc n}" for i
  proof (cases "i = k")
    case True
    then show ?thesis using IH(2) le(1) zk by simp
  next
    case False
    then show ?thesis using IH(3) that by simp
  qed
  ultimately show ?case using IH(2) le(2) unfolding exchange_inner.simps ys_def [symmetric] zs_def [symmetric] by fastforce
qed

lemma exchange_outer_spec:
  assumes "j + n \<le> length xs" "keyed gt key xs"
  shows "moved {j ..< j + n} xs (exchange_outer gt j n xs) \<and>
     (\<forall>a b. j \<le> a \<longrightarrow> a < b \<longrightarrow> b < j + n \<longrightarrow> key (exchange_outer gt j n xs ! a) \<le> key (exchange_outer gt j n xs ! b))"
  using assms
proof (induction gt j n xs rule: exchange_outer.induct)
  case (1 gt j xs)
  then show ?case by simp
next
  case (2 gt j n xs)
  define ys where "ys = exchange_inner gt j (j + 1) n xs"
  define zs where "zs = exchange_outer gt (j + 1) n ys"
  have ins: "insert j {Suc j ..< Suc (j + n)} = {j ..< Suc (j + n)}" by auto
  have mv: "moved {j ..< j + Suc n} xs ys" and le: "\<forall>i \<in> {j + 1 ..< j + 1 + n}. key (ys ! j) \<le> key (ys ! i)"
    using exchange_inner_spec [of j "j + 1" n xs gt key] 2(2,3) unfolding ys_def [symmetric]
    by (simp_all add: ins)
  have "keyed gt key ys" "j + 1 + n \<le> length ys" using 2(2,3) movedD(2,3) [OF mv] by (simp_all add: keyed_def)
  then have IH: "moved {j + 1 ..< j + 1 + n} ys zs" "\<And>a b. j + 1 \<le> a \<Longrightarrow> a < b \<Longrightarrow> b < j + 1 + n \<Longrightarrow> key (zs ! a) \<le> key (zs ! b)"
    using "2.IH" unfolding ys_def [symmetric] zs_def by auto
  have "zs ! j = ys ! j" using movedD(4) [OF IH(1), of j] 2(2) movedD(2) [OF mv] by simp
  moreover have "zs ! b \<in> (!) ys ` {j + 1 ..< j + 1 + n}" if "j < b" "b < j + 1 + n" for b
    using IH(1) that 2(2) movedD(2) [OF mv] by (fastforce simp: moved_def)
  ultimately have "key (zs ! j) \<le> key (zs ! b)" if "j < b" "b < j + 1 + n" for b using le that by fastforce
  then have "key (zs ! a) \<le> key (zs ! b)" if "j \<le> a" "a < b" "b < j + Suc n" for a b
    using that IH(2) [of a b] by (cases "a = j") auto
  moreover have "moved {j ..< j + Suc n} xs zs" by (rule moved_trans [OF mv IH(1)]) auto
  ultimately show ?case unfolding exchange_outer.simps ys_def [symmetric] zs_def [symmetric] by blast
qed

lemma exchange_inner_append:
  "j < length xs \<Longrightarrow> k + n \<le> length xs \<Longrightarrow> exchange_inner gt j k n (xs @ ys) = exchange_inner gt j k n xs @ ys"
  by (induction gt j k n xs rule: exchange_inner.induct) (auto simp: nth_append list_update_append)

lemma exchange_inner_length [simp]: "length (exchange_inner gt j k n xs) = length xs"
  by (induction gt j k n xs rule: exchange_inner.induct) auto

lemma exchange_outer_append:
  "j + n \<le> length xs \<Longrightarrow> exchange_outer gt j n (xs @ ys) = exchange_outer gt j n xs @ ys"
  by (induction gt j n xs rule: exchange_outer.induct) (auto simp: exchange_inner_append)

text \<open>Sorting the first \<open>n\<close> elements permutes them into increasing order of the key and leaves the rest.\<close>

lemma exchange_sort_spec:
  assumes "n \<le> length xs" "keyed gt key (take n xs)"
  shows "drop n (exchange_sort gt n xs) = drop n xs" "sorted (map key (take n (exchange_sort gt n xs)))"
    "mset (take n (exchange_sort gt n xs)) = mset (take n xs)"
proof -
  let ?ys = "exchange_outer gt 0 n (take n xs)"
  have eq: "exchange_sort gt n xs = ?ys @ drop n xs"
    using exchange_outer_append [of 0 n "take n xs" gt "drop n xs"] assms(1) by (simp add: exchange_sort_def)
  have mv: "moved {0 ..< n} (take n xs) ?ys" and s: "\<forall>a b. a < b \<longrightarrow> b < n \<longrightarrow> key (?ys ! a) \<le> key (?ys ! b)"
    using exchange_outer_spec [of 0 n "take n xs" gt key] assms by simp_all
  have len: "length ?ys = n" using movedD(2) [OF mv] assms(1) by simp
  show "drop n (exchange_sort gt n xs) = drop n xs" "mset (take n (exchange_sort gt n xs)) = mset (take n xs)"
    unfolding eq using len movedD(1) [OF mv] by simp_all
  show "sorted (map key (take n (exchange_sort gt n xs)))"
    unfolding eq using s len by (auto simp: sorted_iff_nth_mono_less)
qed

text \<open>Without any assumption on the comparison the result is still a permutation.\<close>

lemma exchange_inner_mset: "j < length xs \<Longrightarrow> k + n \<le> length xs \<Longrightarrow> mset (exchange_inner gt j k n xs) = mset xs"
  by (induction gt j k n xs rule: exchange_inner.induct) (auto simp: mset_swap)

lemma exchange_outer_mset: "j + n \<le> length xs \<Longrightarrow> mset (exchange_outer gt j n xs) = mset xs"
  by (induction gt j n xs rule: exchange_outer.induct) (auto simp: exchange_inner_mset)

lemma exchange_sort_mset: "n \<le> length xs \<Longrightarrow> mset (exchange_sort gt n xs) = mset xs"
  by (simp add: exchange_sort_def exchange_outer_mset)

section \<open>Edges\<close>

definition mk_param :: "fhk_graph \<Rightarrow> nat \<times> def_edge \<Rightarrow> fhk_edge" where
  "mk_param G = (\<lambda>(j, de). \<lparr>e_idx = de_idx de, e_map = g_extmap G (de_idx de) (de_map de), e_ex = j mod 256\<rparr>)"

text \<open>The parameters are written computed first, given last, each group in the order of the definition.\<close>

lemma build_params_fst:
  assumes "length U = length (filter (\<lambda>de. computed D (de_idx de)) des)" "length V = length (filter (\<lambda>de. \<not> computed D (de_idx de)) des)"
  shows "fst (build_params junk G D mi des j (length X) (length X + length U + length Y) (X @ U @ Y @ V, vs)) =
     X @ map (mk_param G) (filter (\<lambda>(j, de). computed D (de_idx de)) (enumerate j des)) @
     Y @ map (mk_param G) (filter (\<lambda>(j, de). \<not> computed D (de_idx de)) (enumerate j des))"
  using assms
proof (induction des arbitrary: j X U Y V vs)
  case (Cons de des)
  let ?e = "mk_param G (j, de)"
  let ?vs = "add_fwd (de_idx de) \<lparr>e_idx = mi, e_map = g_extmapi G mi (de_map de), e_ex = junk\<rparr> vs"
  show ?case
  proof (cases "computed D (de_idx de)")
    case True
    then obtain u U' where U: "U = u # U'" "length U' = length (filter (\<lambda>de. computed D (de_idx de)) des)"
      using Cons.prems(1) by (cases U) auto
    have "fst (build_params junk G D mi (de # des) j (length X) (length X + length U + length Y) (X @ U @ Y @ V, vs)) =
       fst (build_params junk G D mi des (Suc j) (length (X @ [?e])) (length (X @ [?e]) + length U' + length Y)
         ((X @ [?e]) @ U' @ Y @ V, ?vs))"
      using True by (simp add: U list_update_append mk_param_def)
    also have "\<dots> = (X @ [?e]) @ map (mk_param G) (filter (\<lambda>(j, de). computed D (de_idx de)) (enumerate (Suc j) des)) @
     Y @ map (mk_param G) (filter (\<lambda>(j, de). \<not> computed D (de_idx de)) (enumerate (Suc j) des))"
      by (rule Cons.IH) (use Cons.prems True U in auto)
    finally show ?thesis using True by simp
  next
    case False
    then obtain v V' where V: "V = v # V'" "length V' = length (filter (\<lambda>de. \<not> computed D (de_idx de)) des)"
      using Cons.prems(2) by (cases V) auto
    have "fst (build_params junk G D mi (de # des) j (length X) (length X + length U + length Y) (X @ U @ Y @ V, vs)) =
       fst (build_params junk G D mi des (Suc j) (length X) (length X + length U + length (Y @ [?e]))
         (X @ U @ (Y @ [?e]) @ V', ?vs))"
      using False by (simp add: V list_update_append mk_param_def)
    also have "\<dots> = X @ map (mk_param G) (filter (\<lambda>(j, de). computed D (de_idx de)) (enumerate (Suc j) des)) @
     (Y @ [?e]) @ map (mk_param G) (filter (\<lambda>(j, de). \<not> computed D (de_idx de)) (enumerate (Suc j) des))"
      by (rule Cons.IH) (use Cons.prems False V in auto)
    finally show ?thesis using False by simp
  qed
qed simp

lemma add_fwd_fields [simp]:
  "length (add_fwd x e vs) = length vs" "length (add_mod x e vs) = length vs"
  "x' < length vs \<Longrightarrow> v_fwds (add_fwd x e vs ! x') = v_fwds (vs ! x') @ (if nat x = x' then [e] else [])"
  "x' < length vs \<Longrightarrow> v_models (add_fwd x e vs ! x') = v_models (vs ! x')"
  "x' < length vs \<Longrightarrow> v_fwds (add_mod x e vs ! x') = v_fwds (vs ! x')"
  "x' < length vs \<Longrightarrow> v_models (add_mod x e vs ! x') = v_models (vs ! x') @ (if nat x = x' then [e] else [])"
  by (cases "nat x = x'", auto simp: add_fwd_def add_mod_def)+

definition mk_fwd :: "nat \<Rightarrow> fhk_graph \<Rightarrow> int \<Rightarrow> def_edge \<Rightarrow> fhk_edge" where
  "mk_fwd junk G mi de = \<lparr>e_idx = mi, e_map = g_extmapi G mi (de_map de), e_ex = junk\<rparr>"

definition mk_mod :: "fhk_graph \<Rightarrow> int \<Rightarrow> nat \<times> def_edge \<Rightarrow> fhk_edge" where
  "mk_mod G mi = (\<lambda>(j, de). \<lparr>e_idx = mi, e_map = g_extmapi G mi (de_map de), e_ex = j mod 256\<rparr>)"

lemma build_params_snd:
  "length (snd (build_params junk G D mi des j pc pg (ps, vs))) = length vs"
  "x < length vs \<Longrightarrow> v_fwds (snd (build_params junk G D mi des j pc pg (ps, vs)) ! x) =
     v_fwds (vs ! x) @ map (mk_fwd junk G mi) (filter (\<lambda>de. nat (de_idx de) = x) des)"
  "x < length vs \<Longrightarrow> v_models (snd (build_params junk G D mi des j pc pg (ps, vs)) ! x) = v_models (vs ! x)"
  by (induction des arbitrary: j pc pg ps vs) (simp_all add: mk_fwd_def)

lemma build_returns_spec:
  "fst (build_returns G mi des j (rs, vs)) = rs @ map (mk_param G) (enumerate j des)"
  "length (snd (build_returns G mi des j (rs, vs))) = length vs"
  "x < length vs \<Longrightarrow> v_fwds (snd (build_returns G mi des j (rs, vs)) ! x) = v_fwds (vs ! x)"
  "x < length vs \<Longrightarrow> v_models (snd (build_returns G mi des j (rs, vs)) ! x) =
     v_models (vs ! x) @ map (mk_mod G mi) (filter (\<lambda>(j, de). nat (de_idx de) = x) (enumerate j des))"
  by (induction des arbitrary: j rs vs) (simp_all add: mk_param_def mk_mod_def)

definition cparams :: "fhk_graph \<Rightarrow> fhk_def \<Rightarrow> def_model \<Rightarrow> fhk_edge list" where
  "cparams G D dm = map (mk_param G) (filter (\<lambda>(j, de). computed D (de_idx de)) (enumerate 0 (params dm)))"

definition gparams :: "fhk_graph \<Rightarrow> fhk_def \<Rightarrow> def_model \<Rightarrow> fhk_edge list" where
  "gparams G D dm = map (mk_param G) (filter (\<lambda>(j, de). \<not> computed D (de_idx de)) (enumerate 0 (params dm)))"

definition bmodel :: "fhk_graph \<Rightarrow> fhk_def \<Rightarrow> nat \<Rightarrow> def_model \<Rightarrow> fhk_model" where
  "bmodel G D i dm = (g_models G ! i)\<lparr>m_params := cparams G D dm @ gparams G D dm, m_cparam := count_cparams D dm,
     m_shadows := rev (map (build_check G D) (checks dm)), m_returns := map (mk_param G) (enumerate 0 (returns dm))\<rparr>"

lemma fold_cons: "fold (\<lambda>e acc. f e # acc) xs acc = rev (map f xs) @ acc"
  by (induction xs arbitrary: acc) auto

lemma build_model_spec:
  "fst (build_model junk G D i dm vs) = bmodel G D i dm"
  "length (snd (build_model junk G D i dm vs)) = length vs"
  "x < length vs \<Longrightarrow> v_fwds (snd (build_model junk G D i dm vs) ! x) =
     v_fwds (vs ! x) @ map (mk_fwd junk G (- 1 - int i)) (filter (\<lambda>de. nat (de_idx de) = x) (params dm))"
  "x < length vs \<Longrightarrow> v_models (snd (build_model junk G D i dm vs) ! x) =
     v_models (vs ! x) @ map (mk_mod G (- 1 - int i)) (filter (\<lambda>(j, de). nat (de_idx de) = x) (enumerate 0 (returns dm)))"
proof -
  let ?c = "\<lambda>de. computed D (de_idx de)"
  let ?P = "build_params junk G D (- 1 - int i) (params dm) 0 0 (count_cparams D dm) (replicate (length (params dm)) no_edge, vs)"
  have "replicate (length (params dm)) no_edge =
      replicate (count_cparams D dm) no_edge @ replicate (length (filter (\<lambda>de. \<not> ?c de) (params dm))) no_edge"
    unfolding count_cparams_def by (simp flip: replicate_add add: sum_length_filter_compl)
  then have "fst ?P = cparams G D dm @ gparams G D dm"
    using build_params_fst [of "replicate (count_cparams D dm) no_edge" D "params dm"
      "replicate (length (filter (\<lambda>de. \<not> ?c de) (params dm))) no_edge" junk G "- 1 - int i" 0 "[]" "[]" vs]
    by (simp add: count_cparams_def cparams_def gparams_def)
  then obtain vs1 where P: "?P = (cparams G D dm @ gparams G D dm, vs1)" by (cases ?P) auto
  define Q where "Q = build_returns G (- 1 - int i) (returns dm) 0 ([], vs1)"
  have Q: "Q = (map (mk_param G) (enumerate 0 (returns dm)), snd Q)"
    using build_returns_spec(1) [of G "- 1 - int i" "returns dm" 0 "[]" vs1] unfolding Q_def [symmetric] by (cases Q) auto
  have b: "build_model junk G D i dm vs = (bmodel G D i dm, snd Q)"
    unfolding build_model_def Let_def P fold_cons prod.case Q_def [symmetric] by (subst Q) (simp add: bmodel_def)
  have vs1: "vs1 = snd ?P" by (simp add: P)
  show "fst (build_model junk G D i dm vs) = bmodel G D i dm" by (simp add: b)
  show "length (snd (build_model junk G D i dm vs)) = length vs"
    unfolding b by (simp add: Q_def build_returns_spec vs1 build_params_snd)
  show "v_fwds (snd (build_model junk G D i dm vs) ! x) =
     v_fwds (vs ! x) @ map (mk_fwd junk G (- 1 - int i)) (filter (\<lambda>de. nat (de_idx de) = x) (params dm))" if "x < length vs"
    using that unfolding b by (simp add: Q_def build_returns_spec vs1 build_params_snd)
  show "v_models (snd (build_model junk G D i dm vs) ! x) =
     v_models (vs ! x) @ map (mk_mod G (- 1 - int i)) (filter (\<lambda>(j, de). nat (de_idx de) = x) (enumerate 0 (returns dm)))" if "x < length vs"
    using that unfolding b by (simp add: Q_def build_returns_spec vs1 build_params_snd)
qed

lemma build_models_Cons: "build_models junk G D i (dm # dms) (ms, vs) =
    build_models junk G D (Suc i) dms (ms @ [bmodel G D i dm], snd (build_model junk G D i dm vs))"
  using build_model_spec(1) [of junk G D i dm vs] by (cases "build_model junk G D i dm vs") simp

lemma build_models_spec:
  "fst (build_models junk G D i dms (ms, vs)) = ms @ map (\<lambda>(i, dm). bmodel G D i dm) (enumerate i dms)"
  "length (snd (build_models junk G D i dms (ms, vs))) = length vs"
  "x < length vs \<Longrightarrow> v_fwds (snd (build_models junk G D i dms (ms, vs)) ! x) = v_fwds (vs ! x) @
     concat (map (\<lambda>(i, dm). map (mk_fwd junk G (- 1 - int i)) (filter (\<lambda>de. nat (de_idx de) = x) (params dm))) (enumerate i dms))"
  "x < length vs \<Longrightarrow> v_models (snd (build_models junk G D i dms (ms, vs)) ! x) = v_models (vs ! x) @
     concat (map (\<lambda>(i, dm). map (mk_mod G (- 1 - int i)) (filter (\<lambda>(j, de). nat (de_idx de) = x) (enumerate 0 (returns dm)))) (enumerate i dms))"
proof (induction dms arbitrary: i ms vs)
  case (Cons dm dms)
  { case 1 show ?case unfolding build_models_Cons Cons.IH(1) by simp }
  { case 2 show ?case unfolding build_models_Cons Cons.IH(2) by (simp add: build_model_spec) }
  { case 3 then show ?case unfolding build_models_Cons by (subst Cons.IH(3)) (simp_all add: build_model_spec) }
  { case 4 then show ?case unfolding build_models_Cons by (subst Cons.IH(4)) (simp_all add: build_model_spec) }
qed simp_all

section \<open>Maps\<close>

text \<open>The condition under which internal maps do not collide. \<^verbatim>\<open>d_checkmap\<close> and the node calls allow one
  more, \<open>127\<close>, with which a user map or a group becomes \<open>-128\<close>, the identity.\<close>

definition maps_fit :: "fhk_def \<Rightarrow> bool" where
  "maps_fit D \<longleftrightarrow> maxg D + maxkmap D < G_MAXUMAP"

definition umap_in :: "fhk_def \<Rightarrow> int \<Rightarrow> bool" where
  "umap_in D m \<longleftrightarrow> minimap D \<le> m \<and> m \<le> maxkmap D"

lemma fit_bounds:
  assumes "def_ok D" "maps_fit D"
  shows "- 1 \<le> maxg D" "maxg D \<le> 127" "- 127 \<le> minimap D" "(maxg D + 1) mod 256 = maxg D + 1"
proof -
  show b: "- 1 \<le> maxg D" "maxg D \<le> 127" "- 127 \<le> minimap D"
    using assms by (auto simp: def_ok_def glob_ok_def maps_fit_def g_limits)
  show "(maxg D + 1) mod 256 = maxg D + 1" using b by (intro mod_pos_pos_trivial) auto
qed

lemma umap_user:
  assumes "def_ok D" "maps_fit D" "umap_in D m" "ng = maxg D + 1"
  shows "MAP_ISUSER (s8 (MAP_UMAP m ng)) ng" "s8 (MAP_UMAP m ng) = MAP_UMAP m ng"
proof -
  note b = fit_bounds [OF assms(1,2)]
  have r: "- 127 \<le> MAP_UMAP m ng" "MAP_UMAP m ng \<le> 127"
    using b assms(2,3) by (auto simp: maps_fit_def MAP_UMAP_def umap_in_def assms(4) G_MAXUMAP_def)
  show e: "s8 (MAP_UMAP m ng) = MAP_UMAP m ng" using r by (intro s8_id) auto
  show "MAP_ISUSER (s8 (MAP_UMAP m ng)) ng"
  proof (cases "m \<ge> 0")
    case True
    then have "MAP_UMAP m ng mod 256 = m + ng" using r b assms(4) by (simp add: MAP_UMAP_def)
    then show ?thesis using r True unfolding e by (simp add: MAP_ISUSER_def MAP_IDENT_def)
  next
    case False
    then have m: "MAP_UMAP m ng = m" "- 127 \<le> m" using r by (simp_all add: MAP_UMAP_def)
    have "(m + 256) mod 256 = m + 256" using False m by (intro mod_pos_pos_trivial) auto
    then show ?thesis using m False b assms(4) unfolding e by (simp add: MAP_ISUSER_def MAP_IDENT_def)
  qed
qed

lemma space_map:
  assumes "def_ok D" "maps_fit D" "int g \<le> maxg D" "ng = maxg D + 1"
  shows "s8 (int g) = int g" "\<not> MAP_ISUSER (int g) ng"
proof -
  note b = fit_bounds [OF assms(1,2)]
  show "s8 (int g) = int g" using b assms(3) by (intro s8_id) auto
  have "int g mod 256 = int g" using b assms(3) by (intro mod_pos_pos_trivial) auto
  then show "\<not> MAP_ISUSER (int g) ng" using assms by (simp add: MAP_ISUSER_def)
qed

section \<open>The built graph\<close>

lemma those_Some: "those xs = Some ys \<longleftrightarrow> xs = map Some ys"
  by (induction xs arbitrary: ys) (auto split: option.splits)

lemma copy_nodes_fields:
  assumes "g_copy_nodes junk D = Some G"
  shows "g_models G = map copy_model (dmodels D)" "g_vars G = map copy_var (dvars D)" "g_ng G = (maxg D + 1) mod 256"
    "length (g_shadows G) = length (dshadows D)"
    "w < length (dshadows D) \<Longrightarrow> w_xi (g_shadows G ! w) = dw_xi (dshadows D ! w)"
proof -
  obtain ws where ws: "map (copy_shadow junk D) (dshadows D) = map Some ws"
    and G: "G = \<lparr>g_models = map copy_model (dmodels D), g_vars = map copy_var (dvars D), g_shadows = ws, g_ng = (maxg D + 1) mod 256,
       g_nkmap = ((maxg D + 1) mod 256 + maxkmap D + 1) mod 256, g_nimap = (- minimap D) mod 256, g_umap_assoc = []\<rparr>"
    using assms by (auto simp: g_copy_nodes_def those_Some split: Option.bind_splits)
  show "g_models G = map copy_model (dmodels D)" "g_vars G = map copy_var (dvars D)" "g_ng G = (maxg D + 1) mod 256" by (simp_all add: G)
  have len: "length ws = length (dshadows D)" using arg_cong [OF ws, of length] by simp
  then show "length (g_shadows G) = length (dshadows D)" by (simp add: G)
  show "w_xi (g_shadows G ! w) = dw_xi (dshadows D ! w)" if "w < length (dshadows D)"
  proof -
    have "copy_shadow junk D (dshadows D ! w) = Some (ws ! w)" using arg_cong [OF ws, of "\<lambda>l. l ! w"] that len by simp
    then show ?thesis by (auto simp: G copy_shadow_def split: Option.bind_splits dest!: arg_cong [where f = w_xi])
  qed
qed

text \<open>The parts of the finished graph in terms of the copied nodes \<open>G0\<close>.\<close>

lemma build_graph_parts:
  assumes "fhk_build_graph junk D p = Some (G, L, q)"
  obtains G0 where "g_copy_nodes junk D = Some G0" "length (g_models G) = length (dmodels D)" "length (g_vars G) = length (dvars D)"
    "g_ng G = g_ng G0" "g_shadows G = g_shadows G0"
    "\<And>i. i < length (dmodels D) \<Longrightarrow> \<exists>fl. g_models G ! i = (reorder_model D (bmodel G0 D i (dmodels D ! i)))\<lparr>m_flags := fl\<rparr>"
    "\<And>x. x < length (dvars D) \<Longrightarrow> v_fwds (g_vars G ! x) =
       concat (map (\<lambda>(i, dm). map (mk_fwd (unat junk) G0 (- 1 - int i)) (filter (\<lambda>de. nat (de_idx de) = x) (params dm))) (enumerate 0 (dmodels D)))"
    "\<And>x. x < length (dvars D) \<Longrightarrow> v_models (g_vars G ! x) =
       concat (map (\<lambda>(i, dm). map (mk_mod G0 (- 1 - int i)) (filter (\<lambda>(j, de). nat (de_idx de) = x) (enumerate 0 (returns dm)))) (enumerate 0 (dmodels D)))"
proof -
  obtain G0 where G0: "g_copy_nodes junk D = Some G0" using assms by (auto simp: fhk_build_graph_def split: Option.bind_splits)
  note F = copy_nodes_fields [OF G0]
  define B where "B = build_models (unat junk) G0 D 0 (dmodels D) ([], g_vars G0)"
  note S = build_models_spec [where junk = "unat junk" and G = G0 and D = D and i = 0 and dms = "dmodels D" and ms = "[]" and vs = "g_vars G0",
    folded B_def]
  have G: "g_vars G = snd B" "g_ng G = g_ng G0" "g_shadows G = g_shadows G0"
     "g_models G = map (\<lambda>m. m\<lparr>m_flags := (if g_mretbuf (g_reorder_edges D (G0\<lparr>g_models := fst B, g_vars := snd B,
         g_umap_assoc := take (nat (- minimap D)) (drop (nat (minimap D - G_MINUMAP)) (umap_assoc D))\<rparr>)) m then 0 else M_NORETBUF)\<rparr>)
         (map (reorder_model D) (fst B))"
    using assms by (auto simp: fhk_build_graph_def G0 g_build_edges_def B_def [symmetric] g_copy_umaps_def g_mflags_def g_reorder_edges_def split: prod.splits)
  show thesis
  proof (rule that [OF G0])
    show "length (g_models G) = length (dmodels D)" "length (g_vars G) = length (dvars D)" using S(1,2) by (simp_all add: G F)
    show "\<exists>fl. g_models G ! i = (reorder_model D (bmodel G0 D i (dmodels D ! i)))\<lparr>m_flags := fl\<rparr>" if "i < length (dmodels D)" for i
      unfolding G S(1) using that by (auto simp: nth_enumerate_eq)
  qed (use S(3,4) in \<open>simp_all add: G F copy_var_def\<close>)
qed


definition emaps_known :: "fhk_def \<Rightarrow> bool" where
  "emaps_known D \<longleftrightarrow> (\<forall>dm \<in> set (dmodels D). \<forall>e \<in> set (params dm) \<union> set (returns dm). de_map e \<le> FHKMAP_SPACE)"

text \<open>Numbers that the calls accept and the pruner cannot handle: NaN, negative zero and an infinite factor.\<close>

definition numbers_ok :: "fhk_def \<Rightarrow> bool" where
  "numbers_ok D \<longleftrightarrow> (\<forall>dm \<in> set (dmodels D). \<not> f32_nan (dm_k dm) \<and> dm_k dm \<noteq> 0x80000000 \<and> \<not> f32_nan (dm_c dm) \<and>
     dm_c dm \<noteq> INFINITY \<and> (\<forall>e \<in> set (checks dm). is_cost (dse_penalty e)))"

lemma guard_cost_par:
  assumes "\<not> f32_nan k" "k \<noteq> 0x80000000" "\<not> f32_nan c" "c \<noteq> INFINITY" "\<not> flt k 0" "\<not> flt c ONE"
  shows "cost_par k c"
proof -
  have z: "\<not> f32_nan 0" "\<not> f32_nan ONE" "f32_key 0 = 0" "f32_key ONE = int (unat ONE)"
    by (simp_all add: f32_defs f32_key_def)
  have k: "0 \<le> f32_key k" and c: "int (unat ONE) \<le> f32_key c" using assms z by (auto simp: flt_def not_less)
  have "\<not> f32_neg k"
  proof
    assume n: "f32_neg k"
    then have "unat k mod SIGN_BITS = 0" using k by (simp add: f32_key_def f32_mag_def)
    moreover have "SIGN_BITS \<le> unat k" "unat k < 2 * SIGN_BITS" using n unat_lt32 [of k] by (simp_all add: f32_neg_def SIGN_BITS_def)
    ultimately have "unat k = SIGN_BITS" by (auto simp: SIGN_BITS_def)
    then have "k = 0x80000000" by (simp add: word_unat_eq_iff SIGN_BITS_def)
    then show False using assms(2) by simp
  qed
  then have k': "is_cost k" using assms(1) by (simp add: f32_defs is_cost_def word_le_nat_alt)
  have "\<not> f32_neg c" using c by (auto simp: f32_key_def ONE_def)
  then have c': "f32_key c = int (unat c)" "unat c \<le> unat INFINITY" using assms(3) by (simp_all add: f32_key_def f32_defs)
  have "unat ONE \<le> unat c" "unat c \<noteq> unat INFINITY" using c c'(1) assms(4) by (linarith, simp add: word_unat_eq_iff)
  then show ?thesis using k' c' by (simp add: cost_par_def word_le_nat_alt word_less_nat_alt)
qed

text \<open>Both ends of an edge agree on whether its map is a user map.\<close>

lemma edge_maps_user:
  assumes D: "def_ok D" "maps_fit D" and G: "g_copy_nodes junk D = Some G"
    and dm: "i < length (dmodels D)" "dm = dmodels D ! i" and e: "edge_ok D (dm_group dm) de" "de_map de \<le> FHKMAP_SPACE"
  shows "MAP_ISUSER (g_extmap G (de_idx de) (de_map de)) (g_ng G) \<longleftrightarrow> de_map de < FHKMAP_IDENT"
    "MAP_ISUSER (g_extmapi G (- 1 - int i) (de_map de)) (g_ng G) \<longleftrightarrow> de_map de < FHKMAP_IDENT"
proof -
  note F = copy_nodes_fields [OF G] and b = fit_bounds [OF D]
  have ng: "g_ng G = maxg D + 1" using F(3) b(4) by simp
  obtain dx where dx: "get (dvars D) (de_idx de) = Some dx" "map_ok D (de_map de) (dm_group dm) (dx_group dx)"
    using e(1) by (auto simp: edge_ok_def)
  have "dmodel_ok D dm" using D(1) dm by (simp add: def_ok_def)
  moreover have "dvar_ok D (de_idx de) dx" using def_okD(3) [OF D(1) dx(1)] .
  ultimately have g: "int (unat (dx_group dx)) \<le> maxg D" "int (unat (dm_group dm)) \<le> maxg D" by (simp_all add: dvar_ok_def dmodel_ok_def)
  have gv: "v_group (gvar G (de_idx de)) = unat (dx_group dx)" "m_group (gmodel G (- 1 - int i)) = unat (dm_group dm)"
    using dx(1) dm by (simp_all add: gvar_def gmodel_def F(1,2) get_Some copy_var_def copy_model_def)
  consider "de_map de = FHKMAP_IDENT" | "de_map de = FHKMAP_SPACE" | "de_map de < FHKMAP_IDENT"
    using e(2) unfolding FHKMAP_IDENT_def FHKMAP_SPACE_def by linarith
  then have "(MAP_ISUSER (g_extmap G (de_idx de) (de_map de)) (g_ng G) \<longleftrightarrow> de_map de < FHKMAP_IDENT) \<and>
    (MAP_ISUSER (g_extmapi G (- 1 - int i) (de_map de)) (g_ng G) \<longleftrightarrow> de_map de < FHKMAP_IDENT)"
  proof cases
    case 1
    then show ?thesis by (simp add: g_extmap_def g_extmapi_def MAP_ISUSER_def)
  next
    case 2
    then have "g_extmap G (de_idx de) (de_map de) = int (unat (dx_group dx))" "g_extmapi G (- 1 - int i) (de_map de) = int (unat (dm_group dm))"
      unfolding g_extmap_def g_extmapi_def gv space_map(1) [OF D g(1) ng] space_map(1) [OF D g(2) ng]
      by (simp_all only: FHKMAP_IDENT_def FHKMAP_SPACE_def) simp_all
    then show ?thesis using 2 space_map(2) [OF D g(1) ng] space_map(2) [OF D g(2) ng] by (simp only: FHKMAP_IDENT_def FHKMAP_SPACE_def) simp
  next
    case 3
    then have "umap_in D (EXTMAP (de_map de))" "umap_in D (EXTINVERSE (de_map de))"
      using dx(2) by (auto simp: map_ok_def assoc_def umap_in_def)
    then have "MAP_ISUSER (s8 (MAP_UMAP (EXTMAP (de_map de)) (g_ng G))) (g_ng G)"
      "MAP_ISUSER (s8 (MAP_UMAP (EXTINVERSE (de_map de)) (g_ng G))) (g_ng G)" using umap_user(1) [OF D _ ng] by blast+
    then show ?thesis using 3 by (simp add: g_extmap_def g_extmapi_def FHKMAP_IDENT_def FHKMAP_SPACE_def)
  qed
  then show "MAP_ISUSER (g_extmap G (de_idx de) (de_map de)) (g_ng G) \<longleftrightarrow> de_map de < FHKMAP_IDENT"
    "MAP_ISUSER (g_extmapi G (- 1 - int i) (de_map de)) (g_ng G) \<longleftrightarrow> de_map de < FHKMAP_IDENT" by simp_all
qed

lemma cparams_mset:
  "mset (cparams G D dm @ gparams G D dm) = mset (map (mk_param G) (enumerate 0 (params dm)))"
  unfolding cparams_def gparams_def
  by (simp only: mset_append mset_map image_mset_union [symmetric] case_prod_unfold mset_filter)
    simp

lemma length_filter_mset: "mset xs = mset ys \<Longrightarrow> length (filter P xs) = length (filter P ys)"
  by (metis mset_filter size_mset)

lemma bmodel_params_mset:
  "mset (m_params (reorder_model D (bmodel G D i dm))) = mset (map (mk_param G) (enumerate 0 (params dm)))"
proof -
  have "count_cparams D dm \<le> length (params dm)" by (simp add: count_cparams_def)
  moreover have "length (cparams G D dm @ gparams G D dm) = length (params dm)"
    using arg_cong [OF cparams_mset [of G D dm], of size] by simp
  ultimately show ?thesis using cparams_mset [of G D dm] by (simp add: reorder_model_def bmodel_def exchange_sort_mset)
qed


text \<open>The edges of one model in the concatenation over all models.\<close>

lemma filter_concat_one:
  assumes "i < length dms" "\<And>k dm e. e \<in> set (f k dm) \<Longrightarrow> key e = g k" "inj g"
  shows "filter (\<lambda>e. key e = g (n + i)) (concat (map (\<lambda>(k, dm). f k dm) (enumerate n dms))) = f (n + i) (dms ! i)"
  using assms(1)
proof (induction dms arbitrary: n i)
  case (Cons dm dms)
  have all: "filter (\<lambda>e. key e = g m) (f k d) = (if k = m then f k d else [])" for k d m
  proof -
    have "\<forall>e \<in> set (f k d). (key e = g m) = (k = m)" using assms(2) [of _ k d] assms(3) by (auto simp: inj_eq)
    then show ?thesis by (auto intro: filter_True filter_False)
  qed
  have later: "filter (\<lambda>e. key e = g m) (concat (map (\<lambda>(k, dm). f k dm) (enumerate (Suc n) dms))) = []" if "m \<le> n" for m
    using that assms(2,3) by (auto simp: filter_empty_conv in_set_enumerate_eq inj_eq)
  show ?case
  proof (cases i)
    case 0
    then show ?thesis using all [of n n dm] later [of n] by simp
  next
    case (Suc i')
    then show ?thesis using Cons.IH [of i' "Suc n"] Cons.prems all [of "n + i" n dm] by simp
  qed
qed simp

definition built :: "fhk_def \<Rightarrow> fhk_graph \<Rightarrow> bool" where
  "built D G \<longleftrightarrow> (\<exists>junk p L q. fhk_build_graph junk D p = Some (G, L, q))"

lemma built_model:
  assumes "fhk_build_graph junk D p = Some (G, L, q)" "g_copy_nodes junk D = Some G0" "i < length (dmodels D)"
  shows "mset (m_params (gmodel G (- 1 - int i))) = mset (map (mk_param G0) (enumerate 0 (params (dmodels D ! i))))"
    "m_returns (gmodel G (- 1 - int i)) = map (mk_param G0) (enumerate 0 (returns (dmodels D ! i)))"
    "set (m_shadows (gmodel G (- 1 - int i))) = build_check G0 D ` set (checks (dmodels D ! i))"
    "m_k (gmodel G (- 1 - int i)) = dm_k (dmodels D ! i)" "m_c (gmodel G (- 1 - int i)) = dm_c (dmodels D ! i)"
proof -
  obtain fl where m: "gmodel G (- 1 - int i) = (reorder_model D (bmodel G0 D i (dmodels D ! i)))\<lparr>m_flags := fl\<rparr>"
    using build_graph_parts [OF assms(1)] assms(2,3) by (auto simp: gmodel_def)
  note F = copy_nodes_fields [OF assms(2)]
  show "mset (m_params (gmodel G (- 1 - int i))) = mset (map (mk_param G0) (enumerate 0 (params (dmodels D ! i))))"
    using bmodel_params_mset by (simp add: m)
  show "m_returns (gmodel G (- 1 - int i)) = map (mk_param G0) (enumerate 0 (returns (dmodels D ! i)))"
    "m_k (gmodel G (- 1 - int i)) = dm_k (dmodels D ! i)" "m_c (gmodel G (- 1 - int i)) = dm_c (dmodels D ! i)"
    using assms(3) by (simp_all add: m reorder_model_def bmodel_def F copy_model_def)
  show "set (m_shadows (gmodel G (- 1 - int i))) = build_check G0 D ` set (checks (dmodels D ! i))"
    using mset_eq_setD [OF exchange_sort_mset [OF order_refl, of penalty_lt "rev (map (build_check G0 D) (checks (dmodels D ! i)))"]]
    by (simp add: m reorder_model_def bmodel_def)
qed


lemma built_midx:
  assumes "fhk_build_graph junk D p = Some (G, L, q)"
  shows "midx G mi \<longleftrightarrow> (\<exists>i < length (dmodels D). mi = - 1 - int i)" "vidx G xi \<longleftrightarrow> (\<exists>x < length (dvars D). xi = int x)"
proof -
  have l: "length (g_models G) = length (dmodels D)" "length (g_vars G) = length (dvars D)" using build_graph_parts [OF assms] by auto
  show "midx G mi \<longleftrightarrow> (\<exists>i < length (dmodels D). mi = - 1 - int i)" unfolding midx_def l
    by (auto intro: exI [of _ "nat (- 1 - mi)"])
  show "vidx G xi \<longleftrightarrow> (\<exists>x < length (dvars D). xi = int x)" unfolding vidx_def l
    by (auto intro: exI [of _ "nat xi"])
qed

lemma enumerate_mem: "(j, d) \<in> set (enumerate n xs) \<Longrightarrow> d \<in> set xs"
  by (metis image_eqI list.set_map map_snd_enumerate snd_conv)

lemma edge_ok_idx: "edge_ok D g e \<Longrightarrow> \<exists>x < length (dvars D). de_idx e = int x"
  by (auto simp: edge_ok_def get_Some intro!: exI [of _ "nat (de_idx e)"])

lemma built_model_wf:
  assumes D: "def_ok D" "numbers_ok D" and B: "fhk_build_graph junk D p = Some (G, L, q)" and i: "i < length (dmodels D)"
  shows "model_wf G (- 1 - int i)"
proof -
  obtain G0 where G0: "g_copy_nodes junk D = Some G0" "g_shadows G = g_shadows G0" "length (g_vars G) = length (dvars D)" and
    vm: "\<And>x. x < length (dvars D) \<Longrightarrow> v_models (g_vars G ! x) =
       concat (map (\<lambda>(i, dm). map (mk_mod G0 (- 1 - int i)) (filter (\<lambda>(j, de). nat (de_idx de) = x) (enumerate 0 (returns dm)))) (enumerate 0 (dmodels D)))"
    using build_graph_parts [OF B] by metis
  note F = copy_nodes_fields [OF G0(1)] and M = built_model [OF B G0(1) i] and I = built_midx [OF B]
  let ?dm = "dmodels D ! i" and ?m = "gmodel G (- 1 - int i)"
  have dm: "dmodel_ok D ?dm" "?dm \<in> set (dmodels D)" using D(1) i by (auto simp: def_ok_def)
  have vi: "vidx G (de_idx de)" if "edge_ok D g de" for g de using edge_ok_idx [OF that] I(2) by blast
  have set_params: "set (m_params ?m) = mk_param G0 ` set (enumerate 0 (params ?dm))" using mset_eq_setD [OF M(1)] by simp
  have 1: "vidx G (e_idx e)" if "e \<in> set (m_params ?m)" for e
    using that dm(1) unfolding set_params by (auto simp: mk_param_def dmodel_ok_def dest!: enumerate_mem intro!: vi [of "dm_group (dmodels D ! i)"])
  have 2: "vidx G (e_idx e) \<and> - 1 - int i \<in> e_idx ` set (v_models (gvar G (e_idx e)))" if "e \<in> set (m_returns ?m)" for e
  proof -
    obtain j de where j: "(j, de) \<in> set (enumerate 0 (returns ?dm))" "e = mk_param G0 (j, de)" using \<open>e \<in> set (m_returns ?m)\<close> unfolding M(2) by auto
    then have ok: "edge_ok D (dm_group ?dm) de" using dm(1) by (auto simp: dmodel_ok_def dest: enumerate_mem)
    then obtain x where x: "x < length (dvars D)" "de_idx de = int x" using edge_ok_idx by blast
    have "mk_mod G0 (- 1 - int i) (j, de) \<in> set (v_models (g_vars G ! x))" unfolding vm [OF x(1)]
      using j(1) x(2) i by (auto simp: in_set_enumerate_eq intro!: bexI [of _ "(i, ?dm)"])
    moreover have "e_idx (mk_mod G0 (- 1 - int i) (j, de)) = - 1 - int i" by (simp add: mk_mod_def)
    ultimately show ?thesis using vi [OF ok] j(2) x by (force simp: mk_param_def gvar_def)
  qed
  have 3: "is_cost (se_penalty sh) \<and> vidx G (w_xi (gshadow G (se_idx sh)))" if "sh \<in> set (m_shadows ?m)" for sh
  proof -
    obtain e where e: "e \<in> set (checks ?dm)" "sh = build_check G0 D e" using \<open>sh \<in> set (m_shadows ?m)\<close> unfolding M(3) by auto
    then obtain ds dx where c: "get (dshadows D) (dse_idx e) = Some ds" "get (dvars D) (dw_xi ds) = Some dx"
      using dm(1) by (auto simp: dmodel_ok_def check_ok_def)
    have "nv G0 = nv G" by (simp add: F(2) G0(3))
    then have "w_xi (gshadow G (se_idx sh)) = dw_xi ds"
      using c(1) by (simp add: e(2) build_check_def gshadow_def G0(2) F(5) get_Some)
    then show ?thesis using c(2) D(2) dm(2) e by (auto simp: I(2) numbers_ok_def build_check_def get_Some intro!: exI [of _ "nat (dw_xi ds)"])
  qed
  have 4: "length (m_params ?m) \<le> 255" using arg_cong [OF M(1), of size] dm(1) by (simp add: dmodel_ok_def G_MAXEDGE_def)
  have 5: "cost_par (m_k ?m) (m_c ?m)" unfolding M(4,5)
    using D(2) dm by (intro guard_cost_par) (auto simp: numbers_ok_def dmodel_ok_def)
  show ?thesis unfolding model_wf_def Let_def using 1 2 3 4 5 by blast
qed

lemma built_var_wf:
  assumes D: "def_ok D" "maps_fit D" "emaps_known D" and B: "fhk_build_graph junk D p = Some (G, L, q)" and x: "x < length (dvars D)"
  shows "var_wf G (int x)"
proof -
  obtain G0 where G0: "g_copy_nodes junk D = Some G0" "g_ng G = g_ng G0" and
    vf: "v_fwds (g_vars G ! x) = concat (map (\<lambda>(i, dm). map (mk_fwd (unat junk) G0 (- 1 - int i))
           (filter (\<lambda>de. nat (de_idx de) = x) (params dm))) (enumerate 0 (dmodels D)))" and
    vm: "v_models (g_vars G ! x) =
       concat (map (\<lambda>(i, dm). map (mk_mod G0 (- 1 - int i)) (filter (\<lambda>(j, de). nat (de_idx de) = x) (enumerate 0 (returns dm)))) (enumerate 0 (dmodels D)))"
    using build_graph_parts [OF B] x by metis
  note I = built_midx [OF B]
  have 1: "midx G (e_idx e)" if "e \<in> set (v_fwds (g_vars G ! x))" for e
    using that unfolding vf I by (fastforce simp: mk_fwd_def in_set_enumerate_eq)
  have 2: "midx G (e_idx e)" if "e \<in> set (v_models (g_vars G ! x))" for e
    using that unfolding vm I by (fastforce simp: mk_mod_def in_set_enumerate_eq)
  have 3: "length (filter (\<lambda>e. e_idx e = mi) (filter (relp G c) (v_fwds (g_vars G ! x)))) = cnt G c mi (int x)" if "midx G mi" for c mi
  proof -
    obtain i where i: "i < length (dmodels D)" "mi = - 1 - int i" using \<open>midx G mi\<close> I by blast
    let ?dm = "dmodels D ! i"
    have ok: "edge_ok D (dm_group ?dm) de \<and> de_map de \<le> FHKMAP_SPACE" if "de \<in> set (params ?dm)" for de
      using that D(1,3) i(1) by (auto simp: def_ok_def dmodel_ok_def emaps_known_def)
    have idx: "nat (de_idx de) = x \<longleftrightarrow> de_idx de = int x" if "de \<in> set (params ?dm)" for de
      using edge_ok_idx [of D "dm_group ?dm" de] ok [OF that] by auto
    have rel: "relp G c (mk_fwd (unat junk) G0 mi de) \<longleftrightarrow> relp G c (mk_param G0 (j, de))" if "de \<in> set (params ?dm)" for de j
      using edge_maps_user [OF D(1,2) G0(1) i(1) refl] ok [OF that] i(2)
      by (simp add: relp_def xnonempty_def mk_fwd_def mk_param_def G0(2))
    have "filter (\<lambda>e. e_idx e = mi) (v_fwds (g_vars G ! x)) = map (mk_fwd (unat junk) G0 mi) (filter (\<lambda>de. nat (de_idx de) = x) (params ?dm))"
      unfolding vf i(2)
      by (rule filter_concat_one [where n = 0 and i = i and g = "\<lambda>k. - 1 - int k", simplified]) (auto simp: i mk_fwd_def inj_def)
    then have "length (filter (\<lambda>e. e_idx e = mi) (filter (relp G c) (v_fwds (g_vars G ! x)))) =
      length (filter (relp G c) (map (mk_fwd (unat junk) G0 mi) (filter (\<lambda>de. nat (de_idx de) = x) (params ?dm))))"
      by (metis (no_types, lifting) filter_filter conj_commute filter_cong)
    also have "\<dots> = length (filter (\<lambda>de. relp G c (mk_param G0 (0, de)) \<and> de_idx de = int x) (params ?dm))"
      unfolding filter_map length_map filter_filter
      by (rule arg_cong [of _ _ length], rule filter_cong) (auto simp: rel [where j = 0] idx)
    also have "\<dots> = length (filter (\<lambda>e. relp G c e \<and> e_idx e = int x) (map (mk_param G0) (enumerate 0 (params ?dm))))"
    proof -
      have "filter (\<lambda>e. relp G c e \<and> e_idx e = int x) (map (mk_param G0) (enumerate 0 (params ?dm))) =
        map (mk_param G0) (filter ((\<lambda>de. relp G c (mk_param G0 (0, de)) \<and> de_idx de = int x) \<circ> snd) (enumerate 0 (params ?dm)))"
        unfolding filter_map by (intro arg_cong [of _ _ "map _"] filter_cong) (auto simp: mk_param_def relp_def)
      then show ?thesis by (metis (no_types, lifting) length_map filter_map map_snd_enumerate)
    qed
    also have "\<dots> = cnt G c mi (int x)"
      using length_filter_mset [OF built_model(1) [OF B G0(1) i(1)]] by (simp add: cnt_def params_rel_def i(2) conj_commute)
    finally show ?thesis .
  qed
  show ?thesis unfolding var_wf_def Let_def gvar_def nat_int using 1 2 3 by blast
qed


lemma graph_wf_built:
  assumes "def_ok D" "maps_fit D" "emaps_known D" "numbers_ok D" "fhk_build_graph junk D p = Some (G, L, q)"
  shows "graph_wf G"
proof -
  note I = built_midx [OF assms(5)]
  have l: "length (g_models G) = length (dmodels D)" "length (g_vars G) = length (dvars D)" using build_graph_parts [OF assms(5)] by auto
  have "nv G \<le> 32767" "nm G \<le> 32768" unfolding l using assms(1) by (auto simp: def_ok_def glob_ok_def G_MAXIDX_def)
  then show ?thesis unfolding graph_wf_def I
    using built_model_wf [OF assms(1,4,5)] built_var_wf [OF assms(1,2,3,5)] by auto
qed


section \<open>Order of the edges\<close>

definition cdiff_key :: "fhk_def \<Rightarrow> fhk_edge \<Rightarrow> int" where
  "cdiff_key D e = f32_key (dx_cdiff (dvars D ! nat (e_idx e)))"

text \<open>
  C36. After \<^verbatim>\<open>g_reorder_edges\<close> the computed parameters of a model are in increasing order of their cost
  difference, the given parameters are where they were, and the checks are in decreasing order
  of their penalty; nothing is lost or added.
\<close>

theorem reorder_edges_sorted:
  assumes "i < length (g_models G)" "m_cparam (g_models G ! i) \<le> length (m_params (g_models G ! i))"
    "\<forall>e \<in> set (take (m_cparam (g_models G ! i)) (m_params (g_models G ! i))). \<not> f32_nan (dx_cdiff (dvars D ! nat (e_idx e)))"
    "\<forall>s \<in> set (m_shadows (g_models G ! i)). \<not> f32_nan (se_penalty s)"
  shows "let m = g_models G ! i; n = m_cparam m; r = g_models (g_reorder_edges D G) ! i in
     mset (take n (m_params r)) = mset (take n (m_params m)) \<and> drop n (m_params r) = drop n (m_params m) \<and>
     sorted (map (cdiff_key D) (take n (m_params r))) \<and>
     mset (m_shadows r) = mset (m_shadows m) \<and> sorted (map (\<lambda>s. - f32_key (se_penalty s)) (m_shadows r))"
proof -
  let ?m = "g_models G ! i"
  have r: "g_models (g_reorder_edges D G) ! i = reorder_model D ?m" using assms(1) by (simp add: g_reorder_edges_def)
  have "keyed (cdiff_gt D) (cdiff_key D) (take (m_cparam ?m) (m_params ?m))"
    using assms(3) by (auto simp: keyed_def cdiff_gt_def cdiff_key_def flt_def)
  note P = exchange_sort_spec [OF assms(2) this]
  have "keyed penalty_lt (\<lambda>s. - f32_key (se_penalty s)) (take (length (m_shadows ?m)) (m_shadows ?m))"
    using assms(4) by (auto simp: keyed_def penalty_lt_def flt_def)
  note S = exchange_sort_spec [OF order_refl this]
  show ?thesis using P S exchange_sort_mset [OF order_refl, of penalty_lt "m_shadows ?m"]
    mset_eq_length [OF exchange_sort_mset [OF order_refl, of penalty_lt "m_shadows ?m"]] unfolding r Let_def reorder_model_def by simp
qed

definition demo_pair :: fhk_graph where
  "demo_pair = \<lparr>g_models = [\<lparr>m_params = [\<lparr>e_idx = 0, e_map = MAP_IDENT, e_ex = 0\<rparr>, \<lparr>e_idx = 1, e_map = MAP_IDENT, e_ex = 1\<rparr>], m_shadows = [],
     m_returns = [], m_group = 0, m_cparam = Suc (Suc 0), m_flags = 0, m_k = 0, m_c = ONE, m_ki = 0, m_ci = ONE, m_cmin = 0\<rparr>],
     g_vars = [], g_shadows = [], g_ng = 1, g_nkmap = 1, g_nimap = 0, g_umap_assoc = []\<rparr>"

definition demo_costs :: fhk_def where
  "demo_costs = fhk_create_def\<lparr>d_vars := \<lparr>dv_data = [\<lparr>dx_group = 0, dx_size = 8, dx_n_fwd = 1, dx_n_mod = 1, dx_cdiff = ONE\<rparr>,
     \<lparr>dx_group = 0, dx_size = 8, dx_n_fwd = 1, dx_n_mod = 1, dx_cdiff = 0\<rparr>], dv_alloc = 64\<rparr>\<rparr>"

theorem reorder_edges_sorted_witness:
  "map e_idx (m_params (g_models (g_reorder_edges demo_costs demo_pair) ! 0)) = [1, 0] \<and>
   sorted (map (cdiff_key demo_costs) (take 2 (m_params (g_models (g_reorder_edges demo_costs demo_pair) ! 0))))"
proof -
  have e: "map e_idx (m_params (g_models (g_reorder_edges demo_costs demo_pair) ! 0)) = [1, 0]"
    by (simp add: demo_pair_def demo_costs_def g_reorder_edges_def reorder_model_def exchange_sort_def cdiff_gt_def flt_def
      f32_key_def f32_defs)
  have c: "m_cparam (g_models demo_pair ! 0) = 2" by (simp add: demo_pair_def)
  have "0 < length (g_models demo_pair)" "m_cparam (g_models demo_pair ! 0) \<le> length (m_params (g_models demo_pair ! 0))"
    "\<forall>s \<in> set (m_shadows (g_models demo_pair ! 0)). \<not> f32_nan (se_penalty s)"
    "\<forall>e \<in> set (take (m_cparam (g_models demo_pair ! 0)) (m_params (g_models demo_pair ! 0))).
        \<not> f32_nan (dx_cdiff (dvars demo_costs ! nat (e_idx e)))"
    by (simp_all add: demo_pair_def demo_costs_def f32_defs)
  then show ?thesis using reorder_edges_sorted [of 0 demo_pair demo_costs] e unfolding Let_def c by blast
qed

section \<open>Building is defined\<close>

lemma build_defined:
  assumes "\<forall>ds \<in> set (dshadows D). 0 \<le> dw_xi ds \<and> dw_xi ds < int (length (dvars D))"
  shows "\<exists>G L q. fhk_build_graph junk D p = Some (G, L, q)"
proof -
  let ?f = "\<lambda>ds. \<lparr>w_arg = dw_arg ds, w_xi = dw_xi ds, w_group = unat (dx_group (dvars D ! nat (dw_xi ds))), w_flags = junk, w_guard = unat (dw_guard ds)\<rparr>"
  have "map (copy_shadow junk D) (dshadows D) = map Some (map ?f (dshadows D))"
    using assms by (auto simp: copy_shadow_def get_def)
  then have "those (map (copy_shadow junk D) (dshadows D)) = Some (map ?f (dshadows D))" unfolding those_Some .
  then show ?thesis by (auto simp: fhk_build_graph_def g_copy_nodes_def split: prod.splits)
qed

lemma demo_fits: "maps_fit demo_def" "emaps_known demo_def" "numbers_ok demo_def"
  by (simp_all add: maps_fit_def emaps_known_def numbers_ok_def demo_def_def demo_model_def G_MAXUMAP_def FHKMAP_USER_def FHKMAP_IDENT_def
    FHKMAP_SPACE_def vec_null_def f32_defs)


theorem build_graph_fills_buffer_witness: "\<exists>G L. fhk_build_graph 0 demo_def 8 = Some (G, L, 8 + fhk_graph_size demo_def)"
proof -
  obtain G L q where b: "fhk_build_graph 0 demo_def 8 = Some (G, L, q)"
    using build_defined [of demo_def 0 8] by (auto simp: demo_def_def vec_null_def)
  then show ?thesis using build_graph_fills_buffer [OF demo_ok(3) _ b] by auto
qed


end
