(* ===== verification/Fhk_Bitmap.thy ===== *)
theory Fhk_Bitmap
  imports Fhk_Float
begin

text \<open>
  The bitmaps of the solver, \<^verbatim>\<open>src/src/fhk/solve.c\<close>: which instances of a given variable are missing,
  and which instances of a shadow have been evaluated and passed. A bitmap is the list of its
  64-bit words; instances are natural numbers.
\<close>

section \<open>Missing instances\<close>

type_synonym bitmap = "u64 list"

text \<open>\<^verbatim>\<open>bm_alloc\<close> returns \<open>ALIGN(num, 64) / 8\<close> words, eight times as many as it needs.\<close>

definition bm_alloc :: "nat \<Rightarrow> u64 \<Rightarrow> bitmap" where
  "bm_alloc num ini = replicate (round_up num 64 div 8) ini"

definition bm_isset :: "bitmap \<Rightarrow> nat \<Rightarrow> bool" where
  "bm_isset b inst \<longleftrightarrow> (b ! (inst div 64)) AND push_bit (inst mod 64) 1 \<noteq> 0"

text \<open>The words after the first one: \<open>left\<close> bits remain to be cleared.\<close>

function clear_words :: "bitmap \<Rightarrow> nat \<Rightarrow> nat \<Rightarrow> bitmap" where
  "clear_words bm k left =
     (if left > 0
      then clear_words (bm[k := bm ! k + 1 - (if left < 64 then push_bit left 1 else 0)]) (k + 1) (left - 64)
      else bm)"
  by pat_completeness auto
termination
  by (relation "measure (\<lambda>(bm, k, left). left)") auto

declare clear_words.simps [simp del]

definition bm_cleari :: "bitmap \<Rightarrow> nat \<Rightarrow> nat \<Rightarrow> bitmap" where
  "bm_cleari bm inst num =
     (let w = inst div 64; start = inst mod 64; e = start + num;
          m = bm ! w + push_bit start 1 - (if e < 64 then push_bit e 1 else 0)
      in clear_words (bm[w := m]) (w + 1) (num - (64 - start)))"

definition ctzl :: "u64 \<Rightarrow> nat" where
  "ctzl m = hd (filter (bit m) [0 ..< 64])"

text \<open>The distance \<open>d\<close> to the word of \<open>end\<close> counts down; the result is the position of the first set bit.\<close>

fun findi_loop :: "bitmap \<Rightarrow> nat \<Rightarrow> nat \<Rightarrow> u64 \<Rightarrow> nat option" where
  "findi_loop bm w 0 m = (if m \<noteq> 0 then Some (64 * w + ctzl m) else None)"
| "findi_loop bm w (Suc d) m = (if m \<noteq> 0 then Some (64 * w + ctzl m) else findi_loop bm (w + 1) d (bm ! (w + 1)))"

text \<open>\<^verbatim>\<open>bm_findi\<close> returns whether a bit below \<open>end\<close> was found, and the new value of \<^verbatim>\<open>*inst\<close>. Called with a
  position behind the word of \<open>end\<close> the loop would run past the bitmap; no caller does that.\<close>

definition bm_findi :: "bitmap \<Rightarrow> nat \<Rightarrow> nat \<Rightarrow> bool \<times> nat" where
  "bm_findi bm inst e =
     (case findi_loop bm (inst div 64) (e div 64 - inst div 64) ((bm ! (inst div 64)) AND push_bit (inst mod 64) (- 1)) of
        None \<Rightarrow> (False, inst)
      | Some i \<Rightarrow> (i < e, i))"

section \<open>Shadow states\<close>

definition SW_PASS :: u64 where "SW_PASS = 1"
definition SW_EVAL :: u64 where "SW_EVAL = 2"
definition SW_BMIDX :: "nat \<Rightarrow> nat" where "SW_BMIDX inst = inst div 32"
definition SW_BMOFF :: "nat \<Rightarrow> nat" where "SW_BMOFF inst = (2 * inst) mod 64"

text \<open>Guards, and the bytes of a little-endian value.\<close>

datatype guard = FHKC_GEF32 | FHKC_LEF32 | FHKC_GEF64 | FHKC_LEF64 | FHKC_U8_MASK64

definition guard_stride :: "guard \<Rightarrow> u64" where
  "guard_stride g = (case g of FHKC_GEF32 \<Rightarrow> 4 | FHKC_LEF32 \<Rightarrow> 4 | FHKC_GEF64 \<Rightarrow> 8 | FHKC_LEF64 \<Rightarrow> 8 | FHKC_U8_MASK64 \<Rightarrow> 1)"

definition load :: "nat \<Rightarrow> (uptr \<Rightarrow> u8) \<Rightarrow> uptr \<Rightarrow> u64" where
  "load n st p = fold (\<lambda>i w. w OR push_bit (8 * i) (ucast (st (p + of_nat i)))) [0 ..< n] 0"

text \<open>Comparison of doubles by their bit patterns.\<close>

definition f64_mag :: "u64 \<Rightarrow> nat" where "f64_mag x = unat x mod 2 ^ 63"
definition f64_nan :: "u64 \<Rightarrow> bool" where "f64_nan x \<longleftrightarrow> 0x7ff0000000000000 < f64_mag x"
definition f64_key :: "u64 \<Rightarrow> int" where
  "f64_key x = (if 2 ^ 63 \<le> unat x then - int (f64_mag x) else int (f64_mag x))"
definition f64_le :: "u64 \<Rightarrow> u64 \<Rightarrow> bool" where
  "f64_le a b \<longleftrightarrow> \<not> f64_nan a \<and> \<not> f64_nan b \<and> f64_key a \<le> f64_key b"

text \<open>The shift count of the mask guard is a byte; a count of 64 or more is taken modulo 64 by the machine.\<close>

definition guard_ok :: "guard \<Rightarrow> u64 \<Rightarrow> (uptr \<Rightarrow> u8) \<Rightarrow> uptr \<Rightarrow> bool" where
  "guard_ok g arg st vp =
     (case g of
        FHKC_GEF32 \<Rightarrow> fle (ucast arg) (ucast (load 4 st vp))
      | FHKC_LEF32 \<Rightarrow> fle (ucast (load 4 st vp)) (ucast arg)
      | FHKC_GEF64 \<Rightarrow> f64_le arg (load 8 st vp)
      | FHKC_LEF64 \<Rightarrow> f64_le (load 8 st vp) arg
      | FHKC_U8_MASK64 \<Rightarrow> push_bit (unat (load 1 st vp) mod 64) 1 AND arg \<noteq> 0)"

text \<open>The loop of \<^verbatim>\<open>S_checkscan\<close>; \<open>n\<close> is the number of instances that remain after the current one.\<close>

fun checkscan_loop :: "(uptr \<Rightarrow> bool) \<Rightarrow> u64 \<Rightarrow> bitmap \<Rightarrow> nat \<Rightarrow> nat \<Rightarrow> u64 \<Rightarrow> uptr \<Rightarrow> nat \<Rightarrow> bitmap" where
  "checkscan_loop ok stride bm w off state vp 0 = bm[w := state OR push_bit off (of_bool (ok vp) OR SW_EVAL)]"
| "checkscan_loop ok stride bm w off state vp (Suc n) =
     (let state1 = state OR push_bit off (of_bool (ok vp) OR SW_EVAL); off1 = (off + 2) mod 64 in
      if off1 = 0
      then let bm1 = bm[w := state1] in checkscan_loop ok stride bm1 (w + 1) 0 (bm1 ! (w + 1)) (vp + stride) n
      else checkscan_loop ok stride bm w off1 state1 (vp + stride) n)"

definition S_checkscan :: "(uptr \<Rightarrow> u8) \<Rightarrow> uptr \<Rightarrow> guard \<Rightarrow> u64 \<Rightarrow> bitmap \<Rightarrow> nat \<Rightarrow> nat \<Rightarrow> bitmap" where
  "S_checkscan st value g arg bm inst e =
     checkscan_loop (guard_ok g arg st) (guard_stride g) bm (SW_BMIDX inst) (SW_BMOFF inst) (bm ! SW_BMIDX inst)
       (value + guard_stride g * of_nat inst) (e - inst - 1)"

section \<open>Clearing a run\<close>

lemma isset_bit: "bm_isset b inst \<longleftrightarrow> bit (b ! (inst div 64)) (inst mod 64)"
  by (simp add: bm_isset_def push_bit_of_1 and_exp_eq_0_iff_not_bit)

lemma run_bits: "bit (2 ^ e - 2 ^ s :: u64) i \<longleftrightarrow> s \<le> i \<and> i < e" if "s \<le> e" "e \<le> 64" for i
proof -
  have "(2 ^ e - 2 ^ s :: u64) = push_bit s (mask (e - s))"
    using that by (simp add: push_bit_eq_mult mask_eq_exp_minus_1 algebra_simps flip: power_add)
  then show ?thesis using that by (auto simp: bit_simps)
qed

text \<open>Adding one at the start of a run of ones clears it; the carry is taken back.\<close>

lemma clear_run:
  fixes m :: u64
  assumes "s \<le> e" "e \<le> 64" "\<forall>i. s \<le> i \<longrightarrow> i < e \<longrightarrow> bit m i"
  shows "bit (m + 2 ^ s - 2 ^ e) i \<longleftrightarrow> bit m i \<and> \<not> (s \<le> i \<and> i < e)"
proof -
  define M :: u64 where "M = 2 ^ e - 2 ^ s"
  note b = run_bits [OF assms(1,2), folded M_def]
  have "(m AND NOT M) + M = (m AND NOT M) OR M" by (rule disjunctive_add) (auto simp: bit_simps)
  also have "\<dots> = m" using assms b by (intro bit_word_eqI) (auto simp: bit_simps)
  finally have "m - M = m AND NOT M" by (metis add_diff_cancel_right')
  moreover have "m + 2 ^ s - 2 ^ e = m - M" by (simp add: M_def)
  ultimately have "bit (m + 2 ^ s - 2 ^ e) i \<longleftrightarrow> i < 64 \<and> bit m i \<and> \<not> bit M i" by (auto simp: bit_simps)
  then show ?thesis using b [of i] bit_imp_le_length [of m i] by auto
qed

lemma clear_word:
  fixes m :: u64
  assumes "s < 64" "\<forall>i < 64. s \<le> i \<longrightarrow> i < e \<longrightarrow> bit m i" "s \<le> e"
  shows "bit (m + push_bit s 1 - (if e < 64 then push_bit e 1 else 0)) i \<longleftrightarrow> bit m i \<and> \<not> (s \<le> i \<and> i < e)"
proof -
  have "(if e < 64 then push_bit e 1 else 0) = (2 :: u64) ^ (min e 64)" by (simp add: push_bit_of_1 min_def)
  then have "bit (m + push_bit s 1 - (if e < 64 then push_bit e 1 else 0)) i \<longleftrightarrow> bit m i \<and> \<not> (s \<le> i \<and> i < min e 64)"
    using clear_run [of s "min e 64" m i] assms by (simp add: push_bit_of_1)
  then show ?thesis using bit_imp_le_length [of m i] by auto
qed

lemma clear_words_length [simp]: "length (clear_words bm k left) = length bm"
  by (induction bm k left rule: clear_words.induct) (subst clear_words.simps, simp)

lemma clear_words_spec:
  assumes "64 * k + left \<le> 64 * length bm" "\<forall>j. 64 * k \<le> j \<longrightarrow> j < 64 * k + left \<longrightarrow> bm_isset bm j" "j < 64 * length bm"
  shows "bm_isset (clear_words bm k left) j \<longleftrightarrow> bm_isset bm j \<and> \<not> (64 * k \<le> j \<and> j < 64 * k + left)"
  using assms
proof (induction bm k left rule: clear_words.induct)
  case (1 bm k left)
  show ?case
  proof (cases "left > 0")
    case False
    then show ?thesis by (subst clear_words.simps) simp
  next
    case True
    let ?bm = "bm[k := bm ! k + 1 - (if left < 64 then push_bit left 1 else 0)]"
    have k: "k < length bm" using True 1(2) by linarith
    have word: "bit (bm ! k) i" if "i < 64" "i < left" for i
      using 1(3) [rule_format, of "64 * k + i"] that by (simp add: isset_bit)
    have at: "bm_isset ?bm j' \<longleftrightarrow> bm_isset bm j' \<and> \<not> (64 * k \<le> j' \<and> j' < 64 * k + min left 64)" for j'
    proof (cases "j' div 64 = k")
      case True
      then have "j' = 64 * k + j' mod 64" "j' mod 64 < 64" by (simp_all flip: minus_mult_div_eq_mod)
      then have "64 * k \<le> j'" "j' < 64 * k + left \<longleftrightarrow> j' mod 64 < left" "j' < 64 * k + 64" by linarith+
      moreover have "bit (bm ! k + push_bit 0 1 - (if left < 64 then push_bit left 1 else 0)) (j' mod 64) \<longleftrightarrow> bit (bm ! k) (j' mod 64) \<and> \<not> (0 \<le> j' mod 64 \<and> j' mod 64 < left)"
        by (rule clear_word) (use word in auto)
      ultimately show ?thesis using True k by (auto simp: isset_bit)
    next
      case False
      then have "\<not> (64 * k \<le> j' \<and> j' < 64 * k + 64)" by linarith
      then show ?thesis using False by (auto simp: isset_bit)
    qed
    have "bm_isset (clear_words ?bm (k + 1) (left - 64)) j \<longleftrightarrow> bm_isset ?bm j \<and> \<not> (64 * (k + 1) \<le> j \<and> j < 64 * (k + 1) + (left - 64))"
    proof (rule 1(1) [OF True])
      show "64 * (k + 1) + (left - 64) \<le> 64 * length ?bm" using 1(2) k by simp
      show "\<forall>j. 64 * (k + 1) \<le> j \<longrightarrow> j < 64 * (k + 1) + (left - 64) \<longrightarrow> bm_isset ?bm j"
        using 1(3) at by auto
      show "j < 64 * length ?bm" using 1(4) by simp
    qed
    then have "bm_isset (clear_words bm k left) j \<longleftrightarrow> bm_isset bm j \<and> \<not> (64 * k \<le> j \<and> j < 64 * k + min left 64) \<and>
        \<not> (64 * (k + 1) \<le> j \<and> j < 64 * (k + 1) + (left - 64))"
      using True at by (subst clear_words.simps) simp
    moreover have "(64 * k \<le> j \<and> j < 64 * k + left) \<longleftrightarrow> (64 * k \<le> j \<and> j < 64 * k + min left 64) \<or> (64 * (k + 1) \<le> j \<and> j < 64 * (k + 1) + (left - 64))"
      by auto
    ultimately show ?thesis by blast
  qed
qed

lemma cleari_spec:
  assumes "0 < num" "inst + num \<le> 64 * length bm" "\<forall>j. inst \<le> j \<longrightarrow> j < inst + num \<longrightarrow> bm_isset bm j" "j < 64 * length bm"
  shows "bm_isset (bm_cleari bm inst num) j \<longleftrightarrow> bm_isset bm j \<and> \<not> (inst \<le> j \<and> j < inst + num)"
proof -
  define w s where "w = inst div 64" and "s = inst mod 64"
  have inst: "inst = 64 * w + s" "s < 64" by (simp_all add: w_def s_def)
  have w: "w < length bm" using assms(1,2) inst by linarith
  define m where "m = bm ! w + push_bit s 1 - (if s + num < 64 then push_bit (s + num) 1 else 0)"
  have word: "bit (bm ! w) i" if "i < 64" "s \<le> i" "i < s + num" for i
    using assms(3) [rule_format, of "64 * w + i"] that inst by (simp add: isset_bit)
  have mb: "bit m i \<longleftrightarrow> bit (bm ! w) i \<and> \<not> (s \<le> i \<and> i < s + num)" for i
    unfolding m_def by (rule clear_word) (use word inst in auto)
  have at: "bm_isset (bm[w := m]) j' \<longleftrightarrow> bm_isset bm j' \<and> \<not> (inst \<le> j' \<and> j' < min (inst + num) (64 * w + 64))" for j'
  proof (cases "j' div 64 = w")
    case True
    then have "j' = 64 * w + j' mod 64" "j' mod 64 < 64" by (simp_all flip: minus_mult_div_eq_mod)
    then have "inst \<le> j' \<longleftrightarrow> s \<le> j' mod 64" "j' < inst + num \<longleftrightarrow> j' mod 64 < s + num" "j' < 64 * w + 64" using inst by linarith+
    then show ?thesis using True w mb [of "j' mod 64"] by (simp add: isset_bit)
  next
    case False
    then have "\<not> (64 * w \<le> j' \<and> j' < 64 * w + 64)" by linarith
    then show ?thesis using False inst by (auto simp: isset_bit)
  qed
  let ?left = "num - (64 - s)"
  have c: "bm_cleari bm inst num = clear_words (bm[w := m]) (w + 1) ?left" by (simp add: bm_cleari_def w_def s_def m_def)
  have "bm_isset (clear_words (bm[w := m]) (w + 1) ?left) j \<longleftrightarrow>
      bm_isset (bm[w := m]) j \<and> \<not> (64 * (w + 1) \<le> j \<and> j < 64 * (w + 1) + ?left)"
  proof (rule clear_words_spec)
    show "64 * (w + 1) + ?left \<le> 64 * length (bm[w := m])" using assms(2) inst w by simp
    show "\<forall>j. 64 * (w + 1) \<le> j \<longrightarrow> j < 64 * (w + 1) + ?left \<longrightarrow> bm_isset (bm[w := m]) j"
      using assms(3) inst at by auto
    show "j < 64 * length (bm[w := m])" using assms(4) by simp
  qed
  moreover have "(inst \<le> j \<and> j < inst + num) \<longleftrightarrow> (inst \<le> j \<and> j < min (inst + num) (64 * w + 64)) \<or> (64 * (w + 1) \<le> j \<and> j < 64 * (w + 1) + ?left)"
    using inst assms(1) by auto
  ultimately show ?thesis unfolding c at by blast
qed

text \<open>
  C18. The trick of \<^verbatim>\<open>bm_cleari\<close> works: when every bit of the run is set, adding at its start and taking the
  carry back clears exactly the run, across any number of words.
\<close>

theorem bm_cleari_clears:
  assumes "0 < num" "inst + num \<le> 64 * length bm" "\<forall>j. inst \<le> j \<longrightarrow> j < inst + num \<longrightarrow> bm_isset bm j" "j < 64 * length bm"
  shows "bm_isset (bm_cleari bm inst num) j \<longleftrightarrow> bm_isset bm j \<and> \<not> (inst \<le> j \<and> j < inst + num)"
  using cleari_spec assms by blast

section \<open>Searching\<close>

lemma ctzl_find: "find (bit m) [0 ..< 64] = (if m = 0 then None else Some (ctzl m))"
proof -
  have "filter (bit m) [0 ..< 64] = [] \<longleftrightarrow> m = 0"
    using bit_imp_le_length [of m] by (auto simp: filter_empty_conv bit_eq_iff)
  then show ?thesis by (simp add: find_hd_filter ctzl_def)
qed

lemma find_word:
  assumes "\<And>i. bit m i \<longleftrightarrow> s \<le> i \<and> bit (bm ! w) i" "s \<le> 64"
  shows "find (bm_isset bm) [64 * w + s ..< 64 * w + 64] = (if m = 0 then None else Some (64 * w + ctzl m))"
proof -
  have "find (\<lambda>i. bm_isset bm (64 * w + i)) [s ..< 64] = find (bit (bm ! w)) [s ..< 64]"
    by (rule find_cong) (auto simp: isset_bit)
  also have "\<dots> = find (bit m) [0 ..< 64]" by (simp add: assms(1) flip: find_restrict [OF assms(2)] cong: find_cong)
  finally show ?thesis by (simp add: find_shift ctzl_find)
qed

lemma findi_loop_find:
  assumes "\<And>i. bit m i \<longleftrightarrow> s \<le> i \<and> bit (bm ! w) i" "s \<le> 64"
  shows "findi_loop bm w d m = find (bm_isset bm) [64 * w + s ..< 64 * (w + d + 1)]"
  using assms
proof (induction d arbitrary: w m s)
  case 0
  then show ?case using find_word [of m s bm w] by (simp add: algebra_simps)
next
  case (Suc d)
  have "[64 * w + s ..< 64 * (w + Suc d + 1)] = [64 * w + s ..< 64 * w + 64] @ [64 * (w + 1) + 0 ..< 64 * (w + 1 + d + 1)]"
    using Suc.prems(2) upt_add_eq_append [of "64 * w + s" "64 * w + 64" "64 * Suc d"] by (simp add: algebra_simps)
  moreover have "findi_loop bm (w + 1) d (bm ! (w + 1)) = find (bm_isset bm) [64 * (w + 1) + 0 ..< 64 * (w + 1 + d + 1)]"
    by (rule Suc.IH) auto
  ultimately show ?case using find_word [OF Suc.prems] by (simp add: find_append_case del: upt_Suc)
qed

lemma findi_find:
  assumes "inst \<le> e"
  shows "(let r = bm_findi bm inst e in if fst r then Some (snd r) else None) = find (bm_isset bm) [inst ..< e]"
proof -
  define w d where "w = inst div 64" and "d = e div 64 - w"
  let ?top = "64 * (w + d + 1)"
  have "w \<le> e div 64" using assms by (simp add: w_def div_le_mono)
  then have top: "e \<le> ?top" using mod_less_divisor [of 64 e] mult_div_mod_eq [of 64 e] by (simp add: d_def)
  have inst: "inst = 64 * w + inst mod 64" by (simp add: w_def)
  have "findi_loop bm w d ((bm ! w) AND push_bit (inst mod 64) (- 1)) = find (bm_isset bm) [inst ..< ?top]"
    by (subst (2) inst, rule findi_loop_find) (auto simp: bit_simps dest: bit_imp_le_length)
  moreover have "[inst ..< ?top] = [inst ..< e] @ [e ..< ?top]"
    using top assms upt_add_eq_append [of inst e "?top - e"] by simp
  ultimately have f: "findi_loop bm w d ((bm ! w) AND push_bit (inst mod 64) (- 1)) =
      (case find (bm_isset bm) [inst ..< e] of None \<Rightarrow> find (bm_isset bm) [e ..< ?top] | Some i \<Rightarrow> Some i)"
    by (simp only: find_append_case)
  show ?thesis
    unfolding bm_findi_def w_def [symmetric] d_def [symmetric] f
    by (auto simp: Let_def split: option.splits dest!: find_SomeD)
qed

text \<open>
  C19. \<^verbatim>\<open>bm_findi\<close> is the search for the first set bit of the interval: it returns true exactly when there is one,
  and leaves its position in \<^verbatim>\<open>*inst\<close>.
\<close>

theorem bm_findi_find:
  assumes "inst \<le> e"
  shows "(let r = bm_findi bm inst e in if fst r then Some (snd r) else None) = find (bm_isset bm) [inst ..< e]"
  by (rule findi_find [OF assms])

section \<open>Checking a run of instances\<close>

definition sw_pass :: "bitmap \<Rightarrow> nat \<Rightarrow> bool" where
  "sw_pass bm inst \<longleftrightarrow> drop_bit (SW_BMOFF inst) (bm ! SW_BMIDX inst) AND SW_PASS \<noteq> 0"

definition sw_eval :: "bitmap \<Rightarrow> nat \<Rightarrow> bool" where
  "sw_eval bm inst \<longleftrightarrow> drop_bit (SW_BMOFF inst) (bm ! SW_BMIDX inst) AND SW_EVAL \<noteq> 0"

lemma sw_pass_bit: "sw_pass bm inst \<longleftrightarrow> bit (bm ! (inst div 32)) ((2 * inst) mod 64)"
  using and_exp_eq_0_iff_not_bit [of "drop_bit ((2 * inst) mod 64) (bm ! (inst div 32))" 0]
  by (simp add: sw_pass_def SW_PASS_def SW_BMIDX_def SW_BMOFF_def bit_simps)

lemma sw_eval_bit: "sw_eval bm inst \<longleftrightarrow> bit (bm ! (inst div 32)) ((2 * inst) mod 64 + 1)"
  using and_exp_eq_0_iff_not_bit [of "drop_bit ((2 * inst) mod 64) (bm ! (inst div 32))" 1]
  by (simp add: sw_eval_def SW_EVAL_def SW_BMIDX_def SW_BMOFF_def bit_simps)

lemma bit_exp_iff_u64: "bit (2 ^ m :: u64) k \<longleftrightarrow> m < 64 \<and> k = m"
  by (auto simp: bit_exp_iff possible_bit_word)

lemma guard_bits:
  fixes state :: u64
  assumes "even off" "off < 64"
  shows "bit (state OR push_bit off (of_bool b OR SW_EVAL)) i \<longleftrightarrow> bit state i \<or> (i div 2 = off div 2 \<and> (odd i \<or> b))"
proof -
  have "bit SW_EVAL k \<longleftrightarrow> k = 1" for k
    unfolding SW_EVAL_def using bit_exp_iff_u64 [of 1 k] unfolding power_one_right by auto
  moreover have "bit (of_bool b :: u64) k \<longleftrightarrow> k = 0 \<and> b" for k by (cases b) (auto simp: bit_1_iff)
  ultimately have "bit (of_bool b OR SW_EVAL :: u64) k \<longleftrightarrow> k = 0 \<and> b \<or> k = 1" for k
    unfolding bit_or_iff by blast
  then have "bit (push_bit off (of_bool b OR SW_EVAL) :: u64) i \<longleftrightarrow> i < 64 \<and> off \<le> i \<and> (i - off = 0 \<and> b \<or> i - off = 1)"
    by (simp only: bit_push_bit_iff possible_bit_word) auto
  then have "bit (push_bit off (of_bool b OR SW_EVAL) :: u64) i \<longleftrightarrow> i < 64 \<and> (i = off \<and> b \<or> i = off + 1)" by auto
  moreover have "i < 64 \<and> (i = off \<and> b \<or> i = off + 1) \<longleftrightarrow> i div 2 = off div 2 \<and> (odd i \<or> b)"
  proof -
    obtain c where c: "off = 2 * c" using assms(1) by blast
    have "i div 2 = c \<longleftrightarrow> i = 2 * c \<or> i = 2 * c + 1" "2 * c div 2 = c" by linarith+
    moreover have "2 * c + 1 < 64" using assms(2) c by presburger
    ultimately show ?thesis unfolding c by (metis add_lessD1 dvd_triv_left even_plus_one_iff)
  qed
  ultimately show ?thesis unfolding bit_or_iff by simp
qed

lemma block_pos_eq: "w = k \<and> b = a \<longleftrightarrow> 32 * w + a = 32 * k + b" if "a < 32" "b < 32" for a b w k :: nat
proof
  assume eq: "32 * w + a = 32 * k + b"
  then have "(32 * w + a) div 32 = (32 * k + b) div 32" by simp
  then have "w = k" using that by simp
  then show "w = k \<and> b = a" using eq by simp
qed simp

text \<open>Bit \<open>i\<close> of word \<open>k\<close> belongs to instance \<open>32 k + i / 2\<close>.\<close>

lemma checkscan_loop_bits:
  assumes "even off" "off < 64" "32 * w + off div 2 + n < 32 * length bm" "k < length bm" "i < 64"
  shows "bit (checkscan_loop ok stride bm w off state vp n ! k) i \<longleftrightarrow>
    bit (bm[w := state] ! k) i \<or>
    (32 * w + off div 2 \<le> 32 * k + i div 2 \<and> 32 * k + i div 2 \<le> 32 * w + off div 2 + n \<and>
     (odd i \<or> ok (vp + stride * of_nat (32 * k + i div 2 - (32 * w + off div 2)))))"
  using assms
proof (induction n arbitrary: bm w off state vp)
  case 0
  have "32 * w + off div 2 = 32 * k + i div 2 \<longleftrightarrow> w = k \<and> i div 2 = off div 2" using 0 by (subst block_pos_eq) auto
  moreover have "w < length bm" using 0 by linarith
  ultimately show ?case using guard_bits [OF 0(1,2), of state "ok vp" i] by (cases "w = k") (auto simp: nth_list_update)
next
  case (Suc n)
  define q where "q = 32 * k + i div 2"
  define j where "j = 32 * w + off div 2"
  define state1 where "state1 = state OR push_bit off (of_bool (ok vp) OR SW_EVAL)"
  have w: "w < length bm" using Suc.prems by linarith
  have qj: "q = j \<longleftrightarrow> w = k \<and> i div 2 = off div 2" using Suc.prems by (subst block_pos_eq) (auto simp: q_def j_def)
  have st: "bit (bm[w := state1] ! k) i \<longleftrightarrow> bit (bm[w := state] ! k) i \<or> (q = j \<and> (odd i \<or> ok vp))"
    using guard_bits [OF Suc.prems(1,2), of state "ok vp" i] w unfolding qj state1_def [symmetric] by (cases "w = k") (auto simp: nth_list_update)
  have step: "ok (vp + stride + stride * of_nat (q - (j + 1))) \<longleftrightarrow> ok (vp + stride * of_nat (q - j))" if "j < q"
  proof -
    have "of_nat (q - j) = (1 :: uptr) + of_nat (q - (j + 1))" using that by (metis Suc_diff_Suc add.commute of_nat_Suc plus_1_eq_Suc)
    then show ?thesis by (simp add: algebra_simps)
  qed
  have loop: "checkscan_loop ok stride bm w off state vp (Suc n) =
      (if (off + 2) mod 64 = 0
       then checkscan_loop ok stride (bm[w := state1]) (w + 1) 0 (bm[w := state1] ! (w + 1)) (vp + stride) n
       else checkscan_loop ok stride bm w ((off + 2) mod 64) state1 (vp + stride) n)"
    by (simp only: checkscan_loop.simps Let_def state1_def)
  have "bit (checkscan_loop ok stride bm w off state vp (Suc n) ! k) i \<longleftrightarrow>
      bit (bm[w := state1] ! k) i \<or> (j + 1 \<le> q \<and> q \<le> j + 1 + n \<and> (odd i \<or> ok (vp + stride + stride * of_nat (q - (j + 1)))))"
  proof (cases "off = 62")
    case True
    have j1: "32 * (w + 1) + 0 div 2 = j + 1" using True by (simp add: j_def)
    have "bit (checkscan_loop ok stride (bm[w := state1]) (w + 1) 0 (bm[w := state1] ! (w + 1)) (vp + stride) n ! k) i \<longleftrightarrow>
       bit (bm[w := state1] ! k) i \<or> (j + 1 \<le> q \<and> q \<le> j + 1 + n \<and>
       (odd i \<or> ok (vp + stride + stride * of_nat (q - (j + 1)))))"
      using Suc.IH [of 0 "w + 1" "bm[w := state1]" "bm[w := state1] ! (w + 1)" "vp + stride"] Suc.prems
      unfolding j1 q_def [symmetric] list_update_id by (simp add: j_def True)
    then show ?thesis unfolding loop by (simp add: True)
  next
    case False
    then have off: "off + 2 < 64" "(off + 2) div 2 = off div 2 + 1" using Suc.prems(1,2) by (auto elim!: evenE)
    then have j1: "32 * w + (off + 2) div 2 = j + 1" by (simp add: j_def)
    have "bit (checkscan_loop ok stride bm w (off + 2) state1 (vp + stride) n ! k) i \<longleftrightarrow>
       bit (bm[w := state1] ! k) i \<or> (j + 1 \<le> q \<and> q \<le> j + 1 + n \<and>
       (odd i \<or> ok (vp + stride + stride * of_nat (q - (j + 1)))))"
      using Suc.IH [of "off + 2" w bm state1 "vp + stride"] Suc.prems off(1)
      unfolding j1 q_def [symmetric] by (simp add: j_def)
    then show ?thesis unfolding loop using off(1) by simp
  qed
  then show ?case unfolding st q_def [symmetric] j_def [symmetric] using step by (auto simp: le_less)
qed

lemma S_checkscan_bits:
  assumes "inst < e" "e \<le> 32 * length bm" "k < length bm" "i < 64"
  shows "bit (S_checkscan st value g arg bm inst e ! k) i \<longleftrightarrow> bit (bm ! k) i \<or>
    (inst \<le> 32 * k + i div 2 \<and> 32 * k + i div 2 < e \<and>
     (odd i \<or> guard_ok g arg st (value + guard_stride g * of_nat (32 * k + i div 2))))"
proof -
  have j: "32 * SW_BMIDX inst + SW_BMOFF inst div 2 = inst" "even (SW_BMOFF inst)" "SW_BMOFF inst < 64"
    by (simp_all add: SW_BMIDX_def SW_BMOFF_def mult_mod_right [of 2 inst 32, simplified, symmetric])
  define q where "q = 32 * k + i div 2"
  have at: "guard_ok g arg st (value + guard_stride g * of_nat inst + guard_stride g * of_nat (q - inst)) \<longleftrightarrow> guard_ok g arg st (value + guard_stride g * of_nat q)" if "inst \<le> q"
  proof -
    have "of_nat q = (of_nat inst + of_nat (q - inst) :: uptr)" using that by (metis le_add_diff_inverse of_nat_add)
    then show ?thesis by (simp add: algebra_simps)
  qed
  have e: "e - inst - 1 + inst < 32 * length bm" "q \<le> inst + (e - inst - 1) \<longleftrightarrow> q < e" using assms(1,2) by auto
  have w: "bm[SW_BMIDX inst := bm ! SW_BMIDX inst] = bm" by simp
  show ?thesis
    using checkscan_loop_bits [of "SW_BMOFF inst" "SW_BMIDX inst" "e - inst - 1" bm k i "guard_ok g arg st" "guard_stride g"
      "bm ! SW_BMIDX inst" "value + guard_stride g * of_nat inst"] assms(3,4) j(2,3) e(1) at
    unfolding S_checkscan_def j(1) q_def [symmetric] e(2) w by (auto simp: add.commute simp del: of_nat_diff)
qed

lemma checkscan_marks:
  assumes "inst < e" "e \<le> 32 * length bm" "j < 32 * length bm"
  shows "(sw_eval (S_checkscan st value g arg bm inst e) j \<longleftrightarrow> sw_eval bm j \<or> inst \<le> j \<and> j < e) \<and>
    (sw_pass (S_checkscan st value g arg bm inst e) j \<longleftrightarrow>
      sw_pass bm j \<or> inst \<le> j \<and> j < e \<and> guard_ok g arg st (value + guard_stride g * of_nat j))"
proof (intro conjI)
  have j: "(2 * j) mod 64 = 2 * (j mod 32)" by (simp add: mult_mod_right [of 2 j 32, simplified, symmetric])
  have q: "32 * (j div 32) + 2 * (j mod 32) div 2 = j" "32 * (j div 32) + (2 * (j mod 32) + 1) div 2 = j" by simp_all
  have lt: "j div 32 < length bm" "2 * (j mod 32) < 64" "2 * (j mod 32) + 1 < 64"
    using assms(3) mod_less_divisor [of 32 j] by (simp_all add: div_less_iff_less_mult mult.commute)
  show "sw_eval (S_checkscan st value g arg bm inst e) j \<longleftrightarrow> sw_eval bm j \<or> inst \<le> j \<and> j < e"
    unfolding sw_eval_bit j S_checkscan_bits [OF assms(1,2) lt(1,3)] q by simp
  show "sw_pass (S_checkscan st value g arg bm inst e) j \<longleftrightarrow>
      sw_pass bm j \<or> inst \<le> j \<and> j < e \<and> guard_ok g arg st (value + guard_stride g * of_nat j)"
    unfolding sw_pass_bit j S_checkscan_bits [OF assms(1,2) lt(1,2)] q by simp
qed

text \<open>
  Checking the guard of a shadow over instances \<open>inst .. end - 1\<close> marks exactly those instances as evaluated
  and marks as passed exactly those whose value satisfies the guard; the marks of all other
  instances are kept, across words.
\<close>

theorem S_checkscan_marks:
  assumes "inst < e" "e \<le> 32 * length bm" "j < 32 * length bm"
  shows "(sw_eval (S_checkscan st value g arg bm inst e) j \<longleftrightarrow> sw_eval bm j \<or> inst \<le> j \<and> j < e) \<and>
    (sw_pass (S_checkscan st value g arg bm inst e) j \<longleftrightarrow>
      sw_pass bm j \<or> inst \<le> j \<and> j < e \<and> guard_ok g arg st (value + guard_stride g * of_nat j))"
  by (rule checkscan_marks [OF assms])

section \<open>Witnesses\<close>

theorem bm_cleari_clears_witness:
  "\<not> bm_isset (bm_cleari [- 1, - 1] 60 10) 65 \<and> bm_isset (bm_cleari [- 1, - 1] 60 10) 70"
proof -
  have all: "bm_isset [- 1, - 1] j" if "j < 128" for j
  proof -
    have "j div 64 = 0 \<or> j div 64 = 1" using that by auto
    then show ?thesis by (auto simp: isset_bit)
  qed
  then show ?thesis
    using bm_cleari_clears [of 10 60 "[- 1, - 1]" 65] bm_cleari_clears [of 10 60 "[- 1, - 1]" 70] by simp
qed

theorem bm_findi_find_witness: "fst (bm_findi [0, 8] 3 80) \<and> snd (bm_findi [0, 8] 3 80) = 67"
proof -
  have "find (bm_isset [0, 8]) [3 ..< 80] = Some 67" by code_simp
  then show ?thesis using bm_findi_find [of 3 80 "[0, 8]"] by (auto simp: Let_def split: if_splits)
qed

theorem S_checkscan_marks_witness:
  "sw_pass (S_checkscan (\<lambda>p. ucast p) 0 FHKC_U8_MASK64 8 [0, 0] 2 40) 3 \<and>
   \<not> sw_pass (S_checkscan (\<lambda>p. ucast p) 0 FHKC_U8_MASK64 8 [0, 0] 2 40) 33"
proof -
  have "guard_ok FHKC_U8_MASK64 8 (\<lambda>p. ucast p) (0 + guard_stride FHKC_U8_MASK64 * of_nat 3)"
    "\<not> guard_ok FHKC_U8_MASK64 8 (\<lambda>p. ucast p) (0 + guard_stride FHKC_U8_MASK64 * of_nat 33)"
    "\<not> sw_pass [0, 0] 33"
    by code_simp+
  then show ?thesis
    using S_checkscan_marks [of 2 40 "[0, 0]" 3 "\<lambda>p. ucast p" 0 FHKC_U8_MASK64 8]
      S_checkscan_marks [of 2 40 "[0, 0]" 33 "\<lambda>p. ucast p" 0 FHKC_U8_MASK64 8]
    by (simp add: of_nat_numeral)
qed

end
