(* ===== verification/Fhk_Subset.thy ===== *)
theory Fhk_Subset
  imports Fhk_Graph
begin

text \<open>
  Subsets of instances and their iterators, \<^verbatim>\<open>src/src/fhk/solve.c\<close> and \<^verbatim>\<open>src/src/fhk/fhk.h\<close>.

  A \<^verbatim>\<open>fhk_subset\<close> is one 64-bit word: the empty set, an interval, or a pointer to an array of packed 32-bit
  intervals; it is read as a signed number to tell the three apart. The array is read through a memory of
  32-bit cells, \<open>iv\<close>, a function from addresses. An instance (\<^verbatim>\<open>xinst\<close>) is a 64-bit word.

  The lists \<open>pk_insts\<close> and \<open>ss_insts\<close> are the meaning of a packed interval and of a subset: the instances it
  holds, in order. The operations are compared with these lists.
\<close>

section \<open>Representation\<close>

type_synonym fhk_subset = u64
type_synonym ssiter = u64
type_synonym xinst = u64
type_synonym ivmem = "uptr \<Rightarrow> u32"

definition SS_UNDEF :: fhk_subset where "SS_UNDEF = - 1"
definition SS_EMPTYSET :: fhk_subset where "SS_EMPTYSET = 0x00010000"
definition SS_ISEMPTY :: "fhk_subset \<Rightarrow> bool" where "SS_ISEMPTY ss \<longleftrightarrow> ss = SS_EMPTYSET"
definition SS_ISCOMPLEX :: "fhk_subset \<Rightarrow> bool" where "SS_ISCOMPLEX ss \<longleftrightarrow> sint ss > sint SS_EMPTYSET"
definition SS_ISIVAL :: "fhk_subset \<Rightarrow> bool" where "SS_ISIVAL ss \<longleftrightarrow> sint ss < 0"
definition SS_CPTR :: "fhk_subset \<Rightarrow> uptr" where "SS_CPTR ss = signed_drop_bit 16 ss"
definition SS_CIVAL :: "ivmem \<Rightarrow> fhk_subset \<Rightarrow> nat \<Rightarrow> u32" where "SS_CIVAL iv ss n = iv (SS_CPTR ss + 4 * of_nat n)"
definition SS_CNUMI :: "fhk_subset \<Rightarrow> u64" where "SS_CNUMI ss = ss AND 0xffff"
definition SS_IIVAL :: "fhk_subset \<Rightarrow> ssiter" where "SS_IIVAL ss = ss"

text \<open>\<^verbatim>\<open>SS_PKIVAL\<close> computes its first two terms in the type \<^verbatim>\<open>int\<close> of its arguments, then extends the sign.\<close>

definition SS_PKIVAL :: "u32 \<Rightarrow> u32 \<Rightarrow> fhk_subset" where
  "SS_PKIVAL i n = scast (push_bit 16 (NOT n) + i) + 0xfffffffc00020000"

text \<open>The low 16 bits of the shifted and negated word do not depend on the kind of shift.\<close>

definition PK_FIRST :: "'a::len word \<Rightarrow> 'a word" where "PK_FIRST pki = pki AND 0xffff"
definition PK_N :: "'a::len word \<Rightarrow> 'a word" where "PK_N pki = (- drop_bit 16 pki) AND 0xffff"
definition PK_N1 :: "'a::len word \<Rightarrow> 'a word" where "PK_N1 pki = (1 - drop_bit 16 pki) AND 0xffff"
definition PK_NS :: "u64 \<Rightarrow> u32" where "PK_NS pki = - signed_drop_bit 16 (ucast pki)"

definition SI_HINT_BITS :: nat where "SI_HINT_BITS = 7"
definition SI_INST :: "ssiter \<Rightarrow> u64" where "SI_INST it = it AND 0xffff"
definition SI_REM :: "ssiter \<Rightarrow> u64" where "SI_REM it = drop_bit 16 it AND 0xffff"
definition SI_MAP :: "ssiter \<Rightarrow> int" where "SI_MAP it = sint (signed_drop_bit 56 it)"
definition SI_MAP_INST :: "ssiter \<Rightarrow> u64" where "SI_MAP_INST it = drop_bit 40 it AND 0xffff"
definition SI_HINT :: "ssiter \<Rightarrow> u64" where "SI_HINT it = drop_bit 33 it AND NOT (mask SI_HINT_BITS)"
definition SI_INCR :: u64 where "SI_INCR = 0x00010001"
definition SI_NEXTMASK :: u64 where "SI_NEXTMASK = 0xffff0000"
definition SI_NEXTIMASK :: u64 where "SI_NEXTIMASK = 0x100000000"

definition SI_CFIRST :: "int \<Rightarrow> xinst \<Rightarrow> u32 \<Rightarrow> ssiter" where
  "SI_CFIRST mp inst pki = push_bit 56 (of_int mp) OR push_bit 40 inst OR ucast pki"

definition SI_CNEXT :: "ssiter \<Rightarrow> u64 \<Rightarrow> bool \<Rightarrow> u32 \<Rightarrow> ssiter" where
  "SI_CNEXT it hint lst pki = (it AND push_bit 40 (- 1)) OR push_bit 33 (hint AND mask SI_HINT_BITS) OR ucast pki"

text \<open>The macro \<^verbatim>\<open>SI_NEXT\<close>: the next iterator, or \<open>None\<close> where it leaves the loop. \<open>cnexti\<close> is \<^verbatim>\<open>si_cnexti\<close>.\<close>

definition SI_NEXT :: "(ssiter \<Rightarrow> ssiter) \<Rightarrow> ssiter \<Rightarrow> ssiter option" where
  "SI_NEXT cnexti it =
     (if it AND SI_NEXTMASK \<noteq> 0 then Some (it + SI_INCR)
      else if it AND SI_NEXTIMASK \<noteq> 0 then Some (cnexti it)
      else None)"

section \<open>Iterators\<close>

record si3 =
  si_ip :: u64
  si_inst :: xinst
  si_num :: xinst

definition si3_ss :: "ivmem \<Rightarrow> fhk_subset \<Rightarrow> si3" where
  "si3_ss iv ss =
     (let ival = (if SS_ISCOMPLEX ss then SS_CIVAL iv ss 0 else ucast (SS_IIVAL ss)) in
      \<lparr>si_ip = (if SS_ISCOMPLEX ss then ss else 0), si_inst = ucast (PK_FIRST ival), si_num = ucast (PK_N1 ival)\<rparr>)"

definition si3_complex :: "ivmem \<Rightarrow> fhk_subset \<Rightarrow> si3" where
  "si3_complex iv ss =
     (let ival = SS_CIVAL iv ss 0 in \<lparr>si_ip = ss, si_inst = ucast (PK_FIRST ival), si_num = ucast (PK_N1 ival)\<rparr>)"

definition SI3P_IINCR :: u64 where "SI3P_IINCR = 0x3ffff"

definition si3_cnexti :: "ivmem \<Rightarrow> si3 \<Rightarrow> si3" where
  "si3_cnexti iv s =
     (let p = si_ip s + SI3P_IINCR; pk = iv (drop_bit 16 p) in
      \<lparr>si_ip = p, si_inst = ucast (PK_FIRST pk), si_num = ucast (PK_N1 pk)\<rparr>)"

text \<open>The macro \<^verbatim>\<open>SI3_NEXTI\<close>.\<close>

definition SI3_NEXTI :: "ivmem \<Rightarrow> si3 \<Rightarrow> si3 option" where
  "SI3_NEXTI iv s = (if si_ip s AND 0xffff \<noteq> 0 then Some (si3_cnexti iv s) else None)"

text \<open>\<^verbatim>\<open>si_cnexti\<close> on the subset \<open>ss\<close> of the iterator. The block that holds the interval is found by binary
  search; \<open>si_search\<close> is its loop (all numbers are below \<open>2 ^ 16\<close>).\<close>

function si_search :: "ivmem \<Rightarrow> uptr \<Rightarrow> u32 \<Rightarrow> nat \<Rightarrow> nat \<Rightarrow> nat" where
  "si_search iv p prev a b =
     (if a < b
      then let i = a + (b - a) div 2; first = PK_FIRST (iv (p + 4 * of_nat ((i + 1) * 2 ^ SI_HINT_BITS - 1)))
           in if first < prev then si_search iv p prev (i + 1) b else si_search iv p prev a i
      else a)"
  by pat_completeness auto
termination
  by (relation "measure (\<lambda>(iv, p, prev, a, b). b - a)") auto

declare si_search.simps [simp del]

definition si_ivl :: "ivmem \<Rightarrow> fhk_subset \<Rightarrow> ssiter \<Rightarrow> u64" where
  "si_ivl iv ss it =
     push_bit SI_HINT_BITS (of_nat (si_search iv (SS_CPTR ss) (ucast (SI_INST it)) 0 (unat (SS_CNUMI ss) div 2 ^ SI_HINT_BITS)))
       OR SI_HINT it"

definition si_cnexti :: "ivmem \<Rightarrow> fhk_subset \<Rightarrow> ssiter \<Rightarrow> ssiter" where
  "si_cnexti iv ss it =
     (let ivl = si_ivl iv ss it in SI_CNEXT it (SI_HINT it + 1) (ivl = SS_CNUMI ss) (iv (SS_CPTR ss + 4 * ivl)))"

section \<open>Complex subsets\<close>

lemma and_ffff: "x AND 0xffff = take_bit 16 x" for x :: "'a::len word"
  using take_bit_eq_mask [of 16 x] by (simp add: mask_eq_exp_minus_1)

lemma unat_and_ffff [m2_unat]: "unat (x AND 0xffff) = unat x mod 65536" for x :: "'a::len word"
  unfolding and_ffff unsigned_take_bit_eq by (simp add: take_bit_eq_mod)

lemma si3_ip_next:
  fixes ip :: u64
  assumes "ip AND 0xffff \<noteq> 0"
  shows "unat ((ip + SI3P_IINCR) AND 0xffff) = unat (ip AND 0xffff) - 1"
proof -
  have nz: "unat ip mod 65536 \<noteq> 0" using assms unat_and_ffff [of ip] by (metis unat_eq_0)
  have "unat (ip + SI3P_IINCR) mod 65536 = (unat ip + 0x3ffff) mod 2 ^ 64 mod 65536"
    by (simp add: unat_word_ariths SI3P_IINCR_def)
  also have "\<dots> = (unat ip + 0x3ffff) mod 65536" by (rule mod_mod_cancel) simp
  also have "unat ip + 0x3ffff = (unat ip mod 65536 - 1) + 65536 * (unat ip div 65536 + 4)"
    using nz mult_div_mod_eq [of 65536 "unat ip"] by simp
  also have "\<dots> mod 65536 = unat ip mod 65536 - 1" by (subst mod_mult_self2) (simp add: less_imp_diff_less)
  finally show ?thesis by (simp add: unat_and_ffff)
qed

text \<open>\<^verbatim>\<open>si3_collect_ne\<close>; its loop ends because the low 16 bits of the iterator count down.\<close>

function si3_collect_ne :: "ivmem \<Rightarrow> (uptr \<Rightarrow> u8) \<Rightarrow> uptr \<Rightarrow> uptr \<Rightarrow> usize \<Rightarrow> si3 \<Rightarrow> uptr \<Rightarrow> u8" where
  "si3_collect_ne iv st dest src sz s =
     (let st1 = memcpy st dest (src + sz * si_inst s) (sz * si_num s); dest1 = dest + sz * si_num s in
      case SI3_NEXTI iv s of Some s1 \<Rightarrow> si3_collect_ne iv st1 dest1 src sz s1 | None \<Rightarrow> st1)"
  by pat_completeness auto
termination
  by (relation "measure (\<lambda>(iv, st, dest, src, sz, s). unat (si_ip s AND 0xffff))")
    (auto simp: SI3_NEXTI_def si3_cnexti_def si3_ip_next unat_gt_0 split: if_splits)

declare si3_collect_ne.simps [simp del]

text \<open>\<^verbatim>\<open>ss_cindexof\<close> walks the intervals until one holds \<open>inst\<close>; it has no other way out.\<close>

partial_function (option) cindexof_loop :: "ivmem \<Rightarrow> xinst \<Rightarrow> uptr \<Rightarrow> u32 \<Rightarrow> xinst option" where
  "cindexof_loop iv inst pk off =
     (let i = PK_FIRST (iv pk); n = PK_N (iv pk) in
      if inst - ucast i \<le> ucast n then Some (inst - ucast i + ucast off)
      else cindexof_loop iv inst (pk + 4) (off + (n + 1)))"

definition ss_cindexof :: "ivmem \<Rightarrow> fhk_subset \<Rightarrow> xinst \<Rightarrow> xinst option" where
  "ss_cindexof iv ss inst = cindexof_loop iv inst (SS_CPTR ss) 0"

fun csize_loop :: "ivmem \<Rightarrow> uptr \<Rightarrow> nat \<Rightarrow> u64 \<Rightarrow> u64" where
  "csize_loop iv pk num sz =
     (let size1 = sz - scast (ucast (drop_bit 16 (iv pk)) :: u16) in
      case num of 0 \<Rightarrow> size1 | Suc k \<Rightarrow> csize_loop iv (pk + 4) k size1)"

declare csize_loop.simps [simp del]

definition ss_csize :: "ivmem \<Rightarrow> fhk_subset \<Rightarrow> usize" where
  "ss_csize iv ss = csize_loop iv (SS_CPTR ss) (unat (SS_CNUMI ss)) (SS_CNUMI ss + 1)"

section \<open>Meaning\<close>

definition pk_insts :: "u32 \<Rightarrow> nat list" where
  "pk_insts pk = [unat (PK_FIRST pk) ..< unat (PK_FIRST pk) + unat (PK_N1 pk)]"

definition ss_ivals :: "ivmem \<Rightarrow> fhk_subset \<Rightarrow> u32 list" where
  "ss_ivals iv ss = map (SS_CIVAL iv ss) [0 ..< Suc (unat (SS_CNUMI ss))]"

definition ss_insts :: "ivmem \<Rightarrow> fhk_subset \<Rightarrow> nat list" where
  "ss_insts iv ss = (if SS_ISCOMPLEX ss then concat (map pk_insts (ss_ivals iv ss)) else pk_insts (ucast ss))"

section \<open>Fields as numbers\<close>

lemma uint_and_ffff: "uint (x AND 0xffff) = uint x mod 65536" for x :: "'a::len word"
  unfolding and_ffff unsigned_take_bit_eq by (simp add: take_bit_eq_mod)

lemma low16_of_int:
  assumes "16 \<le> LENGTH('a::len)"
  shows "uint ((of_int z :: 'a word) AND 0xffff) = z mod 65536"
proof -
  have "(65536 :: int) dvd 2 ^ LENGTH('a)" using assms le_imp_power_dvd [of 16 "LENGTH('a)" "2 :: int"] by simp
  then show ?thesis by (simp add: uint_and_ffff uint_word_of_int mod_mod_cancel)
qed

lemma drop16_of_int: "drop_bit 16 x = of_int (uint x div 65536)" for x :: "'a::len word"
proof -
  have "uint (drop_bit 16 x) = uint x div 65536" unfolding unsigned_drop_bit_eq
    using take_bit_int_eq_self [of "uint x" "LENGTH('a)"] uint_lt2p [of x] by (simp add: drop_bit_eq_div)
  then show ?thesis by (metis word_of_int_uint)
qed

lemma PK_N1_int:
  assumes "16 \<le> LENGTH('a::len)"
  shows "uint (PK_N1 (pk :: 'a word)) = (1 - uint pk div 65536) mod 65536"
proof -
  have "1 - drop_bit 16 pk = of_int (1 - uint pk div 65536)" by (simp add: drop16_of_int)
  then show ?thesis unfolding PK_N1_def using low16_of_int [OF assms] by metis
qed

lemma PK_N_int:
  assumes "16 \<le> LENGTH('a::len)"
  shows "uint (PK_N (pk :: 'a word)) = (- (uint pk div 65536)) mod 65536"
proof -
  have "- drop_bit 16 pk = of_int (- (uint pk div 65536))" by (simp add: drop16_of_int)
  then show ?thesis unfolding PK_N_def using low16_of_int [OF assms] by metis
qed

lemma PK_FIRST_int: "uint (PK_FIRST pk) = uint pk mod 65536"
  by (simp add: PK_FIRST_def uint_and_ffff)

lemma pk_lt [simp]:
  assumes "16 \<le> LENGTH('a::len)"
  shows "unat (PK_FIRST (pk :: 'a word)) < 65536" "unat (PK_N1 pk) < 65536" "unat (PK_N pk) < 65536"
  by (simp_all add: PK_FIRST_def PK_N1_def PK_N_def unat_and_ffff)

text \<open>The number of instances is one more than \<^verbatim>\<open>PK_N\<close>, except that the empty interval has none.\<close>

lemma PK_N1_N: "PK_N1 pk \<noteq> 0 \<Longrightarrow> unat (PK_N1 pk) = unat (PK_N pk) + 1" for pk :: u32
proof -
  define r where "r = (- (uint pk div 65536)) mod 65536"
  have r: "uint (PK_N pk) = r" "0 \<le> r" "r < 65536" using PK_N_int [of pk] by (simp_all add: r_def)
  have n1: "uint (PK_N1 pk) = (r + 1) mod 65536" using PK_N1_int [of pk] by (simp add: r_def mod_simps)
  assume "PK_N1 pk \<noteq> 0"
  then have "uint (PK_N1 pk) \<noteq> 0" by (simp only: unsigned_eq_0_iff) simp
  then have "r + 1 < 65536" using n1 r by (cases "r = 65535") auto
  then show ?thesis using n1 r by (simp add: unat_eq_nat_uint nat_add_distrib)
qed

text \<open>Reading an iterator given as a number.\<close>

lemma SI_INST_of_int: "unat (SI_INST (of_int z)) = nat (z mod 65536)"
  unfolding SI_INST_def unat_eq_nat_uint by (simp add: low16_of_int)

lemma nextmask_of_int: "(of_int z :: u64) AND SI_NEXTMASK = 0 \<longleftrightarrow> (z div 65536) mod 65536 = 0"
proof -
  have m: "SI_NEXTMASK = push_bit 16 (mask 16)" by (simp add: SI_NEXTMASK_def mask_eq_exp_minus_1)
  have "(of_int z :: u64) AND SI_NEXTMASK = 0 \<longleftrightarrow> take_bit 16 (drop_bit 16 (of_int z :: u64)) = 0"
  proof -
    have "x AND push_bit 16 (mask 16) = push_bit 16 (take_bit 16 (drop_bit 16 x))" for x :: u64
      by (rule bit_word_eqI) (auto simp: bit_simps)
    moreover have "push_bit 16 (take_bit 16 y) = 0 \<longleftrightarrow> take_bit 16 y = 0" for y :: u64
    proof
      assume "push_bit 16 (take_bit 16 y) = 0"
      then have "drop_bit 16 (push_bit 16 (take_bit 16 y)) = 0" by simp
      moreover have "drop_bit 16 (push_bit 16 (take_bit 16 y)) = take_bit 16 y" by (rule bit_word_eqI) (auto simp: bit_simps)
      ultimately show "take_bit 16 y = 0" by simp
    qed simp
    ultimately show ?thesis unfolding m by simp
  qed
  also have "\<dots> \<longleftrightarrow> uint (take_bit 16 (drop_bit 16 (of_int z :: u64))) = 0" by (simp only: unsigned_eq_0_iff)
  also have "uint (take_bit 16 (drop_bit 16 (of_int z :: u64))) = take_bit 16 (drop_bit 16 (take_bit 64 z))"
    by (simp only: unsigned_take_bit_eq unsigned_drop_bit_eq uint_word_of_int_eq) simp
  also have "\<dots> = take_bit 16 (drop_bit 16 z)" by (simp add: drop_bit_take_bit take_bit_take_bit)
  finally show ?thesis by (simp add: take_bit_eq_mod drop_bit_eq_div)
qed

lemma nextimask_of_int: "(of_int z :: u64) AND SI_NEXTIMASK = 0 \<longleftrightarrow> even (z div 4294967296)"
proof -
  have "SI_NEXTIMASK = 2 ^ 32" by (simp add: SI_NEXTIMASK_def)
  moreover have "bit (of_int z :: u64) 32 \<longleftrightarrow> bit z 32" by (simp add: bit_word_of_int_iff)
  ultimately show ?thesis using and_exp_eq_0_iff_not_bit [of "of_int z :: u64" 32] by (simp add: bit_iff_odd)
qed

section \<open>Iterating over an interval\<close>

text \<open>The loop around \<^verbatim>\<open>SI_NEXT\<close>: the instances its body sees, or \<open>None\<close> when it has not ended after \<open>fuel\<close> rounds.\<close>

fun si_visit :: "(ssiter \<Rightarrow> ssiter) \<Rightarrow> nat \<Rightarrow> ssiter \<Rightarrow> nat list option" where
  "si_visit cnexti 0 it = None"
| "si_visit cnexti (Suc fuel) it =
     (case SI_NEXT cnexti it of
        None \<Rightarrow> Some [unat (SI_INST it)]
      | Some it1 \<Rightarrow> map_option ((#) (unat (SI_INST it))) (si_visit cnexti fuel it1))"

text \<open>An iterator over \<open>n\<close> instances from \<open>i\<close>, with \<open>c\<close> in the bits from 32 on once the last instance is reached.\<close>

definition si_at :: "int \<Rightarrow> nat \<Rightarrow> nat \<Rightarrow> int" where
  "si_at c i n = int i - (int n - 1) * 65536 + c * 4294967296"

lemma si_at_inst: "i < 65536 \<Longrightarrow> unat (SI_INST (of_int (si_at c i n))) = i"
proof -
  assume i: "i < 65536"
  have "si_at c i n = int i + 65536 * (c * 65536 - (int n - 1))" by (simp add: si_at_def)
  then have "si_at c i n mod 65536 = int i" using i by (metis mod_mult_self2 mod_pos_pos_trivial of_nat_0_le_iff of_nat_less_numeral_iff)
  then show ?thesis by (simp add: SI_INST_of_int)
qed

lemma si_at_div: "i < 65536 \<Longrightarrow> si_at c i n div 65536 = c * 65536 - (int n - 1)"
  using div_mult_self2 [of 65536 "int i" "c * 65536 - (int n - 1)"] by (simp add: si_at_def algebra_simps)

lemma si_at_step:
  assumes "i + 1 < 65536" "2 \<le> n" "n \<le> 65536"
  shows "SI_NEXT cnexti (of_int (si_at c i n)) = Some (of_int (si_at c (i + 1) (n - 1)))"
proof -
  have "c * 65536 - (int n - 1) = (65537 - int n) + (c - 1) * 65536" by (simp add: algebra_simps)
  also have "\<dots> mod 65536 = (65537 - int n) mod 65536" by (rule mod_mult_self1)
  also have "\<dots> = 65537 - int n" using assms(2,3) by (intro mod_pos_pos_trivial) simp_all
  finally have "(of_int (si_at c i n) :: u64) AND SI_NEXTMASK \<noteq> 0"
    using assms by (simp add: nextmask_of_int si_at_div)
  moreover have "si_at c (i + 1) (n - 1) = si_at c i n + 65537" using assms(2) by (simp add: si_at_def of_nat_diff)
  ultimately show ?thesis by (simp add: SI_NEXT_def SI_INCR_def)
qed

lemma si_at_last:
  assumes "i < 65536"
  shows "SI_NEXT cnexti (of_int (si_at c i 1)) = (if even c then None else Some (cnexti (of_int (si_at c i 1))))"
proof -
  have "si_at c i 1 div 4294967296 = c" using assms by (simp add: si_at_def)
  then show ?thesis using assms by (simp add: SI_NEXT_def nextmask_of_int nextimask_of_int si_at_div)
qed

lemma si_visit_at:
  assumes "1 \<le> n" "i + n \<le> 65536"
  shows "si_visit cnexti (n + fuel) (of_int (si_at c i n)) =
    (if even c then Some [i ..< i + n]
     else map_option ((@) [i ..< i + n]) (si_visit cnexti fuel (cnexti (of_int (si_at c (i + n - 1) 1)))))"
  using assms
proof (induction n arbitrary: i)
  case (Suc n)
  have i: "i < 65536" using Suc.prems by simp
  show ?case
  proof (cases "n = 0")
    case True
    then show ?thesis using si_at_last [OF i, of cnexti c] si_at_inst [OF i, of c 1]
      by (cases "si_visit cnexti fuel (cnexti (of_int (si_at c i 1)))") auto
  next
    case False
    then have "SI_NEXT cnexti (of_int (si_at c i (Suc n))) = Some (of_int (si_at c (i + 1) n))"
      using si_at_step [of i "Suc n" cnexti c] Suc.prems by simp
    moreover have "[i ..< i + Suc n] = i # [i + 1 ..< i + 1 + n]" by (subst upt_rec) simp
    ultimately show ?thesis using Suc.IH [of "i + 1"] False Suc.prems si_at_inst [OF i, of c "Suc n"]
      by (cases "si_visit cnexti fuel (cnexti (of_int (si_at c (i + n) 1)))") (auto simp del: upt_Suc)
  qed
qed simp

text \<open>Packing is exact up to 32767 instances; from 32768 on the \<^verbatim>\<open>int\<close> of the macro has lost its sign.\<close>

lemma SS_PKIVAL_at:
  assumes "1 \<le> n" "n < 65535" "i + n \<le> 65536"
  shows "SS_PKIVAL (of_nat i) (of_nat n) = of_int (si_at (if n < 32768 then - 4 else - 3) i n)"
proof -
  define z where "z = int i - (int n + 1) * 65536"
  have i: "i < 65536" using assms by simp
  have "push_bit 16 (NOT (of_nat n)) + of_nat i = (of_int z :: u32)"
    by (simp add: z_def push_bit_eq_mult not_eq_complement algebra_simps)
  moreover have "sint (of_int z :: u32) = (if n < 32768 then z else z + 4294967296)"
  proof -
    have "sint (of_int z :: u32) = (z + 2147483648) mod 4294967296 - 2147483648"
      by (simp add: sint_sbintrunc' signed_take_bit_eq_take_bit_shift take_bit_eq_mod)
    moreover have "(z + 2147483648) mod 4294967296 = z + 2147483648" if "n < 32768"
      using that i assms(1) by (intro mod_pos_pos_trivial) (simp_all add: z_def)
    moreover have "(z + 2147483648) mod 4294967296 = z + 2147483648 + 4294967296" if "\<not> n < 32768"
    proof -
      have "(z + 2147483648 + 4294967296) mod 4294967296 = z + 2147483648 + 4294967296"
        using that i assms by (intro mod_pos_pos_trivial) (simp_all add: z_def)
      then show ?thesis by (simp only: mod_add_self2)
    qed
    ultimately show ?thesis by simp
  qed
  ultimately have "SS_PKIVAL (of_nat i) (of_nat n) = of_int ((if n < 32768 then z else z + 4294967296) + 0xfffffffc00020000)"
    by (simp add: SS_PKIVAL_def scast_eq)
  moreover have "(if n < 32768 then z else z + 4294967296) + 0xfffffffc00020000 =
      si_at (if n < 32768 then - 4 else - 3) i n + 2 ^ 64"
    by (simp add: z_def si_at_def)
  ultimately show ?thesis by simp
qed

lemma pkival_unpack:
  assumes "1 \<le> n" "n < 65535" "i + n \<le> 65536"
  defines "ss \<equiv> SS_PKIVAL (of_nat i) (of_nat n)"
  shows "unat (PK_FIRST ss) = i \<and> unat (PK_N1 ss) = n \<and> SS_ISIVAL ss \<and> ss \<noteq> SS_UNDEF"
proof -
  define c where "c = (if n < 32768 then - 4 else - 3 :: int)"
  have ss: "ss = of_int (si_at c i n)" using SS_PKIVAL_at assms(1-3) by (simp add: ss_def c_def)
  have i: "i < 65536" using assms by simp
  have first: "unat (PK_FIRST ss) = i" using si_at_inst [OF i, of c n] by (simp add: ss PK_FIRST_def SI_INST_def)
  define z where "z = si_at c i n + 2 ^ 64"
  have z: "- (2 ^ 63) \<le> si_at c i n" "si_at c i n < 0" using assms(1-3) by (simp_all add: si_at_def c_def)
  have u: "uint ss = z" 
  proof -
    have "uint ss = (si_at c i n + 2 ^ 64) mod 2 ^ 64" unfolding ss by (simp add: uint_word_of_int)
    also have "\<dots> = z" unfolding z_def using z by (intro mod_pos_pos_trivial) simp_all
    finally show ?thesis .
  qed
  have s: "sint ss = si_at c i n" unfolding ss using z by (simp add: sint_sbintrunc' signed_take_bit_int_eq_self)
  have "z div 65536 = c * 65536 - (int n - 1) + 2 ^ 48" using si_at_div [OF i, of c n] by (simp add: z_def)
  then have "1 - z div 65536 = int n + (- c - 2 ^ 32) * 65536" by simp
  then have "(1 - z div 65536) mod 65536 = int n mod 65536" by (metis mod_mult_self1)
  then have "uint (PK_N1 ss) = int n mod 65536" using PK_N1_int [of ss] u by simp
  then have "unat (PK_N1 ss) = n" using assms(2) by (simp add: unat_eq_nat_uint)
  moreover have "ss \<noteq> SS_UNDEF"
  proof
    assume "ss = SS_UNDEF"
    then have "sint ss = - 1" by (simp add: SS_UNDEF_def)
    then show False using s assms(1-3) by (simp add: si_at_def c_def split: if_splits)
  qed
  ultimately show ?thesis using first s z by (simp add: SS_ISIVAL_def)
qed

text \<open>
  A packed interval unpacks to what was packed: its first instance and its size, for every size a shape
  may have, and it is an interval (neither empty, nor complex, nor undefined).
\<close>

theorem SS_PKIVAL_roundtrip:
  assumes "1 \<le> n" "n < 65535" "i + n \<le> 65536"
  defines "ss \<equiv> SS_PKIVAL (of_nat i) (of_nat n)"
  shows "unat (PK_FIRST ss) = i \<and> unat (PK_N1 ss) = n \<and> SS_ISIVAL ss \<and> ss \<noteq> SS_UNDEF"
  using pkival_unpack assms by simp

text \<open>
  Iterating over a packed interval of at most 32767 instances visits its instances in order and ends,
  and it never asks for another interval.
\<close>

theorem interval_iteration:
  assumes "1 \<le> n" "n < 32768" "i + n \<le> 65536" "n \<le> fuel"
  shows "si_visit cnexti fuel (SS_IIVAL (SS_PKIVAL (of_nat i) (of_nat n))) = Some [i ..< i + n]"
  using si_visit_at [of n i cnexti "fuel - n" "- 4"] SS_PKIVAL_at [of n i] assms by (simp add: SS_IIVAL_def)

text \<open>
  C39. From 32768 instances on, which \<^verbatim>\<open>fhkS_setshape\<close> accepts, the iteration does not end with the last instance:
  the marker bit of the packed word is set and the loop goes on with the interval \<^verbatim>\<open>si_cnexti\<close>
  makes up for a mapping that the word does not name.
\<close>

theorem large_interval_runs_on:
  assumes "32768 \<le> n" "n < 65535" "i + n \<le> 65536"
  shows "si_visit cnexti (n + fuel) (SS_IIVAL (SS_PKIVAL (of_nat i) (of_nat n))) =
    map_option ((@) [i ..< i + n]) (si_visit cnexti fuel (cnexti (of_int (int (i + n - 1) - 3 * 4294967296))))"
proof -
  have "si_at (- 3) (i + n - 1) 1 = int (i + n - 1) - 3 * 4294967296" by (simp add: si_at_def)
  then show ?thesis using si_visit_at [of n i cnexti fuel "- 3"] SS_PKIVAL_at [of n i] assms
    by (simp add: SS_IIVAL_def)
qed

text \<open>
  C40. The next interval of a complex iterator is read outside the array of intervals, whatever the subset, for
  every mapping except number 0: the mask in \<^verbatim>\<open>SI_HINT\<close> keeps the mapping and drops the hint.
\<close>

theorem complex_next_out_of_range:
  assumes "SI_MAP it \<noteq> 0"
  shows "SS_CNUMI ss < si_ivl iv ss it"
proof -
  have "signed_drop_bit 56 it \<noteq> 0" using assms by (auto simp: SI_MAP_def)
  then obtain k where "bit it k" "56 \<le> k"
    by (auto simp: bit_eq_iff bit_signed_drop_bit_iff split: if_splits)
  then have "bit (si_ivl iv ss it) (k - 33)" 
    by (auto simp: si_ivl_def SI_HINT_def SI_HINT_BITS_def bit_simps dest: bit_imp_le_length)
  moreover have "23 \<le> k - 33" using \<open>56 \<le> k\<close> by simp
  ultimately have "2 ^ 23 \<le> uint (si_ivl iv ss it)"
  proof (rule_tac ccontr)
    assume *: "bit (si_ivl iv ss it) (k - 33)" "23 \<le> k - 33" "\<not> 2 ^ 23 \<le> uint (si_ivl iv ss it)"
    then have "take_bit 23 (si_ivl iv ss it) = si_ivl iv ss it"
      by (simp add: word_uint_eq_iff unsigned_take_bit_eq take_bit_int_eq_self)
    then show False using * by (metis bit_take_bit_iff not_le)
  qed
  moreover have "uint (SS_CNUMI ss) < 65536" by (simp add: SS_CNUMI_def uint_and_ffff)
  ultimately show ?thesis by (simp add: word_less_def)
qed

theorem SS_PKIVAL_roundtrip_witness: "unat (PK_N1 (SS_PKIVAL 0 40000)) = 40000"
  using SS_PKIVAL_roundtrip [of 40000 0] by simp

theorem interval_iteration_witness: "si_visit id 3 (SS_IIVAL (SS_PKIVAL 5 3)) = Some [5, 6, 7]"
  using interval_iteration [of 3 5 3 id] by (simp add: upt_rec)

theorem large_interval_runs_on_witness:
  "si_visit id (40000 + 0) (SS_IIVAL (SS_PKIVAL 0 40000)) = None"
  using large_interval_runs_on [of 40000 0 id 0] by simp

theorem complex_next_out_of_range_witness:
  "SS_CNUMI 0x10003 < si_ivl (\<lambda>_. 0) 0x10003 (SI_CFIRST 2 0 0xffff0001)"
proof -
  have "SI_MAP (SI_CFIRST 2 0 0xffff0001) = 2" by code_simp
  then show ?thesis by (intro complex_next_out_of_range) simp
qed

section \<open>Walking the intervals of a complex subset\<close>

definition pk_ok :: "u32 \<Rightarrow> bool" where
  "pk_ok pk \<longleftrightarrow> PK_N1 pk \<noteq> 0 \<and> unat (PK_FIRST pk) + unat (PK_N1 pk) \<le> 65536"

text \<open>What \<^verbatim>\<open>fhk.h\<close> asks of a complex subset: its intervals are not empty, sorted and distinct.\<close>

definition complex_ok :: "ivmem \<Rightarrow> fhk_subset \<Rightarrow> bool" where
  "complex_ok iv ss \<longleftrightarrow> SS_ISCOMPLEX ss \<and> list_all pk_ok (ss_ivals iv ss) \<and> sorted (ss_insts iv ss) \<and> distinct (ss_insts iv ss)"

text \<open>The memory holds the intervals \<open>pks\<close> from \<open>p\<close> on.\<close>

fun cells :: "ivmem \<Rightarrow> uptr \<Rightarrow> u32 list \<Rightarrow> bool" where
  "cells iv p [] \<longleftrightarrow> True"
| "cells iv p (pk # pks) \<longleftrightarrow> iv p = pk \<and> cells iv (p + 4) pks"

lemma cells_map: "cells iv (p + 4 * of_nat m) (map (\<lambda>k. iv (p + 4 * of_nat k)) [m ..< m + n])"
proof (induction n arbitrary: m)
  case (Suc n)
  have "[m ..< m + Suc n] = m # [Suc m ..< Suc m + n]" by (subst upt_rec) simp
  then show ?case using Suc.IH [of "Suc m"] by (simp add: algebra_simps del: upt_Suc)
qed simp

lemma cells_ivals: "cells iv (SS_CPTR ss) (ss_ivals iv ss)"
  using cells_map [of iv "SS_CPTR ss" 0 "Suc (unat (SS_CNUMI ss))"] by (simp add: ss_ivals_def SS_CIVAL_def [abs_def] del: upt_Suc)

lemma unat_ucast_u32 [simp]: "unat (ucast (x :: u32) :: u64) = unat x" by (rule unat_ucast_32_64)

lemma length_pk_insts [simp]: "length (pk_insts pk) = unat (PK_N1 pk)"
  by (simp add: pk_insts_def)

lemma nth_pk_insts [simp]: "q < unat (PK_N1 pk) \<Longrightarrow> pk_insts pk ! q = unat (PK_FIRST pk) + q"
  by (simp add: pk_insts_def)

lemma mem_pk_insts: "pk_ok pk \<Longrightarrow> unat (inst :: xinst) \<in> set (pk_insts pk) \<longleftrightarrow> inst - ucast (PK_FIRST pk) \<le> ucast (PK_N pk)"
proof -
  assume ok: "pk_ok pk"
  then have n: "unat (PK_N1 pk) = unat (PK_N pk) + 1" by (simp add: pk_ok_def PK_N1_N)
  have f: "unat (PK_FIRST pk) < 65536" "unat (PK_N pk) < 65536" by simp_all
  have "inst - ucast (PK_FIRST pk) \<le> ucast (PK_N pk) \<longleftrightarrow> unat (inst - ucast (PK_FIRST pk)) \<le> unat (PK_N pk)"
    by (simp add: word_le_nat_alt)
  also have "\<dots> \<longleftrightarrow> unat (PK_FIRST pk) \<le> unat inst \<and> unat inst \<le> unat (PK_FIRST pk) + unat (PK_N pk)"
    using f unat_lt64 [of inst] by (auto simp: unat_sub_if' simp del: pk_lt)
  finally show ?thesis using n by (auto simp: pk_insts_def)
qed

lemma cindexof_finds:
  assumes "cells iv p pks" "list_all pk_ok pks" "unat inst \<in> set (concat (map pk_insts pks))"
    "unat off + length (concat (map pk_insts pks)) \<le> 65536"
  shows "\<exists>q. q < length (concat (map pk_insts pks)) \<and> concat (map pk_insts pks) ! q = unat inst \<and>
    cindexof_loop iv inst p off = Some (of_nat (unat off + q))"
  using assms
proof (induction pks arbitrary: p off)
  case (Cons pk pks)
  have pk: "iv p = pk" "pk_ok pk" using Cons.prems by simp_all
  have n: "unat (PK_N1 pk) = unat (PK_N pk) + 1" using pk by (simp add: pk_ok_def PK_N1_N)
  show ?case
  proof (cases "unat inst \<in> set (pk_insts pk)")
    case True
    then have le: "unat (PK_FIRST pk) \<le> unat inst" "unat inst - unat (PK_FIRST pk) < unat (PK_N1 pk)"
      by (auto simp: pk_insts_def)
    have "inst - ucast (PK_FIRST pk) + ucast off = of_nat (unat off + (unat inst - unat (PK_FIRST pk)))"
      using le(1) by (simp add: of_nat_diff unat_ucast_u32 flip: unat_ucast_32_64)
    then have "cindexof_loop iv inst p off = Some (of_nat (unat off + (unat inst - unat (PK_FIRST pk))))"
      using True mem_pk_insts [OF pk(2), of inst] pk(1) by (subst cindexof_loop.simps) simp
    then show ?thesis using le by (intro exI [of _ "unat inst - unat (PK_FIRST pk)"]) (simp add: nth_append)
  next
    case False
    have off: "unat (off + (PK_N pk + 1)) = unat off + unat (PK_N1 pk)"
      using Cons.prems(4) n by (simp add: unat_word_ariths)
    have "cindexof_loop iv inst p off = cindexof_loop iv inst (p + 4) (off + (PK_N pk + 1))"
      using False mem_pk_insts [OF pk(2), of inst] pk(1) by (subst cindexof_loop.simps) simp
    moreover obtain q where "q < length (concat (map pk_insts pks))" "concat (map pk_insts pks) ! q = unat inst"
      "cindexof_loop iv inst (p + 4) (off + (PK_N pk + 1)) = Some (of_nat (unat (off + (PK_N pk + 1)) + q))"
      using Cons.IH [of "p + 4" "off + (PK_N pk + 1)"] Cons.prems False off by auto
    ultimately show ?thesis unfolding off by (intro exI [of _ "unat (PK_N1 pk) + q"]) (simp add: nth_append add.assoc)
  qed
qed simp

text \<open>The cast to \<^verbatim>\<open>int16_t\<close> is right up to 32769 instances; above, it is off by \<open>2 ^ 16\<close>.\<close>

definition pk_large :: "u32 \<Rightarrow> bool" where
  "pk_large pk \<longleftrightarrow> 32769 < unat (PK_N1 pk)"

lemma csize_step:
  fixes pk :: u32
  assumes "1 \<le> unat (PK_N1 pk)"
  shows "scast (ucast (drop_bit 16 pk) :: u16) = (1 - of_nat (unat (PK_N1 pk)) + 65536 * of_bool (pk_large pk) :: u64)"
proof -
  define h n where "h = uint pk div 65536" and "n = uint (PK_N1 pk)"
  have h: "0 \<le> h" "h < 65536" using uint_lt2p [of pk] by (simp_all add: h_def pos_imp_zdiv_nonneg_iff)
  have ni: "n = int (unat (PK_N1 pk))" by (simp add: n_def)
  then have "1 \<le> n" using assms by linarith
  moreover have "n = (1 - h) mod 65536" using PK_N1_int [of pk] by (simp add: n_def h_def)
  moreover have "(1 - h) mod 65536 = 65537 - h" if "1 < h"
  proof -
    have "(65537 - h) mod 65536 = 65537 - h" using that h by (intro mod_pos_pos_trivial) simp_all
    then show ?thesis using mod_add_self2 [of "1 - h" 65536] by simp
  qed
  moreover have "h = 0 \<or> h = 1 \<or> 1 < h" using h by linarith
  ultimately have n: "h = 0 \<and> n = 1 \<or> 1 < h \<and> n = 65537 - h" by auto
  have "uint (drop_bit 16 pk) = h" using h unfolding drop16_of_int h_def [symmetric] by (simp add: uint_word_of_int)
  then have cast: "ucast (drop_bit 16 pk) = (of_int h :: u16)" by (simp only: ucast_eq)
  have "sint (of_int h :: u16) = (h + 32768) mod 65536 - 32768"
    by (simp add: sint_sbintrunc' signed_take_bit_eq_take_bit_shift take_bit_eq_mod)
  also have "\<dots> = (if h < 32768 then h else h - 65536)"
  proof (cases "h < 32768")
    case False
    then have "(h + 32768 - 65536) mod 65536 = h + 32768 - 65536" using h by (intro mod_pos_pos_trivial) auto
    moreover have "(h + 32768) mod 65536 = (h + 32768 - 65536) mod 65536" using mod_diff_right_eq [of "h + 32768" 65536 65536] by simp
    ultimately show ?thesis using False by simp
  qed (use h in simp)
  also have "\<dots> = 1 - n + 65536 * of_bool (pk_large pk)"
  proof -
    have "pk_large pk \<longleftrightarrow> 32769 < n" unfolding pk_large_def ni by linarith
    then show ?thesis using n by auto
  qed
  finally have "scast (ucast (drop_bit 16 pk) :: u16) = (of_int (1 - n + 65536 * of_bool (pk_large pk)) :: u64)"
    unfolding cast by (simp only: scast_eq)
  then show ?thesis by (simp add: n_def)
qed

lemma csize_loop_sum:
  assumes "cells iv p pks" "pks \<noteq> []" "list_all pk_ok pks"
  shows "csize_loop iv p (length pks - 1) sz + of_nat (length pks) =
    sz + of_nat (length (concat (map pk_insts pks))) - 65536 * of_nat (length (filter pk_large pks))"
  using assms
proof (induction pks arbitrary: p sz)
  case (Cons pk pks)
  define sz1 where "sz1 = sz - (1 - of_nat (unat (PK_N1 pk)) + 65536 * of_bool (pk_large pk))"
  have "1 \<le> unat (PK_N1 pk)" using Cons.prems by (simp add: pk_ok_def PK_N1_N)
  then have step: "csize_loop iv p (length pks) sz = (case length pks of 0 \<Rightarrow> sz1 | Suc k \<Rightarrow> csize_loop iv (p + 4) k sz1)"
    using Cons.prems csize_step [of pk] by (subst csize_loop.simps) (simp add: sz1_def split: nat.splits)
  show ?case
  proof (cases "pks = []")
    case True
    then show ?thesis using step by (simp add: sz1_def)
  next
    case False
    then obtain k where k: "length pks = Suc k" by (cases pks) auto
    have "csize_loop iv (p + 4) (length pks - 1) sz1 + of_nat (length pks) =
        sz1 + of_nat (length (concat (map pk_insts pks))) - 65536 * of_nat (length (filter pk_large pks))"
      using Cons.IH [of "p + 4" sz1] Cons.prems False by simp
    then have "csize_loop iv (p + 4) k sz1 =
        sz1 + of_nat (length (concat (map pk_insts pks))) - 65536 * of_nat (length (filter pk_large pks)) - of_nat (length pks)"
      using k by (simp add: eq_diff_eq)
    then show ?thesis using step k by (cases "pk_large pk") (simp_all add: sz1_def algebra_simps)
  qed
qed simp

lemma unat_drop16: "unat (drop_bit 16 x) = unat x div 65536" for x :: u64
  unfolding unsigned_drop_bit_eq using unat_lt64 [of x] by (simp add: drop_bit_eq_div take_bit_nat_eq_self)

lemma of_nat_unat_id: "of_nat (unat x) = x" for x :: "'a::len word"
  by simp

text \<open>The unpacked iterator at interval \<open>k\<close>.\<close>

definition si3_at :: "ivmem \<Rightarrow> fhk_subset \<Rightarrow> nat \<Rightarrow> si3" where
  "si3_at iv ss k = \<lparr>si_ip = ss + of_nat k * SI3P_IINCR, si_inst = ucast (PK_FIRST (SS_CIVAL iv ss k)),
     si_num = ucast (PK_N1 (SS_CIVAL iv ss k))\<rparr>"

lemma complex_unat:
  assumes "SS_ISCOMPLEX ss"
  shows "unat ss < 2 ^ 63" "SS_CPTR ss = drop_bit 16 ss"
proof -
  have "0 \<le> sint ss" using assms by (simp add: SS_ISCOMPLEX_def SS_EMPTYSET_def)
  then have nb: "\<not> bit ss 63"
    using signed_take_bit_negative_iff [of 63 "uint ss"] by (simp add: sint_uint bit_uint_iff)
  show "SS_CPTR ss = drop_bit 16 ss"
    unfolding SS_CPTR_def by (rule bit_word_eqI) (use nb in \<open>auto simp: bit_simps dest: bit_imp_le_length\<close>)
  have "n < 63" if "bit ss n" for n
  proof -
    have "n < 64" "n \<noteq> 63" using that nb bit_imp_le_length [of ss n] by auto
    then show ?thesis by simp
  qed
  then have "take_bit 63 ss = ss" by (intro bit_word_eqI) (auto simp: bit_simps)
  then have "unat ss = take_bit 63 (unat ss)" by (metis unsigned_take_bit_eq)
  then show "unat ss < 2 ^ 63" by (metis take_bit_nat_less_exp)
qed

lemma si3_at_next:
  assumes "SS_ISCOMPLEX ss" "k \<le> unat (SS_CNUMI ss)"
  shows "SI3_NEXTI iv (si3_at iv ss k) = (if k < unat (SS_CNUMI ss) then Some (si3_at iv ss (k + 1)) else None)"
proof -
  let ?n = "unat (SS_CNUMI ss)" and ?p = "unat ss div 65536"
  have n: "?n = unat ss mod 65536" by (simp add: SS_CNUMI_def unat_and_ffff)
  have ss: "unat ss = 65536 * ?p + ?n" using mult_div_mod_eq [of 65536 "unat ss"] n by simp
  have ip: "unat (ss + of_nat j * SI3P_IINCR) = (?n - j) + 65536 * (?p + 4 * j)" if "j \<le> ?n" for j
  proof -
    have "j < 65536" using that n by simp
    then have "unat ss + j * 0x3ffff < 2 ^ 64" using complex_unat(1) [OF assms(1)] by simp
    moreover have "ss + of_nat j * SI3P_IINCR = of_nat (unat ss + j * 0x3ffff)" by (simp add: SI3P_IINCR_def)
    ultimately have "unat (ss + of_nat j * SI3P_IINCR) = unat ss + j * 0x3ffff" using unat_of_nat_small [of "unat ss + j * 0x3ffff", where 'a=64] by simp
    then show ?thesis using ss that by simp
  qed
  have low: "unat ((ss + of_nat k * SI3P_IINCR) AND 0xffff) = ?n - k"
    unfolding unat_and_ffff ip [OF assms(2)] using n by (subst mod_mult_self2) (simp add: less_imp_diff_less)
  show ?thesis
  proof (cases "k < ?n")
    case True
    have "(ss + of_nat k * SI3P_IINCR) AND 0xffff \<noteq> 0" using low True by (metis unat_eq_0 diff_is_0_eq not_le)
    moreover have k1: "k + 1 \<le> ?n" using True by simp
    then have "drop_bit 16 (ss + of_nat (k + 1) * SI3P_IINCR) = SS_CPTR ss + 4 * of_nat (k + 1)"
    proof -
      have "unat (drop_bit 16 (ss + of_nat (k + 1) * SI3P_IINCR)) = ?p + 4 * (k + 1)"
        unfolding unat_drop16 ip [OF k1] using n by (subst div_mult_self2) (simp_all add: less_imp_diff_less)
      then have "drop_bit 16 (ss + of_nat (k + 1) * SI3P_IINCR) = of_nat (?p + 4 * (k + 1))" by (metis of_nat_unat_id)
      moreover have "SS_CPTR ss = of_nat ?p" using complex_unat(2) [OF assms(1)] unat_drop16 [of ss] by (metis of_nat_unat_id)
      ultimately show ?thesis by (simp add: algebra_simps)
    qed
    ultimately show ?thesis using True
      by (simp add: SI3_NEXTI_def si3_at_def si3_cnexti_def SS_CIVAL_def algebra_simps)
  next
    case False
    then have "(ss + of_nat k * SI3P_IINCR) AND 0xffff = 0" using low by (metis diff_is_0_eq' not_le unat_eq_0 less_imp_le_nat)
    then show ?thesis using False by (simp add: SI3_NEXTI_def si3_at_def)
  qed
qed

text \<open>Collecting the intervals of a list, one after the other.\<close>

fun collect_ivs :: "(uptr \<Rightarrow> u8) \<Rightarrow> uptr \<Rightarrow> uptr \<Rightarrow> usize \<Rightarrow> u32 list \<Rightarrow> uptr \<Rightarrow> u8" where
  "collect_ivs st dest src sz [] = st"
| "collect_ivs st dest src sz (pk # pks) =
     collect_ivs (memcpy st dest (src + sz * ucast (PK_FIRST pk)) (sz * ucast (PK_N1 pk))) (dest + sz * ucast (PK_N1 pk)) src sz pks"

lemma collect_at:
  assumes "SS_ISCOMPLEX ss" "k \<le> unat (SS_CNUMI ss)"
  shows "si3_collect_ne iv st dest src sz (si3_at iv ss k) = collect_ivs st dest src sz (drop k (ss_ivals iv ss))"
  using assms(2)
proof (induction "unat (SS_CNUMI ss) - k" arbitrary: k st dest)
  case 0
  then have "drop k (ss_ivals iv ss) = [SS_CIVAL iv ss k]" by (simp add: ss_ivals_def drop_map)
  moreover have "SI3_NEXTI iv (si3_at iv ss k) = None" using si3_at_next [OF assms(1) 0(2)] 0 by simp
  ultimately show ?case by (subst si3_collect_ne.simps) (simp add: si3_at_def)
next
  case (Suc m)
  then have k: "k < unat (SS_CNUMI ss)" by simp
  then have "drop k (ss_ivals iv ss) = SS_CIVAL iv ss k # drop (k + 1) (ss_ivals iv ss)"
    by (subst Cons_nth_drop_Suc [symmetric]) (simp_all add: ss_ivals_def del: upt_Suc)
  moreover have "SI3_NEXTI iv (si3_at iv ss k) = Some (si3_at iv ss (k + 1))" using si3_at_next [OF assms(1) Suc.prems] k by simp
  moreover have "si3_collect_ne iv st1 dest1 src sz (si3_at iv ss (k + 1)) = collect_ivs st1 dest1 src sz (drop (k + 1) (ss_ivals iv ss))"
    for st1 dest1 by (rule Suc.hyps) (use Suc.hyps(2) k in auto)
  ultimately show ?case by (subst si3_collect_ne.simps) (simp add: si3_at_def)
qed

lemma si3_complex_at: "si3_complex iv ss = si3_at iv ss 0"
  by (simp add: si3_complex_def si3_at_def)

lemma collect_complex:
  "SS_ISCOMPLEX ss \<Longrightarrow> si3_collect_ne iv st dest src sz (si3_complex iv ss) = collect_ivs st dest src sz (ss_ivals iv ss)"
  using collect_at [of ss 0 iv st dest src sz] by (simp add: si3_complex_at)

text \<open>The bytes outside the destination are kept; slot \<open>q\<close> of the destination receives the value of the \<open>q\<close>th instance.\<close>

abbreviation insts_of :: "u32 list \<Rightarrow> nat list" where
  "insts_of pks \<equiv> concat (map pk_insts pks)"

lemma insts_lt: "list_all pk_ok pks \<Longrightarrow> i \<in> set (insts_of pks) \<Longrightarrow> i < 65536"
  by (induction pks) (auto simp: pk_ok_def pk_insts_def)

lemma slot_less:
  fixes q :: nat
  assumes "b < sz" "q < m"
  shows "sz * q + b < sz * m"
proof -
  have "sz * q + b < sz * Suc q" using assms(1) by simp
  also have "\<dots> \<le> sz * m" using assms(2) by (intro mult_le_mono2) simp
  finally show ?thesis .
qed

lemma collect_split:
  fixes dest sz :: u64
  assumes "unat dest + unat sz * length (insts_of (pk # pks)) < 2 ^ 64"
  shows "unat (sz * ucast (PK_N1 pk)) = unat sz * unat (PK_N1 pk)"
    "unat (dest + sz * ucast (PK_N1 pk)) = unat dest + unat sz * unat (PK_N1 pk)"
    "unat sz * length (insts_of (pk # pks)) = unat sz * unat (PK_N1 pk) + unat sz * length (insts_of pks)"
proof -
  show l: "unat sz * length (insts_of (pk # pks)) = unat sz * unat (PK_N1 pk) + unat sz * length (insts_of pks)"
    by (simp add: algebra_simps)
  have lt: "unat sz * unat (PK_N1 pk) < 2 ^ 64" using assms unfolding l by linarith
  then show n: "unat (sz * ucast (PK_N1 pk)) = unat sz * unat (PK_N1 pk)" using unat_mult_small [of sz "ucast (PK_N1 pk)"] by simp
  then show "unat (dest + sz * ucast (PK_N1 pk)) = unat dest + unat sz * unat (PK_N1 pk)"
    using assms unfolding l by (subst unat_add64) simp_all
qed

lemma collect_outside:
  assumes "unat dest + unat sz * length (insts_of pks) < 2 ^ 64"
    "\<not> (unat dest \<le> unat a \<and> unat a < unat dest + unat sz * length (insts_of pks))"
  shows "collect_ivs st dest src sz pks a = st a"
  using assms
proof (induction pks arbitrary: st dest)
  case (Cons pk pks)
  note sp = collect_split [OF Cons.prems(1)]
  let ?st = "memcpy st dest (src + sz * ucast (PK_FIRST pk)) (sz * ucast (PK_N1 pk))"
  have "collect_ivs ?st (dest + sz * ucast (PK_N1 pk)) src sz pks a = ?st a"
    by (rule Cons.IH; unfold sp(2)) (use Cons.prems in \<open>unfold sp(3), linarith+\<close>)
  also have "?st a = st a"
    by (subst memcpy_at; unfold sp(1)) (use Cons.prems in \<open>unfold sp(3), auto\<close>)
  finally show ?case by simp
qed simp

lemma collect_inside:
  assumes "unat dest + unat sz * length (insts_of pks) < 2 ^ 64" "unat src + unat sz * 65536 \<le> 2 ^ 64"
    "unat dest + unat sz * length (insts_of pks) \<le> unat src \<or> unat src + unat sz * 65536 \<le> unat dest"
    "list_all pk_ok pks" "q < length (insts_of pks)" "b < unat sz"
  shows "collect_ivs st dest src sz pks (dest + of_nat (unat sz * q + b)) = st (src + of_nat (unat sz * (insts_of pks ! q) + b))"
  using assms
proof (induction pks arbitrary: st dest q)
  case (Cons pk pks)
  note sp = collect_split [OF Cons.prems(1)]
  let ?n = "unat (PK_N1 pk)"
  let ?st = "memcpy st dest (src + sz * ucast (PK_FIRST pk)) (sz * ucast (PK_N1 pk))"
  let ?dest = "dest + sz * ucast (PK_N1 pk)"
  have ok: "unat (PK_FIRST pk) + ?n \<le> 65536" using Cons.prems(4) by (simp add: pk_ok_def)
  have slot: "unat sz * q + b < unat sz * m" if "q < m" for m by (rule slot_less [OF Cons.prems(6) that])
  show ?case
  proof (cases "q < ?n")
    case True
    let ?a = "dest + of_nat (unat sz * q + b)"
    have off: "unat (of_nat (unat sz * q + b) :: u64) = unat sz * q + b" "unat ?a = unat dest + (unat sz * q + b)"
    proof -
      have lt: "unat dest + (unat sz * q + b) < 2 ^ 64" using slot [OF True] Cons.prems(1) unfolding sp(3) by linarith
      then show o: "unat (of_nat (unat sz * q + b) :: u64) = unat sz * q + b" by (intro unat_of_nat_small) simp
      show "unat ?a = unat dest + (unat sz * q + b)" using lt o by (subst unat_add64) simp_all
    qed
    have "collect_ivs ?st ?dest src sz pks ?a = ?st ?a"
      by (rule collect_outside; unfold sp(2) off(2)) (use Cons.prems(1) slot [OF True] in \<open>unfold sp(3), linarith+\<close>)
    also have "?st ?a = st (src + sz * ucast (PK_FIRST pk) + of_nat (unat sz * q + b))"
      by (subst memcpy_at; unfold sp(1) off(2)) (use Cons.prems(1) slot [OF True] in \<open>unfold sp(3), auto\<close>)
    also have "src + sz * ucast (PK_FIRST pk) + of_nat (unat sz * q + b) = src + of_nat (unat sz * (unat (PK_FIRST pk) + q) + b)"
      by (simp add: algebra_simps)
    finally show ?thesis using True by (simp add: nth_append)
  next
    case False
    define r where "r = q - ?n"
    have q: "q = ?n + r" using False by (simp add: r_def)
    have r: "r < length (insts_of pks)" using Cons.prems(5) q by simp
    have "collect_ivs ?st ?dest src sz pks (?dest + of_nat (unat sz * r + b)) = ?st (src + of_nat (unat sz * (insts_of pks ! r) + b))"
      by (rule Cons.IH; (unfold sp(2))?) (use Cons.prems r in \<open>(unfold sp(3))?, simp_all?, linarith?\<close>)
    also have "?st (src + of_nat (unat sz * (insts_of pks ! r) + b)) = st (src + of_nat (unat sz * (insts_of pks ! r) + b))"
    proof -
      let ?o = "unat sz * (insts_of pks ! r) + b"
      have "insts_of pks ! r < 65536" using insts_lt [OF _ nth_mem [OF r]] Cons.prems(4) by simp
      then have lt: "?o < unat sz * 65536" by (rule slot_less [OF Cons.prems(6)])
      then have o: "unat (of_nat ?o :: u64) = ?o" using Cons.prems(2) by (intro unat_of_nat_small) simp
      then have "unat (src + of_nat ?o) = unat src + ?o" using lt Cons.prems(2) by (subst unat_add64) simp_all
      then show ?thesis using lt Cons.prems(1,2,3) unfolding sp(3) by (subst memcpy_at; unfold sp(1)) auto
    qed
    finally show ?thesis using False q by (simp add: nth_append algebra_simps)
  qed
qed simp

section \<open>Properties of complex subsets\<close>

lemma complex_insts: "SS_ISCOMPLEX ss \<Longrightarrow> ss_insts iv ss = insts_of (ss_ivals iv ss)"
  by (simp add: ss_insts_def)

text \<open>A subset has at most 65536 instances, because they are distinct.\<close>

lemma complex_card:
  assumes "complex_ok iv ss"
  shows "length (ss_insts iv ss) \<le> 65536"
proof -
  have "set (ss_insts iv ss) \<subseteq> {..<65536}"
    using insts_lt [of "ss_ivals iv ss"] assms by (auto simp: complex_ok_def complex_insts simp del: set_concat set_map)
  then have "card (set (ss_insts iv ss)) \<le> 65536" using card_mono [of "{..<65536 :: nat}"] by fastforce
  then show ?thesis using assms by (simp add: complex_ok_def distinct_card)
qed

lemma cindexof_nth:
  assumes "complex_ok iv ss" "unat inst \<in> set (ss_insts iv ss)"
  obtains q where "q < length (ss_insts iv ss)" "ss_insts iv ss ! q = unat inst" "ss_cindexof iv ss inst = Some (of_nat q)"
  using cindexof_finds [OF cells_ivals, of iv ss inst 0] complex_card [OF assms(1)] assms
  by (auto simp: complex_ok_def complex_insts ss_cindexof_def simp del: set_concat set_map)

text \<open>
  \<^verbatim>\<open>ss_cindexof\<close> ends for every instance of a well-formed complex subset and returns the position of the
  instance in the subset.
\<close>

theorem ss_cindexof_position:
  assumes "complex_ok iv ss" "unat inst \<in> set (ss_insts iv ss)"
  shows "\<exists>q. q < length (ss_insts iv ss) \<and> ss_insts iv ss ! q = unat inst \<and> ss_cindexof iv ss inst = Some (of_nat q)"
  using cindexof_nth [OF assms] by blast

text \<open>
  \<^verbatim>\<open>ss_csize\<close> is the number of instances less \<open>2 ^ 16\<close> for every interval of more than 32769 instances,
  so it is the number of instances exactly when there is no such interval.
\<close>

theorem ss_csize_count:
  assumes "complex_ok iv ss"
  shows "ss_csize iv ss = of_nat (length (ss_insts iv ss)) - 65536 * of_nat (length (filter pk_large (ss_ivals iv ss)))"
proof -
  have "length (ss_ivals iv ss) = Suc (unat (SS_CNUMI ss))" by (simp add: ss_ivals_def)
  moreover from this have "ss_ivals iv ss \<noteq> []" by auto
  ultimately show ?thesis
    using csize_loop_sum [OF cells_ivals, of iv ss "SS_CNUMI ss + 1"] assms
    by (simp add: ss_csize_def complex_ok_def complex_insts)
qed

text \<open>
  C17. Collecting a parameter over a complex subset and looking a value up by its index agree: the slot
  \<^verbatim>\<open>ss_cindexof\<close> names for an instance holds, byte by byte, the value of that instance, when the
  destination does not overlap the values.
\<close>

theorem collected_value_at_index:
  assumes "complex_ok iv ss" "unat inst \<in> set (ss_insts iv ss)" "b < unat sz"
    "unat dest + unat sz * length (ss_insts iv ss) < 2 ^ 64" "unat src + unat sz * 65536 \<le> 2 ^ 64"
    "unat dest + unat sz * length (ss_insts iv ss) \<le> unat src \<or> unat src + unat sz * 65536 \<le> unat dest"
  shows "\<exists>q. ss_cindexof iv ss inst = Some q \<and>
    si3_collect_ne iv st dest src sz (si3_complex iv ss) (dest + sz * q + of_nat b) = st (src + sz * inst + of_nat b)"
proof -
  obtain q where q: "q < length (ss_insts iv ss)" "ss_insts iv ss ! q = unat inst" "ss_cindexof iv ss inst = Some (of_nat q)"
    using cindexof_nth [OF assms(1,2)] .
  have c: "SS_ISCOMPLEX ss" "list_all pk_ok (ss_ivals iv ss)" using assms(1) by (simp_all add: complex_ok_def)
  have "collect_ivs st dest src sz (ss_ivals iv ss) (dest + of_nat (unat sz * q + b)) = st (src + of_nat (unat sz * unat inst + b))"
    using collect_inside [of dest sz "ss_ivals iv ss" src q b st] assms(3-6) c(2) q(1,2) unfolding complex_insts [OF c(1)] by simp
  moreover have "dest + of_nat (unat sz * q + b) = dest + sz * of_nat q + of_nat b"
    "src + of_nat (unat sz * unat inst + b) = src + sz * inst + of_nat b" by (simp_all add: algebra_simps)
  ultimately show ?thesis using q(3) collect_complex [OF c(1), of iv st dest src sz] by (auto simp: add.assoc)
qed

text \<open>A subset of three intervals, one of them larger than \<^verbatim>\<open>int16_t\<close> holds: instances \<open>2 .. 4\<close>, \<open>7\<close>, \<open>10 .. 40009\<close>.\<close>

definition demo_iv :: ivmem where
  "demo_iv a = (if a = 0x1000 then 0xfffe0002 else if a = 0x1004 then 0x00000007 else 0x63c1000a)"

abbreviation demo_ss :: fhk_subset where
  "demo_ss \<equiv> 0x10000002"

lemma demo_ivals: "ss_ivals demo_iv demo_ss = [0xfffe0002, 0x00000007, 0x63c1000a]"
  by code_simp

definition demo_span :: "nat list" where
  "demo_span = [10 ..< 40010]"

lemma demo_span [simp]: "length demo_span = 40000" "set demo_span = {10 ..< 40010}" "sorted demo_span" "distinct demo_span"
  unfolding demo_span_def by (simp_all del: upt_rec_numeral)

lemma demo_insts: "ss_insts demo_iv demo_ss = [2, 3, 4, 7] @ demo_span"
proof -
  have "SS_ISCOMPLEX demo_ss" by code_simp
  moreover have "pk_insts 0xfffe0002 = [2, 3, 4]" "pk_insts 0x00000007 = [7]" by code_simp+
  moreover have "pk_insts 0x63c1000a = demo_span"
  proof -
    have "unat (PK_FIRST (0x63c1000a :: u32)) = 10" "unat (PK_N1 (0x63c1000a :: u32)) = 40000"
      by (simp_all add: PK_FIRST_def PK_N1_def)
    then show ?thesis unfolding pk_insts_def demo_span_def by (simp del: upt_rec_numeral)
  qed
  ultimately show ?thesis by (simp add: ss_insts_def demo_ivals)
qed

lemma demo_complex: "complex_ok demo_iv demo_ss"
proof -
  have "SS_ISCOMPLEX demo_ss" by code_simp
  moreover have "list_all pk_ok (ss_ivals demo_iv demo_ss)"
    unfolding demo_ivals by (simp add: pk_ok_def PK_FIRST_def PK_N1_def)
  ultimately show ?thesis unfolding complex_ok_def demo_insts by (auto simp: sorted_append)
qed

theorem ss_cindexof_position_witness:
  "\<exists>q. q < length (ss_insts demo_iv demo_ss) \<and> ss_insts demo_iv demo_ss ! q = 7 \<and> ss_cindexof demo_iv demo_ss 7 = Some (of_nat q)"
  using ss_cindexof_position [OF demo_complex, of 7] by (simp add: demo_insts)

theorem ss_csize_count_witness: "ss_csize demo_iv demo_ss = 40004 - 65536"
proof -
  have "filter pk_large (ss_ivals demo_iv demo_ss) = [0x63c1000a]"
    unfolding demo_ivals by (simp add: pk_large_def PK_N1_def)
  then show ?thesis using ss_csize_count [OF demo_complex] by (simp add: demo_insts)
qed

theorem collected_value_at_index_witness:
  "\<exists>q. ss_cindexof demo_iv demo_ss 7 = Some q \<and>
    si3_collect_ne demo_iv (\<lambda>a. ucast a) 0x1000000 0 4 (si3_complex demo_iv demo_ss) (0x1000000 + 4 * q + of_nat 0) =
    ucast (0 + 4 * 7 + of_nat 0 :: u64)"
proof -
  have "unat (7 :: u64) \<in> set (ss_insts demo_iv demo_ss)" by (simp add: demo_insts)
  then show ?thesis by (rule collected_value_at_index [OF demo_complex]) (simp_all add: demo_insts)
qed

end
