(* ===== verification/Fhk_Solver.thy ===== *)
theory Fhk_Solver
  imports M2_Mem Fhk_Def Fhk_Bitmap Fhk_Subset
begin

text \<open>
  The state of the solver and the functions its caller uses, \<^verbatim>\<open>src/src/fhk/solve.c\<close>: creation, roots, shapes,
  values, maps, inspection; and the exits and yields of the coroutine.

  Arrays that only the solver reads (search states, bitmaps, nonconstant maps) are lists; the values of
  variables are bytes in a memory indexed by addresses. The three arrays that share their
  storage (\<^verbatim>\<open>s_vstate\<close>, \<^verbatim>\<open>s_vmstate\<close>, \<^verbatim>\<open>s_sstate\<close>) are one function to \<open>xslot\<close>. Instances inside the solver are
  natural numbers.

  A function of the solver returns \<open>Inr\<close>, or \<open>Inl\<close> of the reason why it stops: the coroutine has ended with a
  status, an access has no defined result, or the fuel of the model is used up. The caller's side of a
  yield is an argument: what the caller does to the solver between two calls of \<^verbatim>\<open>fhk_continue\<close>.
\<close>

section \<open>Search state words\<close>

record ssp =
  sp_cost :: f32
  sp_state :: u32

definition MAX_COST :: f32 where "MAX_COST = 0x7f7fffff"
definition SP_CHAIN :: u32 where "SP_CHAIN = 0x80000000"
definition SP_VALUE :: u32 where "SP_VALUE = 0x40000000"
definition SP_EXPANDED :: u32 where "SP_EXPANDED = 0x20000000"

definition SP_CHAIN_V :: "nat \<Rightarrow> nat \<Rightarrow> u32" where
  "SP_CHAIN_V e i = SP_EXPANDED OR SP_CHAIN OR push_bit 16 (of_nat e) OR of_nat i"

definition SP_CHAIN_EI :: "ssp \<Rightarrow> nat" where
  "SP_CHAIN_EI sp = unat (drop_bit 16 (sp_state sp) AND 0xff)"

definition SP_CHAIN_INSTANCE :: "ssp \<Rightarrow> nat" where
  "SP_CHAIN_INSTANCE sp = unat (sp_state sp AND 0xffff)"

definition sp_u64 :: "ssp \<Rightarrow> u64" where
  "sp_u64 sp = push_bit 32 (ucast (sp_state sp)) OR ucast (sp_cost sp)"

definition SP_DONEMASK :: u64 where "SP_DONEMASK = push_bit 32 (ucast SP_CHAIN) OR 0x7fffffff"
definition SP_UMAXCOST :: u64 where "SP_UMAXCOST = ucast MAX_COST"

definition SP_DONE :: "ssp \<Rightarrow> bool" where
  "SP_DONE sp \<longleftrightarrow> SP_UMAXCOST \<le> (sp_u64 sp AND SP_DONEMASK)"

definition SP_MARK :: f32 where "SP_MARK = 0x80800000"

definition SP_MARKED :: "ssp \<Rightarrow> bool" where
  "SP_MARKED sp \<longleftrightarrow> flt (sp_cost sp) 0"

definition sp_has :: "u32 \<Rightarrow> u32 \<Rightarrow> bool" where
  "sp_has st flag \<longleftrightarrow> st AND flag \<noteq> 0"

section \<open>The solver\<close>

datatype xslot = XNull | XSsp "ssp list" | XBm bitmap

text \<open>A map: the subset of a constant map, or the array of subsets of a nonconstant one. The word of all ones
  stands for both kinds of undefined map.\<close>

datatype anymap = KMap fhk_subset | IMap "fhk_subset list"

record rootv =
  r_out :: uptr
  r_xi :: int
  r_inst :: u16
  r_end :: u16
  r_flags :: u8

definition ROOT_GIVEN :: u8 where "ROOT_GIVEN = 1"
definition NUM_ROOTBUF :: nat where "NUM_ROOTBUF = 32"
definition NUM_SBUF :: nat where "NUM_SBUF = 8"
definition SBUF_MIN_BITS :: nat where "SBUF_MIN_BITS = 16"
definition SBUF_ALIGN :: nat where "SBUF_ALIGN = 8"
definition MAX_COSTACK :: nat where "MAX_COSTACK = 2 ^ 16 + 8"

text \<open>\<open>r_buf\<close> is the used part of the root queue, \<^verbatim>\<open>r_num\<close> its length. \<open>e_status\<close> is the status of an \<^verbatim>\<open>E_exit\<close>: the next
  resumption of the coroutine ends with it.\<close>

record solver =
  s_G :: fhk_graph
  s_mstate :: "int \<Rightarrow> ssp list option"
  s_xstate :: "int \<Rightarrow> xslot"
  s_value :: "int \<Rightarrow> uptr"
  s_mapstate :: "int \<Rightarrow> anymap"
  b_off :: u64
  b_mem :: "uptr list"
  s_arena :: arena
  r_size :: u16
  r_buf :: "rootv list"
  bm0_size :: u16
  bm0_intern :: bitmap
  e_status :: "u64 option"
  s_mem :: "uptr \<Rightarrow> u8"

datatype stop = Exit u64 | Fault | Fuel

definition andThen :: "stop + 'a \<Rightarrow> ('a \<Rightarrow> stop + 'b) \<Rightarrow> stop + 'b" where
  "andThen r f = (case r of Inl e \<Rightarrow> Inl e | Inr a \<Rightarrow> f a)"

lemma andThen_simps [simp]: "andThen (Inl e) f = Inl e" "andThen (Inr a) f = f a"
  by (simp_all add: andThen_def)

lemma andThen_Inr: "andThen r f = Inr b \<longleftrightarrow> (\<exists>a. r = Inr a \<and> f a = Inr b)"
  by (cases r) simp_all

text \<open>What the solver takes from outside: \<^verbatim>\<open>malloc\<close>, whose answer may depend on the arena, and the caller.\<close>

record env =
  e_malloc :: "arena \<Rightarrow> usize \<Rightarrow> uptr"
  e_caller :: "u64 \<Rightarrow> solver \<Rightarrow> solver"

section \<open>Access\<close>

definition checked :: "bool \<Rightarrow> 'a \<Rightarrow> stop + 'a" where
  "checked b a = (if b then Inr a else Inl Fault)"

definition var_at :: "solver \<Rightarrow> int \<Rightarrow> stop + fhk_var" where
  "var_at S xi = checked (vidx (s_G S) xi) (gvar (s_G S) xi)"

definition map_at :: "solver \<Rightarrow> int \<Rightarrow> stop + anymap" where
  "map_at S m = checked (- g_nimap (s_G S) \<le> m \<and> m < g_nkmap (s_G S)) (s_mapstate S m)"

definition set_map :: "solver \<Rightarrow> int \<Rightarrow> anymap \<Rightarrow> stop + solver" where
  "set_map S m v = checked (- g_nimap (s_G S) \<le> m \<and> m < g_nkmap (s_G S)) (S\<lparr>s_mapstate := (s_mapstate S)(m := v)\<rparr>)"

text \<open>Reading the union of a map as a subset, and as an array.\<close>

fun as_kmap :: "anymap \<Rightarrow> stop + fhk_subset" where
  "as_kmap (KMap ss) = Inr ss"
| "as_kmap (IMap _) = Inl Fault"

fun imap_at :: "anymap \<Rightarrow> nat \<Rightarrow> stop + fhk_subset" where
  "imap_at (IMap sss) inst = checked (inst < length sss) (sss ! inst)"
| "imap_at (KMap _) inst = Inl Fault"

definition undef_map :: "anymap \<Rightarrow> bool" where
  "undef_map ms \<longleftrightarrow> ms = KMap SS_UNDEF"

definition S_alloc :: "env \<Rightarrow> solver \<Rightarrow> usize \<Rightarrow> usize \<Rightarrow> stop + uptr \<times> solver" where
  "S_alloc E S sz al =
     (case arena_alloc (e_malloc E (s_arena S)) (s_arena S) sz al of
        None \<Rightarrow> Inl Fault
      | Some (A, p) \<Rightarrow> Inr (p, S\<lparr>s_arena := A\<rparr>))"

text \<open>An array of \<open>n\<close> elements that the solver fills; a failed allocation is a write through \<^verbatim>\<open>NULL\<close>.\<close>

definition alloc_array :: "env \<Rightarrow> solver \<Rightarrow> nat \<Rightarrow> 'a \<Rightarrow> stop + 'a list \<times> solver" where
  "alloc_array E S n ini =
     andThen (S_alloc E S (8 * of_nat n) 8) (\<lambda>(p, S1). checked (n = 0 \<or> p \<noteq> NULL) (replicate n ini, S1))"

definition ssp_alloc :: "env \<Rightarrow> solver \<Rightarrow> nat \<Rightarrow> ssp \<Rightarrow> stop + ssp list \<times> solver" where
  "ssp_alloc = alloc_array"

definition S_bm_alloc :: "env \<Rightarrow> solver \<Rightarrow> nat \<Rightarrow> u64 \<Rightarrow> stop + bitmap \<times> solver" where
  "S_bm_alloc E S num ini =
     andThen (alloc_array E S (round_up num 64 div 8) ini) (\<lambda>(_, S1). Inr (bm_alloc num ini, S1))"

section \<open>Status words and exits\<close>

definition FHK_ERROR :: u64 where "FHK_ERROR = 1"
definition FHKS_SHAPE :: u64 where "FHKS_SHAPE = 2"
definition FHKS_VREF :: u64 where "FHKS_VREF = 3"
definition FHKS_MAPCALL :: u64 where "FHKS_MAPCALL = 4"
definition FHKS_MODCALL :: u64 where "FHKS_MODCALL = 5"
definition FHK_NINST :: nat where "FHK_NINST = 0xffff"

definition SARG :: "u64 \<Rightarrow> u64" where "SARG a = push_bit 16 a"
definition FHK_CODE :: "u64 \<Rightarrow> u64" where "FHK_CODE s = s AND 0xffff"
definition FHK_ARG :: "u64 \<Rightarrow> u64" where "FHK_ARG s = drop_bit 16 s"

definition eref :: "int \<Rightarrow> nat \<Rightarrow> u64" where
  "eref idx inst = (of_int idx AND 0xffff) OR push_bit 16 (of_nat inst AND 0xffff)"

definition E_exit :: "solver \<Rightarrow> u64 \<Rightarrow> solver" where
  "E_exit S status = S\<lparr>e_status := Some status\<rparr>"

definition error_word :: "u64 \<Rightarrow> u64" where
  "error_word ei = FHK_ERROR OR SARG ei"

definition JE_maxdepth :: "int \<Rightarrow> nat \<Rightarrow> stop" where
  "JE_maxdepth xi inst = Exit (error_word (FHKE_DEPTH OR E_META 1 FHKEI_I (of_int xi) OR E_META 2 FHKEI_J (of_nat inst)))"

definition JE_nyi :: stop where
  "JE_nyi = Exit (error_word FHKE_NYI)"

definition JE_nvalue :: "int \<Rightarrow> nat \<Rightarrow> stop" where
  "JE_nvalue xi inst = Exit (error_word (FHKE_NVALUE OR E_META 1 FHKEI_I (of_int xi) OR E_META 2 FHKEI_J (of_nat inst)))"

definition JE_nmap :: "int \<Rightarrow> nat \<Rightarrow> stop" where
  "JE_nmap idx inst = Exit (error_word (FHKE_NVALUE OR E_META 1 FHKEI_P (of_int idx) OR E_META 2 FHKEI_J (of_nat inst)))"

definition JE_nbuf :: stop where
  "JE_nbuf = Exit (error_word FHKE_MEM)"

definition JE_nchain :: "int \<Rightarrow> nat \<Rightarrow> stop" where
  "JE_nchain xi inst = Exit (error_word (FHKE_CHAIN OR E_META 1 FHKEI_I (of_int xi) OR E_META 2 FHKEI_J (of_nat inst)))"

text \<open>A yield hands the solver to the caller; after an \<^verbatim>\<open>E_exit\<close> the coroutine is at \<^verbatim>\<open>SE_exit\<close> and never comes back.\<close>

definition fhkJ_yield :: "env \<Rightarrow> solver \<Rightarrow> u64 \<Rightarrow> stop + solver" where
  "fhkJ_yield E S status =
     (let S1 = e_caller E status S in case e_status S1 of Some e \<Rightarrow> Inl (Exit e) | None \<Rightarrow> Inr S1)"

definition J_shape :: "env \<Rightarrow> solver \<Rightarrow> int \<Rightarrow> stop + solver" where
  "J_shape E S grp = fhkJ_yield E S (FHKS_SHAPE OR SARG (of_int grp))"

definition J_mapcall :: "env \<Rightarrow> solver \<Rightarrow> int \<Rightarrow> nat \<Rightarrow> stop + solver" where
  "J_mapcall E S m inst = fhkJ_yield E S (FHKS_MAPCALL OR SARG (eref m inst))"

definition J_vref :: "env \<Rightarrow> solver \<Rightarrow> int \<Rightarrow> nat \<Rightarrow> stop + solver" where
  "J_vref E S xi inst = fhkJ_yield E S (FHKS_VREF OR SARG (eref xi inst))"

definition J_modcall :: "env \<Rightarrow> solver \<Rightarrow> uptr \<Rightarrow> stop + solver" where
  "J_modcall E S mc = fhkJ_yield E S (FHKS_MODCALL OR SARG mc)"

section \<open>Creation\<close>

definition nx :: "fhk_graph \<Rightarrow> int" where
  "nx G = nv G + int (length (g_shadows G))"

definition arena_get :: "env \<Rightarrow> arena \<Rightarrow> int \<Rightarrow> nat \<Rightarrow> stop + uptr \<times> arena" where
  "arena_get E A sz al =
     (case arena_alloc (e_malloc E A) A (of_int sz) (of_nat al) of None \<Rightarrow> Inl Fault | Some (A1, p) \<Rightarrow> Inr (p, A1))"

text \<open>\<open>sizeof_S\<close> is the size of \<^verbatim>\<open>struct fhk_solver\<close>. The arrays and the solver itself are written at once; a root takes
  16 bytes.\<close>

definition fhk_create_solver :: "env \<Rightarrow> int \<Rightarrow> fhk_graph \<Rightarrow> arena \<Rightarrow> stop + solver" where
  "fhk_create_solver E sizeof_S G A =
     andThen (arena_get E A (int MAX_COSTACK) 16) (\<lambda>(stack, A1).
     andThen (arena_get E A1 (8 * (nx G + nm G) + sizeof_S) 8) (\<lambda>(S, A2).
     andThen (arena_get E A2 (8 * (nv G + nm G)) 8) (\<lambda>(val, A3).
     andThen (arena_get E A3 (8 * (g_nimap G + g_nkmap G)) 8) (\<lambda>(mps, A4).
     andThen (arena_get E A4 (16 * int NUM_ROOTBUF) 8) (\<lambda>(rb, A5).
     andThen (arena_get E A5 (2 ^ SBUF_MIN_BITS) SBUF_ALIGN) (\<lambda>(b0, A6).
     checked (S \<noteq> NULL \<and> val \<noteq> NULL \<and> mps \<noteq> NULL \<and> rb \<noteq> NULL)
       \<lparr>s_G = G, s_mstate = (\<lambda>_. None), s_xstate = (\<lambda>_. XNull), s_value = (\<lambda>_. NULL),
        s_mapstate = (\<lambda>_. KMap SS_UNDEF), b_off = 0, b_mem = b0 # replicate (NUM_SBUF - 1) NULL, s_arena = A6,
        r_size = of_nat NUM_ROOTBUF, r_buf = [], bm0_size = 0, bm0_intern = [], e_status = None, s_mem = (\<lambda>_. 0)\<rparr>))))))"

section \<open>Roots\<close>

definition fhkS_setrooti :: "env \<Rightarrow> solver \<Rightarrow> int \<Rightarrow> nat \<Rightarrow> nat \<Rightarrow> uptr \<Rightarrow> u8 \<Rightarrow> stop + solver" where
  "fhkS_setrooti E S xi inst num buf flags =
     andThen
       (if length (r_buf S) = unat (r_size S)
        then let sz = push_bit 2 (r_size S) in
             andThen (S_alloc E S (16 * ucast sz) 8) (\<lambda>(p, S1). checked (p \<noteq> NULL) (S1\<lparr>r_size := sz\<rparr>))
        else Inr S)
       (\<lambda>S1. checked (length (r_buf S1) < unat (r_size S1))
          (S1\<lparr>r_buf := r_buf S1 @ [\<lparr>r_out = buf, r_xi = xi, r_inst = of_nat inst, r_end = of_nat (inst + num), r_flags = flags\<rparr>]\<rparr>))"

text \<open>The 32-bit cells of the memory, where the intervals of complex subsets lie.\<close>

definition ivm :: "solver \<Rightarrow> ivmem" where
  "ivm S a = ucast (load 4 (s_mem S) a)"

function setroot_loop :: "env \<Rightarrow> solver \<Rightarrow> int \<Rightarrow> nat \<Rightarrow> uptr \<Rightarrow> u8 \<Rightarrow> si3 \<Rightarrow> stop + solver" where
  "setroot_loop E S xi sz buf flags s =
     (case fhkS_setrooti E S xi (unat (si_inst s)) (unat (si_num s)) buf flags of
        Inl e \<Rightarrow> Inl e
      | Inr S1 \<Rightarrow>
          (case SI3_NEXTI (ivm S) s of
             Some s1 \<Rightarrow> setroot_loop E S1 xi sz (buf + si_num s * of_nat sz) flags s1
           | None \<Rightarrow> Inr S1))"
  by pat_completeness auto
termination
  by (relation "measure (\<lambda>(E, S, xi, sz, buf, flags, s). unat (si_ip s AND 0xffff))")
    (auto simp: SI3_NEXTI_def si3_cnexti_def si3_ip_next unat_gt_0 split: if_splits)

declare setroot_loop.simps [simp del]

definition fhkS_setroot :: "env \<Rightarrow> solver \<Rightarrow> int \<Rightarrow> fhk_subset \<Rightarrow> uptr \<Rightarrow> stop + solver" where
  "fhkS_setroot E S xi ss buf =
     (if SS_ISEMPTY ss then Inr S
      else andThen (var_at S xi) (\<lambda>x.
        let flags = (if V_GIVEN x then ROOT_GIVEN else 0) in
        if SS_ISIVAL ss
        then andThen (map_at S (int (v_group x))) (\<lambda>ms. andThen (as_kmap ms) (\<lambda>space.
          let S1 = (if (ucast space :: u32) = ucast ss \<and> s_value S xi = NULL then S\<lparr>s_value := (s_value S)(xi := buf)\<rparr> else S)
          in fhkS_setrooti E S1 xi (unat (PK_FIRST ss)) (unat (PK_N1 ss)) buf flags))
        else setroot_loop E S xi (v_size x) buf flags (si3_complex (ivm S) ss)))"

section \<open>Shapes\<close>

definition G_MAXINST :: nat where "G_MAXINST = 0xfffe"

definition fhkS_setshape :: "solver \<Rightarrow> u8 \<Rightarrow> u16 \<Rightarrow> stop + solver" where
  "fhkS_setshape S grp shape =
     (if uint grp \<ge> g_ng (s_G S)
      then Inr (E_exit S (error_word (FHKE_INVAL OR E_META 1 FHKEI_G (ucast grp))))
      else if unat shape > G_MAXINST
      then Inr (E_exit S (error_word (FHKE_INVAL OR E_META 1 FHKEI_G (ucast grp) OR E_META 2 FHKEI_J (ucast shape))))
      else andThen (map_at S (uint grp)) (\<lambda>ms.
        if \<not> undef_map ms
        then Inr (E_exit S (error_word (FHKE_OVERWRITE OR E_META 1 FHKEI_G (ucast grp))))
        else set_map S (uint grp) (KMap (if shape \<noteq> 0 then SS_PKIVAL 0 (ucast shape) else SS_EMPTYSET))))"

section \<open>Values\<close>

text \<open>\<^verbatim>\<open>bm_getall0\<close>: the interned bitmap of zeros, made large enough for every space known so far. The size is kept in
  16 bits.\<close>

definition known_max :: "solver \<Rightarrow> int \<Rightarrow> int" where
  "known_max S num = fold (\<lambda>i n. case s_mapstate S i of KMap k \<Rightarrow> max n (sint (PK_NS k)) | IMap _ \<Rightarrow> n) [0 .. g_ng (s_G S) - 1] num"

definition bm_getall0 :: "env \<Rightarrow> solver \<Rightarrow> nat \<Rightarrow> stop + bitmap \<times> solver" where
  "bm_getall0 E S n =
     (if n \<le> unat (bm0_size S) then Inr (bm0_intern S, S)
      else let num = nat (known_max S (int n)) + 1 in
           andThen (S_bm_alloc E S num 0) (\<lambda>(bm, S1).
             Inr (bm, S1\<lparr>bm0_size := of_nat (round_up num 64), bm0_intern := bm\<rparr>)))"

definition setvalue_fail :: "solver \<Rightarrow> int \<Rightarrow> u16 \<Rightarrow> stop + solver" where
  "setvalue_fail S xi inst =
     Inr (E_exit S (error_word (FHKE_INVAL OR E_META 1 FHKEI_I (of_int xi) OR E_META 2 FHKEI_J (ucast inst))))"

text \<open>The two halves of \<^verbatim>\<open>fhkS_setvaluei\<close>: all values at once, and a part that is copied.\<close>

definition set_all :: "env \<Rightarrow> solver \<Rightarrow> int \<Rightarrow> nat \<Rightarrow> uptr \<Rightarrow> stop + solver" where
  "set_all E S xi shape vp =
     andThen (bm_getall0 E S shape) (\<lambda>(bm, S1).
       Inr (S1\<lparr>s_xstate := (s_xstate S1)(xi := XBm bm), s_value := (s_value S1)(xi := vp)\<rparr>))"

definition set_part :: "env \<Rightarrow> solver \<Rightarrow> int \<Rightarrow> nat \<Rightarrow> nat \<Rightarrow> nat \<Rightarrow> nat \<Rightarrow> uptr \<Rightarrow> stop + solver" where
  "set_part E S xi sz shape inst n vp =
     andThen (case s_xstate S xi of XNull \<Rightarrow> S_bm_alloc E S shape (- 1) | XBm bm \<Rightarrow> Inr (bm, S) | XSsp _ \<Rightarrow> Inl Fault) (\<lambda>(bm, S1).
     andThen (if s_value S1 xi = NULL then S_alloc E S1 (of_nat (shape * sz)) (of_nat sz) else Inr (s_value S1 xi, S1)) (\<lambda>(p, S2).
     checked (p \<noteq> NULL \<and> inst + n \<le> 64 * length bm)
       (S2\<lparr>s_xstate := (s_xstate S2)(xi := XBm (bm_cleari bm inst n)), s_value := (s_value S2)(xi := p),
         s_mem := memcpy (s_mem S2) (p + of_nat (inst * sz)) vp (of_nat (n * sz))\<rparr>)))"

definition fhkS_setvaluei :: "env \<Rightarrow> solver \<Rightarrow> int \<Rightarrow> u16 \<Rightarrow> u32 \<Rightarrow> uptr \<Rightarrow> stop + solver" where
  "fhkS_setvaluei E S xi inst n vp =
     (if n = 0 then Inr S
      else if xi > nv (s_G S) then setvalue_fail S xi inst
      else andThen (var_at S xi) (\<lambda>x.
        andThen (map_at S (int (v_group x))) (\<lambda>ms. andThen (as_kmap ms) (\<lambda>space.
        let shape = unat (PK_N1 space) in
        if \<not> V_GIVEN x \<or> space = SS_UNDEF \<or> unat (ucast inst + n) > shape then setvalue_fail S xi inst
        else if unat (n - ucast inst) = shape
        then (if s_xstate S xi \<noteq> XNull then setvalue_fail S xi inst else set_all E S xi shape vp)
        else (case s_xstate S xi of
                XBm bm \<Rightarrow> if \<not> bm_isset bm (unat inst) then setvalue_fail S xi inst
                           else set_part E S xi (v_size x) shape (unat inst) (unat n) vp
              | _ \<Rightarrow> set_part E S xi (v_size x) shape (unat inst) (unat n) vp)))))"

section \<open>Maps\<close>

definition map_toext :: "solver \<Rightarrow> int \<Rightarrow> int" where
  "map_toext S m = (if MAP_ISCONST m then m - g_ng (s_G S) else m)"

definition map_fromext :: "solver \<Rightarrow> int \<Rightarrow> int" where
  "map_fromext S m = (if MAP_ISCONST m then m + g_ng (s_G S) else m)"

definition setmap_fail :: "solver \<Rightarrow> int \<Rightarrow> u16 \<Rightarrow> stop + solver" where
  "setmap_fail S emap inst =
     Inr (E_exit S (error_word (FHKE_INVAL OR E_META 1 FHKEI_P (of_int emap) OR E_META 2 FHKEI_J (ucast inst))))"

definition assoc_group :: "solver \<Rightarrow> int \<Rightarrow> stop + int" where
  "assoc_group S m =
     (let i = m + g_nimap (s_G S) in
      checked (0 \<le> i \<and> nat i < length (g_umap_assoc (s_G S))) (uint (g_umap_assoc (s_G S) ! nat i)))"

definition fhkS_setmap :: "env \<Rightarrow> solver \<Rightarrow> int \<Rightarrow> u16 \<Rightarrow> fhk_subset \<Rightarrow> stop + solver" where
  "fhkS_setmap E S emap inst ss =
     (if emap < - g_nimap (s_G S) \<or> emap \<ge> g_nkmap (s_G S) then setmap_fail S emap inst
      else let m = map_fromext S emap in
      if MAP_ISCONST m
      then andThen (map_at S m) (\<lambda>ms. if \<not> undef_map ms then setmap_fail S emap inst else set_map S m (KMap ss))
      else andThen (assoc_group S m) (\<lambda>grp. andThen (map_at S grp) (\<lambda>gm. andThen (as_kmap gm) (\<lambda>space.
        let num = unat (PK_N1 space) in
        if space = SS_UNDEF \<or> unat inst \<ge> num then setmap_fail S emap inst
        else andThen (map_at S m) (\<lambda>ms.
          (case ms of
             IMap sss \<Rightarrow>
               if unat inst < length sss
               then (if sss ! unat inst \<noteq> SS_UNDEF then setmap_fail S emap inst else set_map S m (IMap (sss[unat inst := ss])))
               else Inl Fault
           | KMap k \<Rightarrow>
               if k = SS_UNDEF
               then andThen (alloc_array E S num SS_UNDEF) (\<lambda>(sss, S1). set_map S1 m (IMap (sss[unat inst := ss])))
               else Inl Fault))))))"

section \<open>Inspection\<close>

definition fhkI_shape :: "solver \<Rightarrow> u8 \<Rightarrow> stop + nat" where
  "fhkI_shape S grp =
     andThen (map_at S (uint grp)) (\<lambda>ms. andThen (as_kmap ms) (\<lambda>ss.
       Inr (if ss \<noteq> SS_UNDEF then unat (PK_N1 ss) else FHK_NINST)))"

definition fhkI_umap :: "solver \<Rightarrow> int \<Rightarrow> u16 \<Rightarrow> stop + fhk_subset" where
  "fhkI_umap S emap inst =
     (let m = map_fromext S emap in
      andThen (map_at S m) (\<lambda>ms.
        if undef_map ms then Inr SS_UNDEF
        else if MAP_ISCONST m then as_kmap ms else imap_at ms (unat inst)))"

definition ssp_get :: "ssp list \<Rightarrow> nat \<Rightarrow> stop + ssp" where
  "ssp_get sps i = checked (i < length sps) (sps ! i)"

definition fhkI_cost :: "solver \<Rightarrow> int \<Rightarrow> u16 \<Rightarrow> stop + f32" where
  "fhkI_cost S idx inst =
     (if ISVI idx
      then andThen (var_at S idx) (\<lambda>x.
        if V_GIVEN x then Inr 0
        else (case s_xstate S idx of
                XNull \<Rightarrow> Inr 0
              | XSsp sps \<Rightarrow> andThen (ssp_get sps (unat inst)) (\<lambda>sp. Inr (sp_cost sp))
              | XBm _ \<Rightarrow> Inl Fault))
      else if midx (s_G S) idx
      then (case s_mstate S idx of
              None \<Rightarrow> Inr 0
            | Some sps \<Rightarrow> andThen (ssp_get sps (unat inst)) (\<lambda>sp. Inr (sp_cost sp)))
      else Inl Fault)"

definition fhkI_chain :: "solver \<Rightarrow> int \<Rightarrow> u16 \<Rightarrow> stop + int \<times> nat" where
  "fhkI_chain S xi inst =
     andThen (var_at S xi) (\<lambda>x.
       if V_GIVEN x then Inr (FHK_NIDX, FHK_NINST)
       else (case s_xstate S xi of
               XNull \<Rightarrow> Inr (FHK_NIDX, FHK_NINST)
             | XBm _ \<Rightarrow> Inl Fault
             | XSsp sps \<Rightarrow> andThen (ssp_get sps (unat inst)) (\<lambda>sp.
                 if \<not> sp_has (sp_state sp) SP_CHAIN then Inr (FHK_NIDX, FHK_NINST)
                 else checked (SP_CHAIN_EI sp < length (v_models x)) (e_idx (v_models x ! SP_CHAIN_EI sp), SP_CHAIN_INSTANCE sp))))"

definition fhkI_value :: "solver \<Rightarrow> int \<Rightarrow> u16 \<Rightarrow> stop + uptr" where
  "fhkI_value S xi inst =
     andThen (var_at S xi) (\<lambda>x.
       let vp = s_value S xi + of_nat (v_size x * unat inst) in
       if \<not> V_GIVEN x
       then (case s_xstate S xi of
               XNull \<Rightarrow> Inr NULL
             | XBm _ \<Rightarrow> Inl Fault
             | XSsp sps \<Rightarrow> andThen (ssp_get sps (unat inst)) (\<lambda>sp. Inr (if \<not> sp_has (sp_state sp) SP_VALUE then NULL else vp)))
       else (case s_xstate S xi of
               XNull \<Rightarrow> Inr NULL
             | XSsp _ \<Rightarrow> Inl Fault
             | XBm missing \<Rightarrow> checked (unat inst div 64 < length missing) (if bm_isset missing (unat inst) then NULL else vp)))"

definition fhkI_G :: "solver \<Rightarrow> fhk_graph" where
  "fhkI_G S = s_G S"

end
