(* ===== verification/Fhk_SolverApi.thy ===== *)
theory Fhk_SolverApi
  imports Fhk_Solver
begin

text \<open>
  What the caller's functions of the solver guarantee: the sizes of all arrays fit the shapes in every state
  that calls can produce, shapes, maps and values read back what was set, and each of them can be set
  once.
\<close>

section \<open>The invariant\<close>

text \<open>Groups and maps of a graph are in range.\<close>

definition graph_maps_ok :: "fhk_graph \<Rightarrow> bool" where
  "graph_maps_ok G \<longleftrightarrow> 0 \<le> g_ng G \<and> g_ng G \<le> g_nkmap G \<and> g_nkmap G \<le> 127 \<and> 0 \<le> g_nimap G \<and>
     length (g_umap_assoc G) = nat (g_nimap G) \<and> list_all (\<lambda>g. uint g < g_ng G) (g_umap_assoc G) \<and>
     list_all (\<lambda>x. int (v_group x) < g_ng G) (g_vars G) \<and> list_all (\<lambda>m. int (m_group m) < g_ng G) (g_models G) \<and>
     list_all (\<lambda>w. int (w_group w) < g_ng G) (g_shadows G)"

text \<open>The shape of a group, when it is known.\<close>

definition shape_of :: "solver \<Rightarrow> int \<Rightarrow> nat option" where
  "shape_of S g = (case s_mapstate S g of KMap k \<Rightarrow> if k = SS_UNDEF then None else Some (unat (PK_N1 k)) | IMap _ \<Rightarrow> None)"

definition space_word :: "fhk_subset \<Rightarrow> bool" where
  "space_word k \<longleftrightarrow> k = SS_UNDEF \<or> k = SS_EMPTYSET \<or> (\<exists>n. 1 \<le> n \<and> n < 65535 \<and> k = SS_PKIVAL 0 (of_nat n))"

definition smap_ok :: "solver \<Rightarrow> int \<Rightarrow> bool" where
  "smap_ok S m \<longleftrightarrow>
     (case s_mapstate S m of
        KMap k \<Rightarrow> (m < 0 \<longrightarrow> k = SS_UNDEF) \<and> (0 \<le> m \<and> m < g_ng (s_G S) \<longrightarrow> space_word k)
      | IMap sss \<Rightarrow> m < 0 \<and> shape_of S (uint (g_umap_assoc (s_G S) ! nat (m + g_nimap (s_G S)))) = Some (length sss))"

definition slot_ok :: "solver \<Rightarrow> int \<Rightarrow> bool" where
  "slot_ok S xi \<longleftrightarrow>
     (if vidx (s_G S) xi
      then let x = gvar (s_G S) xi in
           case s_xstate S xi of
             XNull \<Rightarrow> True
           | XBm bm \<Rightarrow> V_GIVEN x \<and> (\<exists>n. shape_of S (int (v_group x)) = Some n \<and> n \<le> 8 * length bm)
           | XSsp sps \<Rightarrow> \<not> V_GIVEN x \<and> shape_of S (int (v_group x)) = Some (length sps)
      else if nv (s_G S) \<le> xi \<and> xi < nx (s_G S)
      then (case s_xstate S xi of
              XNull \<Rightarrow> True
            | XBm bm \<Rightarrow> (\<exists>n. shape_of S (int (w_group (gshadow (s_G S) xi))) = Some n \<and> n \<le> 8 * length bm)
            | XSsp _ \<Rightarrow> False)
      else True)"

definition mslot_ok :: "solver \<Rightarrow> int \<Rightarrow> bool" where
  "mslot_ok S mi \<longleftrightarrow> (\<forall>sps. midx (s_G S) mi \<longrightarrow> s_mstate S mi = Some sps \<longrightarrow>
     shape_of S (int (m_group (gmodel (s_G S) mi))) = Some (length sps))"

definition solver_ok :: "solver \<Rightarrow> bool" where
  "solver_ok S \<longleftrightarrow> graph_maps_ok (s_G S) \<and>
     (\<forall>m. - g_nimap (s_G S) \<le> m \<longrightarrow> m < g_nkmap (s_G S) \<longrightarrow> smap_ok S m) \<and>
     (\<forall>xi. slot_ok S xi) \<and> (\<forall>mi. mslot_ok S mi) \<and>
     length (r_buf S) \<le> unat (r_size S) \<and> unat (bm0_size S) \<le> 8 * length (bm0_intern S)"

lemma solver_okD:
  assumes "solver_ok S"
  shows "graph_maps_ok (s_G S)" "- g_nimap (s_G S) \<le> m \<Longrightarrow> m < g_nkmap (s_G S) \<Longrightarrow> smap_ok S m" "slot_ok S xi" "mslot_ok S mi"
    "length (r_buf S) \<le> unat (r_size S)" "unat (bm0_size S) \<le> 8 * length (bm0_intern S)"
  using assms by (simp_all add: solver_ok_def)

text \<open>Steps that only add shapes keep what the invariant says of the arrays.\<close>

definition extends :: "solver \<Rightarrow> solver \<Rightarrow> bool" where
  "extends S S' \<longleftrightarrow> s_G S' = s_G S \<and>
     (\<forall>g n. shape_of S g = Some n \<longrightarrow> shape_of S' g = Some n)"

lemma extends_refl [simp, intro]: "extends S S"
  by (simp add: extends_def)

lemma extends_trans: "extends S S1 \<Longrightarrow> extends S1 S2 \<Longrightarrow> extends S S2"
  by (simp add: extends_def)

lemma slot_ok_extends:
  assumes "extends S S'" "slot_ok S xi" "s_xstate S' xi = s_xstate S xi"
  shows "slot_ok S' xi"
  using assms by (auto simp: extends_def slot_ok_def split: xslot.splits if_splits)

lemma mslot_ok_extends:
  assumes "extends S S'" "mslot_ok S mi" "s_mstate S' mi = s_mstate S mi"
  shows "mslot_ok S' mi"
  using assms by (auto simp: extends_def mslot_ok_def)

lemma smap_ok_extends:
  assumes "extends S S'" "smap_ok S m" "s_mapstate S' m = s_mapstate S m"
  shows "smap_ok S' m"
  using assms by (auto simp: extends_def smap_ok_def split: anymap.splits)

lemma solver_ok_extends:
  assumes ok: "solver_ok S" and ext: "extends S S'"
    and maps: "\<And>m. - g_nimap (s_G S) \<le> m \<Longrightarrow> m < g_nkmap (s_G S) \<Longrightarrow> s_mapstate S' m = s_mapstate S m \<or> smap_ok S' m"
    and slots: "\<And>xi. s_xstate S' xi = s_xstate S xi \<or> slot_ok S' xi"
    and mslots: "\<And>mi. s_mstate S' mi = s_mstate S mi \<or> mslot_ok S' mi"
    and r: "length (r_buf S') \<le> unat (r_size S')" and b: "unat (bm0_size S') \<le> 8 * length (bm0_intern S')"
  shows "solver_ok S'"
proof -
  have G: "s_G S' = s_G S" using ext by (simp add: extends_def)
  show ?thesis unfolding solver_ok_def G
    using solver_okD [OF ok] smap_ok_extends [OF ext] slot_ok_extends [OF ext] mslot_ok_extends [OF ext] maps slots mslots r b
    by metis
qed

lemma shape_of_upd [simp]:
  "shape_of (S\<lparr>s_arena := a\<rparr>) g = shape_of S g" "shape_of (S\<lparr>s_mem := b\<rparr>) g = shape_of S g"
  "shape_of (S\<lparr>s_value := c\<rparr>) g = shape_of S g" "shape_of (S\<lparr>e_status := d\<rparr>) g = shape_of S g"
  "shape_of (S\<lparr>r_buf := e\<rparr>) g = shape_of S g" "shape_of (S\<lparr>r_size := f\<rparr>) g = shape_of S g"
  "shape_of (S\<lparr>s_xstate := h\<rparr>) g = shape_of S g" "shape_of (S\<lparr>s_mstate := i\<rparr>) g = shape_of S g"
  "shape_of (S\<lparr>bm0_size := j\<rparr>) g = shape_of S g" "shape_of (S\<lparr>bm0_intern := k\<rparr>) g = shape_of S g"
  "shape_of (S\<lparr>b_off := l\<rparr>) g = shape_of S g" "shape_of (S\<lparr>b_mem := m\<rparr>) g = shape_of S g"
  by (simp_all add: shape_of_def)

text \<open>The invariant does not look at the memory, the arena, the value pointers and the exit status.\<close>

lemma solver_ok_upd [simp]:
  "solver_ok (S\<lparr>s_arena := a\<rparr>) = solver_ok S" "solver_ok (S\<lparr>s_mem := b\<rparr>) = solver_ok S"
  "solver_ok (S\<lparr>s_value := c\<rparr>) = solver_ok S" "solver_ok (S\<lparr>e_status := d\<rparr>) = solver_ok S"
  "solver_ok (S\<lparr>b_off := e\<rparr>) = solver_ok S" "solver_ok (S\<lparr>b_mem := f\<rparr>) = solver_ok S"
  by (simp_all add: solver_ok_def smap_ok_def slot_ok_def mslot_ok_def cong: anymap.case_cong xslot.case_cong)

lemma checked_Inr [simp]: "checked b a = Inr r \<longleftrightarrow> b \<and> r = a"
  by (auto simp: checked_def)

lemma S_alloc_frame: "S_alloc E S sz al = Inr (p, S1) \<Longrightarrow> \<exists>A. S1 = S\<lparr>s_arena := A\<rparr>"
  by (auto simp: S_alloc_def split: option.splits)

lemma alloc_array_frame: "alloc_array E S n ini = Inr (xs, S1) \<Longrightarrow> xs = replicate n ini \<and> (\<exists>A. S1 = S\<lparr>s_arena := A\<rparr>)"
  by (auto simp: alloc_array_def andThen_Inr dest: S_alloc_frame)

lemma S_bm_alloc_frame: "S_bm_alloc E S n ini = Inr (bm, S1) \<Longrightarrow> bm = bm_alloc n ini \<and> (\<exists>A. S1 = S\<lparr>s_arena := A\<rparr>)"
  by (auto simp: S_bm_alloc_def andThen_Inr dest: alloc_array_frame)

text \<open>\<^verbatim>\<open>bm_alloc\<close> has room, and more than enough.\<close>

lemma bm_alloc_length: "n \<le> 8 * length (bm_alloc n ini)"
proof -
  have "64 dvd round_up n 64" by simp
  then have "8 dvd round_up n 64" by (rule dvd_trans [rotated]) simp
  then show ?thesis using round_up_ge [of 64 n] by (simp add: bm_alloc_def)
qed

lemma space_word_shape:
  assumes "shape \<noteq> 0" "unat shape \<le> G_MAXINST"
  shows "space_word (SS_PKIVAL 0 (ucast (shape :: u16)))" "unat (PK_N1 (SS_PKIVAL 0 (ucast shape))) = unat shape"
    "SS_PKIVAL 0 (ucast shape) \<noteq> SS_UNDEF"
proof -
  have n: "1 \<le> unat shape" "unat shape < 65535" using assms by (simp_all add: G_MAXINST_def unat_gt_0 Suc_le_eq)
  have c: "(of_nat (unat shape) :: u32) = ucast shape" by simp
  show "space_word (SS_PKIVAL 0 (ucast shape))" unfolding space_word_def using n c by metis
  have "unat (PK_N1 (SS_PKIVAL (of_nat 0) (of_nat (unat shape)))) = unat shape \<and> SS_PKIVAL (of_nat 0) (of_nat (unat shape)) \<noteq> SS_UNDEF"
    using pkival_unpack [of "unat shape" 0] n by simp
  then show "unat (PK_N1 (SS_PKIVAL 0 (ucast shape))) = unat shape" "SS_PKIVAL 0 (ucast shape) \<noteq> SS_UNDEF"
    by (simp_all add: c)
qed

section \<open>Every call keeps the invariant\<close>

lemma solver_ok_E_exit [simp]: "solver_ok (E_exit S st) = solver_ok S"
  by (simp add: E_exit_def)

lemma map_atD: "map_at S m = Inr ms \<Longrightarrow> - g_nimap (s_G S) \<le> m \<and> m < g_nkmap (s_G S) \<and> ms = s_mapstate S m"
  by (simp add: map_at_def)

lemma set_mapD: "set_map S m v = Inr S1 \<Longrightarrow>
    - g_nimap (s_G S) \<le> m \<and> m < g_nkmap (s_G S) \<and> S1 = S\<lparr>s_mapstate := (s_mapstate S)(m := v)\<rparr>"
  by (simp add: set_map_def)

lemma as_kmapD: "as_kmap ms = Inr k \<Longrightarrow> ms = KMap k"
  by (cases ms) simp_all

lemma var_atD: "var_at S xi = Inr x \<Longrightarrow> vidx (s_G S) xi \<and> x = gvar (s_G S) xi"
  by (simp add: var_at_def)

text \<open>Defining a map that was undefined.\<close>

lemma define_map_ok:
  assumes ok: "solver_ok S" and new: "undef_map (s_mapstate S m)" and mok: "smap_ok (S\<lparr>s_mapstate := (s_mapstate S)(m := v)\<rparr>) m"
  shows "solver_ok (S\<lparr>s_mapstate := (s_mapstate S)(m := v)\<rparr>)" (is "solver_ok ?S")
proof (rule solver_ok_extends [OF ok])
  show "extends S ?S" using new by (auto simp: extends_def shape_of_def undef_map_def)
  show "s_mapstate ?S m' = s_mapstate S m' \<or> smap_ok ?S m'" for m' using mok by auto
qed (use solver_okD [OF ok] in auto)

lemma setshape_ok:
  assumes "solver_ok S" "fhkS_setshape S grp shape = Inr S'"
  shows "solver_ok S'"
proof (cases "uint grp \<ge> g_ng (s_G S) \<or> unat shape > G_MAXINST \<or> \<not> undef_map (s_mapstate S (uint grp))")
  case True
  then show ?thesis using assms by (auto simp: fhkS_setshape_def andThen_Inr split: if_splits dest!: map_atD)
next
  case False
  define k where "k = (if shape \<noteq> 0 then SS_PKIVAL 0 (ucast shape) else SS_EMPTYSET)"
  have S': "S' = S\<lparr>s_mapstate := (s_mapstate S)(uint grp := KMap k)\<rparr>"
    using assms(2) False unfolding fhkS_setshape_def k_def [symmetric] by (auto simp: andThen_Inr split: if_splits dest!: map_atD set_mapD)
  have "space_word k" using False space_word_shape(1) [of shape] by (auto simp: k_def space_word_def)
  then have "smap_ok S' (uint grp)" by (simp add: smap_ok_def S')
  then show ?thesis unfolding S' using False assms(1) by (intro define_map_ok) auto
qed

lemma assoc_groupD:
  assumes "solver_ok S" "assoc_group S m = Inr g"
  shows "g = uint (g_umap_assoc (s_G S) ! nat (m + g_nimap (s_G S)))" "0 \<le> g" "g < g_ng (s_G S)"
  using assms(2) solver_okD(1) [OF assms(1)] by (auto simp: assoc_group_def Let_def graph_maps_ok_def list_all_length)

lemma setmapE:
  assumes call: "fhkS_setmap E S emap inst ss = Inr S'" and m_def: "m = map_fromext S emap"
  obtains (fail) "setmap_fail S emap inst = Inr S'"
    | (const) "MAP_ISCONST m" "undef_map (s_mapstate S m)" "S' = S\<lparr>s_mapstate := (s_mapstate S)(m := KMap ss)\<rparr>"
    | (upd) sss where "\<not> MAP_ISCONST m" "s_mapstate S m = IMap sss" "- g_nimap (s_G S) \<le> m" "m < g_nkmap (s_G S)"
        "sss ! unat inst = SS_UNDEF" "S' = S\<lparr>s_mapstate := (s_mapstate S)(m := IMap (sss[unat inst := ss]))\<rparr>"
    | (new) A n g where "\<not> MAP_ISCONST m" "undef_map (s_mapstate S m)" "assoc_group S m = Inr g" "shape_of S g = Some n"
        "S' = S\<lparr>s_arena := A, s_mapstate := (s_mapstate S)(m := IMap ((replicate n SS_UNDEF)[unat inst := ss]))\<rparr>"
proof (cases "setmap_fail S emap inst = Inr S'")
    case False
    have nf: "\<not> (emap < - g_nimap (s_G S) \<or> emap \<ge> g_nkmap (s_G S))" using call False by (auto simp: fhkS_setmap_def)
    show thesis
    proof (cases "MAP_ISCONST m")
      case True
      then show thesis using call nf False const unfolding fhkS_setmap_def m_def [symmetric]
        by (auto simp: andThen_Inr split: if_splits dest!: map_atD set_mapD)
    next
      case const: False
      obtain g space where g: "assoc_group S m = Inr g" "s_mapstate S g = KMap space" "space \<noteq> SS_UNDEF"
        and rng: "- g_nimap (s_G S) \<le> m" "m < g_nkmap (s_G S)"
        and rest: "(case s_mapstate S m of
             IMap sss \<Rightarrow>
               if unat inst < length sss
               then (if sss ! unat inst \<noteq> SS_UNDEF then setmap_fail S emap inst else set_map S m (IMap (sss[unat inst := ss])))
               else Inl Fault
           | KMap k \<Rightarrow>
               if k = SS_UNDEF
               then andThen (alloc_array E S (unat (PK_N1 space)) SS_UNDEF) (\<lambda>(sss, S1). set_map S1 m (IMap (sss[unat inst := ss])))
               else Inl Fault) = Inr S'"
        using call nf False const unfolding fhkS_setmap_def m_def [symmetric]
        by (auto simp: andThen_Inr split: if_splits dest!: map_atD as_kmapD)
      have shape: "shape_of S g = Some (unat (PK_N1 space))" using g by (simp add: shape_of_def)
      show thesis
      proof (cases "s_mapstate S m")
        case (IMap sss)
        then show thesis using rest False upd [OF const IMap rng] by (auto split: if_splits dest!: set_mapD)
      next
        case (KMap k)
        then have "undef_map (s_mapstate S m)" using rest by (auto simp: undef_map_def split: if_splits)
        then show thesis using rest KMap new [OF const _ g(1) shape]
          by (auto simp: andThen_Inr split: if_splits dest!: alloc_array_frame set_mapD)
      qed
    qed
qed (rule fail)

lemma setmap_ok:
  assumes "solver_ok S" "fhkS_setmap E S emap inst ss = Inr S'"
  shows "solver_ok S'"
proof -
  define m where "m = map_fromext S emap"
  have ng: "0 \<le> g_ng (s_G S)" using solver_okD(1) [OF assms(1)] by (simp add: graph_maps_ok_def)
  show ?thesis using assms(2) m_def
  proof (cases rule: setmapE)
    case fail
    then show ?thesis using assms(1) by (auto simp: setmap_fail_def)
  next
    case const
    have "g_ng (s_G S) \<le> m" using const(1) ng by (auto simp: m_def map_fromext_def MAP_ISCONST_def split: if_splits)
    then have "smap_ok S' m" using ng const(3) by (simp add: smap_ok_def)
    then show ?thesis unfolding const(3) using assms(1) const(2) by (intro define_map_ok) auto
  next
    case (upd sss)
    have "smap_ok S m" using solver_okD(2) [OF assms(1)] upd(3,4) .
    then have "smap_ok S' m" using upd(2,6) by (auto simp: smap_ok_def shape_of_def split: anymap.splits if_splits)
    moreover have "extends S S'" using upd(2,6) by (auto simp: extends_def shape_of_def)
    ultimately show ?thesis using upd(6) solver_okD [OF assms(1)] by (intro solver_ok_extends [OF assms(1)]) auto
  next
    case (new A n g)
    have neg: "m < 0" using new(1) by (simp add: MAP_ISCONST_def)
    have g: "g = uint (g_umap_assoc (s_G S) ! nat (m + g_nimap (s_G S)))" "0 \<le> g" using assoc_groupD [OF assms(1) new(3)] by auto
    let ?S = "S\<lparr>s_mapstate := (s_mapstate S)(m := IMap ((replicate n SS_UNDEF)[unat inst := ss]))\<rparr>"
    have "uint (g_umap_assoc (s_G S) ! nat (m + g_nimap (s_G S))) \<noteq> m" using g(2) neg unfolding g(1) by linarith
    moreover have "shape_of S (uint (g_umap_assoc (s_G S) ! nat (m + g_nimap (s_G S)))) = Some n" using new(4) g(1) by simp
    ultimately have "smap_ok ?S m" using neg by (simp add: smap_ok_def shape_of_def)
    then have "solver_ok ?S" using assms(1) new(2) by (intro define_map_ok) auto
    then have "solver_ok (?S\<lparr>s_arena := A\<rparr>)" by simp
    moreover have "S' = ?S\<lparr>s_arena := A\<rparr>" using new(5) by (intro solver.equality) simp_all
    ultimately show ?thesis by simp
  qed
qed

lemma clear_words_len [simp]: "length (bm_cleari bm inst n) = length bm"
  by (simp add: bm_cleari_def)

lemma known_max_ge: "num \<le> known_max S num"
proof -
  have "num \<le> fold (\<lambda>i n. case s_mapstate S i of KMap k \<Rightarrow> max n (sint (PK_NS k)) | IMap _ \<Rightarrow> n) is num" for "is"
    by (induction "is" arbitrary: num) (auto split: anymap.splits intro: order_trans [OF max.cobounded1])
  then show ?thesis by (simp add: known_max_def)
qed

lemma getall0_ok:
  assumes "solver_ok S" "bm_getall0 E S n = Inr (bm, S')"
  shows "solver_ok S'" "n \<le> 8 * length bm" "extends S S'" "s_xstate S' = s_xstate S" "s_mstate S' = s_mstate S"
    "s_mapstate S' = s_mapstate S" "s_G S' = s_G S" "s_value S' = s_value S" "s_mem S' = s_mem S" "e_status S' = e_status S"
proof -
  define num where "num = nat (known_max S (int n)) + 1"
  have num: "n \<le> num" using known_max_ge [of "int n" S] by (simp add: num_def le_nat_iff)
  have "solver_ok S' \<and> n \<le> 8 * length bm \<and> extends S S' \<and> s_xstate S' = s_xstate S \<and> s_mstate S' = s_mstate S \<and>
    s_mapstate S' = s_mapstate S \<and> s_G S' = s_G S \<and> s_value S' = s_value S \<and> s_mem S' = s_mem S \<and> e_status S' = e_status S"
  proof (cases "n \<le> unat (bm0_size S)")
    case True
    then show ?thesis using assms solver_okD(6) [OF assms(1)] by (auto simp: bm_getall0_def)
  next
    case False
    then obtain A where bm: "bm = bm_alloc num 0" and S': "S' = S\<lparr>s_arena := A, bm0_size := of_nat (round_up num 64), bm0_intern := bm\<rparr>"
      using assms(2) unfolding bm_getall0_def num_def [symmetric] by (auto simp: andThen_Inr dest!: S_bm_alloc_frame)
    have ext: "extends S S'" by (auto simp: S' extends_def shape_of_def)
    have "unat (of_nat (round_up num 64) :: u16) \<le> round_up num 64" by (simp add: unsigned_of_nat take_bit_nat_less_eq_self)
    also have "round_up num 64 = 8 * length bm"
    proof -
      have "64 dvd round_up num 64" by simp
      then have "8 dvd round_up num 64" by (rule dvd_trans [rotated]) simp
      then show ?thesis by (simp add: bm bm_alloc_def)
    qed
    finally have "unat (bm0_size S') \<le> 8 * length (bm0_intern S')" by (simp add: S')
    moreover have "n \<le> 8 * length bm" using num bm_alloc_length [of num 0] bm by simp
    moreover have "length (r_buf S') \<le> unat (r_size S')" using solver_okD(5) [OF assms(1)] by (simp add: S')
    ultimately show ?thesis using ext assms(1) by (auto simp: S' intro!: solver_ok_extends [OF assms(1)])
  qed
  then show "solver_ok S'" "n \<le> 8 * length bm" "extends S S'" "s_xstate S' = s_xstate S" "s_mstate S' = s_mstate S"
    "s_mapstate S' = s_mapstate S" "s_G S' = s_G S" "s_value S' = s_value S" "s_mem S' = s_mem S" "e_status S' = e_status S"
    by blast+
qed

lemma set_slot_ok:
  assumes "solver_ok S" "slot_ok (S\<lparr>s_xstate := (s_xstate S)(xi := v)\<rparr>) xi"
  shows "solver_ok (S\<lparr>s_xstate := (s_xstate S)(xi := v)\<rparr>)"
proof (rule solver_ok_extends [OF assms(1)])
  show "s_xstate (S\<lparr>s_xstate := (s_xstate S)(xi := v)\<rparr>) yi = s_xstate S yi \<or> slot_ok (S\<lparr>s_xstate := (s_xstate S)(xi := v)\<rparr>) yi" for yi
    using assms(2) by auto
qed (use solver_okD [OF assms(1)] in \<open>auto simp: extends_def\<close>)

lemma set_partD:
  assumes "set_part E S xi sz sh i k vp = Inr S1"
  obtains bm A p where "s_xstate S xi = XBm bm \<or> s_xstate S xi = XNull \<and> bm = bm_alloc sh (- 1)" "p \<noteq> NULL"
    "i + k \<le> 64 * length bm" "s_value S xi \<noteq> NULL \<Longrightarrow> p = s_value S xi"
    "S1 = S\<lparr>s_arena := A, s_xstate := (s_xstate S)(xi := XBm (bm_cleari bm i k)), s_value := (s_value S)(xi := p),
       s_mem := memcpy (s_mem S) (p + of_nat (i * sz)) vp (of_nat (k * sz))\<rparr>"
proof -
  define rest where "rest = (\<lambda>(bm, S1). andThen (if s_value S1 xi = NULL then S_alloc E S1 (of_nat (sh * sz)) (of_nat sz)
        else Inr (s_value S1 xi, S1)) (\<lambda>(p, S2).
     checked (p \<noteq> NULL \<and> i + k \<le> 64 * length bm)
       (S2\<lparr>s_xstate := (s_xstate S2)(xi := XBm (bm_cleari bm i k)), s_value := (s_value S2)(xi := p),
         s_mem := memcpy (s_mem S2) (p + of_nat (i * sz)) vp (of_nat (k * sz))\<rparr>)))"
  have part: "andThen (case s_xstate S xi of XNull \<Rightarrow> S_bm_alloc E S sh (- 1) | XBm bm \<Rightarrow> Inr (bm, S) | XSsp _ \<Rightarrow> Inl Fault) rest = Inr S1"
    using assms unfolding set_part_def rest_def by simp
  obtain bm A1 where bm: "s_xstate S xi = XBm bm \<or> s_xstate S xi = XNull \<and> bm = bm_alloc sh (- 1)"
    and r: "rest (bm, S\<lparr>s_arena := A1\<rparr>) = Inr S1"
  proof (cases "s_xstate S xi")
    case XNull
    then show thesis using part that by (auto simp: andThen_Inr dest!: S_bm_alloc_frame)
  next
    case (XBm bm)
    have "S\<lparr>s_arena := s_arena S\<rparr> = S" by simp
    then show thesis using part that [of bm "s_arena S"] XBm by simp
  qed (use part in simp)
  obtain p A where "p \<noteq> NULL" "i + k \<le> 64 * length bm" "s_value S xi \<noteq> NULL \<Longrightarrow> p = s_value S xi"
    "S1 = S\<lparr>s_arena := A, s_xstate := (s_xstate S)(xi := XBm (bm_cleari bm i k)), s_value := (s_value S)(xi := p),
       s_mem := memcpy (s_mem S) (p + of_nat (i * sz)) vp (of_nat (k * sz))\<rparr>"
    using r unfolding rest_def by (cases "s_value S xi = NULL") (auto simp: andThen_Inr dest!: S_alloc_frame)
  then show ?thesis using that bm by blast
qed

lemma set_part_ok:
  assumes ok: "solver_ok S" and part: "set_part E S xi sz sh i k vp = Inr S1"
    and x: "vidx (s_G S) xi" "V_GIVEN (gvar (s_G S) xi)" "shape_of S (int (v_group (gvar (s_G S) xi))) = Some sh"
  shows "solver_ok S1"
proof -
  obtain bm A p where bm: "s_xstate S xi = XBm bm \<or> s_xstate S xi = XNull \<and> bm = bm_alloc sh (- 1)"
    and S1: "S1 = S\<lparr>s_arena := A, s_xstate := (s_xstate S)(xi := XBm (bm_cleari bm i k)), s_value := (s_value S)(xi := p),
        s_mem := memcpy (s_mem S) (p + of_nat (i * sz)) vp (of_nat (k * sz))\<rparr>"
    using set_partD [OF part] by metis
  have "sh \<le> 8 * length bm" using bm x solver_okD(3) [OF ok, of xi] bm_alloc_length [of sh "- 1"] by (auto simp: slot_ok_def)
  define S0 where "S0 = S\<lparr>s_arena := A\<rparr>"
  have "slot_ok (S0\<lparr>s_xstate := (s_xstate S0)(xi := XBm (bm_cleari bm i k))\<rparr>) xi"
    using x \<open>sh \<le> 8 * length bm\<close> by (simp add: slot_ok_def S0_def)
  moreover have "solver_ok S0" using ok by (simp add: S0_def)
  ultimately have "solver_ok (S0\<lparr>s_xstate := (s_xstate S0)(xi := XBm (bm_cleari bm i k))\<rparr>)" by (intro set_slot_ok)
  then show ?thesis by (simp add: S1 S0_def)
qed

lemma set_all_ok:
  assumes ok: "solver_ok S" and all: "set_all E S xi sh vp = Inr S1"
    and x: "vidx (s_G S) xi" "V_GIVEN (gvar (s_G S) xi)" "shape_of S (int (v_group (gvar (s_G S) xi))) = Some sh"
  shows "solver_ok S1"
proof -
  obtain bm S2 where g: "bm_getall0 E S sh = Inr (bm, S2)"
    and S1: "S1 = S2\<lparr>s_xstate := (s_xstate S2)(xi := XBm bm), s_value := (s_value S2)(xi := vp)\<rparr>"
    using all by (auto simp: set_all_def andThen_Inr)
  note g0 = getall0_ok [OF ok g]
  have "slot_ok (S2\<lparr>s_xstate := (s_xstate S2)(xi := XBm bm)\<rparr>) xi" using x g0(2,7) g0(3) by (auto simp: slot_ok_def extends_def)
  then have "solver_ok (S2\<lparr>s_xstate := (s_xstate S2)(xi := XBm bm)\<rparr>)" by (rule set_slot_ok [OF g0(1)])
  then have "solver_ok (S2\<lparr>s_xstate := (s_xstate S2)(xi := XBm bm)\<rparr>\<lparr>s_value := (s_value S2)(xi := vp)\<rparr>)" by simp
  then show ?thesis unfolding S1 by simp
qed

lemma setvalueE:
  assumes ok: "solver_ok S" and call: "fhkS_setvaluei E S xi inst n vp = Inr S'"
  obtains (noop) "S' = S"
    | (fail) "setvalue_fail S xi inst = Inr S'"
    | (all) sh where "vidx (s_G S) xi" "V_GIVEN (gvar (s_G S) xi)" "shape_of S (int (v_group (gvar (s_G S) xi))) = Some sh"
        "s_xstate S xi = XNull" "set_all E S xi sh vp = Inr S'"
    | (part) sh where "vidx (s_G S) xi" "V_GIVEN (gvar (s_G S) xi)" "shape_of S (int (v_group (gvar (s_G S) xi))) = Some sh"
        "n \<noteq> 0" "set_part E S xi (v_size (gvar (s_G S) xi)) sh (unat inst) (unat n) vp = Inr S'"
proof (cases "n = 0 \<or> xi > nv (s_G S)")
  case True
  then have "S' = S \<or> setvalue_fail S xi inst = Inr S'" using call by (auto simp: fhkS_setvaluei_def split: if_splits)
  then show thesis using noop fail by blast
next
  case False
  define x where "x = gvar (s_G S) xi"
  obtain space where x: "vidx (s_G S) xi" "s_mapstate S (int (v_group x)) = KMap space"
    and at: "var_at S xi = Inr x" "map_at S (int (v_group x)) = Inr (KMap space)"
    using call False by (auto simp: fhkS_setvaluei_def andThen_Inr x_def dest!: as_kmapD)
      (metis map_atD var_atD)
  have eq: "fhkS_setvaluei E S xi inst n vp = (let shape = unat (PK_N1 space) in
      if \<not> V_GIVEN x \<or> space = SS_UNDEF \<or> unat (ucast inst + n) > shape then setvalue_fail S xi inst
      else if unat (n - ucast inst) = shape
      then (if s_xstate S xi \<noteq> XNull then setvalue_fail S xi inst else set_all E S xi shape vp)
      else (case s_xstate S xi of
              XBm bm \<Rightarrow> if \<not> bm_isset bm (unat inst) then setvalue_fail S xi inst
                         else set_part E S xi (v_size x) shape (unat inst) (unat n) vp
            | _ \<Rightarrow> set_part E S xi (v_size x) shape (unat inst) (unat n) vp))"
    using False at by (simp add: fhkS_setvaluei_def)
  show thesis
  proof (cases "\<not> V_GIVEN x \<or> space = SS_UNDEF \<or> unat (ucast inst + n) > unat (PK_N1 space)")
    case True
    then have "setvalue_fail S xi inst = Inr S'" using call unfolding eq by simp
    then show thesis by (rule fail)
  next
    case ok: False
    then have sh: "V_GIVEN (gvar (s_G S) xi)" "shape_of S (int (v_group (gvar (s_G S) xi))) = Some (unat (PK_N1 space))"
      using x(2) by (auto simp: shape_of_def x_def)
    have "setvalue_fail S xi inst = Inr S' \<or> s_xstate S xi = XNull \<and> set_all E S xi (unat (PK_N1 space)) vp = Inr S' \<or>
        set_part E S xi (v_size x) (unat (PK_N1 space)) (unat inst) (unat n) vp = Inr S'"
      using call ok unfolding eq by (auto split: if_splits xslot.splits)
    then show thesis using False fail all [OF x(1) sh] part [OF x(1) sh] unfolding x_def by blast
  qed
qed

lemma setvalue_ok:
  assumes "solver_ok S" "fhkS_setvaluei E S xi inst n vp = Inr S'"
  shows "solver_ok S'"
  using assms
proof (cases rule: setvalueE)
  case fail
  then show ?thesis using assms(1) by (auto simp: setvalue_fail_def)
qed (use assms(1) set_all_ok set_part_ok in blast)+

lemma root_queue_ok:
  assumes "solver_ok S" "length rb \<le> unat rs"
  shows "solver_ok (S\<lparr>r_size := rs, r_buf := rb\<rparr>)"
  using assms by (intro solver_ok_extends [OF assms(1)]) (auto simp: extends_def dest: solver_okD)

lemma setrooti_ok:
  assumes "solver_ok S" "fhkS_setrooti E S xi inst num buf flags = Inr S'"
  shows "solver_ok S'"
proof -
  obtain A rs rb where S': "S' = S\<lparr>s_arena := A, r_size := rs, r_buf := rb\<rparr>" "length rb \<le> unat rs"
  proof (cases "length (r_buf S) = unat (r_size S)")
    case True
    then show thesis using assms(2) that by (fastforce simp: fhkS_setrooti_def andThen_Inr Let_def dest!: S_alloc_frame)
  next
    case False
    then have "S' = S\<lparr>s_arena := s_arena S, r_size := r_size S, r_buf := r_buf S'\<rparr>" "length (r_buf S') \<le> unat (r_size S)"
      using assms(2) by (auto simp: fhkS_setrooti_def)
    then show thesis using that by blast
  qed
  then show ?thesis using root_queue_ok [of "S\<lparr>s_arena := A\<rparr>" rb rs] assms(1) by simp
qed

lemma setroot_loop_ok: "solver_ok S \<Longrightarrow> setroot_loop E S xi sz buf flags s = Inr S' \<Longrightarrow> solver_ok S'"
proof (induction E S xi sz buf flags s rule: setroot_loop.induct)
  case (1 E S xi sz buf flags s)
  show ?case using 1(2,3) 1(1) by (subst (asm) setroot_loop.simps) (auto split: sum.splits option.splits dest: setrooti_ok)
qed

lemma setroot_ok:
  assumes "solver_ok S" "fhkS_setroot E S xi ss buf = Inr S'"
  shows "solver_ok S'"
  using assms(2)
proof (cases "SS_ISEMPTY ss")
  case False
  have "solver_ok (S\<lparr>s_value := v\<rparr>)" for v using assms(1) by simp
  then show ?thesis using assms False
    by (auto simp: fhkS_setroot_def andThen_Inr Let_def split: if_splits dest: setrooti_ok [rotated] setroot_loop_ok [rotated])
qed (use assms in \<open>simp add: fhkS_setroot_def\<close>)

lemma create_ok:
  assumes "fhk_create_solver E sizeof_S G A = Inr S" "graph_maps_ok G"
  shows "solver_ok S" "s_G S = G" "e_status S = None" "s_mapstate S = (\<lambda>_. KMap SS_UNDEF)" "s_xstate S = (\<lambda>_. XNull)"
  using assms
  by (auto simp: fhk_create_solver_def andThen_Inr solver_ok_def smap_ok_def slot_ok_def mslot_ok_def space_word_def)

text \<open>The states that creation and the caller's functions can produce.\<close>

inductive api_reach :: "env \<Rightarrow> solver \<Rightarrow> bool" for E where
  create: "graph_maps_ok G \<Longrightarrow> fhk_create_solver E sizeof_S G A = Inr S \<Longrightarrow> api_reach E S"
| setroot: "api_reach E S \<Longrightarrow> fhkS_setroot E S xi ss buf = Inr S' \<Longrightarrow> api_reach E S'"
| setshape: "api_reach E S \<Longrightarrow> fhkS_setshape S grp shape = Inr S' \<Longrightarrow> api_reach E S'"
| setvalue: "api_reach E S \<Longrightarrow> fhkS_setvaluei E S xi inst n vp = Inr S' \<Longrightarrow> api_reach E S'"
| setmap: "api_reach E S \<Longrightarrow> fhkS_setmap E S emap inst ss = Inr S' \<Longrightarrow> api_reach E S'"


section \<open>Shapes\<close>

lemma group_map_range:
  assumes "solver_ok S" "0 \<le> g" "g < g_ng (s_G S)"
  shows "- g_nimap (s_G S) \<le> g" "g < g_nkmap (s_G S)"
  using assms solver_okD(1) [OF assms(1)] by (auto simp: graph_maps_ok_def)

text \<open>
  A shape can be set once, and reads back. On a group of the graph with no shape yet, \<^verbatim>\<open>fhkS_setshape\<close> succeeds for every
  shape up to 65534, \<^verbatim>\<open>fhkI_shape\<close> then returns the shape, every other map is kept, and a second
  call leaves the shape as it is and ends the solver with \<^verbatim>\<open>FHKE_OVERWRITE\<close>.
\<close>

theorem setshape_once:
  assumes "solver_ok S" "uint grp < g_ng (s_G S)" "undef_map (s_mapstate S (uint grp))" "unat shape \<le> G_MAXINST"
  shows "\<exists>S'. fhkS_setshape S grp shape = Inr S' \<and> fhkI_shape S' grp = Inr (unat shape) \<and> e_status S' = e_status S \<and>
    (\<forall>m. m \<noteq> uint grp \<longrightarrow> s_mapstate S' m = s_mapstate S m) \<and>
    (\<forall>shape2. unat shape2 \<le> G_MAXINST \<longrightarrow>
       fhkS_setshape S' grp shape2 = Inr (E_exit S' (error_word (FHKE_OVERWRITE OR E_META 1 FHKEI_G (ucast grp)))))"
proof -
  define k where "k = (if shape \<noteq> 0 then SS_PKIVAL 0 (ucast shape) else SS_EMPTYSET)"
  define S' where "S' = S\<lparr>s_mapstate := (s_mapstate S)(uint grp := KMap k)\<rparr>"
  have rng: "- g_nimap (s_G S) \<le> uint grp" "uint grp < g_nkmap (s_G S)" using group_map_range [OF assms(1) _ assms(2)] by simp_all
  have k: "k \<noteq> SS_UNDEF" "unat (PK_N1 k) = unat shape"
    using space_word_shape [of shape] assms(4) by (auto simp: k_def SS_EMPTYSET_def SS_UNDEF_def PK_N1_def)
  have "fhkS_setshape S grp shape = Inr S'"
    using assms rng by (simp add: fhkS_setshape_def map_at_def set_map_def checked_def S'_def k_def)
  moreover have "fhkI_shape S' grp = Inr (unat shape)" using rng k by (simp add: fhkI_shape_def map_at_def checked_def S'_def)
  moreover have "fhkS_setshape S' grp shape2 = Inr (E_exit S' (error_word (FHKE_OVERWRITE OR E_META 1 FHKEI_G (ucast grp))))"
    if "unat shape2 \<le> G_MAXINST" for shape2
    using assms(2) that rng k(1) by (simp add: fhkS_setshape_def map_at_def checked_def S'_def undef_map_def)
  ultimately show ?thesis by (intro exI [of _ S']) (simp add: S'_def)
qed

section \<open>Values\<close>

text \<open>The instances of a given variable that have no value yet.\<close>

definition missing :: "solver \<Rightarrow> int \<Rightarrow> nat \<Rightarrow> bool" where
  "missing S xi j = (case s_xstate S xi of XBm bm \<Rightarrow> bm_isset bm j | _ \<Rightarrow> True)"

lemma bm_alloc_isset: "j < 8 * length (bm_alloc n (- 1)) \<Longrightarrow> bm_isset (bm_alloc n (- 1)) j"
proof -
  assume "j < 8 * length (bm_alloc n (- 1))"
  then have "j div 64 < round_up n 64 div 8" by (simp add: bm_alloc_def)
  then show ?thesis by (simp add: isset_bit bm_alloc_def)
qed

lemma fhkI_value_given:
  assumes "solver_ok S" "vidx (s_G S) xi" "V_GIVEN (gvar (s_G S) xi)" "shape_of S (int (v_group (gvar (s_G S) xi))) = Some sh" "unat j < sh"
  shows "fhkI_value S xi j = Inr (if missing S xi (unat j) then NULL else s_value S xi + of_nat (v_size (gvar (s_G S) xi) * unat j))"
proof (cases "s_xstate S xi")
  case (XBm bm)
  then have "unat j div 64 < length bm" using solver_okD(3) [OF assms(1), of xi] assms(2-5) by (auto simp: slot_ok_def less_mult_imp_div_less mult.commute)
  then show ?thesis using assms XBm by (simp add: fhkI_value_def var_at_def checked_def missing_def)
qed (use assms solver_okD(3) [OF assms(1), of xi] in \<open>auto simp: fhkI_value_def var_at_def checked_def missing_def slot_ok_def\<close>)

lemma part_call:
  assumes "solver_ok S" "vidx (s_G S) xi" "V_GIVEN (gvar (s_G S) xi)" "shape_of S (int (v_group (gvar (s_G S) xi))) = Some sh"
    "0 < n" "unat inst + n \<le> sh" "n \<noteq> unat inst + sh" "missing S xi (unat inst)"
  shows "fhkS_setvaluei E S xi inst (of_nat n) vp = set_part E S xi (v_size (gvar (s_G S) xi)) sh (unat inst) n vp"
proof -
  define x where "x = gvar (s_G S) xi"
  obtain space where sp: "s_mapstate S (int (v_group x)) = KMap space" "space \<noteq> SS_UNDEF" "sh = unat (PK_N1 space)"
    using assms(4) by (auto simp: shape_of_def x_def split: anymap.splits if_splits)
  have "int (v_group x) < g_ng (s_G S)"
    using solver_okD(1) [OF assms(1)] assms(2) by (auto simp: graph_maps_ok_def list_all_length x_def gvar_def vidx_def)
  then have at: "var_at S xi = Inr x" "map_at S (int (v_group x)) = Inr (KMap space)"
    using assms(2) sp(1) group_map_range [OF assms(1), of "int (v_group x)"] by (simp_all add: var_at_def map_at_def checked_def x_def)
  have sh: "sh < 65536" using sp(3) by simp
  then have nn: "unat (of_nat n :: u32) = n" using assms(5,6) by (intro unat_of_nat_small) simp
  then have nz: "(of_nat n :: u32) \<noteq> 0" using assms(5) by (metis less_numeral_extra(3) unat_0)
  have "unat (ucast inst + of_nat n :: u32) = unat inst + n" using assms(6) sh nn by (subst unat_add32) simp_all
  moreover have "unat (of_nat n - ucast inst :: u32) \<noteq> sh"
  proof (cases "unat inst \<le> n")
    case True
    then have "unat (of_nat n - ucast inst :: u32) = n - unat inst" using nn by (simp add: unat_sub_if' unsigned_ucast_eq)
    then show ?thesis using assms(5-7) True by linarith
  next
    case False
    then have "unat (of_nat n - ucast inst :: u32) = n + 2 ^ 32 - unat inst" using nn by (simp add: unat_sub_if' unsigned_ucast_eq)
    then show ?thesis using sh unat_lt16 [of inst] by simp
  qed
  moreover have "\<not> nv (s_G S) < xi" using assms(2) by (simp add: vidx_def)
  ultimately show ?thesis using at nn nz sp assms(3,6,8) solver_okD(3) [OF assms(1), of xi] assms(2)
    by (auto simp: fhkS_setvaluei_def x_def missing_def slot_ok_def split: xslot.splits)
qed

text \<open>
  C21. Giving a part of the values of a variable. When none of the instances has a value yet, \<^verbatim>\<open>fhkS_setvaluei\<close> makes exactly
  these instances available and keeps the others as they were; \<^verbatim>\<open>fhkI_value\<close> then points to
  a copy of the given bytes.
\<close>

theorem setvalue_readback:
  assumes "solver_ok S" "vidx (s_G S) xi" "V_GIVEN (gvar (s_G S) xi)" "shape_of S (int (v_group (gvar (s_G S) xi))) = Some sh"
    "0 < n" "unat inst + n \<le> sh" "n < sh" "\<forall>j. unat inst \<le> j \<longrightarrow> j < unat inst + n \<longrightarrow> missing S xi j"
    "fhkS_setvaluei E S xi inst (of_nat n) vp = Inr S'" "sz = v_size (gvar (s_G S) xi)"
    "unat (s_value S' xi) + sh * sz \<le> 2 ^ 64" "unat j < sh"
  shows "(if unat inst \<le> unat j \<and> unat j < unat inst + n
      then fhkI_value S' xi j = Inr (s_value S' xi + of_nat (sz * unat j)) \<and>
        (\<forall>b < sz. s_mem S' (s_value S' xi + of_nat (sz * unat j + b)) = s_mem S (vp + of_nat (sz * (unat j - unat inst) + b)))
      else missing S' xi (unat j) = missing S xi (unat j))"
proof -
  have "missing S xi (unat inst)" using assms(5,8) by simp
  then have part: "set_part E S xi sz sh (unat inst) n vp = Inr S'"
    using part_call [OF assms(1-6), of E vp] assms(7,9,10) by simp
  obtain bm A p where bm: "s_xstate S xi = XBm bm \<or> s_xstate S xi = XNull \<and> bm = bm_alloc sh (- 1)" "unat inst + n \<le> 64 * length bm"
    and S': "S' = S\<lparr>s_arena := A, s_xstate := (s_xstate S)(xi := XBm (bm_cleari bm (unat inst) n)), s_value := (s_value S)(xi := p),
        s_mem := memcpy (s_mem S) (p + of_nat (unat inst * sz)) vp (of_nat (n * sz))\<rparr>"
    and p: "p \<noteq> NULL" by (rule set_partD [OF part]) blast
  have sh: "sh \<le> 64 * length bm" "sh < 65536"
    using bm(1) assms(2-4) solver_okD(3) [OF assms(1), of xi] bm_alloc_length [of sh "- 1"]
    by (auto simp: slot_ok_def shape_of_def split: anymap.splits if_splits)
  have miss: "missing S xi j' = bm_isset bm j'" if "j' < sh" for j'
    using bm(1) that bm_alloc_isset [of j' sh] bm_alloc_length [of sh "- 1"] by (auto simp: missing_def)
  have cl: "missing S' xi j' \<longleftrightarrow> missing S xi j' \<and> \<not> (unat inst \<le> j' \<and> j' < unat inst + n)" if "j' < sh" for j'
  proof -
    have "bm_isset (bm_cleari bm (unat inst) n) j' \<longleftrightarrow> bm_isset bm j' \<and> \<not> (unat inst \<le> j' \<and> j' < unat inst + n)"
      
    proof (rule cleari_spec)
      show "\<forall>k. unat inst \<le> k \<longrightarrow> k < unat inst + n \<longrightarrow> bm_isset bm k"
      proof (intro allI impI)
        fix k assume k: "unat inst \<le> k" "k < unat inst + n"
        then have "k < sh" using assms(6) by linarith
        then show "bm_isset bm k" using k assms(8) miss [of k] by blast
      qed
      show "j' < 64 * length bm" using that sh(1) by linarith
    qed (use assms(5) bm(2) in auto)
    then show ?thesis using miss [OF that] by (simp add: missing_def S')
  qed
  show ?thesis
  proof (cases "unat inst \<le> unat j \<and> unat j < unat inst + n")
    case True
    have ok': "solver_ok S'" using setvalue_ok [OF assms(1,9)] .
    have "fhkI_value S' xi j = Inr (s_value S' xi + of_nat (sz * unat j))"

    proof -
      have "\<not> missing S' xi (unat j)" using cl [OF assms(12)] True by blast
      moreover have "s_G S' = s_G S" "shape_of S' g = shape_of S g" for g by (simp_all add: S' shape_of_def)
      ultimately show ?thesis using fhkI_value_given [OF ok', of xi sh j] assms(2-4,10,12) by simp
    qed
    moreover have "s_mem S' (s_value S' xi + of_nat (sz * unat j + b)) = s_mem S (vp + of_nat (sz * (unat j - unat inst) + b))"
      if b: "b < sz" for b
    proof -
      define k where "k = unat j - unat inst"
      have k: "unat j = unat inst + k" "k < n" using True by (auto simp: k_def)
      have d: "(p + of_nat (sz * unat j + b)) - (p + of_nat (unat inst * sz)) = of_nat (sz * k + b)"
        by (simp add: k(1) algebra_simps)
      have "(of_nat (sz * k + b) :: u64) < of_nat (n * sz)"
      proof -
        have lt: "sz * k + b < sz * n" using slot_less [OF b k(2)] .
        have "n * sz \<le> sh * sz" using assms(6) by (intro mult_le_mono1) simp
        moreover have "sh * sz < 2 ^ 64" 

        proof -
          have "0 < unat p" using p by (simp add: unat_gt_0)
          then show ?thesis using assms(11) by (simp add: S')
        qed
        ultimately have "n * sz < 2 ^ 64" by (rule le_less_trans)
        then have "unat (of_nat (n * sz) :: u64) = n * sz" "unat (of_nat (sz * k + b) :: u64) = sz * k + b"
          using lt by (auto intro!: unat_of_nat_small simp: mult.commute simp del: of_nat_mult of_nat_add)
        then show ?thesis using lt unfolding word_less_nat_alt by (simp only: mult.commute)
      qed
      then have "memcpy (s_mem S) (p + of_nat (unat inst * sz)) vp (of_nat (n * sz)) (p + of_nat (sz * unat j + b)) =
          s_mem S (vp + of_nat (sz * k + b))"
        unfolding memcpy_def d by simp
      then show ?thesis by (simp add: S' k_def)
    qed
    ultimately show ?thesis using True by simp
  qed (use cl [OF assms(12)] in auto)
qed

text \<open>Nothing checks that the whole run is missing. Giving instances \<open>0 .. 2\<close> when instance \<open>1\<close> has its value already takes the value of
  \<open>1\<close> away and makes instance \<open>3\<close>, which was never given, available.\<close>

lemma overlap_corrupts: "bm_isset (bm_cleari [NOT 2] 0 3) 1 \<and> \<not> bm_isset (bm_cleari [NOT 2] 0 3) 3"
  by code_simp

section \<open>Maps\<close>


text \<open>
  The range check of \<^verbatim>\<open>fhkS_setmap\<close> counts the groups twice: for the last \<^verbatim>\<open>ng\<close> external numbers it accepts, it writes behind
  the array of maps.
\<close>

theorem setmap_out_of_range:
  assumes "0 \<le> g_ng (s_G S)" "0 \<le> g_nimap (s_G S)" "0 \<le> emap" "g_nkmap (s_G S) - g_ng (s_G S) \<le> emap" "emap < g_nkmap (s_G S)"
  shows "fhkS_setmap E S emap inst ss = Inl Fault"
  using assms by (simp add: fhkS_setmap_def map_fromext_def MAP_ISCONST_def map_at_def checked_def)

section \<open>Witnesses\<close>

text \<open>A graph with one given variable of four bytes in one group and one nonconstant map from that group.\<close>

definition api_graph :: fhk_graph where
  "api_graph = \<lparr>g_models = [], g_vars = [\<lparr>v_models = [], v_fwds = [], v_group = 0, v_size = 4\<rparr>], g_shadows = [],
     g_ng = 1, g_nkmap = 1, g_nimap = 1, g_umap_assoc = [0]\<rparr>"

definition api_arena :: arena where
  "api_arena = \<lparr>a_self = 0x1000, a_chunks = [\<lparr>c_addr = 0x1018, c_end = 0x1000000\<rparr>], a_cur = 0, a_mem = 0x2000, a_end = 0x1000000\<rparr>"

definition api_env :: env where
  "api_env = \<lparr>e_malloc = (\<lambda>_ _. NULL), e_caller = (\<lambda>_ S. S)\<rparr>"

lemma api_created: "\<exists>S. fhk_create_solver api_env 1000 api_graph api_arena = Inr S"
  by (simp add: fhk_create_solver_def arena_get_def api_arena_def api_env_def api_graph_def arena_alloc_def bump_def
      MAX_COSTACK_def NUM_ROOTBUF_def SBUF_MIN_BITS_def SBUF_ALIGN_def nx_def ALIGN_def checked_def)

lemma api_graph_ok: "graph_maps_ok api_graph"
  by (simp add: graph_maps_ok_def api_graph_def)


theorem setshape_once_witness:
  "\<exists>S S'. fhk_create_solver api_env 1000 api_graph api_arena = Inr S \<and> fhkS_setshape S 0 40000 = Inr S' \<and> fhkI_shape S' 0 = Inr 40000"
proof -
  obtain S where S: "fhk_create_solver api_env 1000 api_graph api_arena = Inr S" using api_created by blast
  note c = create_ok [OF S api_graph_ok]
  show ?thesis using setshape_once [OF c(1), of 0 40000] S c(2,4) by (auto simp: api_graph_def undef_map_def G_MAXINST_def)
qed

text \<open>The solver after its only group got ten instances.\<close>

definition api_shaped :: solver where
  "api_shaped = \<lparr>s_G = api_graph, s_mstate = (\<lambda>_. None), s_xstate = (\<lambda>_. XNull), s_value = (\<lambda>_. NULL),
     s_mapstate = (\<lambda>_. KMap SS_UNDEF)(0 := KMap (SS_PKIVAL 0 10)), b_off = 0, b_mem = replicate 8 NULL, s_arena = api_arena,
     r_size = 32, r_buf = [], bm0_size = 0, bm0_intern = [], e_status = None, s_mem = (\<lambda>a. ucast a)\<rparr>"

lemma api_shaped_ok: "solver_ok api_shaped" "shape_of api_shaped 0 = Some 10"
proof -
  have p: "unat (PK_N1 (SS_PKIVAL 0 10)) = 10" "SS_PKIVAL 0 10 \<noteq> SS_UNDEF" using pkival_unpack [of 10 0] by simp_all
  then show "shape_of api_shaped 0 = Some 10" by (simp add: shape_of_def api_shaped_def)
  have "space_word (SS_PKIVAL 0 10)" unfolding space_word_def by (intro disjI2 exI [of _ 10]) simp
  then show "solver_ok api_shaped"
    using api_graph_ok by (auto simp: solver_ok_def api_shaped_def smap_ok_def slot_ok_def mslot_ok_def space_word_def api_graph_def)
qed

theorem setvalue_readback_witness:
  "\<exists>S'. fhkS_setvaluei api_env api_shaped 0 2 3 0x500 = Inr S' \<and> s_mem S' (s_value S' 0 + of_nat (4 * 3 + 1)) = 5"
proof -
  have "\<exists>S'. set_part api_env api_shaped 0 4 10 2 3 0x500 = Inr S' \<and> unat (s_value S' 0) + 10 * 4 \<le> 2 ^ 64"
    by (simp add: set_part_def api_shaped_def S_bm_alloc_def alloc_array_def S_alloc_def arena_alloc_def bump_def ALIGN_def
        api_arena_def checked_def bm_alloc_def round_up_def)
  then obtain S' where S': "set_part api_env api_shaped 0 4 10 2 3 0x500 = Inr S'" "unat (s_value S' 0) + 10 * 4 \<le> 2 ^ 64" by blast
  have x: "vidx (s_G api_shaped) 0" "V_GIVEN (gvar (s_G api_shaped) 0)" "v_group (gvar (s_G api_shaped) 0) = 0" "v_size (gvar (s_G api_shaped) 0) = 4"
    "missing api_shaped 0 j" for j
    by (simp_all add: api_shaped_def api_graph_def vidx_def V_GIVEN_def gvar_def missing_def)
  have call: "fhkS_setvaluei api_env api_shaped 0 2 (of_nat 3) 0x500 = Inr S'"
    using part_call [OF api_shaped_ok(1), where xi=0 and sh=10 and n=3 and inst=2 and E=api_env and vp="0x500"] S'(1) x api_shaped_ok(2) by simp
  have p: "0 < (3 :: nat)" "unat (2 :: u16) + 3 \<le> 10" "3 < (10 :: nat)" "unat (3 :: u16) < 10"
    "\<forall>j. unat (2 :: u16) \<le> j \<longrightarrow> j < unat (2 :: u16) + 3 \<longrightarrow> missing api_shaped 0 j"
    "shape_of api_shaped (int (v_group (gvar (s_G api_shaped) 0))) = Some 10"
    using x api_shaped_ok(2) by simp_all
  have c: "unat (2 :: u16) \<le> unat (3 :: u16) \<and> unat (3 :: u16) < unat (2 :: u16) + 3" by simp
  note r = setvalue_readback [OF api_shaped_ok(1) x(1,2) p(6,1,2,3,5) call x(4) [symmetric] S'(2) p(4), unfolded if_P [OF c]]
  have "s_mem S' (s_value S' 0 + of_nat (4 * unat (3 :: u16) + 1)) = s_mem api_shaped (0x500 + of_nat (4 * (unat (3 :: u16) - unat (2 :: u16)) + 1))"
    using r by (elim conjE allE [of _ 1]) simp
  then have "s_mem S' (s_value S' 0 + of_nat (4 * 3 + 1)) = 5" by (simp add: api_shaped_def)
  then show ?thesis using call by auto
qed


theorem setmap_out_of_range_witness: "fhkS_setmap api_env api_shaped 0 4 SS_EMPTYSET = Inl Fault"
  by (rule setmap_out_of_range) (simp_all add: api_shaped_def api_graph_def)

end
