(* ===== verification/Fhk_Expand.thy ===== *)
theory Fhk_Expand
  imports Fhk_SolverApi
begin

text \<open>
  The parts of the solver that ask the caller for what is not known yet, \<^verbatim>\<open>src/src/fhk/solve.c\<close>: shapes, maps and given values; and
  the arrays that are made when they are first needed. Each of them yields to the caller and checks
  afterwards that the answer is there.
\<close>

section \<open>Maps and shapes\<close>

definition S_expandumap :: "env \<Rightarrow> solver \<Rightarrow> int \<Rightarrow> nat \<Rightarrow> stop + fhk_subset \<times> solver" where
  "S_expandumap E S m inst =
     andThen (map_at S m) (\<lambda>ms.
       let fin = (\<lambda>S1. andThen (map_at S1 m) (\<lambda>ms1. andThen (imap_at ms1 inst) (\<lambda>ss.
                    if ss = SS_UNDEF then Inl (JE_nmap m inst) else Inr (ss, S1)))) in
       if undef_map ms
       then andThen (if 0 \<le> m \<and> m < g_ng (s_G S) then J_shape E S m else J_mapcall E S (map_toext S m) inst) (\<lambda>S1.
         andThen (map_at S1 m) (\<lambda>ms1.
           if undef_map ms1 then Inl (JE_nmap m inst)
           else if MAP_ISCONST m then andThen (as_kmap ms1) (\<lambda>k. Inr (k, S1))
           else fin S1))
       else if MAP_ISCONST m then andThen (as_kmap ms) (\<lambda>k. Inr (k, S))
       else andThen (imap_at ms inst) (\<lambda>ss.
         if ss \<noteq> SS_UNDEF then Inr (ss, S)
         else andThen (J_mapcall E S (map_toext S m) inst) fin))"

definition S_expandmap :: "env \<Rightarrow> solver \<Rightarrow> int \<Rightarrow> nat \<Rightarrow> stop + solver" where
  "S_expandmap E S m inst =
     (if m = MAP_IDENT then Inr S else andThen (S_expandumap E S m inst) (\<lambda>(_, S1). Inr S1))"

definition S_shape :: "env \<Rightarrow> solver \<Rightarrow> nat \<Rightarrow> stop + nat \<times> solver" where
  "S_shape E S grp = andThen (S_expandumap E S (int grp) FHK_NINST) (\<lambda>(ss, S1). Inr (unat (PK_N1 ss), S1))"

definition S_map_size :: "env \<Rightarrow> solver \<Rightarrow> int \<Rightarrow> nat \<Rightarrow> stop + usize \<times> solver" where
  "S_map_size E S m inst =
     (if m = MAP_IDENT then Inr (1, S)
      else andThen (S_expandumap E S m inst) (\<lambda>(ss, S1).
        Inr (if \<not> SS_ISCOMPLEX ss then PK_N1 ss else ss_csize (ivm S1) ss, S1)))"

section \<open>Arrays made on demand\<close>

definition model_at :: "solver \<Rightarrow> int \<Rightarrow> stop + fhk_model" where
  "model_at S mi = checked (midx (s_G S) mi) (gmodel (s_G S) mi)"

definition shadow_at :: "solver \<Rightarrow> int \<Rightarrow> stop + fhk_shadow" where
  "shadow_at S wi = checked (nv (s_G S) \<le> wi \<and> wi < nx (s_G S)) (gshadow (s_G S) wi)"

definition S_vexpandsp :: "env \<Rightarrow> solver \<Rightarrow> int \<Rightarrow> stop + solver" where
  "S_vexpandsp E S xi =
     (if s_xstate S xi \<noteq> XNull then Inr S
      else andThen (var_at S xi) (\<lambda>x. andThen (S_shape E S (v_group x)) (\<lambda>(n, S1).
        andThen (ssp_alloc E S1 n \<lparr>sp_cost = 0, sp_state = 0\<rparr>) (\<lambda>(sps, S2).
          Inr (S2\<lparr>s_xstate := (s_xstate S2)(xi := XSsp sps)\<rparr>)))))"

definition S_vexpandss :: "env \<Rightarrow> solver \<Rightarrow> int \<Rightarrow> stop + solver" where
  "S_vexpandss E S wi =
     (if s_xstate S wi \<noteq> XNull then Inr S
      else andThen (shadow_at S wi) (\<lambda>w. andThen (S_shape E S (w_group w)) (\<lambda>(n, S1).
        andThen (S_bm_alloc E S1 n 0) (\<lambda>(bm, S2). Inr (S2\<lparr>s_xstate := (s_xstate S2)(wi := XBm bm)\<rparr>)))))"

definition S_vexpandvp :: "env \<Rightarrow> solver \<Rightarrow> int \<Rightarrow> stop + solver" where
  "S_vexpandvp E S xi =
     (if s_value S xi \<noteq> NULL then Inr S
      else andThen (var_at S xi) (\<lambda>x. andThen (S_shape E S (v_group x)) (\<lambda>(n, S1).
        andThen (S_alloc E S1 (of_nat (n * v_size x)) (of_nat (v_size x))) (\<lambda>(p, S2).
          Inr (S2\<lparr>s_value := (s_value S2)(xi := p)\<rparr>)))))"

definition S_mexpandsp :: "env \<Rightarrow> solver \<Rightarrow> int \<Rightarrow> stop + solver" where
  "S_mexpandsp E S mi =
     (if s_mstate S mi \<noteq> None then Inr S
      else andThen (model_at S mi) (\<lambda>m. andThen (S_shape E S (m_group m)) (\<lambda>(n, S1).
        andThen (ssp_alloc E S1 n \<lparr>sp_cost = m_cmin m, sp_state = 0\<rparr>) (\<lambda>(sps, S2).
          Inr (S2\<lparr>s_mstate := (s_mstate S2)(mi := Some sps)\<rparr>)))))"

definition S_mexpandvp :: "env \<Rightarrow> solver \<Rightarrow> int \<Rightarrow> stop + solver" where
  "S_mexpandvp E S mi =
     (if s_value S mi \<noteq> NULL then Inr S
      else andThen (model_at S mi) (\<lambda>m. andThen (S_shape E S (m_group m)) (\<lambda>(n, S1).
        andThen (S_alloc E S1 (of_nat (n * length (m_returns m) * 8)) 8) (\<lambda>(p, S2).
          Inr (S2\<lparr>s_value := (s_value S2)(mi := p)\<rparr>)))))"

text \<open>The loops over the edges of a node.\<close>

fun each :: "('a \<Rightarrow> solver \<Rightarrow> stop + solver) \<Rightarrow> 'a list \<Rightarrow> solver \<Rightarrow> stop + solver" where
  "each f [] S = Inr S"
| "each f (a # as) S = (case f a S of Inl e \<Rightarrow> Inl e | Inr S1 \<Rightarrow> each f as S1)"

definition S_vexpandbe :: "env \<Rightarrow> solver \<Rightarrow> int \<Rightarrow> nat \<Rightarrow> stop + solver" where
  "S_vexpandbe E S xi inst =
     andThen (var_at S xi) (\<lambda>x. andThen (checked (v_models x \<noteq> []) ()) (\<lambda>_.
       each (\<lambda>e S. andThen (S_mexpandsp E S (e_idx e)) (\<lambda>S1. S_expandmap E S1 (e_map e) inst)) (v_models x) S))"

definition S_mexpandbe :: "env \<Rightarrow> solver \<Rightarrow> int \<Rightarrow> nat \<Rightarrow> stop + solver" where
  "S_mexpandbe E S mi inst =
     andThen (model_at S mi) (\<lambda>m.
     andThen (each (\<lambda>e S. andThen (S_vexpandss E S (se_idx e)) (\<lambda>S1. S_expandmap E S1 (se_map e) inst)) (m_shadows m) S) (\<lambda>S1.
       each (\<lambda>e S. andThen (S_vexpandsp E S (e_idx e)) (\<lambda>S2. S_expandmap E S2 (e_map e) inst)) (take (m_cparam m) (m_params m)) S1))"

section \<open>Given values\<close>

definition vm_at :: "solver \<Rightarrow> int \<Rightarrow> stop + bitmap" where
  "vm_at S xi = (case s_xstate S xi of XBm bm \<Rightarrow> Inr bm | _ \<Rightarrow> Inl Fault)"

definition bm_get :: "bitmap \<Rightarrow> nat \<Rightarrow> stop + bool" where
  "bm_get bm inst = checked (inst div 64 < length bm) (bm_isset bm inst)"

definition S_touch_vmstate :: "env \<Rightarrow> solver \<Rightarrow> int \<Rightarrow> nat \<Rightarrow> stop + solver" where
  "S_touch_vmstate E S xi inst =
     (if s_xstate S xi \<noteq> XNull then Inr S
      else andThen (J_vref E S xi inst) (\<lambda>S1. if s_xstate S1 xi = XNull then Inl (JE_nvalue xi inst) else Inr S1))"

text \<open>The loop of \<^verbatim>\<open>S_get_missingi\<close>: every round fills the first missing instance or ends the solver, so there are at most
  \<open>end - inst\<close> rounds and one search that fails. The bitmap is read where it is stored: nothing replaces the bitmap
  of a variable.\<close>

fun S_get_missingi :: "env \<Rightarrow> nat \<Rightarrow> solver \<Rightarrow> int \<Rightarrow> nat \<Rightarrow> nat \<Rightarrow> stop + solver" where
  "S_get_missingi E 0 S xi inst e = Inl Fuel"
| "S_get_missingi E (Suc fuel) S xi inst e =
     andThen (vm_at S xi) (\<lambda>bm.
     andThen (checked (e div 64 < length bm) (bm_findi bm inst e)) (\<lambda>(found, i).
       if \<not> found then Inr S
       else andThen (J_vref E S xi i) (\<lambda>S1.
         andThen (vm_at S1 xi) (\<lambda>bm1. andThen (bm_get bm1 i) (\<lambda>miss.
           if miss then Inl (JE_nvalue xi i) else S_get_missingi E fuel S1 xi i e)))))"

definition S_get_given1 :: "env \<Rightarrow> solver \<Rightarrow> int \<Rightarrow> nat \<Rightarrow> stop + solver" where
  "S_get_given1 E S xi inst =
     andThen (S_touch_vmstate E S xi inst) (\<lambda>S1.
     andThen (vm_at S1 xi) (\<lambda>bm. andThen (bm_get bm inst) (\<lambda>miss.
       if \<not> miss then Inr S1
       else andThen (J_vref E S1 xi inst) (\<lambda>S2. andThen (vm_at S2 xi) (\<lambda>bm2. andThen (bm_get bm2 inst) (\<lambda>miss2.
         if miss2 then Inl (JE_nvalue xi inst) else Inr S2))))))"

definition S_get_giveni :: "env \<Rightarrow> solver \<Rightarrow> int \<Rightarrow> nat \<Rightarrow> nat \<Rightarrow> stop + solver" where
  "S_get_giveni E S xi inst e =
     andThen (S_touch_vmstate E S xi inst) (\<lambda>S1. S_get_missingi E (Suc (e - inst)) S1 xi inst e)"

function get_given_si3_loop :: "env \<Rightarrow> solver \<Rightarrow> int \<Rightarrow> si3 \<Rightarrow> stop + solver" where
  "get_given_si3_loop E S xi s =
     (case S_get_missingi E (Suc (unat (si_num s))) S xi (unat (si_inst s)) (unat (si_inst s) + unat (si_num s)) of
        Inl e \<Rightarrow> Inl e
      | Inr S1 \<Rightarrow> (case SI3_NEXTI (ivm S1) s of Some s1 \<Rightarrow> get_given_si3_loop E S1 xi s1 | None \<Rightarrow> Inr S1))"
  by pat_completeness auto
termination
  by (relation "measure (\<lambda>(E, S, xi, s). unat (si_ip s AND 0xffff))")
    (auto simp: SI3_NEXTI_def si3_cnexti_def si3_ip_next unat_gt_0 split: if_splits)

declare get_given_si3_loop.simps [simp del]

definition S_get_given_si3 :: "env \<Rightarrow> solver \<Rightarrow> int \<Rightarrow> si3 \<Rightarrow> stop + solver" where
  "S_get_given_si3 E S xi s =
     andThen (S_touch_vmstate E S xi (unat (si_inst s))) (\<lambda>S1. get_given_si3_loop E S1 xi s)"

definition S_get_given :: "env \<Rightarrow> solver \<Rightarrow> int \<Rightarrow> int \<Rightarrow> nat \<Rightarrow> stop + solver" where
  "S_get_given E S xi m inst =
     (if m = MAP_IDENT then S_get_given1 E S xi inst
      else andThen (S_expandumap E S m inst) (\<lambda>(ss, S1).
        if \<not> SS_ISEMPTY ss then S_get_given_si3 E S1 xi (si3_ss (ivm S1) ss) else Inr S1))"

section \<open>Scanning\<close>

fun scan_computed :: "ssp list \<Rightarrow> nat \<Rightarrow> nat \<Rightarrow> stop + nat" where
  "scan_computed sps 0 inst = Inr inst"
| "scan_computed sps (Suc n) inst =
     (if inst < length sps
      then (if \<not> sp_has (sp_state (sps ! inst)) SP_VALUE then Inr inst else scan_computed sps n (inst + 1))
      else Inl Fault)"

definition space_of :: "solver \<Rightarrow> nat \<Rightarrow> stop + fhk_subset" where
  "space_of S grp = andThen (map_at S (int grp)) as_kmap"

definition scanv_computed :: "solver \<Rightarrow> int \<Rightarrow> nat \<Rightarrow> nat \<Rightarrow> stop + nat" where
  "scanv_computed S xi grp inst =
     andThen (space_of S grp) (\<lambda>k.
       (case s_xstate S xi of XSsp sps \<Rightarrow> scan_computed sps (unat (PK_N k) + 1 - inst) inst | _ \<Rightarrow> Inl Fault))"

definition scanv_given :: "solver \<Rightarrow> int \<Rightarrow> nat \<Rightarrow> nat \<Rightarrow> stop + nat" where
  "scanv_given S xi grp inst =
     andThen (space_of S grp) (\<lambda>k. andThen (vm_at S xi) (\<lambda>bm.
       let e = unat (PK_N1 k); r = bm_findi bm inst e in
       checked (inst div 64 < length bm \<and> e div 64 < length bm) (if fst r then snd r else e)))"

section \<open>The caller\<close>

text \<open>What a caller may do between a yield and the next \<^verbatim>\<open>fhk_continue\<close>: call the functions of the solver, giving only values that are
  missing, and write memory.\<close>

inductive calls :: "env \<Rightarrow> solver \<Rightarrow> solver \<Rightarrow> bool" for E where
  start: "calls E S S"
| setroot: "calls E S S1 \<Longrightarrow> fhkS_setroot E S1 xi ss buf = Inr S2 \<Longrightarrow> calls E S S2"
| setshape: "calls E S S1 \<Longrightarrow> fhkS_setshape S1 grp shape = Inr S2 \<Longrightarrow> calls E S S2"
| setvalue: "calls E S S1 \<Longrightarrow> (\<forall>j. unat inst \<le> j \<longrightarrow> j < unat inst + unat n \<longrightarrow> missing S1 xi j) \<Longrightarrow>
    unat inst + unat n < 2 ^ 32 \<Longrightarrow> fhkS_setvaluei E S1 xi inst n vp = Inr S2 \<Longrightarrow> calls E S S2"
| setmap: "calls E S S1 \<Longrightarrow> fhkS_setmap E S1 emap inst ss = Inr S2 \<Longrightarrow> calls E S S2"
| mem_write: "calls E S S1 \<Longrightarrow> calls E S (S1\<lparr>s_mem := bytes\<rparr>)"

definition caller_ok :: "env \<Rightarrow> bool" where
  "caller_ok E \<longleftrightarrow> (\<forall>st S. calls E S (e_caller E st S))"

text \<open>What calls keep: search states, shadow bitmaps and the parts of maps that are set; given values are only added.\<close>

definition map_grows :: "anymap \<Rightarrow> anymap \<Rightarrow> bool" where
  "map_grows a b \<longleftrightarrow>
     (case a of
        KMap k \<Rightarrow> k = SS_UNDEF \<or> b = a
      | IMap ss \<Rightarrow> (\<exists>ss'. b = IMap ss' \<and> length ss' = length ss \<and> (\<forall>i < length ss. ss ! i = SS_UNDEF \<or> ss' ! i = ss ! i)))"

definition given_grows :: "xslot \<Rightarrow> xslot \<Rightarrow> bool" where
  "given_grows a b \<longleftrightarrow>
     (case a of
        XBm bm \<Rightarrow> (\<exists>bm'. b = XBm bm' \<and> length bm' = length bm \<and> (\<forall>j < 64 * length bm. bm_isset bm' j \<longrightarrow> bm_isset bm j))
      | _ \<Rightarrow> True)"

definition is_given :: "fhk_graph \<Rightarrow> int \<Rightarrow> bool" where
  "is_given G xi \<longleftrightarrow> vidx G xi \<and> V_GIVEN (gvar G xi)"

definition sgrows :: "solver \<Rightarrow> solver \<Rightarrow> bool" where
  "sgrows S S' \<longleftrightarrow> s_G S' = s_G S \<and> s_mstate S' = s_mstate S \<and>
     (\<forall>m. map_grows (s_mapstate S m) (s_mapstate S' m)) \<and>
     (\<forall>xi. if is_given (s_G S) xi then given_grows (s_xstate S xi) (s_xstate S' xi) else s_xstate S' xi = s_xstate S xi)"

lemma map_grows_refl [simp]: "map_grows a a"
  by (simp add: map_grows_def split: anymap.splits)

lemma map_grows_trans: "map_grows a b \<Longrightarrow> map_grows b c \<Longrightarrow> map_grows a c"
  by (auto simp: map_grows_def split: anymap.splits) metis

lemma given_grows_refl [simp]: "given_grows a a"
  by (simp add: given_grows_def split: xslot.splits)

lemma given_grows_trans: "given_grows a b \<Longrightarrow> given_grows b c \<Longrightarrow> given_grows a c"
  by (auto simp: given_grows_def split: xslot.splits)

lemma sgrows_refl [simp]: "sgrows S S"
  by (simp add: sgrows_def)

lemma sgrows_trans: "sgrows S S1 \<Longrightarrow> sgrows S1 S2 \<Longrightarrow> sgrows S S2"
  unfolding sgrows_def by (metis map_grows_trans given_grows_trans)

lemma grows_same:
  assumes "s_G S' = s_G S" "s_mstate S' = s_mstate S" "s_mapstate S' = s_mapstate S" "s_xstate S' = s_xstate S"
  shows "sgrows S S'"
  using assms by (simp add: sgrows_def)

lemma grows_extends: "sgrows S S' \<Longrightarrow> extends S S'"
  unfolding sgrows_def extends_def shape_of_def map_grows_def by (fastforce split: anymap.splits)

lemma define_map_grows: "undef_map (s_mapstate S m) \<Longrightarrow> sgrows S (S\<lparr>s_mapstate := (s_mapstate S)(m := v)\<rparr>)"
  by (auto simp: sgrows_def undef_map_def map_grows_def split: anymap.splits)

lemma grows_E_exit [simp]: "sgrows S (E_exit S st)"
  by (rule grows_same) (simp_all add: E_exit_def)

lemma setrooti_frame:
  assumes "fhkS_setrooti E S xi inst num buf flags = Inr S'"
  shows "\<exists>A rs rb. S' = S\<lparr>s_arena := A, r_size := rs, r_buf := rb\<rparr>"
proof (cases "length (r_buf S) = unat (r_size S)")
  case True
  then show ?thesis using assms by (fastforce simp: fhkS_setrooti_def andThen_Inr Let_def dest!: S_alloc_frame)
next
  case False
  then have "S' = S\<lparr>s_arena := s_arena S, r_size := r_size S, r_buf := r_buf S'\<rparr>"
    using assms by (auto simp: fhkS_setrooti_def)
  then show ?thesis by blast
qed

lemma setrooti_grows: "fhkS_setrooti E S xi inst num buf flags = Inr S' \<Longrightarrow> sgrows S S'"
  by (drule setrooti_frame) (auto intro: grows_same)

lemma setroot_loop_grows: "setroot_loop E S xi sz buf flags s = Inr S' \<Longrightarrow> sgrows S S'"
proof (induction E S xi sz buf flags s rule: setroot_loop.induct)
  case (1 E S xi sz buf flags s)
  show ?case using 1(2) 1(1)
    by (subst (asm) setroot_loop.simps) (auto split: sum.splits option.splits dest: setrooti_grows intro: sgrows_trans)
qed

lemma setroot_grows:
  assumes "fhkS_setroot E S xi ss buf = Inr S'"
  shows "sgrows S S'"
proof -
  have "sgrows S (S\<lparr>s_value := v\<rparr>)" for v by (rule grows_same) simp_all
  then show ?thesis using assms
    by (auto simp: fhkS_setroot_def andThen_Inr Let_def split: if_splits
        dest!: setrooti_grows setroot_loop_grows intro: sgrows_trans)
qed

lemma setshape_grows:
  assumes "fhkS_setshape S grp shape = Inr S'"
  shows "sgrows S S'"
  using assms by (auto simp: fhkS_setshape_def andThen_Inr split: if_splits dest!: map_atD set_mapD intro: define_map_grows)
    (metis grows_E_exit)+

lemma given_slot_grows:
  assumes "is_given (s_G S) xi" "given_grows (s_xstate S xi) v" "s_G S' = s_G S" "s_mstate S' = s_mstate S" "s_mapstate S' = s_mapstate S"
    "s_xstate S' = (s_xstate S)(xi := v)"
  shows "sgrows S S'"
  using assms by (auto simp: sgrows_def)

lemma setvalue_grows:
  assumes ok: "solver_ok S" and call: "fhkS_setvaluei E S xi inst n vp = Inr S'"
    and miss: "\<forall>j. unat inst \<le> j \<longrightarrow> j < unat inst + unat n \<longrightarrow> missing S xi j"
  shows "sgrows S S'"
  using ok call
proof (cases rule: setvalueE)
  case fail
  then show ?thesis by (auto simp: setvalue_fail_def)
next
  case (all sh)
  then obtain bm S1 where g: "bm_getall0 E S sh = Inr (bm, S1)"
    and S': "S' = S1\<lparr>s_xstate := (s_xstate S1)(xi := XBm bm), s_value := (s_value S1)(xi := vp)\<rparr>"
    by (auto simp: set_all_def andThen_Inr)
  show ?thesis using all(1,2,4) getall0_ok [OF ok g]
    by (intro given_slot_grows [of S xi "XBm bm"]) (auto simp: S' is_given_def given_grows_def)
next
  case (part sh)
  obtain bm A p where bm: "s_xstate S xi = XBm bm \<or> s_xstate S xi = XNull \<and> bm = bm_alloc sh (- 1)" "unat inst + unat n \<le> 64 * length bm"
    and S': "S' = S\<lparr>s_arena := A, s_xstate := (s_xstate S)(xi := XBm (bm_cleari bm (unat inst) (unat n))), s_value := (s_value S)(xi := p),
       s_mem := memcpy (s_mem S) (p + of_nat (unat inst * v_size (gvar (s_G S) xi))) vp (of_nat (unat n * v_size (gvar (s_G S) xi)))\<rparr>"
    by (rule set_partD [OF part(5)]) blast
  have n: "0 < unat n" using part(4) by (simp add: unat_gt_0)
  have "given_grows (s_xstate S xi) (XBm (bm_cleari bm (unat inst) (unat n)))"
  proof (cases "s_xstate S xi = XNull")
    case False
    then have x: "s_xstate S xi = XBm bm" using bm(1) by blast
    have "bm_isset bm j" if "bm_isset (bm_cleari bm (unat inst) (unat n)) j" "j < 64 * length bm" for j
      using cleari_spec [OF n bm(2) _ that(2)] that(1) miss x by (simp add: missing_def)
    then show ?thesis using x by (simp add: given_grows_def)
  qed (simp add: given_grows_def)
  then show ?thesis using part(1,2) by (intro given_slot_grows [of S xi]) (auto simp: S' is_given_def)
qed simp

lemma setmap_grows:
  assumes "fhkS_setmap E S emap inst ss = Inr S'"
  shows "sgrows S S'"
  using assms refl [of "map_fromext S emap"]
proof (cases rule: setmapE)
  case fail
  then show ?thesis by (auto simp: setmap_fail_def)
next
  case const
  then show ?thesis using define_map_grows by simp
next
  case (upd sss)
  have "map_grows (IMap sss) (IMap (sss[unat inst := ss]))"
  proof -
    have "sss ! i = SS_UNDEF \<or> sss[unat inst := ss] ! i = sss ! i" for i
      using upd(5) by (cases "i = unat inst") auto
    then show ?thesis by (simp add: map_grows_def)
  qed
  then show ?thesis using upd(2,6) by (simp add: sgrows_def)
next
  case (new A n g)
  have "sgrows S (S\<lparr>s_mapstate := (s_mapstate S)(map_fromext S emap := IMap ((replicate n SS_UNDEF)[unat inst := ss]))\<rparr>)"
    using new(2) by (rule define_map_grows)
  moreover have "sgrows (S\<lparr>s_mapstate := (s_mapstate S)(map_fromext S emap := IMap ((replicate n SS_UNDEF)[unat inst := ss]))\<rparr>) S'"
    using new(5) by (intro grows_same) simp_all
  ultimately show ?thesis by (rule sgrows_trans)
qed

lemma calls_grows:
  assumes "calls E S S'" "solver_ok S"
  shows "solver_ok S' \<and> sgrows S S'"
  using assms
proof (induction rule: calls.induct)
  case (mem_write S S1 bytes)
  moreover have "sgrows S1 (S1\<lparr>s_mem := bytes\<rparr>)" by (rule grows_same) simp_all
  ultimately show ?case using sgrows_trans by auto
qed (auto dest: setroot_ok setshape_ok setvalue_ok setmap_ok setroot_grows setshape_grows setvalue_grows setmap_grows intro: sgrows_trans)

lemma yield_grows:
  assumes "caller_ok E" "solver_ok S" "fhkJ_yield E S st = Inr S'"
  shows "solver_ok S'" "sgrows S S'"
  using assms calls_grows [of E S S'] by (auto simp: fhkJ_yield_def caller_ok_def Let_def split: option.splits)

section \<open>Maps are asked for once\<close>

text \<open>The subset of a map at an instance, when it is known.\<close>

definition map_val :: "solver \<Rightarrow> int \<Rightarrow> nat \<Rightarrow> fhk_subset option" where
  "map_val S m inst =
     (case s_mapstate S m of
        KMap k \<Rightarrow> if k = SS_UNDEF then None else Some k
      | IMap sss \<Rightarrow> if inst < length sss \<and> sss ! inst \<noteq> SS_UNDEF then Some (sss ! inst) else None)"

lemma map_val_grows: "sgrows S S' \<Longrightarrow> map_val S m inst = Some ss \<Longrightarrow> map_val S' m inst = Some ss"
  unfolding sgrows_def map_val_def map_grows_def by (fastforce split: anymap.splits if_splits)

lemma map_in_range: "map_at S m = Inr ms \<longleftrightarrow> - g_nimap (s_G S) \<le> m \<and> m < g_nkmap (s_G S) \<and> ms = s_mapstate S m"
  by (auto simp: map_at_def)

lemma expandumap_spec:
  assumes "caller_ok E" "solver_ok S" "S_expandumap E S m inst = Inr (ss, S')"
  shows "solver_ok S'" "sgrows S S'" "map_val S' m inst = Some ss" "ss \<noteq> SS_UNDEF" "map_val S m inst \<noteq> None \<Longrightarrow> S' = S"
proof -
  have rng: "- g_nimap (s_G S) \<le> m" "m < g_nkmap (s_G S)" using assms(3) by (auto simp: S_expandumap_def andThen_Inr map_in_range)
  have mok: "smap_ok S m" using solver_okD(2) [OF assms(2)] rng .
  have yields: "J_shape E S g = Inr S1 \<Longrightarrow> solver_ok S1 \<and> sgrows S S1" "J_mapcall E S em i = Inr S1 \<Longrightarrow> solver_ok S1 \<and> sgrows S S1" for g em i S1
    using yield_grows [OF assms(1,2)] by (simp_all add: J_shape_def J_mapcall_def)
  have "solver_ok S' \<and> sgrows S S' \<and> map_val S' m inst = Some ss \<and> ss \<noteq> SS_UNDEF \<and> (map_val S m inst \<noteq> None \<longrightarrow> S' = S)"
  proof (cases "undef_map (s_mapstate S m)")
    case True
    then obtain "solver_ok S'" "sgrows S S'" "\<not> undef_map (s_mapstate S' m)"
      "MAP_ISCONST m \<and> s_mapstate S' m = KMap ss \<or> \<not> MAP_ISCONST m \<and> imap_at (s_mapstate S' m) inst = Inr ss \<and> ss \<noteq> SS_UNDEF"
      using assms(3) unfolding S_expandumap_def
      by (auto simp: andThen_Inr map_in_range split: if_splits dest!: as_kmapD dest: yields)
    then show ?thesis using True by (auto simp: map_val_def undef_map_def split: anymap.splits if_splits)
  next
    case def: False
    show ?thesis
    proof (cases "MAP_ISCONST m")
      case True
      then show ?thesis using assms(2,3) def unfolding S_expandumap_def
        by (auto simp: andThen_Inr map_in_range map_val_def undef_map_def split: if_splits dest!: as_kmapD)
    next
      case False
      then obtain sss where sss: "s_mapstate S m = IMap sss" "inst < length sss"
        using assms(3) def unfolding S_expandumap_def
        by (cases "s_mapstate S m") (auto simp: andThen_Inr map_in_range undef_map_def split: if_splits)
      show ?thesis
      proof (cases "sss ! inst = SS_UNDEF")
        case True
        then have "J_mapcall E S (map_toext S m) inst = Inr S' \<and> imap_at (s_mapstate S' m) inst = Inr ss \<and> ss \<noteq> SS_UNDEF"
          using assms(3) def False sss unfolding S_expandumap_def
          by (auto simp: andThen_Inr map_in_range undef_map_def split: if_splits)
        then show ?thesis using yields(2) True sss by (cases "s_mapstate S' m") (auto simp: map_val_def)
      next
        case unset: False
        then show ?thesis using assms(2,3) def False sss unfolding S_expandumap_def
          by (auto simp: andThen_Inr map_in_range undef_map_def map_val_def split: if_splits)
      qed
    qed
  qed
  then show "solver_ok S'" "sgrows S S'" "map_val S' m inst = Some ss" "ss \<noteq> SS_UNDEF" "map_val S m inst \<noteq> None \<Longrightarrow> S' = S" by blast+
qed

lemma expandumap_known:
  assumes "solver_ok S" "- g_nimap (s_G S) \<le> m" "m < g_nkmap (s_G S)" "map_val S m inst = Some ss"
  shows "S_expandumap E S m inst = Inr (ss, S)"
  using assms solver_okD(2) [OF assms(1-3)]
  by (auto simp: S_expandumap_def map_at_def checked_def map_val_def smap_ok_def undef_map_def MAP_ISCONST_def split: anymap.splits if_splits)

section \<open>Given values are complete\<close>

lemma grows_given:
  assumes "sgrows S S'" "is_given (s_G S) xi" "s_xstate S xi = XBm bm"
  obtains bm' where "s_xstate S' xi = XBm bm'" "length bm' = length bm" "\<And>j. j < 64 * length bm \<Longrightarrow> missing S' xi j \<Longrightarrow> missing S xi j"
proof -
  have "given_grows (s_xstate S xi) (s_xstate S' xi)" using assms(1,2) by (simp add: sgrows_def)
  then show ?thesis using that assms(3) by (auto simp: given_grows_def missing_def)
qed

lemma given_room:
  assumes "solver_ok S" "is_given (s_G S) xi" "s_xstate S xi = XBm bm" "shape_of S (int (v_group (gvar (s_G S) xi))) = Some sh" "j < sh"
  shows "j < 64 * length bm" "sh div 64 < length bm" "j div 64 < length bm"
proof -
  have sh: "sh \<le> 8 * length bm" using solver_okD(3) [OF assms(1), of xi] assms(2-4) by (auto simp: slot_ok_def is_given_def)
  then show "j < 64 * length bm" using assms(5) by linarith
  have "0 < length bm" using sh assms(5) by (cases bm) auto
  then have "sh < length bm * 64" using sh by linarith
  then show "sh div 64 < length bm" by (rule less_mult_imp_div_less)
  then show "j div 64 < length bm" using assms(5) div_le_mono [of j sh 64] by simp
qed

text \<open>The outcome of a function that must not fail: it returns a good state, or the coroutine has ended.\<close>

definition ends :: "stop + 'a \<Rightarrow> ('a \<Rightarrow> bool) \<Rightarrow> bool" where
  "ends r P = (case r of Inl (Exit _) \<Rightarrow> True | Inl _ \<Rightarrow> False | Inr a \<Rightarrow> P a)"

lemma ends_simps [simp]: "ends (Inr a) P = P a" "ends (Inl (Exit e)) P" "\<not> ends (Inl Fault) P" "\<not> ends (Inl Fuel) P"
  by (simp_all add: ends_def)

lemma ends_andThen: "ends r P \<Longrightarrow> (\<And>a. P a \<Longrightarrow> ends (f a) Q) \<Longrightarrow> ends (andThen r f) Q"
  by (cases r) (auto simp: ends_def split: stop.splits)

lemma find_first: "find P [a ..< b] = Some i \<Longrightarrow> a \<le> j \<Longrightarrow> j < i \<Longrightarrow> \<not> P j"
  by (auto simp: find_Some_iff) (metis add_diff_inverse_nat less_diff_conv nat_add_left_cancel_less not_less add.commute less_trans nth_upt)

lemma ends_mono: "ends r P \<Longrightarrow> (\<And>a. P a \<Longrightarrow> Q a) \<Longrightarrow> ends r Q"
  by (auto simp: ends_def split: sum.splits stop.splits)

lemma yield_returns:
  assumes "caller_ok E" "solver_ok S"
  shows "ends (fhkJ_yield E S st) (\<lambda>S'. solver_ok S' \<and> sgrows S S')"
  using yield_grows [OF assms, of st] by (auto simp: ends_def fhkJ_yield_def Let_def split: option.splits)

lemma get_missingi_returns:
  assumes "caller_ok E" "solver_ok S" "is_given (s_G S) xi" "s_xstate S xi = XBm bm"
    "shape_of S (int (v_group (gvar (s_G S) xi))) = Some sh" "inst < e" "e \<le> sh"
    "e - (if missing S xi inst then inst else inst + 1) < fuel"
  shows "ends (S_get_missingi E fuel S xi inst e) (\<lambda>S'. solver_ok S' \<and> sgrows S S' \<and> (\<forall>j. inst \<le> j \<longrightarrow> j < e \<longrightarrow> \<not> missing S' xi j))"
  using assms
proof (induction fuel arbitrary: S bm inst)
  case (Suc fuel)
  note room = given_room [OF Suc.prems(2-5)]
  have e: "e div 64 < length bm" "inst \<le> e" using room(2) [of inst] Suc.prems(6,7) div_le_mono [of e sh 64] by linarith+
  obtain found i where f: "bm_findi bm inst e = (found, i)" by (cases "bm_findi bm inst e")
  have find: "(if found then Some i else None) = find (bm_isset bm) [inst ..< e]" using findi_find [OF e(2), of bm] f by (cases found) simp_all
  have miss: "missing S xi j = bm_isset bm j" for j using Suc.prems(4) by (simp add: missing_def)
  show ?case
  proof (cases found)
    case False
    then have "\<forall>j. inst \<le> j \<longrightarrow> j < e \<longrightarrow> \<not> missing S xi j" using find [symmetric] by (auto simp: find_None_iff miss)
    then show ?thesis using False Suc.prems(2,4) e f by (simp add: vm_at_def checked_def)
  next
    case True
    then have i: "find (bm_isset bm) [inst ..< e] = Some i" using find by simp
    then have ie: "inst \<le> i" "i < e" "missing S xi i" using find_SomeD [OF i] by (auto simp: miss)
    have before: "\<not> missing S xi j" if "inst \<le> j" "j < i" for j
      using find_first [OF i that] by (simp add: miss)
    have step: "ends (andThen (vm_at S1 xi) (\<lambda>bm1. andThen (bm_get bm1 i) (\<lambda>miss.
           if miss then Inl (JE_nvalue xi i) else S_get_missingi E fuel S1 xi i e)))
        (\<lambda>S'. solver_ok S' \<and> sgrows S S' \<and> (\<forall>j. inst \<le> j \<longrightarrow> j < e \<longrightarrow> \<not> missing S' xi j))"
      if S1: "solver_ok S1 \<and> sgrows S S1" for S1
    proof -
      obtain bm1 where bm1: "s_xstate S1 xi = XBm bm1" "length bm1 = length bm" "\<And>j. j < 64 * length bm \<Longrightarrow> missing S1 xi j \<Longrightarrow> missing S xi j"
        using grows_given [of S S1 xi bm] S1 Suc.prems(3,4) by blast
      have G: "s_G S1 = s_G S" "shape_of S1 (int (v_group (gvar (s_G S1) xi))) = Some sh"
        using S1 grows_extends [of S S1] Suc.prems(5) by (auto simp: sgrows_def extends_def)
      have get: "bm_get bm1 i = Inr (missing S1 xi i)"
        using room(3) [of i] ie(2) Suc.prems(7) bm1 by (simp add: bm_get_def checked_def missing_def)
      show ?thesis
      proof (cases "missing S1 xi i")
        case True
        then show ?thesis using bm1(1) get by (simp add: vm_at_def JE_nvalue_def)
      next
        case clear: False
        have "ends (S_get_missingi E fuel S1 xi i e) (\<lambda>S'. solver_ok S' \<and> sgrows S1 S' \<and> (\<forall>j. i \<le> j \<longrightarrow> j < e \<longrightarrow> \<not> missing S' xi j))"
        proof (rule Suc.IH [of S1 bm1])
          have "e - (i + 1) < fuel" using Suc.prems(8) ie by (cases "missing S xi inst"; cases "i = inst") auto
          then show "e - (if missing S1 xi i then i else i + 1) < fuel" using clear by simp
        qed (use Suc.prems ie S1 G bm1 in auto)
        moreover have "\<not> missing S' xi j" if "solver_ok S'" "sgrows S1 S'" "inst \<le> j" "j < i" for S' j
        proof -
          have j: "j < 64 * length bm" using room(1) [of j] that(4) ie(2) Suc.prems(7) by linarith
          have "sgrows S S'" using S1 that(2) sgrows_trans by blast
          then have "missing S' xi j \<Longrightarrow> missing S xi j" using grows_given [of S S' xi bm] Suc.prems(3,4) j by blast
          then show ?thesis using before [OF that(3,4)] by blast
        qed
        ultimately have "ends (S_get_missingi E fuel S1 xi i e) (\<lambda>S'. solver_ok S' \<and> sgrows S S' \<and> (\<forall>j. inst \<le> j \<longrightarrow> j < e \<longrightarrow> \<not> missing S' xi j))"
          using S1 by (elim ends_mono) (metis sgrows_trans not_le)
        then show ?thesis using bm1(1) get clear by (simp add: vm_at_def)
      qed
    qed
    have "ends (andThen (J_vref E S xi i) (\<lambda>S1. andThen (vm_at S1 xi) (\<lambda>bm1. andThen (bm_get bm1 i) (\<lambda>miss.
           if miss then Inl (JE_nvalue xi i) else S_get_missingi E fuel S1 xi i e))))
        (\<lambda>S'. solver_ok S' \<and> sgrows S S' \<and> (\<forall>j. inst \<le> j \<longrightarrow> j < e \<longrightarrow> \<not> missing S' xi j))"
      unfolding J_vref_def by (rule ends_andThen [OF yield_returns [OF Suc.prems(1,2)] step])
    then show ?thesis using True Suc.prems(4) e f by (simp add: vm_at_def checked_def)
  qed
qed simp

lemma touch_returns:
  assumes "caller_ok E" "solver_ok S" "is_given (s_G S) xi"
  shows "ends (S_touch_vmstate E S xi inst) (\<lambda>S'. solver_ok S' \<and> sgrows S S' \<and> (\<exists>bm. s_xstate S' xi = XBm bm))"
proof -
  have bm: "\<exists>bm. s_xstate S1 xi = XBm bm" if "solver_ok S1" "s_G S1 = s_G S" "s_xstate S1 xi \<noteq> XNull" for S1
    using solver_okD(3) [OF that(1), of xi] that(2,3) assms(3) by (cases "s_xstate S1 xi") (auto simp: slot_ok_def is_given_def)
  show ?thesis
  proof (cases "s_xstate S xi = XNull")
    case True
    then show ?thesis unfolding S_touch_vmstate_def J_vref_def
      using bm by (auto simp: JE_nvalue_def sgrows_def intro!: ends_andThen [OF yield_returns [OF assms(1,2)]])
  qed (use assms bm in \<open>simp add: S_touch_vmstate_def\<close>)
qed

text \<open>
  C22. \<^verbatim>\<open>S_get_giveni\<close> is complete: for a caller that only uses the functions of the solver and gives missing values, it ends, touches no
  memory outside its bitmap, and when it returns every instance of the interval has a value; the only other
  outcome is the end of the coroutine with a status.
\<close>

theorem get_giveni_complete:
  assumes "caller_ok E" "solver_ok S" "is_given (s_G S) xi" "shape_of S (int (v_group (gvar (s_G S) xi))) = Some sh" "inst < e" "e \<le> sh"
  shows "ends (S_get_giveni E S xi inst e) (\<lambda>S'. solver_ok S' \<and> (\<forall>j. inst \<le> j \<longrightarrow> j < e \<longrightarrow> \<not> missing S' xi j))"
  unfolding S_get_giveni_def
proof (rule ends_andThen [OF touch_returns [OF assms(1-3)]])
  fix S1 assume S1: "solver_ok S1 \<and> sgrows S S1 \<and> (\<exists>bm. s_xstate S1 xi = XBm bm)"
  then obtain bm where bm: "s_xstate S1 xi = XBm bm" by blast
  have "s_G S1 = s_G S" "shape_of S1 (int (v_group (gvar (s_G S1) xi))) = Some sh"
    using S1 grows_extends [of S S1] assms(4) by (auto simp: sgrows_def extends_def)
  then have "ends (S_get_missingi E (Suc (e - inst)) S1 xi inst e)
      (\<lambda>S'. solver_ok S' \<and> sgrows S1 S' \<and> (\<forall>j. inst \<le> j \<longrightarrow> j < e \<longrightarrow> \<not> missing S' xi j))"
    using S1 bm assms by (intro get_missingi_returns [of E S1 xi bm sh]) auto
  then show "ends (S_get_missingi E (Suc (e - inst)) S1 xi inst e) (\<lambda>S'. solver_ok S' \<and> (\<forall>j. inst \<le> j \<longrightarrow> j < e \<longrightarrow> \<not> missing S' xi j))"
    by (elim ends_mono) auto
qed

text \<open>
  C23. A map is asked for at most once: once \<^verbatim>\<open>S_expandumap\<close> has returned a subset for a map and an instance, that subset is stored, and
  every later call, whatever the caller did in between, returns it without yielding and changes nothing.
\<close>

theorem expandumap_once:
  assumes "caller_ok E" "solver_ok S" "S_expandumap E S m inst = Inr (ss, S1)" "calls E S1 S2"
  shows "S_expandumap E S2 m inst = Inr (ss, S2)"
proof -
  note e1 = expandumap_spec [OF assms(1-3)]
  have g: "solver_ok S2" "sgrows S1 S2" using calls_grows [OF assms(4) e1(1)] by auto
  have "- g_nimap (s_G S) \<le> m \<and> m < g_nkmap (s_G S)" using assms(3) by (auto simp: S_expandumap_def andThen_Inr map_in_range)
  moreover have "s_G S2 = s_G S" using e1(2) g(2) by (simp add: sgrows_def)
  ultimately show ?thesis using expandumap_known [OF g(1), of m inst ss E] map_val_grows [OF g(2) e1(3)] by simp
qed

section \<open>Witnesses\<close>

text \<open>A caller that answers every request for a value with the bytes at \<open>0x500\<close>, and nothing else.\<close>

definition vref_caller :: "u64 \<Rightarrow> solver \<Rightarrow> solver" where
  "vref_caller st S =
     (let xi = s16 (uint (FHK_ARG st AND 0xffff)); inst = (ucast (drop_bit 16 (FHK_ARG st)) :: u16) in
      if FHK_CODE st = FHKS_VREF \<and> missing S xi (unat inst)
      then (case fhkS_setvaluei api_env S xi inst 1 0x500 of Inr S1 \<Rightarrow> S1 | Inl _ \<Rightarrow> S)
      else S)"

definition vref_env :: env where
  "vref_env = api_env\<lparr>e_caller := vref_caller\<rparr>"

lemma S_alloc_vref: "S_alloc vref_env = S_alloc api_env"
  by (intro ext) (simp add: S_alloc_def vref_env_def)

lemma setvaluei_vref: "fhkS_setvaluei vref_env = fhkS_setvaluei api_env"
proof -
  have a: "alloc_array vref_env = (alloc_array api_env :: solver \<Rightarrow> nat \<Rightarrow> u64 \<Rightarrow> _)" by (intro ext) (simp add: alloc_array_def S_alloc_vref)
  have b: "S_bm_alloc vref_env = S_bm_alloc api_env" by (intro ext) (simp add: S_bm_alloc_def a)
  have c: "bm_getall0 vref_env = bm_getall0 api_env" by (intro ext) (simp add: bm_getall0_def b cong: if_cong)
  have d: "set_all vref_env = set_all api_env" by (intro ext) (simp add: set_all_def c)
  have e: "set_part vref_env = set_part api_env" by (intro ext) (simp add: set_part_def b S_alloc_vref cong: if_cong xslot.case_cong)
  show ?thesis by (intro ext) (simp add: fhkS_setvaluei_def d e cong: if_cong xslot.case_cong)
qed

lemma vref_caller_ok: "caller_ok vref_env"
  unfolding caller_ok_def
proof (intro allI)
  fix st S
  define xi inst where "xi = s16 (uint (FHK_ARG st AND 0xffff))" and "inst = (ucast (drop_bit 16 (FHK_ARG st)) :: u16)"
  show "calls vref_env S (e_caller vref_env st S)"
  proof (cases "FHK_CODE st = FHKS_VREF \<and> missing S xi (unat inst)")
    case True
    have run: "\<forall>j. unat inst \<le> j \<longrightarrow> j < unat inst + unat (1 :: u32) \<longrightarrow> missing S xi j" using True by (auto simp: le_less_Suc_eq)
    have lt: "unat inst + unat (1 :: u32) < 2 ^ 32" using unat_lt16 [of inst] by simp
    have "calls vref_env S S1" if "fhkS_setvaluei api_env S xi inst 1 0x500 = Inr S1" for S1
      using calls.setvalue [OF calls.start run lt] that by (simp add: setvaluei_vref)
    then show ?thesis using True by (auto simp: vref_env_def vref_caller_def xi_def inst_def Let_def split: sum.splits intro: calls.start)
  next
    case False
    then show ?thesis by (auto simp: vref_env_def vref_caller_def xi_def inst_def Let_def intro: calls.start)
  qed
qed

theorem get_giveni_complete_witness:
  "ends (S_get_giveni vref_env api_shaped 0 2 5) (\<lambda>S'. \<not> missing S' 0 3)"
proof -
  have "is_given (s_G api_shaped) 0" "shape_of api_shaped (int (v_group (gvar (s_G api_shaped) 0))) = Some 10"
    using api_shaped_ok(2) by (simp_all add: is_given_def api_shaped_def api_graph_def vidx_def gvar_def V_GIVEN_def)
  then have "ends (S_get_giveni vref_env api_shaped 0 2 5) (\<lambda>S'. solver_ok S' \<and> (\<forall>j. 2 \<le> j \<longrightarrow> j < 5 \<longrightarrow> \<not> missing S' 0 j))"
    using get_giveni_complete [OF vref_caller_ok api_shaped_ok(1), of 0 10 2 5] by simp
  then show ?thesis by (elim ends_mono) simp
qed

theorem expandumap_once_witness:
  "\<exists>ss S2. S_expandumap vref_env api_shaped 0 3 = Inr (ss, api_shaped) \<and> S2 = vref_caller (FHKS_VREF OR SARG (eref 0 3)) api_shaped \<and>
     S_expandumap vref_env S2 0 3 = Inr (ss, S2)"
proof -
  have p: "SS_PKIVAL 0 10 \<noteq> SS_UNDEF" using pkival_unpack [of 10 0] by simp
  then have e: "S_expandumap vref_env api_shaped 0 3 = Inr (SS_PKIVAL 0 10, api_shaped)"
    by (simp add: S_expandumap_def map_at_def checked_def api_shaped_def api_graph_def undef_map_def MAP_ISCONST_def)
  have "calls vref_env api_shaped (vref_caller (FHKS_VREF OR SARG (eref 0 3)) api_shaped)"
    using vref_caller_ok by (simp add: caller_ok_def vref_env_def)
  from expandumap_once [OF vref_caller_ok api_shaped_ok(1) e this] show ?thesis using e by blast
qed

end
