(* ===== verification/Fhk_Compute.thy ===== *)
theory Fhk_Compute
  imports Fhk_Expand Fhk_Build
begin

text \<open>
  Computing values along selected chains, \<^verbatim>\<open>src/src/fhk/solve.c\<close>: the scratch buffers, the mappings of edges, the call of a model
  and the recursion over its parameters.

  The description of a call lies in the memory, where the caller reads it: the reference of the model, the numbers of
  parameters and returns, and one pair of pointer and length for each edge.
\<close>

section \<open>Memory\<close>

text \<open>Writing the low \<open>n\<close> bytes of a word.\<close>

definition put :: "nat \<Rightarrow> (uptr \<Rightarrow> u8) \<Rightarrow> uptr \<Rightarrow> u64 \<Rightarrow> uptr \<Rightarrow> u8" where
  "put n st p v = (\<lambda>a. if a - p < of_nat n then ucast (drop_bit (8 * unat (a - p)) v) else st a)"

definition S_put :: "nat \<Rightarrow> uptr \<Rightarrow> u64 \<Rightarrow> solver \<Rightarrow> solver" where
  "S_put n p v S = S\<lparr>s_mem := put n (s_mem S) p v\<rparr>"

section \<open>Search states\<close>

definition sp_at :: "solver \<Rightarrow> int \<Rightarrow> nat \<Rightarrow> stop + ssp" where
  "sp_at S xi inst = (case s_xstate S xi of XSsp sps \<Rightarrow> ssp_get sps inst | _ \<Rightarrow> Inl Fault)"

definition msp_at :: "solver \<Rightarrow> int \<Rightarrow> nat \<Rightarrow> stop + ssp" where
  "msp_at S mi inst = (case s_mstate S mi of Some sps \<Rightarrow> ssp_get sps inst | None \<Rightarrow> Inl Fault)"

definition set_sp :: "solver \<Rightarrow> int \<Rightarrow> nat \<Rightarrow> ssp \<Rightarrow> solver" where
  "set_sp S xi inst sp =
     (case s_xstate S xi of XSsp sps \<Rightarrow> S\<lparr>s_xstate := (s_xstate S)(xi := XSsp (sps[inst := sp]))\<rparr> | _ \<Rightarrow> S)"

definition set_msp :: "solver \<Rightarrow> int \<Rightarrow> nat \<Rightarrow> ssp \<Rightarrow> solver" where
  "set_msp S mi inst sp =
     (case s_mstate S mi of Some sps \<Rightarrow> S\<lparr>s_mstate := (s_mstate S)(mi := Some (sps[inst := sp]))\<rparr> | None \<Rightarrow> S)"

definition sp_or :: "ssp \<Rightarrow> u32 \<Rightarrow> ssp" where
  "sp_or sp flag = sp\<lparr>sp_state := sp_state sp OR flag\<rparr>"

section \<open>Scratch buffers\<close>

definition clzl :: "u64 \<Rightarrow> nat" where
  "clzl x = length (takeWhile (\<lambda>i. \<not> bit x i) (rev [0 ..< 64]))"

definition S_sbuf_alloc :: "env \<Rightarrow> solver \<Rightarrow> usize \<Rightarrow> stop + uptr \<times> solver" where
  "S_sbuf_alloc E S sz =
     (let f_mask = mask SBUF_MIN_BITS; oldbuf = clzl (b_off S OR f_mask); newbuf = clzl ((b_off S + sz) OR f_mask);
          idx = 64 - newbuf - SBUF_MIN_BITS; start = push_bit (64 - newbuf) 1 AND NOT (1 OR push_bit 1 f_mask);
          S1 = (if newbuf \<noteq> oldbuf then S\<lparr>b_off := start\<rparr> else S)
      in if newbuf = 0 then Inl Fault
         else if idx \<ge> NUM_SBUF then Inl JE_nbuf
         else andThen (checked (idx < length (b_mem S1)) ()) (\<lambda>_.
           andThen (if b_mem S1 ! idx = NULL
                    then andThen (S_alloc E S1 (push_bit (65 - newbuf) 1 - start) (of_nat SBUF_ALIGN)) (\<lambda>(p, S2).
                      Inr (S2\<lparr>b_mem := (b_mem S2)[idx := p]\<rparr>))
                    else Inr S1) (\<lambda>S2.
           Inr (b_mem S2 ! idx + (b_off S2 - start), S2\<lparr>b_off := ALIGN (b_off S2 + sz) (of_nat SBUF_ALIGN)\<rparr>))))"

definition sbuf_alloc_init :: "solver \<Rightarrow> usize \<Rightarrow> stop + uptr \<times> solver" where
  "sbuf_alloc_init S sz =
     (case b_mem S of b0 # _ \<Rightarrow> checked (b0 \<noteq> NULL) (b0, S\<lparr>b_off := sz\<rparr>) | [] \<Rightarrow> Inl Fault)"

section \<open>Mappings of edges\<close>

definition mapE_subset :: "solver \<Rightarrow> int \<Rightarrow> nat \<Rightarrow> stop + fhk_subset" where
  "mapE_subset S m inst =
     andThen (map_at S m) (\<lambda>ms. if MAP_ISCONST m then as_kmap ms else imap_at ms inst)"

definition mapE_ssiter :: "solver \<Rightarrow> int \<Rightarrow> nat \<Rightarrow> stop + ssiter option" where
  "mapE_ssiter S m inst =
     (if m = MAP_IDENT then Inr (Some (of_nat inst))
      else andThen (mapE_subset S m inst) (\<lambda>ss.
        Inr (if \<not> SS_ISCOMPLEX ss then (if \<not> SS_ISEMPTY ss then Some (SS_IIVAL ss) else None)
             else Some (SI_CFIRST m (of_nat inst) (SS_CIVAL (ivm S) ss 0)))))"

definition mapE_indexof :: "solver \<Rightarrow> int \<Rightarrow> nat \<Rightarrow> nat \<Rightarrow> stop + xinst" where
  "mapE_indexof S m m_inst inst =
     (if m = MAP_IDENT then Inr 0
      else andThen (mapE_subset S m m_inst) (\<lambda>ss.
        if SS_ISIVAL ss then Inr (of_nat inst - PK_FIRST ss)
        else (case ss_cindexof (ivm S) ss (of_nat inst) of Some i \<Rightarrow> Inr i | None \<Rightarrow> Inl Fault)))"

text \<open>\<^verbatim>\<open>SI_NEXT\<close> in the solver: \<^verbatim>\<open>si_cnexti\<close> reads the subset of the mapping that the iterator names.\<close>

definition S_next :: "solver \<Rightarrow> ssiter \<Rightarrow> stop + ssiter option" where
  "S_next S it =
     (if it AND SI_NEXTMASK = 0 \<and> it AND SI_NEXTIMASK \<noteq> 0
      then andThen (mapE_subset S (SI_MAP it) (unat (SI_MAP_INST it))) (\<lambda>ss. Inr (SI_NEXT (si_cnexti (ivm S) ss) it))
      else Inr (SI_NEXT id it))"

section \<open>Collecting arguments\<close>

text \<open>Sizes and offsets of the description of a call.\<close>

definition mc_edge :: "uptr \<Rightarrow> nat \<Rightarrow> uptr" where
  "mc_edge cm i = cm + 8 + 16 * of_nat i"

definition put_edge :: "uptr \<Rightarrow> uptr \<Rightarrow> usize \<Rightarrow> solver \<Rightarrow> solver" where
  "put_edge a p n S = S_put 8 (a + 8) n (S_put 8 a p S)"

definition S_mapE_collect :: "env \<Rightarrow> solver \<Rightarrow> uptr \<Rightarrow> int \<Rightarrow> int \<Rightarrow> nat \<Rightarrow> stop + solver" where
  "S_mapE_collect E S a xi m m_inst =
     andThen (var_at S xi) (\<lambda>x.
       let sz = of_nat (v_size x); vp = s_value S xi in
       if m = MAP_IDENT then Inr (put_edge a (vp + sz * of_nat m_inst) 1 S)
       else andThen (mapE_subset S m m_inst) (\<lambda>ss.
         if \<not> SS_ISCOMPLEX ss then Inr (put_edge a (vp + sz * PK_FIRST ss) (PK_N1 ss) S)
         else let n = ss_csize (ivm S) ss in
              andThen (S_sbuf_alloc E (S_put 8 (a + 8) n S) (sz * n)) (\<lambda>(p, S1).
                let S2 = S_put 8 a p S1 in
                Inr (S2\<lparr>s_mem := si3_collect_ne (ivm S2) (s_mem S2) p vp sz (si3_complex (ivm S2) ss)\<rparr>))))"

definition mapE_directref :: "solver \<Rightarrow> uptr \<Rightarrow> int \<Rightarrow> int \<Rightarrow> nat \<Rightarrow> stop + solver" where
  "mapE_directref S a xi m m_inst =
     andThen (var_at S xi) (\<lambda>x.
       let vp = s_value S xi in
       if m = MAP_IDENT then Inr (put_edge a (vp + of_nat (v_size x) * of_nat m_inst) 1 S)
       else andThen (map_at S m) (\<lambda>ms. andThen (as_kmap ms) (\<lambda>k. Inr (put_edge a vp (PK_N1 k) S))))"

section \<open>Calling a model\<close>

definition RBUF :: "solver \<Rightarrow> int \<Rightarrow> fhk_model \<Rightarrow> nat \<Rightarrow> uptr" where
  "RBUF S mi m inst = s_value S mi + 8 * of_nat (inst * length (m_returns m))"

text \<open>The loop of \<^verbatim>\<open>S_get_computed_si\<close>; \<open>cv\<close> is \<^verbatim>\<open>S_compute_value\<close>, \<open>fuel\<close> bounds the number of instances.\<close>

fun S_get_computed_si :: "(solver \<Rightarrow> int \<Rightarrow> nat \<Rightarrow> stop + solver) \<Rightarrow> nat \<Rightarrow> solver \<Rightarrow> ssiter \<Rightarrow> int \<Rightarrow> stop + solver" where
  "S_get_computed_si cv 0 S it xi = Inl Fuel"
| "S_get_computed_si cv (Suc fuel) S it xi =
     andThen (sp_at S xi (unat (SI_INST it))) (\<lambda>sp.
     andThen (if sp_has (sp_state sp) SP_VALUE then Inr S else cv S xi (unat (SI_INST it))) (\<lambda>S1.
     andThen (S_next S1 it) (\<lambda>next.
       (case next of None \<Rightarrow> Inr S1 | Some it1 \<Rightarrow> S_get_computed_si cv fuel S1 it1 xi))))"

definition compute_params :: "(solver \<Rightarrow> int \<Rightarrow> nat \<Rightarrow> stop + solver) \<Rightarrow> nat \<Rightarrow> fhk_model \<Rightarrow> nat \<Rightarrow> solver \<Rightarrow> stop + solver" where
  "compute_params cv fuel m m_inst =
     each (\<lambda>e S. andThen (mapE_ssiter S (e_map e) m_inst) (\<lambda>osi.
       (case osi of None \<Rightarrow> Inr S | Some it \<Rightarrow> S_get_computed_si cv fuel S it (e_idx e)))) (take (m_cparam m) (m_params m))"

definition given_params :: "env \<Rightarrow> fhk_model \<Rightarrow> nat \<Rightarrow> solver \<Rightarrow> stop + solver" where
  "given_params E m m_inst = each (\<lambda>e S. S_get_given E S (e_idx e) (e_map e) m_inst) (drop (m_cparam m) (m_params m))"

definition modcall_init :: "int \<Rightarrow> fhk_model \<Rightarrow> nat \<Rightarrow> solver \<Rightarrow> stop + uptr \<times> solver" where
  "modcall_init mi m m_inst S =
     (let np = length (m_params m); nr = length (m_returns m) in
      andThen (sbuf_alloc_init S (8 + of_nat (np + nr) * 16)) (\<lambda>(cm, S1).
        Inr (cm, S_put 1 (cm + 5) (of_nat nr) (S_put 1 (cm + 4) (of_nat np) (S_put 2 (cm + 2) (of_nat m_inst) (S_put 2 cm (of_int mi) S1))))))"

definition return_direct :: "env \<Rightarrow> fhk_model \<Rightarrow> nat \<Rightarrow> uptr \<Rightarrow> solver \<Rightarrow> stop + solver" where
  "return_direct E m m_inst cm =
     each (\<lambda>(i, e) S. andThen (S_vexpandvp E S (e_idx e)) (\<lambda>S1.
       mapE_directref S1 (mc_edge cm (length (m_params m) + i)) (e_idx e) (e_map e) m_inst)) (enumerate 0 (m_returns m))"

definition return_buffers :: "env \<Rightarrow> int \<Rightarrow> fhk_model \<Rightarrow> nat \<Rightarrow> uptr \<Rightarrow> solver \<Rightarrow> stop + solver" where
  "return_buffers E mi m m_inst cm S =
     andThen (S_mexpandvp E S mi) (\<lambda>S1. let vbuf = RBUF S1 mi m m_inst in
       each (\<lambda>(i, e) S. andThen (S_vexpandvp E S (e_idx e)) (\<lambda>S2.
         andThen (var_at S2 (e_idx e)) (\<lambda>x. let sz = of_nat (v_size x); a = mc_edge cm (length (m_params m) + i) in
         andThen (S_map_size E S2 (e_map e) m_inst) (\<lambda>(n, S3).
         andThen (S_alloc E S3 (sz * n) sz) (\<lambda>(p, S4).
           Inr (put_edge a p n (S_put 8 (vbuf + 8 * of_nat i) p S4))))))) (enumerate 0 (m_returns m)) S1)"

definition call_model :: "env \<Rightarrow> (solver \<Rightarrow> int \<Rightarrow> nat \<Rightarrow> stop + solver) \<Rightarrow> nat \<Rightarrow> int \<Rightarrow> fhk_model \<Rightarrow> nat \<Rightarrow> solver \<Rightarrow> stop + solver" where
  "call_model E cv fuel mi m m_inst S =
     andThen (compute_params cv fuel m m_inst S) (\<lambda>S1.
     andThen (given_params E m m_inst S1) (\<lambda>S2.
     andThen (modcall_init mi m m_inst S2) (\<lambda>(cm, S3).
     andThen (each (\<lambda>e S. S_mapE_collect E S (mc_edge cm (e_ex e)) (e_idx e) (e_map e) m_inst) (m_params m) S3) (\<lambda>S4.
     andThen (checked (m_returns m \<noteq> []) ()) (\<lambda>_.
     andThen (if m_flags m AND M_NORETBUF \<noteq> 0 then return_direct E m m_inst cm S4 else return_buffers E mi m m_inst cm S4) (\<lambda>S5.
       J_modcall E S5 cm))))))"

definition unpackvalue :: "solver \<Rightarrow> int \<Rightarrow> nat \<Rightarrow> fhk_var \<Rightarrow> fhk_edge \<Rightarrow> fhk_model \<Rightarrow> nat \<Rightarrow> stop + solver" where
  "unpackvalue S xi inst x m_e m m_inst =
     (if m_flags m AND M_NORETBUF \<noteq> 0 then Inr S
      else let sz = of_nat (v_size x) in
        andThen (checked (e_ex m_e < length (m_returns m)) (m_returns m ! e_ex m_e)) (\<lambda>r.
        andThen (mapE_indexof S (e_map r) m_inst inst) (\<lambda>i.
          checked (s_value S xi \<noteq> NULL)
            (S\<lparr>s_mem := memcpy (s_mem S) (s_value S xi + sz * of_nat inst)
               (load 8 (s_mem S) (RBUF S (e_idx m_e) m m_inst + 8 * of_nat (e_ex m_e)) + sz * i) sz\<rparr>))))"

text \<open>\<^verbatim>\<open>S_compute_value\<close>: the recursion goes from a variable to the parameters of its chosen model; \<open>fuel\<close> bounds its depth and
  the iterations.\<close>

fun S_compute_value :: "env \<Rightarrow> nat \<Rightarrow> solver \<Rightarrow> int \<Rightarrow> nat \<Rightarrow> stop + solver" where
  "S_compute_value E 0 S xi inst = Inl Fuel"
| "S_compute_value E (Suc fuel) S xi inst =
     andThen (sp_at S xi inst) (\<lambda>sp.
     andThen (var_at S xi) (\<lambda>x.
     andThen (checked (SP_CHAIN_EI sp < length (v_models x)) (v_models x ! SP_CHAIN_EI sp)) (\<lambda>m_e.
       let m_inst = SP_CHAIN_INSTANCE sp; mi = e_idx m_e; S1 = set_sp S xi inst (sp_or sp SP_VALUE) in
     andThen (model_at S1 mi) (\<lambda>m.
     andThen (msp_at S1 mi m_inst) (\<lambda>m_sp.
     andThen (if sp_has (sp_state m_sp) SP_VALUE then Inr S1
              else call_model E (S_compute_value E fuel) fuel mi m m_inst (set_msp S1 mi m_inst (sp_or m_sp SP_VALUE))) (\<lambda>S2.
       unpackvalue S2 xi inst x m_e m m_inst))))))"

end
