(* ===== verification/Fhk_Select.thy ===== *)
theory Fhk_Select
  imports Fhk_Compute
begin

text \<open>
  The search for chains, \<^verbatim>\<open>S_select_chain\<close> of \<^verbatim>\<open>src/src/fhk/solve.c\<close>, and the main loop \<^verbatim>\<open>S_solve\<close>.

  The function is one body with labels and jumps. Each label is a definition that runs up to the next jump and names the
  label it jumps to; \<open>select_step\<close> runs the current label, \<open>select_run\<close> repeats it. The work stack
  \<^verbatim>\<open>x_state\<close> is a list whose head is the current frame \<^verbatim>\<open>X\<close>; the last frame is the bottom one, which is marked \<^verbatim>\<open>XS_DONE\<close>. Pointers to
  search states are pairs of index and instance, edge pointers are positions in the lists of the model, and each frame
  holds its own slice of the candidate stack.
\<close>

section \<open>Frames\<close>

definition MAX_STK :: nat where "MAX_STK = 32"
definition MAX_CANDSTK :: nat where "MAX_CANDSTK = 256"

datatype xwhere = XS_PARAM | XS_SHADOW | XS_DONE

record xcand =
  c_si :: ssiter
  c_i :: int
  c_ei :: nat

record xstate =
  x_x :: "int \<times> nat"
  x_beta :: f32
  x_cands :: nat
  x_cand :: "xcand list"
  x_where :: xwhere
  x_mi :: int
  x_ei :: nat
  x_inst :: nat
  x_mbeta :: f32
  x_costS :: f32
  x_betaS :: f32
  w_edge :: nat
  w_si :: ssiter
  p_edge :: nat
  p_si :: ssiter
  p_ssmax :: f32

datatype label =
    X_solve int nat f32
  | X_chosen f32
  | X_failed f32
  | X_bound
  | Candidate
  | Shadow nat
  | Shadow_si nat ssiter
  | Shadow_compute nat ssiter
  | Shadow_penalty nat
  | Params
  | Param nat
  | Param_si nat ssiter f32
  | Param_next nat ssiter f32
  | Chain_solved
  | Return

record sel =
  pc :: label
  xs :: "xstate list"
  M_costS :: f32
  M_betaS :: f32

definition fmin :: "f32 \<Rightarrow> f32 \<Rightarrow> f32" where "fmin a b = (if flt a b then a else b)"
definition fmax :: "f32 \<Rightarrow> f32 \<Rightarrow> f32" where "fmax a b = (if flt b a then a else b)"
definition fsub :: "f32 \<Rightarrow> f32 \<Rightarrow> f32" where "fsub a b = fadd a (fneg b)"

definition frame0 :: xstate where
  "frame0 = \<lparr>x_x = (0, 0), x_beta = 0, x_cands = 0, x_cand = [], x_where = XS_DONE, x_mi = 0, x_ei = 0, x_inst = 0,
     x_mbeta = 0, x_costS = 0, x_betaS = 0, w_edge = 0, w_si = 0, p_edge = 0, p_si = 0, p_ssmax = 0\<rparr>"

text \<open>The current frame and the ones below it.\<close>

definition onX :: "sel \<Rightarrow> (xstate \<Rightarrow> xstate list \<Rightarrow> stop + 'a) \<Rightarrow> stop + 'a" where
  "onX c f = (case xs c of X # fs \<Rightarrow> f X fs | [] \<Rightarrow> Inl Fault)"

definition m_of :: "solver \<Rightarrow> xstate \<Rightarrow> fhk_model" where
  "m_of S X = gmodel (s_G S) (x_mi X)"

section \<open>x_solve\<close>

fun candidates :: "solver \<Rightarrow> nat \<Rightarrow> nat \<Rightarrow> fhk_edge list \<Rightarrow> stop + xcand list" where
  "candidates S inst ei [] = Inr []"
| "candidates S inst ei (e # es) =
     andThen (mapE_ssiter S (e_map e) inst) (\<lambda>osi. andThen (candidates S inst (Suc ei) es) (\<lambda>cs.
       Inr (case osi of None \<Rightarrow> cs | Some it \<Rightarrow> \<lparr>c_si = it, c_i = e_idx e, c_ei = ei\<rparr> # cs)))"

definition x_solve :: "env \<Rightarrow> int \<Rightarrow> nat \<Rightarrow> f32 \<Rightarrow> sel \<Rightarrow> solver \<Rightarrow> stop + sel \<times> solver" where
  "x_solve E xi inst beta c S =
     onX c (\<lambda>X fs. andThen (sp_at S xi inst) (\<lambda>sp.
       let X0 = X\<lparr>x_costS := M_costS c, x_betaS := M_betaS c\<rparr> in
       if length (xs c) \<ge> MAX_STK then Inl (JE_maxdepth xi inst)
       else if SP_MARKED sp then Inl JE_nyi
       else andThen (if \<not> sp_has (sp_state sp) SP_EXPANDED then S_vexpandbe E (set_sp S xi inst (sp\<lparr>sp_state := SP_EXPANDED\<rparr>)) xi inst
                     else Inr S) (\<lambda>S1.
         andThen (sp_at S1 xi inst) (\<lambda>sp1. let S2 = set_sp S1 xi inst (sp1\<lparr>sp_cost := SP_MARK\<rparr>) in
         andThen (var_at S2 xi) (\<lambda>x. let cstart = x_cands X0 + length (x_cand X0) in
           if cstart + length (v_models x) \<ge> MAX_CANDSTK then Inl (JE_maxdepth xi inst)
           else andThen (checked (v_models x \<noteq> []) ()) (\<lambda>_. andThen (candidates S2 inst 0 (v_models x)) (\<lambda>cs.
             Inr (c\<lparr>xs := frame0\<lparr>x_x := (xi, inst), x_beta := beta, x_cands := cstart, x_cand := cs\<rparr> # X0 # fs,
                    pc := (if cs \<noteq> [] then Candidate else X_failed INFINITY)\<rparr>, S2)))))))) "

section \<open>x_chosen, x_failed, x_bound\<close>

definition set_cost :: "solver \<Rightarrow> int \<times> nat \<Rightarrow> f32 \<Rightarrow> stop + solver" where
  "set_cost S x cost = andThen (sp_at S (fst x) (snd x)) (\<lambda>sp. Inr (set_sp S (fst x) (snd x) (sp\<lparr>sp_cost := cost\<rparr>)))"

definition set_mcost :: "solver \<Rightarrow> xstate \<Rightarrow> f32 \<Rightarrow> stop + solver" where
  "set_mcost S X cost = andThen (msp_at S (x_mi X) (x_inst X)) (\<lambda>sp. Inr (set_msp S (x_mi X) (x_inst X) (sp\<lparr>sp_cost := cost\<rparr>)))"

definition x_chosen :: "f32 \<Rightarrow> sel \<Rightarrow> solver \<Rightarrow> stop + sel \<times> solver" where
  "x_chosen cost c S =
     onX c (\<lambda>X fs. andThen (set_cost S (x_x X) cost) (\<lambda>S1.
       (case fs of
          [] \<Rightarrow> Inl Fault
        | X0 # _ \<Rightarrow>
            Inr (c\<lparr>xs := fs, M_costS := x_costS X0, M_betaS := x_betaS X0,
              pc := (case x_where X0 of
                       XS_PARAM \<Rightarrow> Param_next (p_edge X0) (p_si X0) (fmax (p_ssmax X0) cost)
                     | XS_SHADOW \<Rightarrow> Shadow_compute (w_edge X0) (w_si X0)
                     | XS_DONE \<Rightarrow> Return)\<rparr>, S1))))"

definition shedge_at :: "solver \<Rightarrow> xstate \<Rightarrow> nat \<Rightarrow> stop + fhk_shedge" where
  "shedge_at S X k = checked (midx (s_G S) (x_mi X) \<and> k < length (m_shadows (m_of S X))) (m_shadows (m_of S X) ! k)"

definition shadow_failed :: "solver \<Rightarrow> xstate \<Rightarrow> stop + solver" where
  "shadow_failed S X =
     (let inst = unat (SI_INST (w_si X)) in
      andThen (shedge_at S X (w_edge X)) (\<lambda>e. andThen (vm_at S (se_idx e)) (\<lambda>bm.
        checked (SW_BMIDX inst < length bm)
          (S\<lparr>s_xstate := (s_xstate S)(se_idx e := XBm (bm[SW_BMIDX inst := bm ! SW_BMIDX inst OR push_bit (SW_BMOFF inst) SW_EVAL]))\<rparr>))))"

definition x_failed :: "int \<times> nat \<Rightarrow> f32 \<Rightarrow> sel \<Rightarrow> solver \<Rightarrow> stop + sel \<times> solver" where
  "x_failed root cost c S =
     onX c (\<lambda>X fs. andThen (set_cost S (x_x X) cost) (\<lambda>S1.
       (case fs of
          [] \<Rightarrow> Inl Fault
        | X0 # _ \<Rightarrow>
            (case x_where X0 of
               XS_PARAM \<Rightarrow> andThen (set_mcost S1 X0 (m_costf (m_of S1 X0) (fadd (x_costS X0) cost))) (\<lambda>S2.
                 Inr (c\<lparr>xs := fs, pc := Candidate\<rparr>, S2))
             | XS_SHADOW \<Rightarrow> andThen (shadow_failed S1 X0) (\<lambda>S2.
                 Inr (c\<lparr>xs := fs, M_costS := x_costS X0, M_betaS := x_betaS X0, pc := Shadow_penalty (w_edge X0)\<rparr>, S2))
             | XS_DONE \<Rightarrow> Inl (JE_nchain (fst root) (snd root))))))"

definition x_bound :: "sel \<Rightarrow> solver \<Rightarrow> stop + sel \<times> solver" where
  "x_bound c S =
     onX c (\<lambda>X fs. let cost = m_costf (m_of S X) (M_costS c) in
       andThen (set_mcost S X cost) (\<lambda>S1. if fle cost (x_mbeta X) then Inl JE_nyi else Inr (c\<lparr>pc := Candidate\<rparr>, S1)))"

section \<open>Candidate selection\<close>

record cscan =
  k_cost :: f32
  k_beta :: f32
  k_cand :: "(xcand \<times> nat) option"

definition scan_one :: "xcand \<Rightarrow> nat \<Rightarrow> f32 \<Rightarrow> cscan \<Rightarrow> cscan" where
  "scan_one cand inst cost k =
     \<lparr>k_cost = fmin (k_cost k) cost, k_beta = fmin (k_beta k) (fmax (k_cost k) cost),
      k_cand = (if flt cost (k_cost k) then Some (cand, inst) else k_cand k)\<rparr>"

fun cand_iter :: "nat \<Rightarrow> solver \<Rightarrow> xcand \<Rightarrow> ssiter \<Rightarrow> cscan \<Rightarrow> stop + cscan" where
  "cand_iter 0 S cand it k = Inl Fuel"
| "cand_iter (Suc fuel) S cand it k =
     andThen (msp_at S (c_i cand) (unat (SI_INST it))) (\<lambda>sp. let k1 = scan_one cand (unat (SI_INST it)) (sp_cost sp) k in
     andThen (S_next S it) (\<lambda>next. (case next of None \<Rightarrow> Inr k1 | Some it1 \<Rightarrow> cand_iter fuel S cand it1 k1)))"

fun cand_scan :: "nat \<Rightarrow> solver \<Rightarrow> xcand list \<Rightarrow> cscan \<Rightarrow> stop + cscan" where
  "cand_scan fuel S [] k = Inr k"
| "cand_scan fuel S (cand # cs) k = andThen (cand_iter fuel S cand (c_si cand) k) (\<lambda>k1. cand_scan fuel S cs k1)"

definition candidate :: "env \<Rightarrow> nat \<Rightarrow> sel \<Rightarrow> solver \<Rightarrow> stop + sel \<times> solver" where
  "candidate E fuel c S =
     onX c (\<lambda>X fs. andThen (cand_scan fuel S (x_cand X) \<lparr>k_cost = INFINITY, k_beta = x_beta X, k_cand = None\<rparr>) (\<lambda>k.
       if flt (x_beta X) (k_cost k) then Inr (c\<lparr>pc := X_failed (k_cost k)\<rparr>, S)
       else (case k_cand k of
               None \<Rightarrow> Inl Fault
             | Some (cand, inst) \<Rightarrow> let mi = c_i cand in
                 andThen (model_at S mi) (\<lambda>m. andThen (msp_at S mi inst) (\<lambda>sp.
                   let X1 = X\<lparr>x_mi := mi, x_ei := c_ei cand, x_inst := inst, x_mbeta := k_beta k\<rparr>;
                       c1 = c\<lparr>xs := X1 # fs, M_betaS := m_costf_invS m (k_beta k), M_costS := 0\<rparr> in
                   if sp_has (sp_state sp) SP_CHAIN
                   then andThen (sp_at S (fst (x_x X)) (snd (x_x X))) (\<lambda>xsp.
                     Inr (c1\<lparr>pc := X_chosen (k_cost k)\<rparr>,
                       set_sp S (fst (x_x X)) (snd (x_x X)) (xsp\<lparr>sp_state := SP_CHAIN_V (c_ei cand) inst\<rparr>)))
                   else andThen (if \<not> sp_has (sp_state sp) SP_EXPANDED
                                 then S_mexpandbe E (set_msp S mi inst (sp\<lparr>sp_state := SP_EXPANDED\<rparr>)) mi inst else Inr S) (\<lambda>S1.
                     Inr (c1\<lparr>pc := Shadow 0\<rparr>, S1)))))))"

section \<open>Checks\<close>

definition guard_of :: "nat \<Rightarrow> stop + guard" where
  "guard_of g =
     (let t = [FHKC_GEF32, FHKC_LEF32, FHKC_GEF64, FHKC_LEF64, FHKC_U8_MASK64] in checked (g < length t) (t ! g))"

definition shadow :: "nat \<Rightarrow> sel \<Rightarrow> solver \<Rightarrow> stop + sel \<times> solver" where
  "shadow k c S =
     onX c (\<lambda>X fs. andThen (model_at S (x_mi X)) (\<lambda>m.
       if k < length (m_shadows m)
       then andThen (mapE_ssiter S (se_map (m_shadows m ! k)) (x_inst X)) (\<lambda>osi.
         Inr (c\<lparr>xs := X\<lparr>x_where := XS_SHADOW\<rparr> # fs, pc := (case osi of None \<Rightarrow> Shadow (k + 1) | Some it \<Rightarrow> Shadow_si k it)\<rparr>, S))
       else Inr (c\<lparr>pc := Params\<rparr>, S)))"

text \<open>From the end of the loop body on: scan the values that are there, test the instance, go on or pay.\<close>

definition shadow_next :: "nat \<Rightarrow> ssiter \<Rightarrow> sel \<Rightarrow> solver \<Rightarrow> stop + sel \<times> solver" where
  "shadow_next k it c S =
     andThen (S_next S it) (\<lambda>next. Inr (c\<lparr>pc := (case next of None \<Rightarrow> Shadow (k + 1) | Some it1 \<Rightarrow> Shadow_si k it1)\<rparr>, S))"

definition shadow_check :: "nat \<Rightarrow> ssiter \<Rightarrow> fhk_shedge \<Rightarrow> fhk_shadow \<Rightarrow> nat \<Rightarrow> sel \<Rightarrow> solver \<Rightarrow> stop + sel \<times> solver" where
  "shadow_check k it e w scanto c S =
     (let inst = unat (SI_INST it) in
      andThen (vm_at S (se_idx e)) (\<lambda>bm. andThen (guard_of (w_guard w)) (\<lambda>g.
      andThen (checked (inst < scanto \<and> SW_BMIDX (scanto - 1) < length bm)
                 (S_checkscan (s_mem S) (s_value S (w_xi w)) g (w_arg w) bm inst scanto)) (\<lambda>bm1.
        let S1 = S\<lparr>s_xstate := (s_xstate S)(se_idx e := XBm bm1)\<rparr> in
        if drop_bit (SW_BMOFF inst) (bm1 ! SW_BMIDX inst) AND SW_PASS = 0
        then Inr (c\<lparr>pc := Shadow_penalty k\<rparr>, S1)
        else shadow_next k it c S1))))"

definition shadow_scan :: "nat \<Rightarrow> ssiter \<Rightarrow> fhk_shedge \<Rightarrow> sel \<Rightarrow> solver \<Rightarrow> stop + sel \<times> solver" where
  "shadow_scan k it e c S =
     andThen (shadow_at S (se_idx e)) (\<lambda>w. andThen (scanv_computed S (w_xi w) (w_group w) (unat (SI_INST it) + 1)) (\<lambda>scanto.
       shadow_check k it e w scanto c S))"

text \<open>A check of a given variable gets its value; one of a computed variable may first need a chain and a value.\<close>

definition shadow_given :: "env \<Rightarrow> nat \<Rightarrow> ssiter \<Rightarrow> fhk_shedge \<Rightarrow> fhk_shadow \<Rightarrow> sel \<Rightarrow> solver \<Rightarrow> stop + sel \<times> solver" where
  "shadow_given E k it e w c S =
     (let inst = unat (SI_INST it) in
      andThen (S_get_given1 E S (w_xi w) inst) (\<lambda>S1.
      andThen (scanv_given S1 (w_xi w) (w_group w) (inst + 1)) (\<lambda>scanto. shadow_check k it e w scanto c S1)))"

definition shadow_computed :: "env \<Rightarrow> nat \<Rightarrow> ssiter \<Rightarrow> fhk_shedge \<Rightarrow> fhk_shadow \<Rightarrow> sel \<Rightarrow> solver \<Rightarrow> stop + sel \<times> solver" where
  "shadow_computed E k it e w c S =
     onX c (\<lambda>X fs. let inst = unat (SI_INST it); chain = c\<lparr>xs := X\<lparr>w_edge := k, w_si := it\<rparr> # fs, pc := X_solve (w_xi w) inst MAX_COST\<rparr> in
       if s_xstate S (w_xi w) = XNull
       then andThen (S_vexpandsp E S (w_xi w)) (\<lambda>S1. Inr (chain, S1))
       else andThen (sp_at S (w_xi w) inst) (\<lambda>sp.
         if \<not> sp_has (sp_state sp) SP_CHAIN then Inr (chain, S)
         else if \<not> sp_has (sp_state sp) SP_VALUE then Inr (c\<lparr>pc := Shadow_compute k it\<rparr>, S)
         else shadow_scan k it e c S))"

definition shadow_si :: "env \<Rightarrow> nat \<Rightarrow> ssiter \<Rightarrow> sel \<Rightarrow> solver \<Rightarrow> stop + sel \<times> solver" where
  "shadow_si E k it c S =
     onX c (\<lambda>X fs. andThen (shedge_at S X k) (\<lambda>e. let inst = unat (SI_INST it) in
       andThen (vm_at S (se_idx e)) (\<lambda>bm. andThen (checked (SW_BMIDX inst < length bm) (drop_bit (SW_BMOFF inst) (bm ! SW_BMIDX inst))) (\<lambda>state.
         if state AND SW_PASS \<noteq> 0 then shadow_next k it c S
         else if state AND SW_EVAL \<noteq> 0 then Inr (c\<lparr>pc := Shadow_penalty k\<rparr>, S)
         else andThen (shadow_at S (se_idx e)) (\<lambda>w.
           if se_flags e AND W_COMPUTED \<noteq> 0 then shadow_computed E k it e w c S else shadow_given E k it e w c S)))))"

definition shadow_compute :: "env \<Rightarrow> nat \<Rightarrow> nat \<Rightarrow> ssiter \<Rightarrow> sel \<Rightarrow> solver \<Rightarrow> stop + sel \<times> solver" where
  "shadow_compute E fuel k it c S =
     onX c (\<lambda>X fs. andThen (shedge_at S X k) (\<lambda>e. andThen (shadow_at S (se_idx e)) (\<lambda>w.
       andThen (S_compute_value E fuel S (w_xi w) (unat (SI_INST it))) (\<lambda>S1. shadow_scan k it e c S1))))"

definition shadow_penalty :: "nat \<Rightarrow> sel \<Rightarrow> solver \<Rightarrow> stop + sel \<times> solver" where
  "shadow_penalty k c S =
     onX c (\<lambda>X fs. andThen (shedge_at S X k) (\<lambda>e. let cost = fadd (M_costS c) (se_penalty e) in
       Inr (c\<lparr>M_costS := cost, pc := (if flt (M_betaS c) cost then X_bound else Shadow (k + 1))\<rparr>, S)))"

section \<open>Computed parameters\<close>

definition sel_params :: "sel \<Rightarrow> solver \<Rightarrow> stop + sel \<times> solver" where
  "sel_params c S =
     onX c (\<lambda>X fs. andThen (model_at S (x_mi X)) (\<lambda>m.
       Inr (if m_cparam m \<noteq> 0 then c\<lparr>xs := X\<lparr>x_where := XS_PARAM\<rparr> # fs, pc := Param (m_cparam m - 1)\<rparr>
            else c\<lparr>pc := Chain_solved\<rparr>, S)))"

definition pedge_at :: "solver \<Rightarrow> xstate \<Rightarrow> nat \<Rightarrow> stop + fhk_edge" where
  "pedge_at S X k = checked (midx (s_G S) (x_mi X) \<and> k < length (m_params (m_of S X))) (m_params (m_of S X) ! k)"

definition next_param :: "nat \<Rightarrow> label" where
  "next_param k = (if k = 0 then Chain_solved else Param (k - 1))"

definition param :: "nat \<Rightarrow> sel \<Rightarrow> solver \<Rightarrow> stop + sel \<times> solver" where
  "param k c S =
     onX c (\<lambda>X fs. andThen (pedge_at S X k) (\<lambda>e. andThen (mapE_ssiter S (e_map e) (x_inst X)) (\<lambda>osi.
       (case osi of
          None \<Rightarrow> Inr (c\<lparr>pc := next_param k\<rparr>, S)
        | Some it \<Rightarrow> Inr (c\<lparr>xs := X\<lparr>p_edge := k\<rparr> # fs, pc := Param_si k it 0\<rparr>, S)))))"

definition param_si :: "nat \<Rightarrow> ssiter \<Rightarrow> f32 \<Rightarrow> sel \<Rightarrow> solver \<Rightarrow> stop + sel \<times> solver" where
  "param_si k it ssmax c S =
     onX c (\<lambda>X fs. andThen (pedge_at S X k) (\<lambda>e. let inst = unat (SI_INST it) in
       andThen (sp_at S (e_idx e) inst) (\<lambda>sp. let cost = fadd (M_costS c) (sp_cost sp) in
         if flt (M_betaS c) cost then Inr (c\<lparr>M_costS := cost, pc := X_bound\<rparr>, S)
         else if sp_has (sp_state sp) SP_CHAIN then Inr (c\<lparr>pc := Param_next k it (fmax ssmax (sp_cost sp))\<rparr>, S)
         else Inr (c\<lparr>xs := X\<lparr>p_ssmax := ssmax, p_si := it\<rparr> # fs, pc := X_solve (e_idx e) inst (fsub (M_betaS c) (M_costS c))\<rparr>, S))))"

definition param_next :: "nat \<Rightarrow> ssiter \<Rightarrow> f32 \<Rightarrow> sel \<Rightarrow> solver \<Rightarrow> stop + sel \<times> solver" where
  "param_next k it ssmax c S =
     andThen (S_next S it) (\<lambda>next.
       (case next of
          Some it1 \<Rightarrow> Inr (c\<lparr>pc := Param_si k it1 ssmax\<rparr>, S)
        | None \<Rightarrow> Inr (c\<lparr>M_costS := fadd (M_costS c) ssmax, pc := next_param k\<rparr>, S)))"

definition chain_solved :: "sel \<Rightarrow> solver \<Rightarrow> stop + sel \<times> solver" where
  "chain_solved c S =
     onX c (\<lambda>X fs. let cost = m_costf (m_of S X) (M_costS c); (xi, inst) = x_x X in
       andThen (msp_at S (x_mi X) (x_inst X)) (\<lambda>_. andThen (sp_at S xi inst) (\<lambda>xsp.
         Inr (c\<lparr>pc := X_chosen cost\<rparr>,
           set_sp (set_msp S (x_mi X) (x_inst X) \<lparr>sp_cost = cost, sp_state = SP_CHAIN\<rparr>) xi inst
             (xsp\<lparr>sp_state := SP_CHAIN_V (x_ei X) (x_inst X)\<rparr>)))))"

section \<open>S_select_chain\<close>

definition select_step :: "env \<Rightarrow> nat \<Rightarrow> int \<times> nat \<Rightarrow> sel \<Rightarrow> solver \<Rightarrow> stop + sel \<times> solver" where
  "select_step E fuel root c S =
     (case pc c of
        X_solve xi inst beta \<Rightarrow> x_solve E xi inst beta c S
      | X_chosen cost \<Rightarrow> x_chosen cost c S
      | X_failed cost \<Rightarrow> x_failed root cost c S
      | X_bound \<Rightarrow> x_bound c S
      | Candidate \<Rightarrow> candidate E fuel c S
      | Shadow k \<Rightarrow> shadow k c S
      | Shadow_si k it \<Rightarrow> shadow_si E k it c S
      | Shadow_compute k it \<Rightarrow> shadow_compute E fuel k it c S
      | Shadow_penalty k \<Rightarrow> shadow_penalty k c S
      | Params \<Rightarrow> sel_params c S
      | Param k \<Rightarrow> param k c S
      | Param_si k it ssmax \<Rightarrow> param_si k it ssmax c S
      | Param_next k it ssmax \<Rightarrow> param_next k it ssmax c S
      | Chain_solved \<Rightarrow> chain_solved c S
      | Return \<Rightarrow> Inr (c, S))"

fun select_run :: "env \<Rightarrow> nat \<Rightarrow> int \<times> nat \<Rightarrow> nat \<Rightarrow> sel \<Rightarrow> solver \<Rightarrow> stop + solver" where
  "select_run E fuel root n c S =
     (if pc c = Return then Inr S
      else case n of
             0 \<Rightarrow> Inl Fuel
           | Suc k \<Rightarrow> andThen (select_step E fuel root c S) (\<lambda>(c1, S1). select_run E fuel root k c1 S1))"

declare select_run.simps [simp del]

definition S_select_chain :: "env \<Rightarrow> nat \<Rightarrow> solver \<Rightarrow> int \<Rightarrow> nat \<Rightarrow> stop + solver" where
  "S_select_chain E fuel S xi inst =
     select_run E fuel (xi, inst) fuel \<lparr>pc = X_solve xi inst MAX_COST, xs = [frame0], M_costS = 0, M_betaS = 0\<rparr> S"

section \<open>S_solve\<close>

definition root_insts :: "rootv \<Rightarrow> nat list" where
  "root_insts r = [unat (r_inst r) ..< max (unat (r_inst r) + 1) (unat (r_end r))]"

definition solve_given :: "env \<Rightarrow> rootv \<Rightarrow> solver \<Rightarrow> stop + solver" where
  "solve_given E r S =
     (if r_flags r AND ROOT_GIVEN \<noteq> 0 then S_get_giveni E S (r_xi r) (unat (r_inst r)) (unat (r_end r)) else Inr S)"

definition solve_chain :: "env \<Rightarrow> nat \<Rightarrow> rootv \<Rightarrow> solver \<Rightarrow> stop + solver" where
  "solve_chain E fuel r S =
     (if r_flags r AND ROOT_GIVEN \<noteq> 0 then Inr S
      else andThen (S_vexpandsp E S (r_xi r)) (\<lambda>S1.
        each (\<lambda>inst S. andThen (sp_at S (r_xi r) inst) (\<lambda>sp.
          if \<not> SP_DONE sp then S_select_chain E fuel S (r_xi r) inst else Inr S)) (root_insts r) S1))"

definition solve_value :: "env \<Rightarrow> nat \<Rightarrow> rootv \<Rightarrow> solver \<Rightarrow> stop + solver" where
  "solve_value E fuel r S =
     (if r_flags r AND ROOT_GIVEN \<noteq> 0 then Inr S
      else each (\<lambda>inst S. andThen (sp_at S (r_xi r) inst) (\<lambda>sp.
        if \<not> sp_has (sp_state sp) SP_VALUE then S_compute_value E fuel S (r_xi r) inst else Inr S)) (root_insts r) S)"

definition solve_collect :: "rootv \<Rightarrow> solver \<Rightarrow> stop + solver" where
  "solve_collect r S =
     andThen (var_at S (r_xi r)) (\<lambda>x. let vp = s_value S (r_xi r) + of_nat (unat (r_inst r) * v_size x) in
       if vp = r_out r then Inr S
       else Inr (S\<lparr>s_mem := memcpy (s_mem S) (r_out r) vp (of_int ((uint (r_end r) - uint (r_inst r)) * int (v_size x)))\<rparr>))"

definition solve_round :: "env \<Rightarrow> nat \<Rightarrow> solver \<Rightarrow> stop + solver" where
  "solve_round E fuel S =
     (let roots = r_buf S in
      andThen (each (solve_given E) roots S) (\<lambda>S1.
      andThen (each (solve_chain E fuel) roots S1) (\<lambda>S2.
      andThen (each (solve_value E fuel) roots S2) (\<lambda>S3.
      andThen (each solve_collect roots S3) (\<lambda>S4.
        Inr (S4\<lparr>r_buf := drop (length roots) (r_buf S4)\<rparr>))))))"

fun S_solve :: "env \<Rightarrow> nat \<Rightarrow> nat \<Rightarrow> solver \<Rightarrow> stop + solver" where
  "S_solve E fuel 0 S = Inl Fuel"
| "S_solve E fuel (Suc n) S =
     andThen (if r_buf S = [] then fhkJ_yield E S FHK_OK else solve_round E fuel S) (S_solve E fuel n)"

end
