(* ===== verification/Fhk_Keep.thy ===== *)
theory Fhk_Keep
  imports Fhk_Select
begin

text \<open>
  What the operations of the solver keep of the search: every search state that is there stays as it is, up to the flag that a
  value has been computed, new ones are empty, and maps that are known stay known. The locale \<open>preserved\<close> holds the rules for
  sequences and loops of operations; it is interpreted for this relation and for operations that touch only memory.
\<close>


section \<open>Flags of search states\<close>

definition chained :: "ssp \<Rightarrow> bool" where
  "chained sp \<longleftrightarrow> sp_has (sp_state sp) SP_CHAIN"

definition valued :: "ssp \<Rightarrow> bool" where
  "valued sp \<longleftrightarrow> sp_has (sp_state sp) SP_VALUE"

definition expanded :: "ssp \<Rightarrow> bool" where
  "expanded sp \<longleftrightarrow> sp_has (sp_state sp) SP_EXPANDED"

lemma flag_words: "SP_CHAIN = 2 ^ 31" "SP_VALUE = 2 ^ 30" "SP_EXPANDED = 2 ^ 29"
  by (simp_all add: SP_CHAIN_def SP_VALUE_def SP_EXPANDED_def)

lemma sp_flag_bits:
  "chained sp \<longleftrightarrow> bit (sp_state sp) 31" "valued sp \<longleftrightarrow> bit (sp_state sp) 30" "expanded sp \<longleftrightarrow> bit (sp_state sp) 29"
  by (simp_all add: chained_def valued_def expanded_def sp_has_def flag_words and_exp_eq_0_iff_not_bit del: power_numeral)

lemma bit_exp_u32: "bit (2 ^ m :: u32) k \<longleftrightarrow> m < 32 \<and> k = m"
  by (auto simp: bit_exp_iff possible_bit_word)

lemma and_low32: "(x :: u32) AND 0xff = take_bit 8 x" "(x :: u32) AND 0xffff = take_bit 16 x"
  by (simp_all add: take_bit_eq_mask mask_eq_exp_minus_1)

lemma bit_nat_small: "n < 2 ^ k \<Longrightarrow> bit n m \<Longrightarrow> m < k" for n :: nat
  by (metis bit_take_bit_iff take_bit_nat_eq_self)

lemma chain_word:
  assumes "e < 2 ^ 8" "i < 2 ^ 16" "sp_state sp = SP_CHAIN_V e i"
  shows "chained sp" "\<not> valued sp" "expanded sp" "SP_CHAIN_EI sp = e" "SP_CHAIN_INSTANCE sp = i"
proof -
  have small: "bit e k \<Longrightarrow> k < 8" "bit i k \<Longrightarrow> k < 16" for k using bit_nat_small assms(1,2) by blast+
  have st: "bit (sp_state sp) k \<longleftrightarrow> k = 29 \<or> k = 31 \<or> 16 \<le> k \<and> k < 32 \<and> bit e (k - 16) \<or> k < 32 \<and> bit i k" for k
    unfolding assms(3) SP_CHAIN_V_def flag_words by (auto simp: bit_simps bit_exp_u32 simp del: power_numeral)
  show "chained sp" "\<not> valued sp" "expanded sp" using small(1) [of 14] small(2) [of 30] by (auto simp: sp_flag_bits st)
  have "drop_bit 16 (sp_state sp) AND 0xff = of_nat e" unfolding and_low32
    by (intro bit_word_eqI) (use small in \<open>force simp: bit_simps st\<close>)
  then show "SP_CHAIN_EI sp = e" using assms(1) by (simp add: SP_CHAIN_EI_def unat_of_nat_small)
  have "sp_state sp AND 0xffff = of_nat i" unfolding and_low32
    by (intro bit_word_eqI) (use small in \<open>force simp: bit_simps st\<close>)
  then show "SP_CHAIN_INSTANCE sp = i" using assms(2) by (simp add: SP_CHAIN_INSTANCE_def unat_of_nat_small)
qed

lemma or_value [simp]:
  "chained (sp_or sp SP_VALUE) = chained sp" "valued (sp_or sp SP_VALUE)" "expanded (sp_or sp SP_VALUE) = expanded sp"
  "SP_CHAIN_EI (sp_or sp SP_VALUE) = SP_CHAIN_EI sp" "SP_CHAIN_INSTANCE (sp_or sp SP_VALUE) = SP_CHAIN_INSTANCE sp"
  "sp_cost (sp_or sp SP_VALUE) = sp_cost sp" "sp_or (sp_or sp SP_VALUE) SP_VALUE = sp_or sp SP_VALUE"
proof -
  have v: "bit SP_VALUE k \<longleftrightarrow> k = 30" for k by (auto simp: flag_words bit_exp_u32 simp del: power_numeral)
  then have b: "bit (st OR SP_VALUE) k \<longleftrightarrow> bit st k \<or> k = 30" for st k by (simp add: bit_or_iff)
  show "chained (sp_or sp SP_VALUE) = chained sp" "valued (sp_or sp SP_VALUE)" "expanded (sp_or sp SP_VALUE) = expanded sp"
    by (simp_all add: sp_flag_bits sp_or_def b)
  show "SP_CHAIN_EI (sp_or sp SP_VALUE) = SP_CHAIN_EI sp" unfolding SP_CHAIN_EI_def and_low32 sp_or_def
    by (intro arg_cong [where f = unat] bit_word_eqI) (auto simp: bit_simps v)
  show "SP_CHAIN_INSTANCE (sp_or sp SP_VALUE) = SP_CHAIN_INSTANCE sp" unfolding SP_CHAIN_INSTANCE_def and_low32 sp_or_def
    by (intro arg_cong [where f = unat] bit_word_eqI) (auto simp: bit_simps v)
qed (simp_all add: sp_or_def or.assoc)


section \<open>Preservation\<close>

text \<open>The contract of an operation of the solver: a relation between the state before and after, under a condition that it keeps.
  The rules for sequences and loops are shown once.\<close>

locale preserved =
  fixes ok :: "solver \<Rightarrow> bool" and rel :: "solver \<Rightarrow> solver \<Rightarrow> bool"
  assumes rel_refl: "rel S S" and rel_trans: "rel S S1 \<Longrightarrow> rel S1 S2 \<Longrightarrow> rel S S2"
begin

definition pres :: "('a \<Rightarrow> solver) \<Rightarrow> solver \<Rightarrow> stop + 'a \<Rightarrow> bool" where
  "pres st S r \<longleftrightarrow> (ok S \<longrightarrow> (\<forall>a. r = Inr a \<longrightarrow> ok (st a) \<and> rel S (st a)))"

lemma presI: "(\<And>a. ok S \<Longrightarrow> r = Inr a \<Longrightarrow> ok (st a) \<and> rel S (st a)) \<Longrightarrow> pres st S r"
  by (simp add: pres_def)

lemma presD: "pres st S r \<Longrightarrow> ok S \<Longrightarrow> r = Inr a \<Longrightarrow> ok (st a) \<and> rel S (st a)"
  by (simp add: pres_def)

lemma pres_Inl [simp]: "pres st S (Inl e)"
  by (simp add: pres_def)

lemma pres_same [simp]: "st a = S \<Longrightarrow> pres st S (Inr a)"
  by (simp add: pres_def rel_refl)

lemma pres_andThen:
  assumes "pres st S r" "\<And>a. r = Inr a \<Longrightarrow> ok (st a) \<Longrightarrow> rel S (st a) \<Longrightarrow> pres st' (st a) (f a)"
  shows "pres st' S (andThen r f)"
  unfolding pres_def
proof (intro impI allI)
  fix b assume ok: "ok S" and b: "andThen r f = Inr b"
  obtain a where a: "r = Inr a" "f a = Inr b" using b by (auto simp: andThen_Inr)
  have st: "ok (st a)" "rel S (st a)" using presD [OF assms(1) ok a(1)] by auto
  show "ok (st' b) \<and> rel S (st' b)"
    using presD [OF assms(2) [OF a(1) st] st(1) a(2)] rel_trans [OF st(2)] by blast
qed

lemma pres_then:
  assumes "\<And>a. r = Inr a \<Longrightarrow> pres st' S (f a)"
  shows "pres st' S (andThen r f)"
  using assms by (cases r) simp_all

lemma pres_each:
  assumes "\<And>a T. a \<in> set as \<Longrightarrow> ok T \<Longrightarrow> rel S T \<Longrightarrow> pres (\<lambda>S. S) T (f a T)"
  shows "pres (\<lambda>S. S) S (each f as S)"
  using assms
proof (induction as arbitrary: S)
  case (Cons a as)
  have split: "each f (a # as) S = andThen (f a S) (each f as)" by (cases "f a S") simp_all
  show ?case
  proof (cases "ok S")
    case True
    then show ?thesis unfolding split
    proof (intro pres_andThen [where st = "\<lambda>S. S"])
      show "pres (\<lambda>S. S) S (f a S)" using Cons.prems True rel_refl by simp
      show "pres (\<lambda>S. S) T (each f as T)" if "rel S T" for T
        by (rule Cons.IH) (use Cons.prems rel_trans [OF that] in auto)
    qed
  qed (simp add: pres_def)
qed simp

text \<open>What each round establishes and later rounds keep holds at the end.\<close>

lemma each_all:
  assumes "\<And>a T. a \<in> set as \<Longrightarrow> ok T \<Longrightarrow> rel S T \<Longrightarrow> pres (\<lambda>S. S) T (f a T)"
    and "\<And>a T T'. a \<in> set as \<Longrightarrow> ok T \<Longrightarrow> rel S T \<Longrightarrow> f a T = Inr T' \<Longrightarrow> P a T'"
    and "\<And>a T T'. P a T \<Longrightarrow> rel T T' \<Longrightarrow> P a T'"
    and "ok S" "each f as S = Inr S'"
  shows "\<forall>a \<in> set as. P a S'"
  using assms
proof (induction as arbitrary: S)
  case (Cons a as)
  then obtain T where T: "f a S = Inr T" "each f as T = Inr S'" by (auto split: sum.splits)
  have ok: "ok T" "rel S T" using presD [OF Cons.prems(1) [of a S] Cons.prems(4) T(1)] Cons.prems(4) rel_refl by auto
  have later: "pres (\<lambda>S. S) T (each f as T)" using Cons.prems(1) rel_trans [OF ok(2)] by (intro pres_each) auto
  have "P a S'" using Cons.prems(2,3,4) T(1) rel_refl presD [OF later ok(1) T(2)] by (meson list.set_intros(1))
  moreover have "\<forall>a \<in> set as. P a S'"
    by (rule Cons.IH [OF _ _ Cons.prems(3) ok(1) T(2)]) (use Cons.prems(1,2) rel_trans [OF ok(2)] in auto)
  ultimately show ?case by simp
qed simp

end

section \<open>What expansion keeps\<close>

definition sp_near :: "ssp \<Rightarrow> ssp \<Rightarrow> bool" where
  "sp_near a b \<longleftrightarrow> b = a \<or> chained a \<and> b = sp_or a SP_VALUE"

definition entry_near :: "f32 \<Rightarrow> stop + ssp \<Rightarrow> stop + ssp \<Rightarrow> bool" where
  "entry_near lo r r' \<longleftrightarrow> (case r of Inr a \<Rightarrow> (\<exists>b. r' = Inr b \<and> sp_near a b) | Inl _ \<Rightarrow> (\<forall>b. r' = Inr b \<longrightarrow> sp_state b = 0 \<and> lo \<le> sp_cost b \<and> is_cost (sp_cost b)))"

lemma sp_near_refl [simp]: "sp_near a a" by (simp add: sp_near_def)

lemma sp_near_trans: "sp_near a b \<Longrightarrow> sp_near b c \<Longrightarrow> sp_near a c"
  by (auto simp: sp_near_def)

lemma zero_flags [simp]: "sp_state a = 0 \<Longrightarrow> \<not> chained a" "sp_state a = 0 \<Longrightarrow> \<not> valued a" "sp_state a = 0 \<Longrightarrow> \<not> expanded a"
  by (simp_all add: chained_def valued_def expanded_def sp_has_def)

lemma entry_near_refl [simp]: "entry_near lo r r"
  by (cases r) (auto simp: entry_near_def)

lemma entry_near_trans: "entry_near lo r s \<Longrightarrow> entry_near lo s t \<Longrightarrow> entry_near lo r t"
  by (cases r; cases s) (auto simp: entry_near_def sp_near_def)

definition near :: "solver \<Rightarrow> solver \<Rightarrow> bool" where
  "near S S' \<longleftrightarrow> s_G S' = s_G S \<and> (\<forall>m i ss. map_val S m i = Some ss \<longrightarrow> map_val S' m i = Some ss) \<and>
     (\<forall>xi i. entry_near 0 (sp_at S xi i) (sp_at S' xi i)) \<and> (\<forall>mi i. entry_near (m_k (gmodel (s_G S) mi)) (msp_at S mi i) (msp_at S' mi i)) \<and>
     (\<forall>wi bm. nv (s_G S) \<le> wi \<longrightarrow> vm_at S wi = Inr bm \<longrightarrow> vm_at S' wi = Inr bm)"

lemma near_refl: "near S S" by (simp add: near_def)

lemma near_trans: "near S S1 \<Longrightarrow> near S1 S2 \<Longrightarrow> near S S2"
  unfolding near_def by (elim conjE, intro conjI allI impI) (simp | blast intro: entry_near_trans)+

text \<open>Subsets over which an iterator runs as it should: the empty set and intervals of at most 32767 instances.\<close>

definition plain_ss :: "fhk_subset \<Rightarrow> bool" where
  "plain_ss ss \<longleftrightarrow> ss = SS_EMPTYSET \<or> (\<exists>i n. 1 \<le> n \<and> n < 32768 \<and> i + n \<le> 65536 \<and> ss = SS_PKIVAL (of_nat i) (of_nat n))"

definition plain :: "solver \<Rightarrow> bool" where
  "plain S \<longleftrightarrow> (\<forall>m i ss. map_val S m i = Some ss \<longrightarrow> plain_ss ss)"

text \<open>The computed parameters of models and the variables of computed checks are computed variables; checks have indices behind
  the variables; the numbers that costs are made of are costs, and the lower bound
  of the cost of a model is not below its constant part.\<close>

definition graph_computed :: "fhk_graph \<Rightarrow> bool" where
  "graph_computed G \<longleftrightarrow>
     (\<forall>mi. midx G mi \<longrightarrow> cost_par (m_k (gmodel G mi)) (m_c (gmodel G mi)) \<and> is_cost (m_cmin (gmodel G mi)) \<and> m_k (gmodel G mi) \<le> m_cmin (gmodel G mi) \<and>
       (\<forall>e \<in> set (m_shadows (gmodel G mi)). is_cost (se_penalty e)) \<and>
       (\<forall>e \<in> set (take (m_cparam (gmodel G mi)) (m_params (gmodel G mi))). \<not> V_GIVEN (gvar G (e_idx e))) \<and>
       (\<forall>e \<in> set (m_shadows (gmodel G mi)). nv G \<le> se_idx e \<and> (se_flags e AND W_COMPUTED \<noteq> 0 \<longrightarrow> \<not> V_GIVEN (gvar G (w_xi (gshadow G (se_idx e)))))))"

definition sgood :: "solver \<Rightarrow> bool" where
  "sgood S \<longleftrightarrow> solver_ok S \<and> plain S \<and> graph_computed (s_G S)"

definition caller_good :: "env \<Rightarrow> bool" where
  "caller_good E \<longleftrightarrow> caller_ok E \<and> (\<forall>st S. plain S \<longrightarrow> plain (e_caller E st S))"

interpretation nr: preserved sgood near
  by unfold_locales (auto intro: near_refl near_trans)

lemma sgood_same:
  assumes "s_G S' = s_G S" "s_mstate S' = s_mstate S" "s_xstate S' = s_xstate S" "s_mapstate S' = s_mapstate S" "solver_ok S' = solver_ok S"
  shows "sgood S \<Longrightarrow> sgood S'" "near S S'"
  using assms by (simp_all add: sgood_def plain_def near_def map_val_def sp_at_def msp_at_def vm_at_def)

lemma sgrows_near:
  assumes "solver_ok S" "solver_ok S'" "sgrows S S'"
  shows "near S S'"
proof -
  have G: "s_G S' = s_G S" "s_mstate S' = s_mstate S" using assms(3) by (simp_all add: sgrows_def)
  have x: "s_xstate S' xi = s_xstate S xi" if "\<not> is_given (s_G S) xi" for xi using assms(3) that by (simp add: sgrows_def)
  have given: "sp_at T xi i = Inl Fault" if "is_given (s_G T) xi" "solver_ok T" for T xi i
    using solver_okD(3) [OF that(2), of xi] that(1) by (auto simp: sp_at_def slot_ok_def is_given_def split: xslot.splits)
  have "entry_near 0 (sp_at S xi i) (sp_at S' xi i)" for xi i
  proof (cases "is_given (s_G S) xi")
    case True
    then show ?thesis using given assms(1,2) G by simp
  qed (simp add: x sp_at_def)
  moreover have "vm_at S' wi = vm_at S wi" if "nv (s_G S) \<le> wi" for wi
    using that x [of wi] by (simp add: vm_at_def is_given_def vidx_def)
  ultimately show ?thesis using map_val_grows [OF assms(3)] G by (simp add: near_def msp_at_def)
qed

lemma pres_yield:
  assumes "caller_good E"
  shows "nr.pres (\<lambda>S. S) S (fhkJ_yield E S st)"
proof (rule nr.presI)
  fix S' assume ok: "sgood S" and y: "fhkJ_yield E S st = Inr S'"
  have c: "caller_ok E" "solver_ok S" using assms ok by (simp_all add: caller_good_def sgood_def)
  note g = yield_grows [OF c y]
  have "S' = e_caller E st S" using y by (auto simp: fhkJ_yield_def Let_def split: option.splits)
  then have "plain S'" using assms ok by (simp add: caller_good_def sgood_def)
  then show "sgood S' \<and> near S S'" using g ok sgrows_near [OF c(2) g] by (simp add: sgood_def sgrows_def)
qed


section \<open>Operations that keep chains\<close>


lemma pres_expandumap:
  assumes cg: "caller_good E"
  shows "nr.pres snd S (S_expandumap E S m inst)"
proof (rule nr.presI)
  fix a assume ok: "sgood S" and e: "S_expandumap E S m inst = Inr a"
  have "snd a = S \<or> (\<exists>st. fhkJ_yield E S st = Inr (snd a))"
    using e unfolding S_expandumap_def J_shape_def J_mapcall_def
    by (auto simp: andThen_Inr Let_def split: if_splits)
  then show "sgood (snd a) \<and> near S (snd a)" using nr.presD [OF pres_yield [OF cg] ok] ok near_refl by auto
qed

lemma pres_expandmap: "caller_good E \<Longrightarrow> nr.pres (\<lambda>S. S) S (S_expandmap E S m inst)"
  by (auto simp: S_expandmap_def intro!: nr.pres_andThen [OF pres_expandumap] split: prod.split)

lemma pres_shape: "caller_good E \<Longrightarrow> nr.pres snd S (S_shape E S grp)"
  by (auto simp: S_shape_def intro!: nr.pres_andThen [OF pres_expandumap] split: prod.split)

lemma pres_map_size: "caller_good E \<Longrightarrow> nr.pres snd S (S_map_size E S m inst)"
  by (auto simp: S_map_size_def intro!: nr.pres_andThen [OF pres_expandumap] split: prod.split)

lemma expandmap_known:
  assumes "caller_good E" "sgood S" "S_expandmap E S m inst = Inr S'"
  shows "m = MAP_IDENT \<or> map_val S' m inst \<noteq> None"
  using assms expandumap_spec(3) [of E S m inst] by (auto simp: S_expandmap_def andThen_Inr caller_good_def sgood_def split: if_splits)

lemma shape_result:
  assumes "caller_good E" "sgood S" "S_shape E S grp = Inr (n, S')"
  shows "shape_of S' (int grp) = Some n"
proof -
  obtain ss where e: "S_expandumap E S (int grp) FHK_NINST = Inr (ss, S')" "n = unat (PK_N1 ss)"
    using assms(3) by (auto simp: S_shape_def andThen_Inr)
  have ok: "caller_ok E" "solver_ok S" using assms(1,2) by (simp_all add: caller_good_def sgood_def)
  note sp = expandumap_spec [OF ok e(1)]
  have "- g_nimap (s_G S) \<le> int grp \<and> int grp < g_nkmap (s_G S)" using e(1) by (auto simp: S_expandumap_def andThen_Inr map_in_range)
  then have "smap_ok S' (int grp)" using solver_okD(2) [OF sp(1), of "int grp"] sp(2) by (simp add: sgrows_def)
  then show ?thesis using sp(3,4) e(2) by (auto simp: map_val_def smap_ok_def shape_of_def split: anymap.splits if_splits)
qed

text \<open>Filling an empty slot with fresh search states or a fresh bitmap, after the caller has run.\<close>

lemma new_slot:
  assumes ok: "sgood S1" "near S S1" "s_xstate S xi = XNull"
    and T: "T = S1\<lparr>s_arena := A, s_xstate := (s_xstate S1)(xi := v)\<rparr>" "slot_ok T xi"
    and v: "\<And>sps. v = XSsp sps \<Longrightarrow> \<forall>sp \<in> set sps. sp_state sp = 0 \<and> is_cost (sp_cost sp)"
  shows "sgood T \<and> near S T"
proof -
  have same: "s_G T = s_G S1" "s_mapstate T = s_mapstate S1" "s_mstate T = s_mstate S1"
    "s_xstate T = (s_xstate S1)(xi := v)" using T(1) by simp_all
  have "solver_ok T"
  proof (rule solver_ok_extends [of S1])
    show "solver_ok S1" using ok(1) by (simp add: sgood_def)
    then show "length (r_buf T) \<le> unat (r_size T)" "unat (bm0_size T) \<le> 8 * length (bm0_intern T)"
      using solver_okD(5,6) by (simp_all add: T(1))
    show "extends S1 T" by (simp add: extends_def shape_of_def same)
    show "s_xstate T z = s_xstate S1 z \<or> slot_ok T z" for z using T(2) by (cases "z = xi") (simp_all add: same)
  qed (simp_all add: same)
  then have "sgood T" using ok(1) by (simp add: sgood_def plain_def map_val_def same)
  moreover have "near S T"
  proof -
    have sp: "sp_at T z i = (if z = xi then (case v of XSsp sps \<Rightarrow> ssp_get sps i | _ \<Rightarrow> Inl Fault) else sp_at S1 z i)" for z i
      by (simp add: sp_at_def same)
    have "entry_near 0 (sp_at S z i) (sp_at T z i)" for z i
    proof (cases "z = xi")
      case True
      have "sp_at S xi i = Inl Fault" using ok(3) by (simp add: sp_at_def)
      then show ?thesis using True v by (auto simp: entry_near_def sp ssp_get_def split: xslot.splits)
    qed (use ok(2) in \<open>simp add: sp near_def\<close>)
    moreover have "vm_at T wi = Inr bm" if "nv (s_G S) \<le> wi" "vm_at S wi = Inr bm" for wi bm
    proof -
      have "wi \<noteq> xi" using that(2) ok(3) by (auto simp: vm_at_def)
      then show ?thesis using ok(2) that by (simp add: near_def vm_at_def same)
    qed
    ultimately show ?thesis using ok(2) by (simp add: near_def map_val_def msp_at_def same)
  qed
  ultimately show ?thesis by blast
qed

lemma pres_vexpandsp:
  assumes "caller_good E" "\<not> V_GIVEN (gvar (s_G S) xi)"
  shows "nr.pres (\<lambda>S. S) S (S_vexpandsp E S xi)"
proof (rule nr.presI)
  fix S' assume ok: "sgood S" and e: "S_vexpandsp E S xi = Inr S'"
  show "sgood S' \<and> near S S'"
  proof (cases "s_xstate S xi = XNull")
    case True
    then obtain n S1 sps S2 where x: "vidx (s_G S) xi" "S_shape E S (v_group (gvar (s_G S) xi)) = Inr (n, S1)"
      "ssp_alloc E S1 n \<lparr>sp_cost = 0, sp_state = 0\<rparr> = Inr (sps, S2)" "S' = S2\<lparr>s_xstate := (s_xstate S2)(xi := XSsp sps)\<rparr>"
      using e by (auto simp: S_vexpandsp_def andThen_Inr var_at_def)
    have S1: "sgood S1" "near S S1" using nr.presD [OF pres_shape [OF assms(1)] ok x(2)] by auto
    obtain A where A: "sps = replicate n \<lparr>sp_cost = 0, sp_state = 0\<rparr>" "S2 = S1\<lparr>s_arena := A\<rparr>"
      using alloc_array_frame [OF x(3) [unfolded ssp_alloc_def]] by blast
    have G: "s_G S1 = s_G S" using S1(2) by (simp add: near_def)
    have "slot_ok S' xi" using shape_result [OF assms(1) ok x(2)] x(1) assms(2) G by (simp add: slot_ok_def x(4) A)
    then show ?thesis using new_slot [OF S1 True, where T = S' and A = A and v = "XSsp sps"] by (simp add: x(4) A)
  qed (use e ok near_refl in \<open>auto simp: S_vexpandsp_def\<close>)
qed

lemma pres_vexpandss:
  assumes "caller_good E"
  shows "nr.pres (\<lambda>S. S) S (S_vexpandss E S wi)"
proof (rule nr.presI)
  fix S' assume ok: "sgood S" and e: "S_vexpandss E S wi = Inr S'"
  show "sgood S' \<and> near S S'"
  proof (cases "s_xstate S wi = XNull")
    case True
    then obtain n S1 bm S2 where x: "nv (s_G S) \<le> wi" "wi < nx (s_G S)" "S_shape E S (w_group (gshadow (s_G S) wi)) = Inr (n, S1)"
      "S_bm_alloc E S1 n 0 = Inr (bm, S2)" "S' = S2\<lparr>s_xstate := (s_xstate S2)(wi := XBm bm)\<rparr>"
      using e by (auto simp: S_vexpandss_def andThen_Inr shadow_at_def)
    have S1: "sgood S1" "near S S1" using nr.presD [OF pres_shape [OF assms(1)] ok x(3)] by auto
    obtain A where A: "bm = bm_alloc n 0" "S2 = S1\<lparr>s_arena := A\<rparr>" using S_bm_alloc_frame [OF x(4)] by blast
    have G: "s_G S1 = s_G S" using S1(2) by (simp add: near_def)
    have "n \<le> 8 * length bm" by (simp add: A bm_alloc_length)
    then have "slot_ok S' wi" using shape_result [OF assms(1) ok x(3)] x(1,2) G by (simp add: slot_ok_def vidx_def x(5) A)
    then show ?thesis using new_slot [OF S1 True, where T = S' and A = A and v = "XBm bm"] by (simp add: x(5) A)
  qed (use e ok near_refl in \<open>auto simp: S_vexpandss_def\<close>)
qed


lemma pres_mexpandsp:
  assumes "caller_good E"
  shows "nr.pres (\<lambda>S. S) S (S_mexpandsp E S mi)"
proof (rule nr.presI)
  fix S' assume ok: "sgood S" and e: "S_mexpandsp E S mi = Inr S'"
  show "sgood S' \<and> near S S'"
  proof (cases "s_mstate S mi")
    case None
    then obtain n S1 sps S2 where x: "midx (s_G S) mi" "S_shape E S (m_group (gmodel (s_G S) mi)) = Inr (n, S1)"
      "ssp_alloc E S1 n \<lparr>sp_cost = m_cmin (gmodel (s_G S) mi), sp_state = 0\<rparr> = Inr (sps, S2)" "S' = S2\<lparr>s_mstate := (s_mstate S2)(mi := Some sps)\<rparr>"
      using e by (auto simp: S_mexpandsp_def andThen_Inr model_at_def)
    have S1: "sgood S1" "near S S1" using nr.presD [OF pres_shape [OF assms(1)] ok x(2)] by auto
    obtain A where A: "sps = replicate n \<lparr>sp_cost = m_cmin (gmodel (s_G S) mi), sp_state = 0\<rparr>" "S2 = S1\<lparr>s_arena := A\<rparr>"
      using alloc_array_frame [OF x(3) [unfolded ssp_alloc_def]] by blast
    have same: "s_G S' = s_G S1" "s_mapstate S' = s_mapstate S1" "s_xstate S' = s_xstate S1" "s_mstate S' = (s_mstate S1)(mi := Some sps)"
      by (simp_all add: x(4) A)
    have G: "s_G S1 = s_G S" using S1(2) by (simp add: near_def)
    have cmin: "is_cost (m_cmin (gmodel (s_G S) mi))" "m_k (gmodel (s_G S) mi) \<le> m_cmin (gmodel (s_G S) mi)" using ok x(1) by (simp_all add: sgood_def graph_computed_def)
    have sh: "shape_of S' g = shape_of S1 g" for g by (simp add: shape_of_def same)
    have "solver_ok S'"
    proof (rule solver_ok_extends [of S1])
      show "solver_ok S1" using S1(1) by (simp add: sgood_def)
      then show "length (r_buf S') \<le> unat (r_size S')" "unat (bm0_size S') \<le> 8 * length (bm0_intern S')"
        using solver_okD(5,6) by (simp_all add: x(4) A)
      show "extends S1 S'" by (simp add: extends_def sh same)
      show "s_mstate S' z = s_mstate S1 z \<or> mslot_ok S' z" for z
        using shape_result [OF assms(1) ok x(2)] by (cases "z = mi") (simp_all add: same mslot_ok_def sh G A)
    qed (simp_all add: same)
    then have "sgood S'" using S1(1) by (simp add: sgood_def plain_def map_val_def same)
    moreover have "near S S'"
    proof -
      have "msp_at S' z i = (if z = mi then ssp_get sps i else msp_at S1 z i)" for z i by (simp add: msp_at_def same)
      moreover have "msp_at S mi i = Inl Fault" for i using None by (simp add: msp_at_def)
      ultimately have "entry_near (m_k (gmodel (s_G S) z)) (msp_at S z i) (msp_at S' z i)" for z i
        using S1(2) by (cases "z = mi") (auto simp: entry_near_def near_def ssp_get_def A cmin)
      then show ?thesis using S1(2) by (simp add: near_def map_val_def sp_at_def vm_at_def same)
    qed
    ultimately show ?thesis by blast
  qed (use e ok near_refl in \<open>auto simp: S_mexpandsp_def\<close>)
qed

text \<open>Operations that change only memory, values, buffers and the arena.\<close>

definition quiet :: "solver \<Rightarrow> solver \<Rightarrow> bool" where
  "quiet S S' \<longleftrightarrow> s_G S' = s_G S \<and> s_mstate S' = s_mstate S \<and> s_xstate S' = s_xstate S \<and> s_mapstate S' = s_mapstate S \<and>
     r_buf S' = r_buf S \<and> r_size S' = r_size S \<and> bm0_size S' = bm0_size S \<and> bm0_intern S' = bm0_intern S"

lemma quiet_good: "quiet S S' \<Longrightarrow> sgood S \<Longrightarrow> sgood S' \<and> near S S'"
proof -
  assume q: "quiet S S'" and ok: "sgood S"
  then have "solver_ok S' = solver_ok S"
    by (simp add: quiet_def solver_ok_def smap_ok_def slot_ok_def mslot_ok_def shape_of_def cong: anymap.case_cong xslot.case_cong)
  then show ?thesis using sgood_same [of S' S] ok q by (simp add: quiet_def)
qed

interpretation qt: preserved "\<lambda>_. True" quiet
  by unfold_locales (auto simp: quiet_def)

lemma pres_quiet: "qt.pres st S r \<Longrightarrow> nr.pres st S r"
  using quiet_good by (auto simp: qt.pres_def nr.pres_def)

lemma quiet_alloc: "qt.pres snd S (S_alloc E S sz al)"
  by (rule qt.presI) (auto simp: S_alloc_def quiet_def split: option.splits)

lemma pres_vexpandvp:
  assumes "caller_good E"
  shows "nr.pres (\<lambda>S. S) S (S_vexpandvp E S xi)"
proof -
  have "nr.pres (\<lambda>S. S) S (Inr (S\<lparr>s_value := v\<rparr>))" for S v
    by (rule pres_quiet, rule qt.presI) (auto simp: quiet_def)
  then show ?thesis unfolding S_vexpandvp_def
    by (auto intro!: nr.pres_then [of "var_at _ _"] nr.pres_then [of "model_at _ _"] nr.pres_andThen [OF pres_shape [OF assms]] nr.pres_andThen [OF pres_quiet [OF quiet_alloc]] split: prod.split)
qed

lemma pres_mexpandvp:
  assumes "caller_good E"
  shows "nr.pres (\<lambda>S. S) S (S_mexpandvp E S mi)"
proof -
  have "nr.pres (\<lambda>S. S) S (Inr (S\<lparr>s_value := v\<rparr>))" for S v
    by (rule pres_quiet, rule qt.presI) (auto simp: quiet_def)
  then show ?thesis unfolding S_mexpandvp_def
    by (auto intro!: nr.pres_then [of "var_at _ _"] nr.pres_then [of "model_at _ _"] nr.pres_andThen [OF pres_shape [OF assms]] nr.pres_andThen [OF pres_quiet [OF quiet_alloc]] split: prod.split)
qed


definition known :: "solver \<Rightarrow> int \<Rightarrow> nat \<Rightarrow> bool" where
  "known S m inst \<longleftrightarrow> m = MAP_IDENT \<or> map_val S m inst \<noteq> None"

lemma known_near: "known S m inst \<Longrightarrow> near S S' \<Longrightarrow> known S' m inst"
  by (auto simp: known_def near_def)

lemma pres_vexpandbe:
  assumes cg: "caller_good E"
  shows "nr.pres (\<lambda>S. S) S (S_vexpandbe E S xi inst)"
  unfolding S_vexpandbe_def
  by (intro nr.pres_then nr.pres_each nr.pres_andThen [OF pres_mexpandsp [OF cg]] pres_expandmap [OF cg])

lemma vexpandbe_known:
  assumes cg: "caller_good E" and ok: "sgood S" and e: "S_vexpandbe E S xi inst = Inr S'" and a: "e \<in> set (v_models (gvar (s_G S) xi))"
  shows "known S' (e_map e) inst"
proof -
  let ?f = "\<lambda>e S. andThen (S_mexpandsp E S (e_idx e)) (\<lambda>S1. S_expandmap E S1 (e_map e) inst)"
  have run: "each ?f (v_models (gvar (s_G S) xi)) S = Inr S'" using e by (auto simp: S_vexpandbe_def andThen_Inr var_at_def)
  have "\<forall>e \<in> set (v_models (gvar (s_G S) xi)). known S' (e_map e) inst"
  proof (rule nr.each_all [OF _ _ _ ok run])
    fix e T T' assume T: "sgood T" "?f e T = Inr T'"
    then obtain T1 where T1: "S_mexpandsp E T (e_idx e) = Inr T1" "S_expandmap E T1 (e_map e) inst = Inr T'" by (auto simp: andThen_Inr)
    have "sgood T1" using nr.presD [OF pres_mexpandsp [OF cg] T(1) T1(1)] by blast
    then show "known T' (e_map e) inst" using expandmap_known [OF cg _ T1(2)] by (simp add: known_def)
  qed (auto intro!: nr.pres_andThen [OF pres_mexpandsp [OF cg]] pres_expandmap [OF cg] elim: known_near)
  then show ?thesis using a by blast
qed

lemma cparam_computed:
  assumes "sgood S" "midx (s_G S) mi" "e \<in> set (take (m_cparam (gmodel (s_G S) mi)) (m_params (gmodel (s_G S) mi)))"
  shows "\<not> V_GIVEN (gvar (s_G S) (e_idx e))"
  using assms by (auto simp: sgood_def graph_computed_def)

lemma mexpandbe_spec:
  assumes cg: "caller_good E" and ok: "sgood S" and run: "S_mexpandbe E S mi inst = Inr S'"
  shows "sgood S'" "near S S'" "\<forall>e \<in> set (m_shadows (gmodel (s_G S) mi)). known S' (se_map e) inst"
    "\<forall>e \<in> set (take (m_cparam (gmodel (s_G S) mi)) (m_params (gmodel (s_G S) mi))). known S' (e_map e) inst"
proof -
  define m where "m = gmodel (s_G S) mi"
  let ?f = "\<lambda>e S. andThen (S_vexpandss E S (se_idx e)) (\<lambda>S1. S_expandmap E S1 (se_map e) inst)"
  let ?g = "\<lambda>e S. andThen (S_vexpandsp E S (e_idx e)) (\<lambda>S1. S_expandmap E S1 (e_map e) inst)"
  obtain S1 where mi: "midx (s_G S) mi" and S1: "each ?f (m_shadows m) S = Inr S1" "each ?g (take (m_cparam m) (m_params m)) S1 = Inr S'"
    using run by (auto simp: S_mexpandbe_def andThen_Inr model_at_def m_def)
  have pf: "nr.pres (\<lambda>S. S) T (?f e T)" for e T
    by (intro nr.pres_andThen [OF pres_vexpandss [OF cg]] pres_expandmap [OF cg])
  have 1: "sgood S1" "near S S1" using nr.presD [OF nr.pres_each [of "m_shadows m" S ?f] ok S1(1)] pf by auto
  have pg: "nr.pres (\<lambda>S. S) T (?g e T)" if "e \<in> set (take (m_cparam m) (m_params m))" "near S1 T" for e T
  proof -
    have "\<not> V_GIVEN (gvar (s_G T) (e_idx e))" using cparam_computed [OF ok mi] that 1(2) by (simp add: m_def near_def)
    then show ?thesis by (intro nr.pres_andThen [OF pres_vexpandsp [OF cg]] pres_expandmap [OF cg])
  qed
  show 2: "sgood S'" "near S S'" using nr.presD [OF nr.pres_each [of _ S1 ?g] 1(1) S1(2)] pg near_trans [OF 1(2)] by auto
  have "\<forall>e \<in> set (m_shadows m). known S1 (se_map e) inst"
  proof (rule nr.each_all [OF _ _ _ ok S1(1)])
    fix e T T' assume T: "sgood T" "?f e T = Inr T'"
    then obtain T1 where T1: "S_vexpandss E T (se_idx e) = Inr T1" "S_expandmap E T1 (se_map e) inst = Inr T'" by (auto simp: andThen_Inr)
    have "sgood T1" using nr.presD [OF pres_vexpandss [OF cg] T(1) T1(1)] by blast
    then show "known T' (se_map e) inst" using expandmap_known [OF cg _ T1(2)] by (simp add: known_def)
  qed (auto intro: pf elim: known_near)
  moreover have "near S1 S'" using nr.presD [OF nr.pres_each [of _ S1 ?g] 1(1) S1(2)] pg by auto
  ultimately show "\<forall>e \<in> set (m_shadows (gmodel (s_G S) mi)). known S' (se_map e) inst" using known_near by (auto simp: m_def)
  show "\<forall>e \<in> set (take (m_cparam (gmodel (s_G S) mi)) (m_params (gmodel (s_G S) mi))). known S' (e_map e) inst" unfolding m_def [symmetric]
  proof (rule nr.each_all [OF _ _ _ 1(1) S1(2)])
    fix e T T' assume e: "e \<in> set (take (m_cparam m) (m_params m))" and T: "sgood T" "near S1 T" "?g e T = Inr T'"
    then obtain T1 where T1: "S_vexpandsp E T (e_idx e) = Inr T1" "S_expandmap E T1 (e_map e) inst = Inr T'" by (auto simp: andThen_Inr)
    have "\<not> V_GIVEN (gvar (s_G T) (e_idx e))" using cparam_computed [OF ok mi] e 1(2) T(2) by (simp add: m_def near_def)
    then have "sgood T1" using nr.presD [OF pres_vexpandsp [OF cg] T(1) T1(1)] by blast
    then show "known T' (e_map e) inst" using expandmap_known [OF cg _ T1(2)] by (simp add: known_def)
  qed (auto intro: pg elim: known_near)
qed

lemma pres_yields:
  assumes "caller_good E"
  shows "nr.pres (\<lambda>S. S) S (J_vref E S xi i)" "nr.pres (\<lambda>S. S) S (J_modcall E S p)"
  using pres_yield [OF assms] by (simp_all add: J_vref_def J_modcall_def)

lemma pres_touch: "caller_good E \<Longrightarrow> nr.pres (\<lambda>S. S) S (S_touch_vmstate E S xi inst)"
  unfolding S_touch_vmstate_def by (auto intro!: nr.pres_andThen [OF pres_yields(1)])

lemma pres_missingi:
  assumes "caller_good E"
  shows "nr.pres (\<lambda>S. S) S (S_get_missingi E fuel S xi inst e)"
proof (induction fuel arbitrary: S inst)
  case (Suc fuel)
  have "nr.pres (\<lambda>S. S) T (andThen (vm_at T xi) (\<lambda>bm1. andThen (bm_get bm1 i) (\<lambda>miss.
      if miss then Inl (JE_nvalue xi i) else S_get_missingi E fuel T xi i e)))" for T i
    using Suc by (intro nr.pres_then) simp
  then show ?case unfolding S_get_missingi.simps
    by (intro nr.pres_then) (auto split: prod.split intro!: nr.pres_andThen [OF pres_yields(1) [OF assms]])
qed simp

lemma pres_given1:
  assumes "caller_good E"
  shows "nr.pres (\<lambda>S. S) S (S_get_given1 E S xi inst)"
proof -
  have 1: "nr.pres (\<lambda>S. S) T (andThen (vm_at T xi) (\<lambda>bm. andThen (bm_get bm inst) (\<lambda>miss. if miss then Inl e else Inr T)))" for T e
    by (intro nr.pres_then) simp
  show ?thesis unfolding S_get_given1_def
    by (intro nr.pres_andThen [OF pres_touch [OF assms]], intro nr.pres_then) (auto intro!: nr.pres_andThen [OF pres_yields(1) [OF assms]] 1)
qed

lemma pres_si3_loop:
  assumes "caller_good E"
  shows "nr.pres (\<lambda>S. S) S (get_given_si3_loop E S xi s)"
  using assms
proof (induction E S xi s rule: get_given_si3_loop.induct)
  case (1 E S xi s)
  have split: "get_given_si3_loop E S xi s = andThen (S_get_missingi E (Suc (unat (si_num s))) S xi (unat (si_inst s)) (unat (si_inst s) + unat (si_num s)))
      (\<lambda>S1. case SI3_NEXTI (ivm S1) s of Some s1 \<Rightarrow> get_given_si3_loop E S1 xi s1 | None \<Rightarrow> Inr S1)"
    by (subst get_given_si3_loop.simps) (simp add: andThen_def)
  show ?case unfolding split
    by (intro nr.pres_andThen [OF pres_missingi [OF 1(2)]]) (auto split: option.split intro: 1)
qed


lemma pres_given:
  assumes "caller_good E"
  shows "nr.pres (\<lambda>S. S) S (S_get_given E S xi m inst)"
  unfolding S_get_given_def S_get_given_si3_def
  by (auto intro!: pres_given1 nr.pres_andThen [OF pres_expandumap] nr.pres_andThen [OF pres_touch] pres_si3_loop assms split: prod.split)

section \<open>Iteration\<close>

text \<open>The instances an iterator runs over, as long as it stays inside one interval: it does not matter what \<^verbatim>\<open>si_cnexti\<close> does.\<close>

definition steady :: "ssiter \<Rightarrow> bool" where
  "steady it \<longleftrightarrow> \<not> (it AND SI_NEXTMASK = 0 \<and> it AND SI_NEXTIMASK \<noteq> 0)"

lemma steadyI:
  assumes "\<And>f. SI_NEXT f it = r"
  shows "steady it"
proof (rule ccontr)
  assume "\<not> steady it"
  then have "SI_NEXT f it = Some (f it)" for f by (simp add: steady_def SI_NEXT_def)
  from this [of "\<lambda>_. 0"] this [of "\<lambda>_. 1"] show False using assms [of "\<lambda>_. 0"] assms [of "\<lambda>_. 1"] by simp
qed

fun iter :: "ssiter \<Rightarrow> nat list \<Rightarrow> bool" where
  "iter it [] \<longleftrightarrow> False"
| "iter it (j # js) \<longleftrightarrow> unat (SI_INST it) = j \<and> steady it \<and> (case SI_NEXT id it of None \<Rightarrow> js = [] | Some it1 \<Rightarrow> iter it1 js)"

lemma iter_inst: "iter it js \<Longrightarrow> js \<noteq> [] \<and> unat (SI_INST it) = hd js"
  by (cases js) auto

lemma iter_next:
  assumes "iter it (j # js)"
  shows "js = [] \<and> S_next S it = Inr None \<or> (\<exists>it1. S_next S it = Inr (Some it1) \<and> iter it1 js)"
proof -
  have "S_next S it = Inr (SI_NEXT id it)" using assms unfolding S_next_def iter.simps steady_def by (simp only: if_False)
  then show ?thesis using assms by (cases "SI_NEXT id it") auto
qed

lemma iter_at:
  assumes "1 \<le> n" "i + n \<le> 65536" "even c"
  shows "iter (of_int (si_at c i n)) [i ..< i + n]"
  using assms(1,2)
proof (induction n arbitrary: i)
  case (Suc n)
  have i: "i < 65536" using Suc.prems by simp
  show ?case
  proof (cases "n = 0")
    case True
    have "SI_NEXT f (of_int (si_at c i 1)) = None" for f using si_at_last [OF i, of f c] assms(3) by simp
    then show ?thesis using True steadyI si_at_inst [OF i, of c 1] by simp
  next
    case False
    have "SI_NEXT f (of_int (si_at c i (Suc n))) = Some (of_int (si_at c (i + 1) n))" for f
      using si_at_step [of i "Suc n" f c] Suc.prems False by simp
    moreover have "[i ..< i + Suc n] = i # [i + 1 ..< i + 1 + n]" by (subst upt_rec) simp
    ultimately show ?thesis using Suc.IH [of "i + 1"] steadyI False Suc.prems si_at_inst [OF i, of c "Suc n"] by (simp del: upt_Suc)
  qed
qed simp

definition ss_span :: "fhk_subset \<Rightarrow> nat list" where
  "ss_span ss = [unat (PK_FIRST ss) ..< unat (PK_FIRST ss) + unat (PK_N1 ss)]"

definition insts :: "solver \<Rightarrow> int \<Rightarrow> nat \<Rightarrow> nat list" where
  "insts S m inst = (if m = MAP_IDENT then [inst] else case map_val S m inst of Some ss \<Rightarrow> ss_span ss | None \<Rightarrow> [])"

lemma insts_near: "known S m i \<Longrightarrow> near S S' \<Longrightarrow> insts S' m i = insts S m i"
  by (auto simp: insts_def known_def near_def split: option.splits)

lemma plain_iter:
  assumes "plain_ss ss"
  shows "\<not> SS_ISCOMPLEX ss" "if SS_ISEMPTY ss then ss_span ss = [] else iter (SS_IIVAL ss) (ss_span ss)"
proof -
  consider "ss = SS_EMPTYSET" | i n where "1 \<le> n" "n < 32768" "i + n \<le> 65536" "ss = SS_PKIVAL (of_nat i) (of_nat n)"
    using assms by (auto simp: plain_ss_def)
  then have "\<not> SS_ISCOMPLEX ss \<and> (if SS_ISEMPTY ss then ss_span ss = [] else iter (SS_IIVAL ss) (ss_span ss))"
  proof cases
    case 1
    have "PK_N1 SS_EMPTYSET = 0" by (simp add: PK_N1_def SS_EMPTYSET_def)
    then show ?thesis by (simp add: 1 SS_ISCOMPLEX_def SS_ISEMPTY_def ss_span_def)
  next
    case 2
    have u: "unat (PK_FIRST ss) = i" "unat (PK_N1 ss) = n" "SS_ISIVAL ss" using pkival_unpack [of n i] 2 by auto
    have s: "sint ss < 0" using u(3) by (simp add: SS_ISIVAL_def)
    have "iter ss [i ..< i + n]" using iter_at [of n i "- 4"] SS_PKIVAL_at [of n i] 2 by simp
    moreover have "\<not> SS_ISEMPTY ss" "\<not> SS_ISCOMPLEX ss" using s by (auto simp: SS_ISEMPTY_def SS_ISCOMPLEX_def SS_EMPTYSET_def)
    ultimately show ?thesis by (simp add: ss_span_def u SS_IIVAL_def)
  qed
  then show "\<not> SS_ISCOMPLEX ss" "if SS_ISEMPTY ss then ss_span ss = [] else iter (SS_IIVAL ss) (ss_span ss)" by blast+
qed

lemma mapE_subset_val:
  assumes "m \<noteq> MAP_IDENT" "known S m i" "solver_ok S" "mapE_subset S m i = Inr ss"
  shows "map_val S m i = Some ss"
proof -
  have m: "smap_ok S m" "if MAP_ISCONST m then as_kmap (s_mapstate S m) = Inr ss else imap_at (s_mapstate S m) i = Inr ss"
    using assms(3,4) solver_okD(2) [OF assms(3), of m] by (auto simp: mapE_subset_def andThen_Inr map_in_range)
  then show ?thesis using assms(1,2) by (cases "s_mapstate S m") (auto simp: known_def map_val_def split: if_splits)
qed

lemma mapE_iter:
  assumes "sgood S" "known S m i" "i < 65536" "mapE_ssiter S m i = Inr osi"
  shows "case osi of None \<Rightarrow> insts S m i = [] | Some it \<Rightarrow> iter it (insts S m i)"
proof (cases "m = MAP_IDENT")
  case True
  have "iter (of_nat i) [i]" using iter_at [of 1 i 0] assms(3) by (simp add: si_at_def)
  then show ?thesis using True assms(4) by (auto simp: mapE_ssiter_def insts_def)
next
  case False
  then obtain ss where ss: "mapE_subset S m i = Inr ss" using assms(4) by (auto simp: mapE_ssiter_def andThen_Inr)
  have v: "map_val S m i = Some ss" using mapE_subset_val [OF False assms(2) _ ss] assms(1) by (simp add: sgood_def)
  then have "plain_ss ss" using assms(1) by (auto simp: sgood_def plain_def)
  note p = plain_iter [OF this]
  then show ?thesis using assms(4) False v ss by (auto simp: mapE_ssiter_def insts_def split: if_splits)
qed


section \<open>Writing search states\<close>

lemma set_sp_frame [simp]:
  "s_G (set_sp S xi i v) = s_G S" "s_mapstate (set_sp S xi i v) = s_mapstate S" "s_mstate (set_sp S xi i v) = s_mstate S"
  "s_value (set_sp S xi i v) = s_value S" "s_mem (set_sp S xi i v) = s_mem S"
  "msp_at (set_sp S xi i v) mi j = msp_at S mi j" "vm_at (set_sp S xi i v) wi = vm_at S wi" "map_val (set_sp S xi i v) m j = map_val S m j"
  "known (set_sp S xi i v) m j = known S m j" "insts (set_sp S xi i v) m j = insts S m j"
  by (auto simp: set_sp_def msp_at_def vm_at_def map_val_def known_def insts_def split: xslot.split)

lemma set_msp_frame [simp]:
  "s_G (set_msp S mi i v) = s_G S" "s_mapstate (set_msp S mi i v) = s_mapstate S" "s_xstate (set_msp S mi i v) = s_xstate S"
  "sp_at (set_msp S mi i v) xi j = sp_at S xi j" "vm_at (set_msp S mi i v) wi = vm_at S wi" "map_val (set_msp S mi i v) m j = map_val S m j"
  "known (set_msp S mi i v) m j = known S m j" "insts (set_msp S mi i v) m j = insts S m j"
  by (simp_all add: set_msp_def sp_at_def vm_at_def map_val_def known_def insts_def split: option.split)

lemma sp_at_set: "sp_at S xi i = Inr sp \<Longrightarrow> sp_at (set_sp S xi i v) z j = (if z = xi \<and> j = i then Inr v else sp_at S z j)"
  by (auto simp: sp_at_def set_sp_def ssp_get_def checked_def split: xslot.splits if_splits)

lemma msp_at_set: "msp_at S mi i = Inr sp \<Longrightarrow> msp_at (set_msp S mi i v) z j = (if z = mi \<and> j = i then Inr v else msp_at S z j)"
  by (auto simp: msp_at_def set_msp_def ssp_get_def checked_def split: option.splits if_splits)

lemma sgood_set_sp [simp]: "sgood (set_sp S xi i v) = sgood S"
proof (cases "s_xstate S xi")
  case (XSsp sps)
  define T where "T = set_sp S xi i v"
  have T: "T = S\<lparr>s_xstate := (s_xstate S)(xi := XSsp (sps[i := v]))\<rparr>" using XSsp by (simp add: T_def set_sp_def)
  have "slot_ok T z = slot_ok S z" for z
    using XSsp by (cases "z = xi") (simp_all add: T slot_ok_def cong: xslot.case_cong)
  moreover have "smap_ok T m = smap_ok S m" "mslot_ok T mi = mslot_ok S mi" for m mi
    by (simp_all add: T smap_ok_def mslot_ok_def cong: anymap.case_cong)
  ultimately have "solver_ok T = solver_ok S" by (simp add: solver_ok_def T)
  then show ?thesis unfolding T_def by (simp add: sgood_def plain_def)
qed (simp_all add: set_sp_def)

lemma sgood_set_msp [simp]: "sgood (set_msp S mi i v) = sgood S"
proof (cases "s_mstate S mi")
  case (Some sps)
  define T where "T = set_msp S mi i v"
  have T: "T = S\<lparr>s_mstate := (s_mstate S)(mi := Some (sps[i := v]))\<rparr>" using Some by (simp add: T_def set_msp_def)
  have "mslot_ok T z = mslot_ok S z" for z using Some by (cases "z = mi") (simp_all add: T mslot_ok_def)
  moreover have "smap_ok T m = smap_ok S m" "slot_ok T xi = slot_ok S xi" for m xi
    by (simp_all add: T smap_ok_def slot_ok_def cong: anymap.case_cong xslot.case_cong)
  ultimately have "solver_ok T = solver_ok S" by (simp add: solver_ok_def T)
  then show ?thesis unfolding T_def by (simp add: sgood_def plain_def)
qed (simp_all add: set_msp_def)

lemma near_set_value:
  "sp_at S xi i = Inr sp \<Longrightarrow> chained sp \<Longrightarrow> near S (set_sp S xi i (sp_or sp SP_VALUE))"
  "msp_at S mi i = Inr sp \<Longrightarrow> chained sp \<Longrightarrow> near S (set_msp S mi i (sp_or sp SP_VALUE))"
proof -
  assume "sp_at S xi i = Inr sp" "chained sp"
  then have "entry_near 0 (sp_at S z j) (sp_at (set_sp S xi i (sp_or sp SP_VALUE)) z j)" for z j
    by (auto simp: sp_at_set entry_near_def sp_near_def split: sum.split)
  then show "near S (set_sp S xi i (sp_or sp SP_VALUE))" by (simp add: near_def)
next
  assume "msp_at S mi i = Inr sp" "chained sp"
  then have "entry_near (m_k (gmodel (s_G S) z)) (msp_at S z j) (msp_at (set_msp S mi i (sp_or sp SP_VALUE)) z j)" for z j
    by (auto simp: msp_at_set entry_near_def sp_near_def split: sum.split)
  then show "near S (set_msp S mi i (sp_or sp SP_VALUE))" by (simp add: near_def)
qed

section \<open>Values follow chains\<close>

definition is_chained :: "solver \<Rightarrow> int \<Rightarrow> nat \<Rightarrow> bool" where
  "is_chained S xi i \<longleftrightarrow> (\<exists>sp. sp_at S xi i = Inr sp \<and> chained sp)"

definition is_mchained :: "solver \<Rightarrow> int \<Rightarrow> nat \<Rightarrow> bool" where
  "is_mchained S mi i \<longleftrightarrow> (\<exists>sp. msp_at S mi i = Inr sp \<and> chained sp)"

definition comp_params :: "fhk_graph \<Rightarrow> int \<Rightarrow> fhk_edge list" where
  "comp_params G mi = take (m_cparam (gmodel G mi)) (m_params (gmodel G mi))"

text \<open>A chained variable has a chained model, and the computed parameters of a chained model are chained.\<close>

definition closed_v :: "solver \<Rightarrow> int \<Rightarrow> nat \<Rightarrow> bool" where
  "closed_v S xi i \<longleftrightarrow> (\<forall>sp. sp_at S xi i = Inr sp \<longrightarrow> chained sp \<longrightarrow> SP_CHAIN_EI sp < length (v_models (gvar (s_G S) xi)) \<longrightarrow>
     is_mchained S (e_idx (v_models (gvar (s_G S) xi) ! SP_CHAIN_EI sp)) (SP_CHAIN_INSTANCE sp))"

definition closed_m :: "solver \<Rightarrow> int \<Rightarrow> nat \<Rightarrow> bool" where
  "closed_m S mi i \<longleftrightarrow> (is_mchained S mi i \<longrightarrow>
     (\<forall>e \<in> set (comp_params (s_G S) mi). known S (e_map e) i \<and> (\<forall>j \<in> set (insts S (e_map e) i). is_chained S (e_idx e) j)))"

definition closed :: "solver \<Rightarrow> bool" where
  "closed S \<longleftrightarrow> (\<forall>xi i. closed_v S xi i) \<and> (\<forall>mi i. closed_m S mi i)"

lemma near_sp:
  assumes "near S S'"
  shows "sp_at S xi i = Inr sp \<Longrightarrow> \<exists>sp'. sp_at S' xi i = Inr sp' \<and> sp_near sp sp'"
    "msp_at S mi i = Inr sp \<Longrightarrow> \<exists>sp'. msp_at S' mi i = Inr sp' \<and> sp_near sp sp'"
proof -
  have "entry_near 0 (sp_at S xi i) (sp_at S' xi i)" "entry_near (m_k (gmodel (s_G S) mi)) (msp_at S mi i) (msp_at S' mi i)" using assms by (simp_all add: near_def)
  then show "sp_at S xi i = Inr sp \<Longrightarrow> \<exists>sp'. sp_at S' xi i = Inr sp' \<and> sp_near sp sp'"
    "msp_at S mi i = Inr sp \<Longrightarrow> \<exists>sp'. msp_at S' mi i = Inr sp' \<and> sp_near sp sp'"
    by (auto simp: entry_near_def)
qed

lemma near_sp_back:
  assumes "near S S'"
  shows "sp_at S' xi i = Inr sp' \<Longrightarrow> (\<exists>sp. sp_at S xi i = Inr sp \<and> sp_near sp sp') \<or> sp_state sp' = 0 \<and> is_cost (sp_cost sp')"
    "msp_at S' mi i = Inr sp' \<Longrightarrow> (\<exists>sp. msp_at S mi i = Inr sp \<and> sp_near sp sp') \<or> sp_state sp' = 0 \<and> m_k (gmodel (s_G S) mi) \<le> sp_cost sp' \<and> is_cost (sp_cost sp')"
proof -
  have "entry_near 0 (sp_at S xi i) (sp_at S' xi i)" "entry_near (m_k (gmodel (s_G S) mi)) (msp_at S mi i) (msp_at S' mi i)" using assms by (simp_all add: near_def)
  then show "sp_at S' xi i = Inr sp' \<Longrightarrow> (\<exists>sp. sp_at S xi i = Inr sp \<and> sp_near sp sp') \<or> sp_state sp' = 0 \<and> is_cost (sp_cost sp')"
    "msp_at S' mi i = Inr sp' \<Longrightarrow> (\<exists>sp. msp_at S mi i = Inr sp \<and> sp_near sp sp') \<or> sp_state sp' = 0 \<and> m_k (gmodel (s_G S) mi) \<le> sp_cost sp' \<and> is_cost (sp_cost sp')"
    by (auto simp: entry_near_def split: sum.splits)
qed

lemma sp_nearD: "sp_near a b \<Longrightarrow> chained b = chained a \<and> expanded b = expanded a \<and> sp_cost b = sp_cost a \<and>
    SP_CHAIN_EI b = SP_CHAIN_EI a \<and> SP_CHAIN_INSTANCE b = SP_CHAIN_INSTANCE a \<and> (valued a \<longrightarrow> valued b) \<and> (valued b \<longrightarrow> valued a \<or> chained a)"
  by (auto simp: sp_near_def)

lemma chained_near:
  assumes n: "near S S'"
  shows "is_chained S' xi i = is_chained S xi i" "is_mchained S' mi i = is_mchained S mi i"
proof -
  have "is_chained S xi i \<Longrightarrow> is_chained S' xi i" using near_sp(1) [OF n, of xi i] sp_nearD unfolding is_chained_def by blast
  moreover have "is_chained S' xi i \<Longrightarrow> is_chained S xi i"
    using near_sp_back(1) [OF n, of xi i] sp_nearD zero_flags(1) unfolding is_chained_def by blast
  ultimately show "is_chained S' xi i = is_chained S xi i" by blast
  have "is_mchained S mi i \<Longrightarrow> is_mchained S' mi i" using near_sp(2) [OF n, of mi i] sp_nearD unfolding is_mchained_def by blast
  moreover have "is_mchained S' mi i \<Longrightarrow> is_mchained S mi i"
    using near_sp_back(2) [OF n, of mi i] sp_nearD zero_flags(1) unfolding is_mchained_def by blast
  ultimately show "is_mchained S' mi i = is_mchained S mi i" by blast
qed

lemma closed_near:
  assumes "near S S'" "closed S"
  shows "closed S'"
proof -
  have G: "s_G S' = s_G S" using assms(1) by (simp add: near_def)
  have "closed_v S' xi i" for xi i
  proof -
    have "closed_v S xi i" using assms(2) by (simp add: closed_def)
    then show ?thesis unfolding closed_v_def chained_near(2) [OF assms(1)] G
      by (auto dest!: near_sp_back(1) [OF assms(1)] sp_nearD)
  qed
  moreover have "closed_m S' mi i" for mi i
    using assms(2) known_near [OF _ assms(1)] insts_near [OF _ assms(1)]
    by (auto simp: closed_def closed_m_def G chained_near [OF assms(1)])
  ultimately show ?thesis by (simp add: closed_def)
qed

interpretation cl: preserved "\<lambda>S. sgood S \<and> closed S" near
  by unfold_locales (auto intro: near_refl near_trans)

lemma pres_closed: "nr.pres st S r \<Longrightarrow> cl.pres st S r"
  using closed_near by (auto simp: nr.pres_def cl.pres_def)


lemma computed_si_pres:
  assumes cv: "\<And>T j. is_chained T xi j \<Longrightarrow> cl.pres (\<lambda>S. S) T (cv T xi j)"
    and "iter it js" "\<forall>j \<in> set js. is_chained S xi j"
  shows "cl.pres (\<lambda>S. S) S (S_get_computed_si cv fuel S it xi)"
  using assms(2,3)
proof (induction fuel arbitrary: S it js)
  case (Suc fuel)
  then obtain j js' where js: "js = j # js'" "unat (SI_INST it) = j" "is_chained S xi j" by (cases js) auto
  have step: "cl.pres (\<lambda>S. S) T (andThen (S_next T it) (\<lambda>nxt.
      case nxt of None \<Rightarrow> Inr T | Some it1 \<Rightarrow> S_get_computed_si cv fuel T it1 xi))" if T: "near S T" for T
  proof -
    have "\<forall>j \<in> set js'. is_chained T xi j" using Suc.prems(2) js(1) chained_near [OF T] by simp
    then show ?thesis using iter_next [of it j js' T] Suc.prems(1) Suc.IH by (auto simp: js(1))
  qed
  show ?case unfolding S_get_computed_si.simps js(2)
    by (intro cl.pres_then cl.pres_andThen [where st = "\<lambda>S. S", OF _ step]) (use cv [OF js(3)] in auto)
qed simp


lemma shape_lt: "shape_of S g = Some n \<Longrightarrow> n < 65536"
  by (auto simp: shape_of_def split: anymap.splits if_splits)

lemma mchained_lt:
  assumes "sgood S" "msp_at S mi i = Inr sp" "midx (s_G S) mi"
  shows "i < 65536"
proof -
  obtain sps where sps: "s_mstate S mi = Some sps" "i < length sps" using assms(2) by (auto simp: msp_at_def ssp_get_def split: option.splits)
  have "shape_of S (int (m_group (gmodel (s_G S) mi))) = Some (length sps)"
    using solver_okD(4) [of S mi] assms(1,3) sps(1) by (auto simp: sgood_def mslot_ok_def)
  then show ?thesis using shape_lt sps(2) by fastforce
qed

lemma compute_params_pres:
  assumes cv: "\<And>T xi j. is_chained T xi j \<Longrightarrow> cl.pres (\<lambda>S. S) T (cv T xi j)"
    and m: "is_mchained S mi i" "midx (s_G S) mi" "i < 65536" "closed S"
  shows "cl.pres (\<lambda>S. S) S (compute_params cv fuel (gmodel (s_G S) mi) i S)"
  unfolding compute_params_def
proof (rule cl.pres_each)
  fix e T assume e: "e \<in> set (take (m_cparam (gmodel (s_G S) mi)) (m_params (gmodel (s_G S) mi)))" and T: "sgood T \<and> closed T" "near S T"
  have G: "s_G T = s_G S" using T(2) by (simp add: near_def)
  have "closed_m T mi i" using T(1) by (simp add: closed_def)
  moreover have "is_mchained T mi i" using m(1) chained_near(2) [OF T(2)] by simp
  ultimately have ch: "known T (e_map e) i" "\<forall>j \<in> set (insts T (e_map e) i). is_chained T (e_idx e) j"
    using e by (auto simp: closed_m_def G comp_params_def)
  show "cl.pres (\<lambda>S. S) T (andThen (mapE_ssiter T (e_map e) i) (\<lambda>osi. case osi of None \<Rightarrow> Inr T | Some it \<Rightarrow> S_get_computed_si cv fuel T it (e_idx e)))"
  proof (rule cl.pres_then)
    fix osi assume o: "mapE_ssiter T (e_map e) i = Inr osi"
    note it = mapE_iter [OF _ ch(1) m(3) o]
    show "cl.pres (\<lambda>S. S) T (case osi of None \<Rightarrow> Inr T | Some it \<Rightarrow> S_get_computed_si cv fuel T it (e_idx e))"
      using computed_si_pres [OF cv _ ch(2)] it T(1) by (auto split: option.splits)
  qed
qed

lemma quiet_put [simp]: "quiet S (S_put n p v S)"
  by (simp add: S_put_def quiet_def)

lemma quiet_put_edge [simp]: "quiet S (put_edge a p n S)"
  by (simp add: put_edge_def S_put_def quiet_def)

lemma quiet_init: "qt.pres snd S (modcall_init mi m i S)"
  unfolding modcall_init_def sbuf_alloc_init_def Let_def
  by (rule qt.presI) (auto simp: andThen_Inr S_put_def quiet_def split: list.splits)

lemma quiet_from: "quiet S S1 \<Longrightarrow> qt.pres st S1 r \<Longrightarrow> qt.pres st S r"
  unfolding qt.pres_def using qt.rel_trans by blast

lemma quiet_set: "quiet S (st a) \<Longrightarrow> qt.pres st S (Inr a)"
  by (simp add: qt.pres_def)

lemma quiet_sbuf: "qt.pres snd S (S_sbuf_alloc E S sz)"
proof -
  have 1: "quiet S (if b then S\<lparr>b_off := off\<rparr> else S)" for b off by (simp add: quiet_def)
  have 2: "qt.pres (\<lambda>S. S) T (if b then andThen (S_alloc E T n al) (\<lambda>(p, S2). Inr (S2\<lparr>b_mem := (b_mem S2)[idx := p]\<rparr>)) else Inr T)" for T b n al idx
    by (auto intro!: qt.pres_andThen [OF quiet_alloc] quiet_set simp: quiet_def split: prod.split)
  have 3: "qt.pres snd T (Inr (p, T\<lparr>b_off := off\<rparr>))" for T p off by (rule quiet_set) (simp add: quiet_def)
  have 4: "qt.pres snd T (if a then Inl e1 else if b then Inl e2 else andThen (checked c ()) (\<lambda>_. andThen
      (if d then andThen (S_alloc E T n al) (\<lambda>(p, S2). Inr (S2\<lparr>b_mem := (b_mem S2)[idx := p]\<rparr>)) else Inr T)
      (\<lambda>S2. Inr (f S2, S2\<lparr>b_off := g S2\<rparr>))))" for T a b c d e1 e2 n al idx f g
    by (cases a; cases b; simp only: if_True if_False qt.pres_Inl simp_thms)
      (intro qt.pres_then [of "checked c ()"] qt.pres_andThen [OF 2] 3)
  show ?thesis unfolding S_sbuf_alloc_def Let_def by (rule quiet_from [OF 1 4])
qed

lemma quiet_collect: "qt.pres (\<lambda>S. S) S (S_mapE_collect E S a xi m i)"
proof -
  have 1: "qt.pres (\<lambda>S. S) S (Inr (put_edge a p n S))" for p n by (rule quiet_set) simp
  have 2: "qt.pres (\<lambda>S. S) S (andThen (S_sbuf_alloc E (S_put 8 q n S) sz) (\<lambda>(p, S1). Inr ((S_put 8 a p S1)\<lparr>s_mem := f p S1\<rparr>)))" for q n sz f
    by (rule quiet_from [OF quiet_put]) (auto intro!: qt.pres_andThen [OF quiet_sbuf] quiet_set simp: quiet_def S_put_def split: prod.split)
  show ?thesis unfolding S_mapE_collect_def Let_def
    by (intro qt.pres_then [of "var_at _ _"]) (auto intro!: 1 2 qt.pres_then [of "mapE_subset _ _ _"])
qed

lemma quiet_directref: "qt.pres (\<lambda>S. S) S (mapE_directref S a xi m i)"
  unfolding mapE_directref_def Let_def by (auto intro!: qt.pres_then quiet_set)

lemma quiet_unpack: "qt.pres (\<lambda>S. S) S (unpackvalue S xi inst x m_e m i)"
  unfolding unpackvalue_def Let_def by (auto simp: checked_def quiet_def intro!: qt.pres_then quiet_set)

lemma pres_return_direct:
  assumes "caller_good E"
  shows "nr.pres (\<lambda>S. S) S (return_direct E m i cm S)"
  unfolding return_direct_def
  by (rule nr.pres_each) (auto intro!: nr.pres_andThen [OF pres_vexpandvp [OF assms]] pres_quiet [OF quiet_directref])

lemma pres_return_buffers:
  assumes "caller_good E"
  shows "nr.pres (\<lambda>S. S) S (return_buffers E mi m i cm S)"
proof -
  have "nr.pres (\<lambda>S. S) S (Inr (put_edge a p n (S_put 8 q p S)))" for a p n q S
    by (rule pres_quiet, rule quiet_set) (simp add: quiet_def put_edge_def S_put_def)
  then show ?thesis unfolding return_buffers_def Let_def
    by (intro nr.pres_andThen [OF pres_mexpandvp [OF assms]] nr.pres_each)
      (auto intro!: nr.pres_andThen [OF pres_vexpandvp [OF assms]] nr.pres_then [of "var_at _ _"]
        nr.pres_andThen [OF pres_map_size [OF assms]] nr.pres_andThen [OF pres_quiet [OF quiet_alloc]] split: prod.splits)
qed

lemma call_model_pres:
  assumes cg: "caller_good E" and cv: "\<And>T xi j. is_chained T xi j \<Longrightarrow> cl.pres (\<lambda>S. S) T (cv T xi j)"
    and m: "is_mchained S mi i" "midx (s_G S) mi" "i < 65536" "closed S"
  shows "cl.pres (\<lambda>S. S) S (call_model E cv fuel mi (gmodel (s_G S) mi) i S)"
proof -
  have g: "nr.pres (\<lambda>S. S) T (given_params E m i T)" for m T
    unfolding given_params_def by (rule nr.pres_each) (rule pres_given [OF cg])
  have c: "qt.pres (\<lambda>S. S) T (each (\<lambda>e S. S_mapE_collect E S (mc_edge cm (e_ex e)) (e_idx e) (e_map e) i) es T)" for cm es T
    by (rule qt.pres_each) (rule quiet_collect)
  show ?thesis unfolding call_model_def
    by (intro cl.pres_andThen [OF compute_params_pres [OF cv m]] pres_closed nr.pres_andThen [OF g])
      (auto intro!: nr.pres_andThen [OF pres_quiet [OF quiet_init]] nr.pres_andThen [OF pres_quiet [OF c]] nr.pres_then [of "checked _ _"]
        nr.pres_andThen [OF pres_return_direct [OF cg]] nr.pres_andThen [OF pres_return_buffers [OF cg]] pres_yields [OF cg] split: prod.splits)
qed


lemma is_mchained_set_value:
  "msp_at S mi i = Inr sp \<Longrightarrow> chained sp \<Longrightarrow> is_mchained (set_msp S mi i (sp_or sp SP_VALUE)) mi i"
  by (simp add: is_mchained_def msp_at_set)

lemma compute_value_step:
  assumes cg: "caller_good E" and IH: "\<And>T xi j. is_chained T xi j \<Longrightarrow> cl.pres (\<lambda>S. S) T (S_compute_value E fuel T xi j)"
    and sp: "sp_at S xi inst = Inr sp" "chained sp" and ok: "sgood S \<and> closed S" and run: "S_compute_value E (Suc fuel) S xi inst = Inr S'"
  shows "sgood S' \<and> closed S'" "near (set_sp S xi inst (sp_or sp SP_VALUE)) S'"
proof -
  define S1 where "S1 = set_sp S xi inst (sp_or sp SP_VALUE)"
  have n1: "near S S1" using near_set_value(1) [OF sp] by (simp add: S1_def)
  have ok1: "sgood S1 \<and> closed S1" using ok closed_near [OF n1] by (simp add: S1_def)
  define e where "e = v_models (gvar (s_G S) xi) ! SP_CHAIN_EI sp"
  define mi where "mi = e_idx e"
  define i where "i = SP_CHAIN_INSTANCE sp"
  obtain m_sp S2 where m: "vidx (s_G S) xi" "SP_CHAIN_EI sp < length (v_models (gvar (s_G S) xi))" "midx (s_G S) mi" "msp_at S1 mi i = Inr m_sp"
    and S2: "(if sp_has (sp_state m_sp) SP_VALUE then Inr S1
       else call_model E (S_compute_value E fuel) fuel mi (gmodel (s_G S1) mi) i (set_msp S1 mi i (sp_or m_sp SP_VALUE))) = Inr S2"
      "unpackvalue S2 xi inst (gvar (s_G S) xi) e (gmodel (s_G S1) mi) i = Inr S'"
    using run sp(1) by (auto simp: andThen_Inr var_at_def model_at_def Let_def S1_def e_def mi_def i_def cong: if_cong)
  have "closed_v S xi inst" using ok by (simp add: closed_def)
  then have "is_mchained S1 mi i" using sp m(2) chained_near(2) [OF n1] by (simp add: closed_v_def e_def mi_def i_def)
  then have ch: "chained m_sp" using m(4) by (simp add: is_mchained_def)
  have G: "s_G S1 = s_G S" by (simp add: S1_def)
  have "sgood S2 \<and> closed S2 \<and> near S1 S2"
  proof (cases "sp_has (sp_state m_sp) SP_VALUE")
    case False
    define T where "T = set_msp S1 mi i (sp_or m_sp SP_VALUE)"
    have nT: "near S1 T" using near_set_value(2) [OF m(4) ch] by (simp add: T_def)
    have okT: "sgood T \<and> closed T" using ok1 closed_near [OF nT] by (simp add: T_def)
    have mT: "is_mchained T mi i" "midx (s_G T) mi" "i < 65536" "closed T"
      using is_mchained_set_value [OF m(4) ch] m(3) mchained_lt [OF _ m(4)] ok1 okT G by (simp_all add: T_def)
    have run2: "call_model E (S_compute_value E fuel) fuel mi (gmodel (s_G T) mi) i T = Inr S2" using S2(1) False by (simp add: T_def)
    show ?thesis using cl.presD [OF call_model_pres [OF cg IH mT] okT run2] near_trans [OF nT] by blast
  qed (use S2(1) ok1 near_refl in auto)
  moreover have "sgood S' \<and> closed S' \<and> near S2 S'" if "sgood S2 \<and> closed S2"
    using cl.presD [OF pres_closed [OF pres_quiet [OF quiet_unpack]] that S2(2)] by blast
  ultimately show "sgood S' \<and> closed S'" "near (set_sp S xi inst (sp_or sp SP_VALUE)) S'" using near_trans by (auto simp: S1_def)
qed

lemma compute_value_pres:
  assumes cg: "caller_good E"
  shows "is_chained S xi inst \<Longrightarrow> cl.pres (\<lambda>S. S) S (S_compute_value E fuel S xi inst)"
proof (induction fuel arbitrary: S xi inst)
  case (Suc fuel)
  obtain sp where sp: "sp_at S xi inst = Inr sp" "chained sp" using Suc.prems by (auto simp: is_chained_def)
  show ?case
    by (rule cl.presI) (use compute_value_step [OF cg Suc.IH sp] near_trans [OF near_set_value(1) [OF sp]] in blast)
qed simp

text \<open>A value that is computed is marked as computed.\<close>

lemma compute_value_valued:
  assumes "caller_good E" "sgood S" "closed S" "is_chained S xi inst" "S_compute_value E fuel S xi inst = Inr S'"
  shows "\<exists>sp. sp_at S' xi inst = Inr sp \<and> valued sp"
proof -
  obtain sp where sp: "sp_at S xi inst = Inr sp" "chained sp" using assms(4) by (auto simp: is_chained_def)
  obtain k where k: "fuel = Suc k" using assms(5) by (cases fuel) simp_all
  have n: "near (set_sp S xi inst (sp_or sp SP_VALUE)) S'"
    using compute_value_step(2) [OF assms(1) compute_value_pres [OF assms(1)] sp] assms(2,3,5) k by blast
  have "sp_at (set_sp S xi inst (sp_or sp SP_VALUE)) xi inst = Inr (sp_or sp SP_VALUE)" by (simp add: sp_at_set [OF sp(1)])
  from near_sp(1) [OF n this] show ?thesis by (auto dest: sp_nearD)
qed

end
