(* ===== verification/Fhk_Chain.thy ===== *)
theory Fhk_Chain
  imports Fhk_Keep
begin

text \<open>
  What a chain is: the specification of the search \<^verbatim>\<open>S_select_chain\<close>. A variable is solved when it names an instance of one of its
  models that is solved, a model when all instances of its computed parameters are solved and its stored cost is the
  exact value, in floating point, of its cost function on the costs of its parameters and the penalties it pays. Solved
  states stay solved under everything the solver does.
\<close>


section \<open>Costs of chains\<close>

definition vcost :: "solver \<Rightarrow> int \<Rightarrow> nat \<Rightarrow> f32" where
  "vcost S xi i = (case sp_at S xi i of Inr sp \<Rightarrow> sp_cost sp | Inl _ \<Rightarrow> 0)"

definition chain_mcost :: "solver \<Rightarrow> int \<Rightarrow> nat \<Rightarrow> f32" where
  "chain_mcost S mi i = (case msp_at S mi i of Inr sp \<Rightarrow> sp_cost sp | Inl _ \<Rightarrow> 0)"

text \<open>The cost of a parameter is the largest cost of its instances; the costs of the parameters are added from the last to
  the first, after the penalties of the checks that are paid.\<close>

definition max_cost :: "solver \<Rightarrow> int \<Rightarrow> nat list \<Rightarrow> f32" where
  "max_cost S xi js = fold (\<lambda>j mx. fmax mx (vcost S xi j)) js 0"

definition add_param :: "solver \<Rightarrow> nat \<Rightarrow> fhk_edge \<Rightarrow> f32 \<Rightarrow> f32" where
  "add_param S i e acc = (if insts S (e_map e) i = [] then acc else fadd acc (max_cost S (e_idx e) (insts S (e_map e) i)))"

definition penalties :: "bool list \<Rightarrow> fhk_shedge list \<Rightarrow> f32" where
  "penalties bs es = foldl (\<lambda>acc (b, e). if b then fadd acc (se_penalty e) else acc) 0 (zip bs es)"

definition passed :: "solver \<Rightarrow> int \<Rightarrow> nat \<Rightarrow> bool" where
  "passed S wi j \<longleftrightarrow> (\<exists>bm. vm_at S wi = Inr bm \<and> SW_BMIDX j < length bm \<and> sw_pass bm j)"

definition evald :: "solver \<Rightarrow> int \<Rightarrow> nat \<Rightarrow> bool" where
  "evald S wi j \<longleftrightarrow> (\<exists>bm. vm_at S wi = Inr bm \<and> SW_BMIDX j < length bm \<and> sw_eval bm j)"

text \<open>A check is paid only if an instance was evaluated, and not paid only if all instances have passed.\<close>

definition decided :: "solver \<Rightarrow> nat \<Rightarrow> fhk_shedge \<Rightarrow> bool \<Rightarrow> bool" where
  "decided S i e b \<longleftrightarrow> known S (se_map e) i \<and>
     (if b then \<exists>j \<in> set (insts S (se_map e) i). evald S (se_idx e) j else \<forall>j \<in> set (insts S (se_map e) i). passed S (se_idx e) j)"

text \<open>A solved variable has a chosen instance of one of its models, which is solved and has the same cost; all instances of
  the computed parameters of a solved model are solved, and its cost is the value of its cost function. The definition is
  inductive: a chain has no cycles.\<close>

inductive solved :: "solver \<Rightarrow> int \<Rightarrow> nat \<Rightarrow> bool" for S where
  var: "vidx (s_G S) xi \<Longrightarrow> sp_at S xi i = Inr sp \<Longrightarrow> chained sp \<Longrightarrow> SP_CHAIN_EI sp < length (v_models (gvar (s_G S) xi)) \<Longrightarrow>
    e = v_models (gvar (s_G S) xi) ! SP_CHAIN_EI sp \<Longrightarrow> known S (e_map e) i \<Longrightarrow> SP_CHAIN_INSTANCE sp \<in> set (insts S (e_map e) i) \<Longrightarrow>
    midx (s_G S) (e_idx e) \<Longrightarrow> solved S (e_idx e) (SP_CHAIN_INSTANCE sp) \<Longrightarrow> sp_cost sp = chain_mcost S (e_idx e) (SP_CHAIN_INSTANCE sp) \<Longrightarrow>
    solved S xi i"
| model: "midx (s_G S) mi \<Longrightarrow> is_mchained S mi i \<Longrightarrow>
    (\<And>e. e \<in> set (comp_params (s_G S) mi) \<Longrightarrow> known S (e_map e) i) \<Longrightarrow>
    (\<And>e j. e \<in> set (comp_params (s_G S) mi) \<Longrightarrow> j \<in> set (insts S (e_map e) i) \<Longrightarrow> is_chained S (e_idx e) j \<and> solved S (e_idx e) j) \<Longrightarrow>
    list_all2 (decided S i) (m_shadows (gmodel (s_G S) mi)) bs \<Longrightarrow>
    chain_mcost S mi i = m_costf (gmodel (s_G S) mi)
      (foldr (add_param S i) (comp_params (s_G S) mi) (penalties bs (m_shadows (gmodel (s_G S) mi)))) \<Longrightarrow>
    solved S mi i"

section \<open>What a step keeps\<close>

definition ckeeps :: "solver \<Rightarrow> solver \<Rightarrow> bool" where
  "ckeeps S S' \<longleftrightarrow> s_G S' = s_G S \<and> (\<forall>m i ss. map_val S m i = Some ss \<longrightarrow> map_val S' m i = Some ss) \<and>
     (\<forall>xi i sp. sp_at S xi i = Inr sp \<longrightarrow> chained sp \<longrightarrow> (\<exists>sp'. sp_at S' xi i = Inr sp' \<and> chained sp' \<and> sp_cost sp' = sp_cost sp \<and>
        SP_CHAIN_EI sp' = SP_CHAIN_EI sp \<and> SP_CHAIN_INSTANCE sp' = SP_CHAIN_INSTANCE sp)) \<and>
     (\<forall>mi i sp. msp_at S mi i = Inr sp \<longrightarrow> chained sp \<longrightarrow> (\<exists>sp'. msp_at S' mi i = Inr sp' \<and> chained sp' \<and> sp_cost sp' = sp_cost sp)) \<and>
     (\<forall>wi j. nv (s_G S) \<le> wi \<longrightarrow> (passed S wi j \<longrightarrow> passed S' wi j) \<and> (evald S wi j \<longrightarrow> evald S' wi j))"

lemma ckeeps_refl [simp]: "ckeeps S S"
  by (simp add: ckeeps_def)

lemma ckeepsD:
  assumes "ckeeps S S'"
  shows "s_G S' = s_G S" "map_val S m i = Some ss \<Longrightarrow> map_val S' m i = Some ss"
    "sp_at S xi i = Inr sp \<Longrightarrow> chained sp \<Longrightarrow> \<exists>sp'. sp_at S' xi i = Inr sp' \<and> chained sp' \<and> sp_cost sp' = sp_cost sp \<and>
        SP_CHAIN_EI sp' = SP_CHAIN_EI sp \<and> SP_CHAIN_INSTANCE sp' = SP_CHAIN_INSTANCE sp"
    "msp_at S mi i = Inr sp \<Longrightarrow> chained sp \<Longrightarrow> \<exists>sp'. msp_at S' mi i = Inr sp' \<and> chained sp' \<and> sp_cost sp' = sp_cost sp"
    "nv (s_G S) \<le> wi \<Longrightarrow> passed S wi j \<Longrightarrow> passed S' wi j" "nv (s_G S) \<le> wi \<Longrightarrow> evald S wi j \<Longrightarrow> evald S' wi j"
  using assms by (auto simp: ckeeps_def)

lemma ckeeps_trans:
  assumes "ckeeps S S1" "ckeeps S1 S2"
  shows "ckeeps S S2"
proof -
  note a = ckeepsD [OF assms(1)] and b = ckeepsD [OF assms(2)]
  show ?thesis unfolding ckeeps_def
  proof (intro conjI allI impI)
    fix xi i sp assume "sp_at S xi i = Inr sp" "chained sp"
    from a(3) [OF this] show "\<exists>sp'. sp_at S2 xi i = Inr sp' \<and> chained sp' \<and> sp_cost sp' = sp_cost sp \<and>
        SP_CHAIN_EI sp' = SP_CHAIN_EI sp \<and> SP_CHAIN_INSTANCE sp' = SP_CHAIN_INSTANCE sp" by (auto dest!: b(3))
  next
    fix mi i sp assume "msp_at S mi i = Inr sp" "chained sp"
    from a(4) [OF this] show "\<exists>sp'. msp_at S2 mi i = Inr sp' \<and> chained sp' \<and> sp_cost sp' = sp_cost sp" by (auto dest!: b(4))
  next
    fix wi j assume "nv (s_G S) \<le> wi"
    then show "passed S wi j \<Longrightarrow> passed S2 wi j" "evald S wi j \<Longrightarrow> evald S2 wi j" using a(1,5,6) b(5,6) by auto
  qed (use a(1,2) b(1,2) in auto)
qed

lemma near_bits:
  assumes "near S S'" "nv (s_G S) \<le> wi" "vm_at S wi = Inr bm"
  shows "passed S' wi j = passed S wi j" "evald S' wi j = evald S wi j"
  using assms by (auto simp: near_def passed_def evald_def)

lemma near_keeps:
  assumes "near S S'"
  shows "ckeeps S S'"
  unfolding ckeeps_def
proof (intro conjI allI impI)
  fix xi i sp assume "sp_at S xi i = Inr sp" "chained sp"
  then show "\<exists>sp'. sp_at S' xi i = Inr sp' \<and> chained sp' \<and> sp_cost sp' = sp_cost sp \<and>
        SP_CHAIN_EI sp' = SP_CHAIN_EI sp \<and> SP_CHAIN_INSTANCE sp' = SP_CHAIN_INSTANCE sp"
    by (auto dest!: near_sp(1) [OF assms] sp_nearD)
next
  fix mi i sp assume "msp_at S mi i = Inr sp" "chained sp"
  then show "\<exists>sp'. msp_at S' mi i = Inr sp' \<and> chained sp' \<and> sp_cost sp' = sp_cost sp" by (auto dest!: near_sp(2) [OF assms] sp_nearD)
next
  fix wi j assume wi: "nv (s_G S) \<le> wi"
  show "passed S wi j \<Longrightarrow> passed S' wi j" "evald S wi j \<Longrightarrow> evald S' wi j"
    using near_bits [OF assms wi] unfolding passed_def evald_def by blast+
qed (use assms in \<open>auto simp: near_def\<close>)

lemma ckeeps_known: "ckeeps S S' \<Longrightarrow> known S m i \<Longrightarrow> known S' m i \<and> insts S' m i = insts S m i"
  by (auto simp: ckeeps_def known_def insts_def split: option.splits)

lemma ckeeps_chained: "ckeeps S S' \<Longrightarrow> is_chained S xi i \<Longrightarrow> is_chained S' xi i \<and> vcost S' xi i = vcost S xi i"
  unfolding is_chained_def vcost_def using ckeepsD(3) by fastforce

lemma ckeeps_mchained: "ckeeps S S' \<Longrightarrow> is_mchained S mi i \<Longrightarrow> is_mchained S' mi i \<and> chain_mcost S' mi i = chain_mcost S mi i"
  unfolding is_mchained_def chain_mcost_def using ckeepsD(4) by fastforce

lemma max_cost_keeps: "ckeeps S S' \<Longrightarrow> \<forall>j \<in> set js. is_chained S xi j \<Longrightarrow> max_cost S' xi js = max_cost S xi js"
  unfolding max_cost_def by (rule fold_cong) (auto dest: ckeeps_chained)

lemma add_param_keeps:
  "ckeeps S S' \<Longrightarrow> known S (e_map e) i \<Longrightarrow> \<forall>j \<in> set (insts S (e_map e) i). is_chained S (e_idx e) j \<Longrightarrow> add_param S' i e = add_param S i e"
  by (intro ext) (simp add: add_param_def ckeeps_known max_cost_keeps)

lemma decided_keeps: "ckeeps S S' \<Longrightarrow> nv (s_G S) \<le> se_idx e \<Longrightarrow> decided S i e b \<Longrightarrow> decided S' i e b"
  unfolding decided_def using ckeeps_known [of S S' "se_map e" i] ckeepsD(5,6) [of S S' "se_idx e"] by (auto split: if_splits)


lemma shadow_idx: "sgood S \<Longrightarrow> midx (s_G S) mi \<Longrightarrow> e \<in> set (m_shadows (gmodel (s_G S) mi)) \<Longrightarrow> nv (s_G S) \<le> se_idx e"
  by (auto simp: sgood_def graph_computed_def)

lemma add_params_keeps:
  assumes "ckeeps S S'" "\<And>e. e \<in> set es \<Longrightarrow> known S (e_map e) i \<and> (\<forall>j \<in> set (insts S (e_map e) i). is_chained S (e_idx e) j)"
  shows "foldr (add_param S' i) es acc = foldr (add_param S i) es acc"
  using assms(2) by (induction es) (auto simp: add_param_keeps [OF assms(1)])

lemma solved_keeps:
  assumes k: "ckeeps S S'" and ok: "sgood S"
  shows "solved S x i \<Longrightarrow> solved S' x i"
proof (induction rule: solved.induct)
  case (var xi i sp e)
  obtain sp' where sp': "sp_at S' xi i = Inr sp'" "chained sp'" "sp_cost sp' = sp_cost sp" "SP_CHAIN_EI sp' = SP_CHAIN_EI sp"
    "SP_CHAIN_INSTANCE sp' = SP_CHAIN_INSTANCE sp" using ckeepsD(3) [OF k var(2,3)] by blast
  have G: "s_G S' = s_G S" by (rule ckeepsD(1) [OF k])
  have kn: "known S' (e_map e) i" "insts S' (e_map e) i = insts S (e_map e) i" using ckeeps_known [OF k var(6)] by auto
  have "is_mchained S (e_idx e) (SP_CHAIN_INSTANCE sp)" using var(8,9) by (auto elim: solved.cases simp: vidx_def midx_def)
  then have "chain_mcost S' (e_idx e) (SP_CHAIN_INSTANCE sp) = chain_mcost S (e_idx e) (SP_CHAIN_INSTANCE sp)" using ckeeps_mchained [OF k] by blast
  then show ?case using solved.var [of S' xi i sp' e] var sp' kn G by simp
next
  case (model mi i bs)
  have G: "s_G S' = s_G S" by (rule ckeepsD(1) [OF k])
  have kn: "known S' (e_map e) i" "insts S' (e_map e) i = insts S (e_map e) i" if "e \<in> set (comp_params (s_G S) mi)" for e
    using ckeeps_known [OF k model(3) [OF that]] by auto
  have d: "list_all2 (decided S' i) (m_shadows (gmodel (s_G S) mi)) bs"
    using \<open>list_all2 (decided S i) (m_shadows (gmodel (s_G S) mi)) bs\<close> decided_keeps [OF k shadow_idx [OF ok \<open>midx (s_G S) mi\<close>]]
    by (auto simp: list_all2_conv_all_nth)
  have c: "foldr (add_param S' i) (comp_params (s_G S) mi) acc = foldr (add_param S i) (comp_params (s_G S) mi) acc" for acc
    using model(3) model.IH by (intro add_params_keeps [OF k]) auto
  show ?case
    by (rule solved.model [of S' mi i bs]) (use model ckeeps_mchained [OF k model(2)] ckeeps_chained [OF k] kn d c G in auto)
qed

text \<open>The states between two searches: all chains are complete, only chained variables have values, what is expanded has
  its maps, and costs are costs, or the mark of a variable of the current search.\<close>

definition maps_known :: "solver \<Rightarrow> int \<Rightarrow> nat \<Rightarrow> bool" where
  "maps_known S mi i \<longleftrightarrow> (\<forall>e \<in> set (m_shadows (gmodel (s_G S) mi)). known S (se_map e) i) \<and>
     (\<forall>e \<in> set (comp_params (s_G S) mi). known S (e_map e) i)"

definition clean_sp :: "solver \<Rightarrow> int \<Rightarrow> nat \<Rightarrow> ssp \<Rightarrow> bool" where
  "clean_sp S xi i sp \<longleftrightarrow> (chained sp \<longrightarrow> vidx (s_G S) xi \<and> solved S xi i) \<and>
     (is_cost (sp_cost sp) \<or> sp_cost sp = SP_MARK \<and> \<not> chained sp) \<and> (valued sp \<longrightarrow> chained sp) \<and>
     (expanded sp \<longrightarrow> (\<forall>e \<in> set (v_models (gvar (s_G S) xi)). known S (e_map e) i))"

definition clean_msp :: "solver \<Rightarrow> int \<Rightarrow> nat \<Rightarrow> ssp \<Rightarrow> bool" where
  "clean_msp S mi i sp \<longleftrightarrow> is_cost (sp_cost sp) \<and> m_k (gmodel (s_G S) mi) \<le> sp_cost sp \<and> (chained sp \<longrightarrow> midx (s_G S) mi \<and> solved S mi i) \<and> (expanded sp \<or> chained sp \<longrightarrow> maps_known S mi i)"

definition clean :: "solver \<Rightarrow> bool" where
  "clean S \<longleftrightarrow> (\<forall>xi i sp. sp_at S xi i = Inr sp \<longrightarrow> clean_sp S xi i sp) \<and> (\<forall>mi i sp. msp_at S mi i = Inr sp \<longrightarrow> clean_msp S mi i sp)"

lemma maps_known_keeps: "ckeeps S S' \<Longrightarrow> maps_known S mi i \<Longrightarrow> maps_known S' mi i"
  using ckeepsD(1) [of S S'] ckeeps_known [of S S'] by (auto simp: maps_known_def)

lemma clean_sp_keeps: "ckeeps S S' \<Longrightarrow> sgood S \<Longrightarrow> clean_sp S xi i sp \<Longrightarrow> clean_sp S' xi i sp"
  using ckeepsD(1) [of S S'] ckeeps_known [of S S'] solved_keeps [of S S'] by (auto simp: clean_sp_def)

lemma clean_msp_keeps: "ckeeps S S' \<Longrightarrow> sgood S \<Longrightarrow> clean_msp S mi i sp \<Longrightarrow> clean_msp S' mi i sp"
  using ckeepsD(1) [of S S'] maps_known_keeps [of S S'] solved_keeps [of S S'] by (auto simp: clean_msp_def)

text \<open>After a step that keeps search states, only what was there before has to be looked at.\<close>

lemma clean_nearI:
  assumes n: "near S S'" and sp: "\<And>xi i sp. sp_at S xi i = Inr sp \<Longrightarrow> clean_sp S' xi i sp"
    and msp: "\<And>mi i sp. msp_at S mi i = Inr sp \<Longrightarrow> clean_msp S' mi i sp"
  shows "clean S'"
proof -
  have G: "s_G S' = s_G S" using n by (simp add: near_def)
  have "clean_sp S' xi i sp'" if sp': "sp_at S' xi i = Inr sp'" for xi i sp'
  proof -
    from near_sp_back(1) [OF n sp'] consider sp where "sp_at S xi i = Inr sp" "sp_near sp sp'" | "sp_state sp' = 0" "is_cost (sp_cost sp')" by blast
    then show ?thesis
    proof cases
      case 1
      then show ?thesis using sp [OF 1(1)] sp_nearD [OF 1(2)] by (auto simp: clean_sp_def)
    qed (simp add: clean_sp_def)
  qed
  moreover have "clean_msp S' mi i sp'" if sp': "msp_at S' mi i = Inr sp'" for mi i sp'
  proof -
    from near_sp_back(2) [OF n sp'] consider sp where "msp_at S mi i = Inr sp" "sp_near sp sp'"
      | "sp_state sp' = 0" "is_cost (sp_cost sp')" "m_k (gmodel (s_G S) mi) \<le> sp_cost sp'" by blast
    then show ?thesis
    proof cases
      case 1
      then show ?thesis using msp [OF 1(1)] sp_nearD [OF 1(2)] by (auto simp: clean_msp_def)
    qed (simp add: clean_msp_def G)
  qed
  ultimately show ?thesis by (simp add: clean_def)
qed

lemma clean_near:
  assumes "near S S'" "sgood S" "clean S"
  shows "clean S'"
  using assms clean_sp_keeps [OF near_keeps] clean_msp_keeps [OF near_keeps] by (intro clean_nearI [of S]) (auto simp: clean_def)

lemma solved_var_cases:
  assumes "solved S xi i" "vidx (s_G S) xi \<or> 0 \<le> xi"
  obtains sp e where "vidx (s_G S) xi" "sp_at S xi i = Inr sp" "chained sp" "SP_CHAIN_EI sp < length (v_models (gvar (s_G S) xi))"
    "e = v_models (gvar (s_G S) xi) ! SP_CHAIN_EI sp" "midx (s_G S) (e_idx e)" "solved S (e_idx e) (SP_CHAIN_INSTANCE sp)"
    "sp_cost sp = chain_mcost S (e_idx e) (SP_CHAIN_INSTANCE sp)"
  using assms by (cases rule: solved.cases) (auto simp: vidx_def midx_def)

lemma solved_model_cases:
  assumes "solved S mi i" "midx (s_G S) mi"
  shows "is_mchained S mi i" "e \<in> set (comp_params (s_G S) mi) \<Longrightarrow> known S (e_map e) i"
    "e \<in> set (comp_params (s_G S) mi) \<Longrightarrow> j \<in> set (insts S (e_map e) i) \<Longrightarrow> is_chained S (e_idx e) j \<and> solved S (e_idx e) j"
  using assms by (auto elim: solved.cases simp: vidx_def midx_def)


lemma clean_chained:
  assumes "clean S" "is_chained S xi i"
  shows "vidx (s_G S) xi" "solved S xi i"
  using assms by (auto simp: clean_def clean_sp_def is_chained_def)

lemma clean_mchained:
  assumes "clean S" "is_mchained S mi i"
  shows "midx (s_G S) mi" "solved S mi i" "maps_known S mi i"
  using assms by (auto simp: clean_def clean_msp_def is_mchained_def)

lemma clean_closed:
  assumes "clean S"
  shows "closed S"
proof -
  have "closed_v S xi i" for xi i
    unfolding closed_v_def
  proof (intro allI impI)
    fix sp assume sp: "sp_at S xi i = Inr sp" "chained sp"
    then have "solved S xi i" "vidx (s_G S) xi \<or> 0 \<le> xi" using clean_chained [OF assms, of xi i] by (auto simp: is_chained_def)
    then obtain sp' e where "sp_at S xi i = Inr sp'" "e = v_models (gvar (s_G S) xi) ! SP_CHAIN_EI sp'" "midx (s_G S) (e_idx e)" "solved S (e_idx e) (SP_CHAIN_INSTANCE sp')"
      by (rule solved_var_cases)
    then show "is_mchained S (e_idx (v_models (gvar (s_G S) xi) ! SP_CHAIN_EI sp)) (SP_CHAIN_INSTANCE sp)"
      using sp(1) solved_model_cases(1) [of S "e_idx e"] by simp
  qed
  moreover have "closed_m S mi i" for mi i
    using clean_mchained [OF assms, of mi i] solved_model_cases [of S mi i] by (auto simp: closed_m_def)
  ultimately show ?thesis by (simp add: closed_def)
qed

section \<open>Writing unchained states\<close>

definition neutral :: "solver \<Rightarrow> solver \<Rightarrow> bool" where
  "neutral S S' \<longleftrightarrow> ckeeps S S' \<and> (\<forall>mi i. is_mchained S' mi i = is_mchained S mi i) \<and>
     (\<forall>wi bm. nv (s_G S) \<le> wi \<longrightarrow> vm_at S wi = Inr bm \<longrightarrow> vm_at S' wi = Inr bm)"

lemma near_neutral: "near S S' \<Longrightarrow> neutral S S'"
  using near_keeps [of S S'] chained_near(2) [of S S'] by (simp add: neutral_def near_def)

lemma neutral_keeps: "neutral S S' \<Longrightarrow> ckeeps S S'" by (simp add: neutral_def)

lemma neutral_trans: "neutral S S1 \<Longrightarrow> neutral S1 S2 \<Longrightarrow> neutral S S2"
  using ckeeps_trans [of S S1 S2] ckeepsD(1) [of S S1] by (simp add: neutral_def)

lemma passed_frame [simp]: "passed (set_sp S xi i v) wi j = passed S wi j" "evald (set_sp S xi i v) wi j = evald S wi j"
  "passed (set_msp S xi i v) wi j = passed S wi j" "evald (set_msp S xi i v) wi j = evald S wi j"
  "is_mchained (set_sp S xi i v) mi j = is_mchained S mi j" "is_chained (set_msp S mi i v) xi j = is_chained S xi j"
  "vcost (set_msp S mi i v) xi j = vcost S xi j" "chain_mcost (set_sp S xi i v) mi j = chain_mcost S mi j"
  by (simp_all add: passed_def evald_def is_mchained_def is_chained_def vcost_def chain_mcost_def)

lemma set_sp_neutral:
  assumes "sp_at S xi i = Inr sp" "\<not> chained sp"
  shows "neutral S (set_sp S xi i v)"
  using assms by (auto simp: neutral_def ckeeps_def sp_at_set)

lemma set_msp_keeps:
  assumes "msp_at S mi i = Inr sp" "\<not> chained sp"
  shows "ckeeps S (set_msp S mi i v)"
  using assms by (auto simp: ckeeps_def msp_at_set)

lemma set_msp_neutral:
  assumes "msp_at S mi i = Inr sp" "\<not> chained sp" "\<not> chained v"
  shows "neutral S (set_msp S mi i v)"
  using assms set_msp_keeps [OF assms(1,2)] by (auto simp: neutral_def is_mchained_def msp_at_set)

lemma clean_set_sp:
  assumes "sgood S" "clean S" "sp_at S xi i = Inr sp" "\<not> chained sp" "clean_sp (set_sp S xi i v) xi i v"
  shows "clean (set_sp S xi i v)"
proof -
  note k = neutral_keeps [OF set_sp_neutral [OF assms(3,4)]]
  show ?thesis using assms(2,5) clean_sp_keeps [OF k assms(1)] clean_msp_keeps [OF k assms(1)]
    by (auto simp: clean_def sp_at_set [OF assms(3)])
qed

lemma clean_set_msp:
  assumes "sgood S" "clean S" "msp_at S mi i = Inr sp" "\<not> chained sp" "clean_msp (set_msp S mi i v) mi i v"
  shows "clean (set_msp S mi i v)"
proof -
  note k = set_msp_keeps [OF assms(3,4)]
  show ?thesis using assms(2,5) clean_sp_keeps [OF k assms(1)] clean_msp_keeps [OF k assms(1)]
    by (auto simp: clean_def msp_at_set [OF assms(3)])
qed

lemma flags_cost [simp]: "chained (sp\<lparr>sp_cost := c\<rparr>) = chained sp" "valued (sp\<lparr>sp_cost := c\<rparr>) = valued sp" "expanded (sp\<lparr>sp_cost := c\<rparr>) = expanded sp"
  "SP_CHAIN_EI (sp\<lparr>sp_cost := c\<rparr>) = SP_CHAIN_EI sp" "SP_CHAIN_INSTANCE (sp\<lparr>sp_cost := c\<rparr>) = SP_CHAIN_INSTANCE sp"
  by (simp_all add: chained_def valued_def expanded_def SP_CHAIN_EI_def SP_CHAIN_INSTANCE_def)

lemma clean_set_cost:
  assumes "sgood S" "clean S" "sp_at S xi i = Inr sp" "\<not> chained sp" and c: "is_cost c \<or> c = SP_MARK"
  shows "clean (set_sp S xi i (sp\<lparr>sp_cost := c\<rparr>))"
proof (rule clean_set_sp [OF assms(1-4)])
  have "clean_sp S xi i sp" using assms(2,3) by (simp add: clean_def)
  then show "clean_sp (set_sp S xi i (sp\<lparr>sp_cost := c\<rparr>)) xi i (sp\<lparr>sp_cost := c\<rparr>)" using assms(4) c by (simp add: clean_sp_def)
qed

lemma clean_set_mcost:
  assumes "sgood S" "clean S" "msp_at S mi i = Inr sp" "\<not> chained sp" and c: "is_cost c" "m_k (gmodel (s_G S) mi) \<le> c"
  shows "clean (set_msp S mi i (sp\<lparr>sp_cost := c\<rparr>))"
proof (rule clean_set_msp [OF assms(1-4)])
  have "clean_msp S mi i sp" using assms(2,3) by (simp add: clean_def)
  then show "clean_msp (set_msp S mi i (sp\<lparr>sp_cost := c\<rparr>)) mi i (sp\<lparr>sp_cost := c\<rparr>)" using assms(4) c by (simp add: clean_msp_def maps_known_def)
qed

section \<open>Expanding\<close>

lemma expanded_word [simp]: "\<not> chained (sp\<lparr>sp_state := SP_EXPANDED\<rparr>)" "\<not> valued (sp\<lparr>sp_state := SP_EXPANDED\<rparr>)"
  by (simp_all add: chained_def valued_def sp_has_def SP_EXPANDED_def SP_CHAIN_def SP_VALUE_def)

text \<open>A search state is marked as expanded before its maps are known.\<close>

lemma clean_expanded:
  assumes ok: "sgood S" "clean S" and sp: "sp_at S xi i = Inr sp" "\<not> chained sp"
    and n: "near (set_sp S xi i (sp\<lparr>sp_state := SP_EXPANDED\<rparr>)) S'" and kn: "\<forall>e \<in> set (v_models (gvar (s_G S) xi)). known S' (e_map e) i"
  shows "clean S'" "ckeeps S S'"
proof -
  show k: "ckeeps S S'" using ckeeps_trans [OF neutral_keeps [OF set_sp_neutral [OF sp]] near_keeps [OF n]] .
  have c: "clean_sp S xi i sp" using ok(2) sp(1) by (simp add: clean_def)
  show "clean S'"
  proof (rule clean_nearI [OF n])
    show "clean_sp S' z j v" if "sp_at (set_sp S xi i (sp\<lparr>sp_state := SP_EXPANDED\<rparr>)) z j = Inr v" for z j v
    proof (cases "z = xi \<and> j = i")
      case True
      then show ?thesis using that c kn sp(2) ckeepsD(1) [OF k] by (auto simp: sp_at_set [OF sp(1)] clean_sp_def)
    next
      case False
      then have "sp_at S z j = Inr v" using that by (auto simp: sp_at_set [OF sp(1)] split: if_splits)
      then show ?thesis using ok clean_sp_keeps [OF k] by (simp add: clean_def)
    qed
    show "clean_msp S' z j v" if "msp_at (set_sp S xi i (sp\<lparr>sp_state := SP_EXPANDED\<rparr>)) z j = Inr v" for z j v
      using that ok clean_msp_keeps [OF k] by (simp add: clean_def)
  qed
qed

lemma clean_mexpanded:
  assumes ok: "sgood S" "clean S" and sp: "msp_at S mi i = Inr sp" "\<not> chained sp"
    and n: "near (set_msp S mi i (sp\<lparr>sp_state := SP_EXPANDED\<rparr>)) S'" and kn: "maps_known S' mi i"
  shows "clean S'" "ckeeps S S'"
proof -
  show k: "ckeeps S S'" using ckeeps_trans [OF set_msp_keeps [OF sp] near_keeps [OF n]] .
  have c: "clean_msp S mi i sp" using ok(2) sp(1) by (simp add: clean_def)
  show "clean S'"
  proof (rule clean_nearI [OF n])
    show "clean_msp S' z j v" if "msp_at (set_msp S mi i (sp\<lparr>sp_state := SP_EXPANDED\<rparr>)) z j = Inr v" for z j v
    proof (cases "z = mi \<and> j = i")
      case True
      then show ?thesis using that c kn sp(2) ckeepsD(1) [OF k] by (auto simp: msp_at_set [OF sp(1)] clean_msp_def)
    next
      case False
      then have "msp_at S z j = Inr v" using that by (auto simp: msp_at_set [OF sp(1)] split: if_splits)
      then show ?thesis using ok clean_msp_keeps [OF k] by (simp add: clean_def)
    qed
    show "clean_sp S' z j v" if "sp_at (set_msp S mi i (sp\<lparr>sp_state := SP_EXPANDED\<rparr>)) z j = Inr v" for z j v
      using that ok clean_sp_keeps [OF k] by (simp add: clean_def)
  qed
qed

end
