(* ===== verification/Fhk_Frames.thy ===== *)
theory Fhk_Frames
  imports Fhk_Chain
begin

text \<open>
  The work stack of the search \<^verbatim>\<open>S_select_chain\<close>: what each frame of \<^verbatim>\<open>x_state\<close> stands for. A frame has a variable that is marked and
  not chained; the frames under the current one wait for an instance of a check or of a parameter, and know what has been
  decided before it. The lemmas say which writes leave waiting frames as they are.
\<close>


section \<open>Progress of a frame\<close>

abbreviation mod_of :: "solver \<Rightarrow> xstate \<Rightarrow> fhk_model" where "mod_of S X \<equiv> gmodel (s_G S) (x_mi X)"
abbreviation checks_of :: "solver \<Rightarrow> xstate \<Rightarrow> fhk_shedge list" where "checks_of S X \<equiv> m_shadows (mod_of S X)"
abbreviation params_of :: "solver \<Rightarrow> xstate \<Rightarrow> fhk_edge list" where "params_of S X \<equiv> comp_params (s_G S) (x_mi X)"
abbreviation models_of :: "solver \<Rightarrow> xstate \<Rightarrow> fhk_edge list" where "models_of S X \<equiv> v_models (gvar (s_G S) (fst (x_x X)))"

text \<open>The candidates of a frame are instances that the edges of its variable reach. The variable of a frame is marked and
  has no chain.\<close>

definition cand_ok :: "solver \<Rightarrow> xstate \<Rightarrow> xcand \<Rightarrow> bool" where
  "cand_ok S X c \<longleftrightarrow> c_ei c < length (models_of S X) \<and> c_i c = e_idx (models_of S X ! c_ei c) \<and>
     known S (e_map (models_of S X ! c_ei c)) (snd (x_x X)) \<and> iter (c_si c) (insts S (e_map (models_of S X ! c_ei c)) (snd (x_x X)))"

definition frame_ok :: "solver \<Rightarrow> xstate \<Rightarrow> bool" where
  "frame_ok S X \<longleftrightarrow> vidx (s_G S) (fst (x_x X)) \<and> length (models_of S X) < 256 \<and> list_all (cand_ok S X) (x_cand X) \<and>
     (\<forall>e \<in> set (models_of S X). known S (e_map e) (snd (x_x X))) \<and>
     (\<exists>sp. sp_at S (fst (x_x X)) (snd (x_x X)) = Inr sp \<and> sp_cost sp = SP_MARK \<and> \<not> chained sp)"

text \<open>The candidate in progress: it is not chained, its maps are known, and its bound is not below the constant part of its cost.\<close>

definition works :: "solver \<Rightarrow> xstate \<Rightarrow> bool" where
  "works S X \<longleftrightarrow> midx (s_G S) (x_mi X) \<and> fle (m_k (mod_of S X)) (x_mbeta X) \<and> m_k (mod_of S X) \<noteq> INFINITY \<and> x_inst X < 65536 \<and> \<not> is_mchained S (x_mi X) (x_inst X) \<and> maps_known S (x_mi X) (x_inst X) \<and>
     x_ei X < length (models_of S X) \<and> e_idx (models_of S X ! x_ei X) = x_mi X \<and>
     x_inst X \<in> set (insts S (e_map (models_of S X ! x_ei X)) (snd (x_x X)))"

definition checks_at :: "solver \<Rightarrow> xstate \<Rightarrow> nat \<Rightarrow> f32 \<Rightarrow> bool" where
  "checks_at S X k acc \<longleftrightarrow> k \<le> length (checks_of S X) \<and>
     (\<exists>bs. list_all2 (decided S (x_inst X)) (take k (checks_of S X)) bs \<and> acc = penalties bs (take k (checks_of S X)))"

definition params_at :: "solver \<Rightarrow> xstate \<Rightarrow> nat \<Rightarrow> f32 \<Rightarrow> bool" where
  "params_at S X k acc \<longleftrightarrow> (\<forall>e \<in> set (drop k (params_of S X)). \<forall>j \<in> set (insts S (e_map e) (x_inst X)). is_chained S (e_idx e) j) \<and>
     (\<exists>acc0. checks_at S X (length (checks_of S X)) acc0 \<and> acc = foldr (add_param S (x_inst X)) (drop k (params_of S X)) acc0)"

text \<open>Inside the loop over the instances of a check or of a parameter: \<open>ds\<close> are behind the iterator, \<open>js\<close> ahead.\<close>

definition in_check :: "solver \<Rightarrow> xstate \<Rightarrow> nat \<Rightarrow> nat list \<Rightarrow> nat list \<Rightarrow> bool" where
  "in_check S X k ds js \<longleftrightarrow> k < length (checks_of S X) \<and> insts S (se_map (checks_of S X ! k)) (x_inst X) = ds @ js \<and>
     (\<forall>d \<in> set ds. passed S (se_idx (checks_of S X ! k)) d)"

definition in_param :: "solver \<Rightarrow> xstate \<Rightarrow> nat \<Rightarrow> f32 \<Rightarrow> nat list \<Rightarrow> nat list \<Rightarrow> bool" where
  "in_param S X k mx ds js \<longleftrightarrow> k < length (params_of S X) \<and> insts S (e_map (params_of S X ! k)) (x_inst X) = ds @ js \<and>
     (\<forall>d \<in> set ds. is_chained S (e_idx (params_of S X ! k)) d) \<and> mx = max_cost S (e_idx (params_of S X ! k)) ds"

text \<open>A frame that waits for the variable \<open>x\<close> of the frame above it.\<close>

definition waits_check :: "solver \<Rightarrow> xstate \<Rightarrow> int \<times> nat \<Rightarrow> bool" where
  "waits_check S X x \<longleftrightarrow> checks_at S X (w_edge X) (x_costS X) \<and> se_flags (checks_of S X ! w_edge X) AND W_COMPUTED \<noteq> 0 \<and>
     (\<exists>ds js. in_check S X (w_edge X) ds js \<and> iter (w_si X) js \<and> snd x = hd js) \<and>
     fst x = w_xi (gshadow (s_G S) (se_idx (checks_of S X ! w_edge X))) \<and>
     (\<exists>bm. vm_at S (se_idx (checks_of S X ! w_edge X)) = Inr bm) \<and>
     \<not> passed S (se_idx (checks_of S X ! w_edge X)) (snd x) \<and> \<not> evald S (se_idx (checks_of S X ! w_edge X)) (snd x)"

definition waits_param :: "solver \<Rightarrow> xstate \<Rightarrow> int \<times> nat \<Rightarrow> bool" where
  "waits_param S X x \<longleftrightarrow> params_at S X (p_edge X + 1) (x_costS X) \<and>
     (\<exists>ds js. in_param S X (p_edge X) (p_ssmax X) ds js \<and> iter (p_si X) js \<and> x = (e_idx (params_of S X ! p_edge X), hd js))"

definition waits :: "solver \<Rightarrow> xstate \<Rightarrow> int \<times> nat \<Rightarrow> bool" where
  "waits S X x \<longleftrightarrow> works S X \<and> (case x_where X of XS_SHADOW \<Rightarrow> waits_check S X x | XS_PARAM \<Rightarrow> waits_param S X x | XS_DONE \<Rightarrow> False)"

text \<open>A search starts for one variable, from a state whose chains it must keep.\<close>

type_synonym goal = "(int \<times> nat) \<times> solver"

fun linked :: "solver \<Rightarrow> goal \<Rightarrow> int \<times> nat \<Rightarrow> xstate list \<Rightarrow> bool" where
  "linked S r x [] \<longleftrightarrow> False"
| "linked S r x [B] \<longleftrightarrow> x_where B = XS_DONE \<and> x = fst r"
| "linked S r x (F # G # fs) \<longleftrightarrow> frame_ok S F \<and> waits S F x \<and> linked S r (x_x F) (G # fs)"

section \<open>Stability\<close>

lemma cand_ok_keeps: "ckeeps S S' \<Longrightarrow> cand_ok S X c \<Longrightarrow> cand_ok S' X c"
  using ckeepsD(1) [of S S'] ckeeps_known [of S S'] by (auto simp: cand_ok_def)

lemma works_keeps:
  assumes k: "ckeeps S S'" and w: "works S X" "frame_ok S X" and m: "\<not> is_mchained S' (x_mi X) (x_inst X)"
  shows "works S' X"
proof -
  have G: "s_G S' = s_G S" by (rule ckeepsD(1) [OF k])
  have "known S (e_map (models_of S X ! x_ei X)) (snd (x_x X))" using w by (auto simp: works_def frame_ok_def)
  then have "insts S' (e_map (models_of S X ! x_ei X)) (snd (x_x X)) = insts S (e_map (models_of S X ! x_ei X)) (snd (x_x X))"
    using ckeeps_known [OF k] by blast
  then show ?thesis using w(1) m maps_known_keeps [OF k] by (simp add: works_def G)
qed

lemma known_check: "works S X \<Longrightarrow> k < length (checks_of S X) \<Longrightarrow> known S (se_map (checks_of S X ! k)) (x_inst X)"
  by (simp add: works_def maps_known_def)

lemma known_param: "works S X \<Longrightarrow> e \<in> set (params_of S X) \<Longrightarrow> known S (e_map e) (x_inst X)"
  by (simp add: works_def maps_known_def)

lemma idx_check:
  assumes "sgood S" "works S X" "k < length (checks_of S X)"
  shows "nv (s_G S) \<le> se_idx (checks_of S X ! k)"
proof -
  have "midx (s_G S) (x_mi X)" using assms(2) by (simp add: works_def)
  from shadow_idx [OF assms(1) this nth_mem [OF assms(3)]] show ?thesis .
qed

lemma checks_at_keeps:
  assumes k: "ckeeps S S'" and w: "sgood S" "works S X" and c: "checks_at S X n acc"
  shows "checks_at S' X n acc"
proof -
  have G: "s_G S' = s_G S" by (rule ckeepsD(1) [OF k])
  have d: "decided S' i e b" if "e \<in> set (checks_of S X)" "decided S i e b" for i e b
    using decided_keeps [OF k shadow_idx [OF w(1) _ that(1)] that(2)] w(2) by (simp add: works_def)
  have "list_all2 (decided S' (x_inst X)) (take n (checks_of S X)) bs" if "list_all2 (decided S (x_inst X)) (take n (checks_of S X)) bs" for bs
    by (rule list.rel_mono_strong [OF that]) (blast dest: in_set_takeD intro: d)
  then show ?thesis using c by (auto simp: checks_at_def G)
qed

lemma params_at_keeps:
  assumes k: "ckeeps S S'" and w: "sgood S" "works S X" and c: "params_at S X n acc"
  shows "params_at S' X n acc"
proof -
  have G: "s_G S' = s_G S" by (rule ckeepsD(1) [OF k])
  have e: "known S (e_map e) (x_inst X) \<and> (\<forall>j \<in> set (insts S (e_map e) (x_inst X)). is_chained S (e_idx e) j)" if "e \<in> set (drop n (params_of S X))" for e
    using c that known_param [OF w(2)] in_set_dropD [OF that] by (simp add: params_at_def)
  obtain acc0 where acc0: "checks_at S X (length (checks_of S X)) acc0" "acc = foldr (add_param S (x_inst X)) (drop n (params_of S X)) acc0"
    using c by (auto simp: params_at_def)
  have "foldr (add_param S' (x_inst X)) (drop n (params_of S X)) acc0 = foldr (add_param S (x_inst X)) (drop n (params_of S X)) acc0"
    using e by (intro add_params_keeps [OF k]) auto
  moreover have "is_chained S' (e_idx e) j" if "e \<in> set (drop n (params_of S X))" "j \<in> set (insts S' (e_map e) (x_inst X))" for e j
    using e [OF that(1)] that(2) ckeeps_known [OF k, of "e_map e"] ckeeps_chained [OF k] by auto
  ultimately show ?thesis using checks_at_keeps [OF k w acc0(1)] acc0(2) by (auto simp: params_at_def G)
qed

lemma in_check_keeps:
  assumes "ckeeps S S'" "sgood S" "works S X" "in_check S X k ds js"
  shows "in_check S' X k ds js"
proof -
  have k: "k < length (checks_of S X)" using assms(4) by (simp add: in_check_def)
  show ?thesis using assms(4) ckeepsD(1) [OF assms(1)] ckeeps_known [OF assms(1) known_check [OF assms(3) k]] ckeepsD(5) [OF assms(1) idx_check [OF assms(2,3) k]]
    by (simp add: in_check_def)
qed

lemma in_param_keeps:
  assumes "ckeeps S S'" "works S X" "in_param S X k mx ds js"
  shows "in_param S' X k mx ds js"
proof -
  have "known S (e_map (params_of S X ! k)) (x_inst X)" using known_param [OF assms(2)] assms(3) by (simp add: in_param_def)
  then show ?thesis using assms(3) ckeepsD(1) [OF assms(1)] ckeeps_known [OF assms(1)] ckeeps_chained [OF assms(1)] max_cost_keeps [OF assms(1), of ds]
    by (simp add: in_param_def)
qed

text \<open>The cell of the bitmap that a frame waits for.\<close>

definition cell_idx :: "solver \<Rightarrow> xstate \<Rightarrow> int" where
  "cell_idx S X = se_idx (checks_of S X ! w_edge X)"

definition cell_inst :: "xstate \<Rightarrow> nat" where
  "cell_inst X = unat (SI_INST (w_si X))"

text \<open>What a step must leave alone of a waiting frame.\<close>

definition holds :: "solver \<Rightarrow> solver \<Rightarrow> xstate \<Rightarrow> bool" where
  "holds S S' X \<longleftrightarrow>
     (\<forall>sp. sp_at S (fst (x_x X)) (snd (x_x X)) = Inr sp \<longrightarrow> sp_cost sp = SP_MARK \<longrightarrow> \<not> chained sp \<longrightarrow> sp_at S' (fst (x_x X)) (snd (x_x X)) = Inr sp) \<and>
     (works S X \<longrightarrow> \<not> is_mchained S' (x_mi X) (x_inst X)) \<and>
     (works S X \<longrightarrow> x_where X = XS_SHADOW \<longrightarrow> w_edge X < length (checks_of S X) \<longrightarrow>
        (\<forall>bm. vm_at S (cell_idx S X) = Inr bm \<longrightarrow> \<not> passed S (cell_idx S X) (cell_inst X) \<longrightarrow> \<not> evald S (cell_idx S X) (cell_inst X) \<longrightarrow>
          (\<exists>bm. vm_at S' (cell_idx S X) = Inr bm) \<and> \<not> passed S' (cell_idx S X) (cell_inst X) \<and> \<not> evald S' (cell_idx S X) (cell_inst X)))"

lemma frame_ok_holds:
  assumes k: "ckeeps S S'" and h: "holds S S' X" and f: "frame_ok S X"
  shows "frame_ok S' X"
proof -
  have G: "s_G S' = s_G S" by (rule ckeepsD(1) [OF k])
  have "list_all (cand_ok S' X) (x_cand X)" using f cand_ok_keeps [OF k] by (auto simp: frame_ok_def list_all_iff)
  then show ?thesis using f h ckeeps_known [OF k] by (auto simp: frame_ok_def holds_def G)
qed

lemma waits_holds:
  assumes k: "ckeeps S S'" and h: "holds S S' X" and f: "frame_ok S X" and ok: "sgood S" and w: "waits S X x"
  shows "waits S' X x"
proof -
  have G: "s_G S' = s_G S" by (rule ckeepsD(1) [OF k])
  have w0: "works S X" using w by (simp add: waits_def)
  have w1: "works S' X" using works_keeps [OF k w0 f] h w0 by (simp add: holds_def)
  show ?thesis
  proof (cases "x_where X")
    case XS_PARAM
    then show ?thesis using w w1 params_at_keeps [OF k ok w0] in_param_keeps [OF k w0]
      by (simp add: waits_def waits_param_def G) blast
  next
    case XS_SHADOW
    then have c: "waits_check S X x" using w by (simp add: waits_def)
    then obtain ds js where d: "in_check S X (w_edge X) ds js" "iter (w_si X) js" "snd x = hd js" by (auto simp: waits_check_def)
    have j: "cell_inst X = snd x" using iter_inst [OF d(2)] d(3) by (simp add: cell_inst_def)
    have e: "w_edge X < length (checks_of S X)" using d(1) by (simp add: in_check_def)
    have "(\<exists>bm. vm_at S' (cell_idx S X) = Inr bm) \<and> \<not> passed S' (cell_idx S X) (snd x) \<and> \<not> evald S' (cell_idx S X) (snd x)"
      using h c e w0 XS_SHADOW unfolding holds_def waits_check_def j cell_idx_def by blast
    then show ?thesis using XS_SHADOW c w1 d checks_at_keeps [OF k ok w0] in_check_keeps [OF k ok w0 d(1)]
      by (auto simp: waits_def waits_check_def G cell_idx_def)
  next
    case XS_DONE
    then show ?thesis using w by (simp add: waits_def)
  qed
qed

lemma linked_holds:
  assumes k: "ckeeps S S'" and ok: "sgood S"
  shows "linked S r x fs \<Longrightarrow> (\<And>F. F \<in> set (butlast fs) \<Longrightarrow> holds S S' F) \<Longrightarrow> linked S' r x fs"
proof (induction fs arbitrary: x rule: induct_list012)
  case (3 F G fs)
  then have f: "frame_ok S F" "waits S F x" "linked S r (x_x F) (G # fs)" "holds S S' F" by simp_all
  have "linked S' r (x_x F) (G # fs)" using 3(2) [OF f(3)] 3(4) by simp
  then show ?case using frame_ok_holds [OF k f(4,1)] waits_holds [OF k f(4,1) ok f(2)] by simp
qed simp_all


section \<open>Steps that leave frames alone\<close>

lemma holds_near:
  assumes n: "near S S'" and ok: "sgood S"
  shows "holds S S' F"
proof -
  have sp: "sp_at S' xi i = Inr sp" if "sp_at S xi i = Inr sp" "\<not> chained sp" for xi i sp
    using near_sp(1) [OF n that(1)] that(2) by (auto simp: sp_near_def)
  have vm: "vm_at S' (cell_idx S F) = Inr bm" "passed S' (cell_idx S F) j = passed S (cell_idx S F) j" "evald S' (cell_idx S F) j = evald S (cell_idx S F) j"
    if "works S F" "w_edge F < length (checks_of S F)" "vm_at S (cell_idx S F) = Inr bm" for bm j
    using n idx_check [OF ok that(1,2)] near_bits [OF n _ that(3)] that(3) by (simp_all add: near_def cell_idx_def)
  show ?thesis unfolding holds_def chained_near(2) [OF n] using sp vm by (auto simp: works_def)
qed

lemma holds_set_sp: "sp_at S xi i = Inr sp \<Longrightarrow> x_x F \<noteq> (xi, i) \<Longrightarrow> holds S (set_sp S xi i v) F"
  by (auto simp: holds_def sp_at_set works_def prod_eq_iff)

lemma holds_set_msp:
  "msp_at S mi i = Inr sp \<Longrightarrow> (x_mi F, x_inst F) \<noteq> (mi, i) \<or> \<not> chained v \<Longrightarrow> holds S (set_msp S mi i v) F"
  by (auto simp: holds_def works_def is_mchained_def msp_at_set)

section \<open>Marks of checks\<close>

text \<open>Marking the instances \<open>P\<close> of a check.\<close>

definition marks :: "solver \<Rightarrow> int \<Rightarrow> nat set \<Rightarrow> solver \<Rightarrow> bool" where
  "marks S wi P S' \<longleftrightarrow> (\<exists>bm bm'. vm_at S wi = Inr bm \<and> length bm' = length bm \<and> S' = S\<lparr>s_xstate := (s_xstate S)(wi := XBm bm')\<rparr> \<and>
     (\<forall>j. SW_BMIDX j < length bm \<longrightarrow> (sw_pass bm j \<longrightarrow> sw_pass bm' j) \<and> (sw_eval bm j \<longrightarrow> sw_eval bm' j) \<and>
       (j \<notin> P \<longrightarrow> sw_pass bm' j = sw_pass bm j \<and> sw_eval bm' j = sw_eval bm j)))"

lemma marks_frame:
  assumes "marks S wi P S'"
  shows "s_G S' = s_G S" "s_mapstate S' = s_mapstate S" "s_mstate S' = s_mstate S" "sp_at S' xi i = sp_at S xi i" "msp_at S' mi i = msp_at S mi i"
    "map_val S' m i = map_val S m i" "known S' m i = known S m i" "insts S' m i = insts S m i"
    "is_chained S' xi i = is_chained S xi i" "is_mchained S' mi i = is_mchained S mi i"
proof -
  obtain bm bm' where b: "vm_at S wi = Inr bm" "S' = S\<lparr>s_xstate := (s_xstate S)(wi := XBm bm')\<rparr>" using assms by (auto simp: marks_def)
  show m: "s_G S' = s_G S" "s_mapstate S' = s_mapstate S" "s_mstate S' = s_mstate S" "map_val S' m i = map_val S m i" for m i
    by (simp_all add: b(2) map_val_def)
  show sp: "sp_at S' xi i = sp_at S xi i" "msp_at S' mi i = msp_at S mi i" for xi mi i
    using b(1) by (auto simp: b(2) sp_at_def msp_at_def vm_at_def split: xslot.splits)
  show "known S' m i = known S m i" "insts S' m i = insts S m i" by (simp_all add: known_def insts_def m)
  show "is_chained S' xi i = is_chained S xi i" "is_mchained S' mi i = is_mchained S mi i" by (simp_all add: is_chained_def is_mchained_def sp)
qed

lemma marks_bits:
  assumes "marks S wi P S'"
  shows "passed S wj j \<Longrightarrow> passed S' wj j" "evald S wj j \<Longrightarrow> evald S' wj j"
    "wj \<noteq> wi \<or> j \<notin> P \<Longrightarrow> passed S' wj j = passed S wj j" "wj \<noteq> wi \<or> j \<notin> P \<Longrightarrow> evald S' wj j = evald S wj j"
    "vm_at S wj = Inr bm \<Longrightarrow> \<exists>bm'. vm_at S' wj = Inr bm'"
  using assms by (cases "wj = wi"; auto simp: marks_def passed_def evald_def vm_at_def)+

lemma marks_sgood:
  assumes "marks S wi P S'" "sgood S"
  shows "sgood S'"
proof -
  obtain bm bm' where b: "vm_at S wi = Inr bm" "length bm' = length bm" "S' = S\<lparr>s_xstate := (s_xstate S)(wi := XBm bm')\<rparr>"
    using assms(1) by (auto simp: marks_def)
  have x: "s_xstate S wi = XBm bm" using b(1) by (simp add: vm_at_def split: xslot.splits)
  have ok: "solver_ok S" using assms(2) by (simp add: sgood_def)
  have "slot_ok S wi" using solver_okD(3) [OF ok] .
  then have "slot_ok S' wi" by (simp add: slot_ok_def b(2,3) x cong: if_cong)
  then have "solver_ok S'"
    using solver_okD(5,6) [OF ok] by (intro solver_ok_extends [OF ok]) (auto simp: b(3) extends_def)
  then show ?thesis using assms(2) by (simp add: sgood_def plain_def marks_frame [OF assms(1)])
qed

lemma marks_keeps: "marks S wi P S' \<Longrightarrow> ckeeps S S'"
  using marks_frame [of S wi P S'] marks_bits(1,2) [of S wi P S'] by (auto simp: ckeeps_def)

lemma clean_same:
  assumes "ckeeps S S'" "sgood S" "clean S" "\<And>xi i. sp_at S' xi i = sp_at S xi i" "\<And>mi i. msp_at S' mi i = msp_at S mi i"
  shows "clean S'"
  using assms clean_sp_keeps [OF assms(1,2)] clean_msp_keeps [OF assms(1,2)] by (simp add: clean_def)

lemma marks_clean: "marks S wi P S' \<Longrightarrow> sgood S \<Longrightarrow> clean S \<Longrightarrow> clean S'"
  using clean_same [OF marks_keeps] marks_frame [of S wi P S'] by simp

lemma holds_marks: "marks S wi P S' \<Longrightarrow> (x_where F = XS_SHADOW \<longrightarrow> cell_idx S F \<noteq> wi \<or> cell_inst F \<notin> P) \<Longrightarrow> holds S S' F"
  unfolding holds_def using marks_frame(4,10) [of S wi P S'] marks_bits(3-5) [of S wi P S'] works_def by auto

section \<open>The stack\<close>

definition is_marked :: "solver \<Rightarrow> int \<times> nat \<Rightarrow> bool" where
  "is_marked S x \<longleftrightarrow> (\<exists>sp. sp_at S (fst x) (snd x) = Inr sp \<and> sp_cost sp = SP_MARK \<and> \<not> chained sp)"

text \<open>Frames that are busy with the same instance of a model: the upper one is at an earlier check.\<close>

definition rival :: "xstate \<Rightarrow> xstate \<Rightarrow> bool" where
  "rival X F \<longleftrightarrow> x_where F = XS_SHADOW \<and> x_mi F = x_mi X \<and> x_inst F = x_inst X"

definition ahead :: "xstate \<Rightarrow> xstate \<Rightarrow> bool" where
  "ahead X F \<longleftrightarrow> (rival X F \<longrightarrow> x_where X = XS_SHADOW \<and> w_edge X < w_edge F)"

definition stack_ok :: "solver \<Rightarrow> goal \<Rightarrow> int \<times> nat \<Rightarrow> xstate list \<Rightarrow> bool" where
  "stack_ok S r x fs \<longleftrightarrow> linked S r x fs \<and> sorted_wrt ahead fs \<and> distinct (x # map x_x (butlast fs))"

definition frame_base :: "solver \<Rightarrow> goal \<Rightarrow> xstate \<Rightarrow> xstate list \<Rightarrow> bool" where
  "frame_base S r X fs \<longleftrightarrow> sgood S \<and> clean S \<and> ckeeps (snd r) S \<and> frame_ok S X \<and> stack_ok S r (x_x X) fs"

lemma frame_marked: "frame_ok S X \<Longrightarrow> is_marked S (x_x X)"
  by (simp add: frame_ok_def is_marked_def)

lemma stack_step:
  assumes "ckeeps S S'" "sgood S" "stack_ok S r x fs" "\<And>F. F \<in> set (butlast fs) \<Longrightarrow> holds S S' F"
  shows "stack_ok S' r x fs"
  using assms linked_holds [OF assms(1,2)] by (simp add: stack_ok_def)

lemma linked_waits:
  "linked S r x fs \<Longrightarrow> F \<in> set (butlast fs) \<Longrightarrow> frame_ok S F \<and> (\<exists>y. waits S F y \<and> (y = x \<or> (\<exists>H \<in> set (butlast fs). y = x_x H \<and> frame_ok S H)))"
proof (induction fs arbitrary: x rule: induct_list012)
  case (3 H G fs)
  show ?case
  proof (cases "F = H")
    case True
    then show ?thesis using 3(3) by (intro conjI exI [of _ x]) simp_all
  next
    case False
    then have "F \<in> set (butlast (G # fs))" "linked S r (x_x H) (G # fs)" "frame_ok S H" using 3(3,4) by simp_all
    then show ?thesis using 3(2) [of "x_x H"] unfolding butlast.simps(2) [of H "G # fs"] by (metis list.discI list.set_intros)
  qed
qed simp_all

lemma linked_last: "linked S r x fs \<Longrightarrow> fs \<noteq> [] \<and> x_where (last fs) = XS_DONE"
proof (induction fs arbitrary: x rule: induct_list012)
  case (3 F G fs)
  then show ?case using 3(2) [of "x_x F"] by simp
qed simp_all

lemma in_stack:
  assumes "linked S r x fs" "F \<in> set fs" "x_where F \<noteq> XS_DONE"
  shows "F \<in> set (butlast fs)"
  using assms linked_last [OF assms(1)] by (metis append_butlast_last_id in_set_conv_decomp set_ConsD rotate1.simps(2) set_rotate1)

text \<open>A frame that waits, waits for a marked variable.\<close>

lemma linked_marked:
  assumes "linked S r x fs" "F \<in> set (butlast fs)" "is_marked S x"
  shows "\<exists>y. waits S F y \<and> is_marked S y"
  using linked_waits [OF assms(1,2)] assms(3) frame_marked by blast

lemma stack_pop:
  assumes "stack_ok S r x (X # fs)" "x_where X \<noteq> XS_DONE"
  shows "frame_ok S X" "waits S X x" "stack_ok S r (x_x X) fs" "\<And>F. F \<in> set fs \<Longrightarrow> ahead X F"
  using assms by (cases fs; auto simp: stack_ok_def)+

lemma stack_bottom: "stack_ok S r x (X # fs) \<Longrightarrow> x_where X = XS_DONE \<Longrightarrow> x = fst r"
  by (cases fs) (auto simp: stack_ok_def waits_def)

lemma base_near: "near S S' \<Longrightarrow> frame_base S r X fs \<Longrightarrow> sgood S' \<Longrightarrow> frame_base S' r X fs"
  using stack_step [OF near_keeps] frame_ok_holds [OF near_keeps holds_near] clean_near holds_near ckeeps_trans [OF _ near_keeps]
  by (auto simp: frame_base_def)

lemma works_near: "near S S' \<Longrightarrow> works S X \<Longrightarrow> frame_ok S X \<Longrightarrow> works S' X"
  using works_keeps [OF near_keeps] chained_near(2) [of S S'] by (simp add: works_def)

text \<open>Changing the fields of the current frame that the stack does not look at.\<close>

definition same_var :: "xstate \<Rightarrow> xstate \<Rightarrow> bool" where
  "same_var X X' \<longleftrightarrow> x_x X' = x_x X \<and> x_cand X' = x_cand X"

lemma base_same: "same_var X X' \<Longrightarrow> frame_base S r X' fs = frame_base S r X fs"
  by (simp add: frame_base_def frame_ok_def cand_ok_def same_var_def list_all_iff)

end
