(* ===== verification/Fhk_Search.thy ===== *)
theory Fhk_Search
  imports Fhk_Frames
begin

text \<open>
  The search \<^verbatim>\<open>S_select_chain\<close> is sound: an invariant of its labels. \<open>frame_inv\<close> says for each label what the current frame has done and
  what the frames under it wait for, and one lemma for each label shows that the label keeps it.
\<close>


section \<open>Costs\<close>

lemma fmax_cost [simp]: "is_cost a \<Longrightarrow> is_cost b \<Longrightarrow> is_cost (fmax a b)"
  by (simp add: fmax_def)

lemma model_cost:
  assumes "sgood S" "midx (s_G S) mi" "is_cost a"
  shows "is_cost (m_costf (gmodel (s_G S) mi) a)" "m_k (gmodel (s_G S) mi) \<le> m_costf (gmodel (s_G S) mi) a"
  using assms by (auto simp: sgood_def graph_computed_def m_costf_def intro: costf_cost costf_ge_k)

lemma penalties_cost:
  assumes "\<forall>e \<in> set es. is_cost (se_penalty e)"
  shows "is_cost (penalties bs es)"
proof -
  have "is_cost a \<Longrightarrow> is_cost (foldl (\<lambda>acc (b, e). if b then fadd acc (se_penalty e) else acc) a (zip bs es))" for a
    using assms by (induction es arbitrary: a bs) (auto simp: zip_Cons split: list.splits)
  then show ?thesis by (simp add: penalties_def)
qed

lemma checks_at_cost:
  assumes "sgood S" "works S X" "checks_at S X k acc"
  shows "is_cost acc"
proof -
  have "\<forall>e \<in> set (checks_of S X). is_cost (se_penalty e)" using assms(1,2) by (auto simp: sgood_def graph_computed_def works_def)
  then have "is_cost (penalties bs (take k (checks_of S X)))" for bs by (intro penalties_cost) (auto dest: in_set_takeD)
  then show ?thesis using assms(3) by (auto simp: checks_at_def)
qed

lemma vcost_cost: "clean S \<Longrightarrow> is_chained S xi j \<Longrightarrow> is_cost (vcost S xi j)"
  unfolding clean_def is_chained_def vcost_def clean_sp_def by fastforce

lemma max_cost_cost: "clean S \<Longrightarrow> \<forall>j \<in> set js. is_chained S xi j \<Longrightarrow> is_cost (max_cost S xi js)"
proof -
  assume c: "clean S" "\<forall>j \<in> set js. is_chained S xi j"
  have "is_cost a \<Longrightarrow> is_cost (fold (\<lambda>j mx. fmax mx (vcost S xi j)) js a)" for a
    using c by (induction js arbitrary: a) (auto simp: vcost_cost)
  then show ?thesis by (simp add: max_cost_def)
qed

lemma params_at_cost:
  assumes "sgood S" "clean S" "works S X" "params_at S X k acc"
  shows "is_cost acc"
proof -
  obtain acc0 where a: "checks_at S X (length (checks_of S X)) acc0" "acc = foldr (add_param S (x_inst X)) (drop k (params_of S X)) acc0"
    using assms(4) by (auto simp: params_at_def)
  have "is_cost (foldr (add_param S (x_inst X)) es acc0)" if "\<forall>e \<in> set es. \<forall>j \<in> set (insts S (e_map e) (x_inst X)). is_chained S (e_idx e) j" for es
    using that checks_at_cost [OF assms(1,3) a(1)] max_cost_cost [OF assms(2)] by (induction es) (auto simp: add_param_def)
  then show ?thesis using a(2) assms(4) by (simp add: params_at_def)
qed

section \<open>Writing costs\<close>

lemma base_marks:
  assumes b: "frame_base S r X fs" and m: "marks S wi P S'"
    and F: "\<And>F. F \<in> set (butlast fs) \<Longrightarrow> x_where F = XS_SHADOW \<longrightarrow> cell_idx S F \<noteq> wi \<or> cell_inst F \<notin> P"
  shows "frame_base S' r X fs" "works S X \<Longrightarrow> works S' X"
proof -
  note k = marks_keeps [OF m]
  have g: "sgood S" "clean S" "frame_ok S X" "stack_ok S r (x_x X) fs" using b by (simp_all add: frame_base_def)
  have "frame_ok S' X" using g(3) ckeeps_known [OF k] cand_ok_keeps [OF k] by (auto simp: frame_ok_def marks_frame [OF m] list_all_iff)
  then show "frame_base S' r X fs" using marks_sgood [OF m g(1)] marks_clean [OF m g(1,2)] stack_step [OF k g(1,4) holds_marks [OF m F]] ckeeps_trans [OF _ k] b
    by (simp add: frame_base_def)
  show "works S X \<Longrightarrow> works S' X" using works_keeps [OF k _ g(3)] by (simp add: works_def marks_frame [OF m])
qed

lemma base_set_mcost:
  assumes b: "frame_base S r X fs" and w: "works S X" and c: "is_cost c" "m_k (mod_of S X) \<le> c" and s: "set_mcost S X c = Inr S'"
  shows "frame_base S' r X fs"
proof -
  obtain sp where sp: "msp_at S (x_mi X) (x_inst X) = Inr sp" "S' = set_msp S (x_mi X) (x_inst X) (sp\<lparr>sp_cost := c\<rparr>)"
    using s by (auto simp: set_mcost_def andThen_Inr)
  have n: "\<not> chained sp" using w sp(1) by (simp add: works_def is_mchained_def)
  have g: "sgood S" "clean S" "frame_ok S X" "stack_ok S r (x_x X) fs" using b by (simp_all add: frame_base_def)
  have k: "ckeeps S S'" using set_msp_keeps [OF sp(1) n] by (simp add: sp(2))
  have h: "holds S S' F" for F using holds_set_msp [OF sp(1)] n by (simp add: sp(2))
  show ?thesis using g(1) clean_set_mcost [OF g(1,2) sp(1) n c] frame_ok_holds [OF k h g(3)] stack_step [OF k g(1,4) h] ckeeps_trans [OF _ k] b by (simp add: frame_base_def sp(2))
qed

lemma set_cost_failed:
  assumes b: "frame_base S r X fs" and c: "is_cost c" and s: "set_cost S (x_x X) c = Inr S'"
  shows "sgood S'" "clean S'" "stack_ok S' r (x_x X) fs" "ckeeps (snd r) S'"
proof -
  have g: "sgood S" "clean S" "frame_ok S X" "stack_ok S r (x_x X) fs" using b by (simp_all add: frame_base_def)
  obtain sp where sp: "sp_at S (fst (x_x X)) (snd (x_x X)) = Inr sp" "S' = set_sp S (fst (x_x X)) (snd (x_x X)) (sp\<lparr>sp_cost := c\<rparr>)"
    using s by (auto simp: set_cost_def andThen_Inr)
  have n: "\<not> chained sp" using g(3) sp(1) by (simp add: frame_ok_def)
  have k: "ckeeps S S'" using neutral_keeps [OF set_sp_neutral [OF sp(1) n]] by (simp add: sp(2))
  show "sgood S'" using g(1) by (simp add: sp(2))
  show "ckeeps (snd r) S'" using ckeeps_trans [OF _ k] b by (simp add: frame_base_def)
  show "clean S'" using clean_set_cost [OF g(1,2) sp(1) n] c by (simp add: sp(2))
  have "x_x F \<noteq> x_x X" if "F \<in> set (butlast fs)" for F using g(4) imageI [OF that, of x_x] by (auto simp: stack_ok_def)
  then show "stack_ok S' r (x_x X) fs" using stack_step [OF k g(1,4)] holds_set_sp [OF sp(1)] by (simp add: sp(2))
qed


section \<open>The invariant\<close>

definition busy :: "solver \<Rightarrow> goal \<Rightarrow> xstate \<Rightarrow> xstate list \<Rightarrow> bool" where
  "busy S r X fs \<longleftrightarrow> frame_base S r X fs \<and> works S X"

text \<open>Where the current frame is with respect to rivals under it.\<close>

definition checks_from :: "xstate \<Rightarrow> nat \<Rightarrow> xstate list \<Rightarrow> bool" where
  "checks_from X k fs \<longleftrightarrow> (\<forall>F \<in> set fs. rival X F \<longrightarrow> k \<le> w_edge F)"

definition insts_from :: "xstate \<Rightarrow> nat \<Rightarrow> nat \<Rightarrow> xstate list \<Rightarrow> bool" where
  "insts_from X k j fs \<longleftrightarrow> (\<forall>F \<in> set fs. rival X F \<longrightarrow> k < w_edge F \<or> k = w_edge F \<and> j \<le> cell_inst F)"

definition alone :: "xstate \<Rightarrow> xstate list \<Rightarrow> bool" where
  "alone X fs \<longleftrightarrow> (\<forall>F \<in> set fs. \<not> rival X F)"

definition chosen :: "solver \<Rightarrow> goal \<Rightarrow> int \<times> nat \<Rightarrow> f32 \<Rightarrow> xstate list \<Rightarrow> bool" where
  "chosen S r x cost fs \<longleftrightarrow> sgood S \<and> clean S \<and> ckeeps (snd r) S \<and> is_chained S (fst x) (snd x) \<and> vcost S (fst x) (snd x) = cost \<and> stack_ok S r x fs"

definition check_var :: "solver \<Rightarrow> xstate \<Rightarrow> nat \<Rightarrow> int" where
  "check_var S X k = w_xi (gshadow (s_G S) (se_idx (checks_of S X ! k)))"

fun frame_inv :: "solver \<Rightarrow> goal \<Rightarrow> f32 \<Rightarrow> f32 \<Rightarrow> xstate \<Rightarrow> xstate list \<Rightarrow> label \<Rightarrow> bool" where
  "frame_inv S r costS betaS X fs (X_solve xi inst beta) \<longleftrightarrow> sgood S \<and> clean S \<and> ckeeps (snd r) S \<and>
     (\<forall>sp. sp_at S xi inst = Inr sp \<longrightarrow> \<not> SP_MARKED sp \<longrightarrow>
        \<not> chained sp \<and> linked S r (xi, inst) (X\<lparr>x_costS := costS, x_betaS := betaS\<rparr> # fs) \<and> sorted_wrt ahead (X # fs) \<and> distinct (map x_x (butlast (X # fs))))"
| "frame_inv S r costS betaS X fs (X_chosen cost) \<longleftrightarrow> (\<exists>S1. set_cost S (x_x X) cost = Inr S1 \<and> chosen S1 r (x_x X) cost fs)"
| "frame_inv S r costS betaS X fs (X_failed cost) \<longleftrightarrow> frame_base S r X fs \<and> is_cost cost"
| "frame_inv S r costS betaS X fs X_bound \<longleftrightarrow> busy S r X fs \<and> \<not> f32_nan costS"
| "frame_inv S r costS betaS X fs Candidate \<longleftrightarrow> frame_base S r X fs"
| "frame_inv S r costS betaS X fs (Shadow k) \<longleftrightarrow> busy S r X fs \<and> checks_at S X k costS \<and> checks_from X k fs"
| "frame_inv S r costS betaS X fs (Shadow_si k it) \<longleftrightarrow> busy S r X fs \<and> x_where X = XS_SHADOW \<and> checks_at S X k costS \<and>
     (\<exists>ds js. in_check S X k ds js \<and> iter it js) \<and> insts_from X k (unat (SI_INST it)) fs"
| "frame_inv S r costS betaS X fs (Shadow_compute k it) \<longleftrightarrow> busy S r X fs \<and> x_where X = XS_SHADOW \<and> checks_at S X k costS \<and>
     (\<exists>ds js. in_check S X k ds js \<and> iter it js) \<and> checks_from X (Suc k) fs \<and> is_chained S (check_var S X k) (unat (SI_INST it))"
| "frame_inv S r costS betaS X fs (Shadow_penalty k) \<longleftrightarrow> busy S r X fs \<and> checks_at S X k costS \<and> k < length (checks_of S X) \<and>
     decided S (x_inst X) (checks_of S X ! k) True \<and> checks_from X (Suc k) fs"
| "frame_inv S r costS betaS X fs Params \<longleftrightarrow> busy S r X fs \<and> checks_at S X (length (checks_of S X)) costS \<and> alone X fs"
| "frame_inv S r costS betaS X fs (Param k) \<longleftrightarrow> busy S r X fs \<and> alone X fs \<and> x_where X = XS_PARAM \<and> k < m_cparam (mod_of S X) \<and> params_at S X (Suc k) costS"
| "frame_inv S r costS betaS X fs (Param_si k it mx) \<longleftrightarrow> busy S r X fs \<and> alone X fs \<and> x_where X = XS_PARAM \<and> p_edge X = k \<and> params_at S X (Suc k) costS \<and>
     (\<exists>ds js. in_param S X k mx ds js \<and> iter it js)"
| "frame_inv S r costS betaS X fs (Param_next k it mx) \<longleftrightarrow> busy S r X fs \<and> alone X fs \<and> x_where X = XS_PARAM \<and> p_edge X = k \<and> params_at S X (Suc k) costS \<and>
     (\<exists>ds j js. in_param S X k mx (ds @ [j]) js \<and> iter it (j # js))"
| "frame_inv S r costS betaS X fs Chain_solved \<longleftrightarrow> busy S r X fs \<and> alone X fs \<and> params_at S X 0 costS"
| "frame_inv S r costS betaS X fs Return \<longleftrightarrow> sgood S \<and> clean S \<and> ckeeps (snd r) S \<and> is_chained S (fst (fst r)) (snd (fst r))"

definition search_inv :: "goal \<Rightarrow> sel \<times> solver \<Rightarrow> bool" where
  "search_inv r st = (case st of (c, S) \<Rightarrow> (case xs c of [] \<Rightarrow> False | X # fs \<Rightarrow> frame_inv S r (M_costS c) (M_betaS c) X fs (pc c)))"

text \<open>The contract of a label.\<close>

definition step_ok :: "goal \<Rightarrow> stop + sel \<times> solver \<Rightarrow> bool" where
  "step_ok r res \<longleftrightarrow> (\<forall>st. res = Inr st \<longrightarrow> search_inv r st)"

lemma step_ok_simps [simp]: "step_ok r (Inl e)" "step_ok r (Inr (c, S)) = search_inv r (c, S)"
  by (simp_all add: step_ok_def)

lemma step_ok_then [intro]: "(\<And>a. x = Inr a \<Longrightarrow> step_ok r (f a)) \<Longrightarrow> step_ok r (andThen x f)"
  by (cases x) simp_all

section \<open>Chosen and failed variables, bounds\<close>

lemma shadow_failed_marks:
  assumes "shadow_failed S X = Inr S'" "midx (s_G S) (x_mi X)"
  shows "marks S (cell_idx S X) {cell_inst X} S'" "evald S' (cell_idx S X) (cell_inst X)"
proof -
  let ?i = "cell_inst X"
  obtain bm where b: "vm_at S (cell_idx S X) = Inr bm" "SW_BMIDX ?i < length bm"
    "S' = S\<lparr>s_xstate := (s_xstate S)(cell_idx S X := XBm (bm[SW_BMIDX ?i := bm ! SW_BMIDX ?i OR push_bit (SW_BMOFF ?i) SW_EVAL]))\<rparr>"
    using assms unfolding shadow_failed_def shedge_at_def
    by (auto simp: andThen_Inr m_of_def cell_idx_def cell_inst_def checked_def split: if_splits)
  define bm' where "bm' = bm[SW_BMIDX ?i := bm ! SW_BMIDX ?i OR push_bit (SW_BMOFF ?i) SW_EVAL]"
  have off: "even (SW_BMOFF ?i)" "SW_BMOFF ?i < 64" by (simp_all add: SW_BMOFF_def mult_mod_right [of 2 _ 32, simplified, symmetric])
  have or: "bm ! SW_BMIDX ?i OR push_bit (SW_BMOFF ?i) SW_EVAL = bm ! SW_BMIDX ?i OR push_bit (SW_BMOFF ?i) (of_bool False OR SW_EVAL)" by simp
  have bit: "bit (bm' ! k) n \<longleftrightarrow> bit (bm ! k) n \<or> k = SW_BMIDX ?i \<and> n div 2 = SW_BMOFF ?i div 2 \<and> odd n" for k n
    using guard_bits [OF off, of "bm ! SW_BMIDX ?i" False n] b(2) unfolding bm'_def or by (cases "k = SW_BMIDX ?i") simp_all
  have m: "2 * j mod 64 = 2 * (j mod 32)" for j :: nat by (simp add: mult_mod_right [of 2 j 32, simplified, symmetric])
  have pass: "sw_pass bm' j = sw_pass bm j" for j unfolding sw_pass_bit bit m by simp
  have "j div 32 = ?i div 32 \<Longrightarrow> j mod 32 = ?i mod 32 \<Longrightarrow> j = ?i" for j by (metis div_mult_mod_eq)
  then have eval: "sw_eval bm' j \<longleftrightarrow> sw_eval bm j \<or> j = ?i" for j
    unfolding sw_eval_bit bit SW_BMIDX_def SW_BMOFF_def m by auto
  have l: "length bm' = length bm" by (simp add: bm'_def)
  show "marks S (cell_idx S X) {?i} S'" unfolding marks_def b(3) bm'_def [symmetric]
    using b(1) l by (intro exI [of _ bm] exI [of _ bm']) (simp add: pass eval)
  show "evald S' (cell_idx S X) ?i" using b(2) eval [of ?i] l unfolding b(3) bm'_def [symmetric] by (simp add: evald_def vm_at_def)
qed

text \<open>Frames under the current one wait for other cells than the one that belongs to its variable.\<close>

lemma other_cells:
  assumes st: "stack_ok S r (x_x X) fs" and w: "waits_check S X x" "x \<notin> x_x ` set (X # butlast fs)"
    and F: "F \<in> set (butlast fs)" "x_where F = XS_SHADOW" "cell_idx S F = cell_idx S X"
  shows "cell_inst F \<noteq> cell_inst X"
proof
  assume eq: "cell_inst F = cell_inst X"
  obtain y where y: "waits S F y" "y \<in> x_x ` set (X # butlast fs)" using linked_waits [of S r "x_x X" fs F] st F(1) by (auto simp: stack_ok_def)
  have "y = (w_xi (gshadow (s_G S) (cell_idx S G)), cell_inst G)" if "waits_check S G y" for G y
    using that iter_inst by (auto simp: waits_check_def cell_idx_def cell_inst_def prod_eq_iff)
  from this [of X x] this [of F y] have "x = y" using w(1) y(1) F(2,3) eq by (simp add: waits_def)
  then show False using y(2) w(2) by simp
qed

lemma waiting_decided:
  assumes w: "works S X" "waits_check S X x" and k: "ckeeps S S'" and e: "evald S' (cell_idx S X) (cell_inst X)"
  shows "decided S' (x_inst X) (checks_of S' X ! w_edge X) True" "w_edge X < length (checks_of S' X)"
proof -
  obtain ds js where d: "in_check S X (w_edge X) ds js" "iter (w_si X) js" using w(2) by (auto simp: waits_check_def)
  have G: "s_G S' = s_G S" by (rule ckeepsD(1) [OF k])
  show l: "w_edge X < length (checks_of S' X)" using d(1) by (simp add: in_check_def G)
  have kn: "known S' (se_map (checks_of S X ! w_edge X)) (x_inst X)" "insts S' (se_map (checks_of S X ! w_edge X)) (x_inst X) = ds @ js"
    using ckeeps_known [OF k known_check [OF w(1)]] l d(1) by (simp_all add: G in_check_def)
  have "cell_inst X \<in> set js" using iter_inst [OF d(2)] by (cases js) (simp_all add: cell_inst_def)
  then show "decided S' (x_inst X) (checks_of S' X ! w_edge X) True" using kn e by (auto simp: decided_def G cell_idx_def)
qed

lemma x_failed_ok:
  assumes x: "xs c = X # fs" and b: "frame_base S r X fs" and c: "is_cost cost"
  shows "step_ok r (x_failed root cost c S)"
  unfolding x_failed_def onX_def x list.case
proof (rule step_ok_then)
  fix S1 assume s: "set_cost S (x_x X) cost = Inr S1"
  note g = set_cost_failed [OF b c s]
  show "step_ok r (case fs of [] \<Rightarrow> Inl Fault | X0 # _ \<Rightarrow>
            (case x_where X0 of
               XS_PARAM \<Rightarrow> andThen (set_mcost S1 X0 (m_costf (m_of S1 X0) (fadd (x_costS X0) cost))) (\<lambda>S2.
                 Inr (c\<lparr>xs := fs, pc := Candidate\<rparr>, S2))
             | XS_SHADOW \<Rightarrow> andThen (shadow_failed S1 X0) (\<lambda>S2.
                 Inr (c\<lparr>xs := fs, M_costS := x_costS X0, M_betaS := x_betaS X0, pc := Shadow_penalty (w_edge X0)\<rparr>, S2))
             | XS_DONE \<Rightarrow> Inl (JE_nchain (fst root) (snd root))))"
  proof (cases fs)
    case (Cons X0 gs)
    show ?thesis
    proof (cases "x_where X0")
      case XS_PARAM
      note p = stack_pop [OF g(3) [unfolded Cons]] and w = XS_PARAM
      have f: "frame_ok S1 X0" "waits S1 X0 (x_x X)" "stack_ok S1 r (x_x X0) gs" using p w by simp_all
      have b1: "frame_base S1 r X0 gs" "works S1 X0" using g f by (simp_all add: frame_base_def waits_def)
      have m: "midx (s_G S1) (x_mi X0)" using b1(2) by (simp add: works_def)
      have "params_at S1 X0 (Suc (p_edge X0)) (x_costS X0)" using f(2) w by (simp add: waits_def waits_param_def)
      then have ic: "is_cost (fadd (x_costS X0) cost)" using params_at_cost [OF g(1,2) b1(2)] c by simp
      show ?thesis using base_set_mcost [OF b1 model_cost [OF g(1) m ic]] w
        by (auto simp: Cons m_of_def search_inv_def intro!: step_ok_then)
    next
      case XS_SHADOW
      note p = stack_pop [OF g(3) [unfolded Cons]] and w = XS_SHADOW
      have f: "frame_ok S1 X0" "waits S1 X0 (x_x X)" "stack_ok S1 r (x_x X0) gs" "\<And>F. F \<in> set gs \<Longrightarrow> ahead X0 F" using p w by simp_all
      have b1: "frame_base S1 r X0 gs" "works S1 X0" "waits_check S1 X0 (x_x X)" using g f w by (simp_all add: frame_base_def waits_def)
      have m: "midx (s_G S1) (x_mi X0)" using b1(2) by (simp add: works_def)
      show ?thesis unfolding Cons list.case XS_SHADOW xwhere.case
      proof (rule step_ok_then)
        fix S2 assume s2: "shadow_failed S1 X0 = Inr S2"
        note mk = shadow_failed_marks [OF s2 m]
        note k = marks_keeps [OF mk(1)]
        have "x_x X \<notin> x_x ` set (X0 # butlast gs)" using g(3) w Cons by (cases gs) (auto simp: stack_ok_def)
        then have F: "x_where F = XS_SHADOW \<longrightarrow> cell_idx S1 F \<noteq> cell_idx S1 X0 \<or> cell_inst F \<notin> {cell_inst X0}" if "F \<in> set (butlast gs)" for F
          using other_cells [OF f(3) b1(3) _ that] by blast
        have b2: "frame_base S2 r X0 gs" "works S2 X0" using base_marks [OF b1(1) mk(1) F] b1(2) by simp_all
        have "checks_at S2 X0 (w_edge X0) (x_costS X0)" using b1(3) checks_at_keeps [OF k g(1) b1(2)] by (simp add: waits_check_def)
        moreover have "decided S2 (x_inst X0) (checks_of S2 X0 ! w_edge X0) True" "w_edge X0 < length (checks_of S2 X0)"
          using waiting_decided [OF b1(2,3) k mk(2)] by simp_all
        moreover have "checks_from X0 (Suc (w_edge X0)) gs" using f(4) w by (simp add: checks_from_def ahead_def Suc_le_eq)
        ultimately show "step_ok r (Inr (c\<lparr>xs := X0 # gs, M_costS := x_costS X0, M_betaS := x_betaS X0, pc := Shadow_penalty (w_edge X0)\<rparr>, S2))"
          using b2 by (simp add: search_inv_def busy_def)
      qed
    qed (simp add: Cons)
  qed simp
qed


lemma x_chosen_ok:
  assumes x: "xs c = X # fs" and i: "frame_inv S r costS betaS X fs (X_chosen cost)"
  shows "step_ok r (x_chosen cost c S)"
proof -
  obtain S1 where S1: "set_cost S (x_x X) cost = Inr S1" "chosen S1 r (x_x X) cost fs" using i by auto
  have g: "sgood S1" "clean S1" "is_chained S1 (fst (x_x X)) (snd (x_x X))" "vcost S1 (fst (x_x X)) (snd (x_x X)) = cost" "stack_ok S1 r (x_x X) fs" "ckeeps (snd r) S1"
    using S1(2) by (simp_all add: chosen_def)
  show ?thesis
  proof (cases fs)
    case (Cons X0 gs)
    show ?thesis
    proof (cases "x_where X0")
      case XS_PARAM
      note p = stack_pop [OF g(5) [unfolded Cons]]
      have f: "frame_ok S1 X0" "waits S1 X0 (x_x X)" "stack_ok S1 r (x_x X0) gs" "\<And>F. F \<in> set gs \<Longrightarrow> ahead X0 F" using p XS_PARAM by simp_all
      have b: "busy S1 r X0 gs" "waits_param S1 X0 (x_x X)" using g f XS_PARAM by (simp_all add: busy_def frame_base_def waits_def)
      obtain ds js where d: "in_param S1 X0 (p_edge X0) (p_ssmax X0) ds js" "iter (p_si X0) js" "x_x X = (e_idx (params_of S1 X0 ! p_edge X0), hd js)"
        using b(2) by (auto simp: waits_param_def)
      obtain j js' where js: "js = j # js'" using d(2) by (cases js) simp_all
      have "in_param S1 X0 (p_edge X0) (fmax (p_ssmax X0) cost) (ds @ [j]) js'"
        using d(1) g(3,4) by (auto simp: in_param_def js d(3) max_cost_def)
      moreover have "alone X0 gs" using f(4) XS_PARAM by (auto simp: alone_def ahead_def)
      ultimately show ?thesis using S1(1) b d(2) XS_PARAM
        by (auto simp: x_chosen_def onX_def x Cons search_inv_def waits_param_def js)
    next
      case XS_SHADOW
      note p = stack_pop [OF g(5) [unfolded Cons]]
      have f: "frame_ok S1 X0" "waits S1 X0 (x_x X)" "stack_ok S1 r (x_x X0) gs" "\<And>F. F \<in> set gs \<Longrightarrow> ahead X0 F" using p XS_SHADOW by simp_all
      have b: "busy S1 r X0 gs" "waits_check S1 X0 (x_x X)" using g f XS_SHADOW by (simp_all add: busy_def frame_base_def waits_def)
      have "is_chained S1 (check_var S1 X0 (w_edge X0)) (unat (SI_INST (w_si X0)))"
        using b(2) g(3) iter_inst by (auto simp: waits_check_def check_var_def)
      moreover have "checks_from X0 (Suc (w_edge X0)) gs" using f(4) XS_SHADOW by (simp add: checks_from_def ahead_def Suc_le_eq)
      ultimately show ?thesis using S1(1) b XS_SHADOW
        by (auto simp: x_chosen_def onX_def x Cons search_inv_def waits_check_def)
    next
      case XS_DONE
      then have "x_x X = fst r" using stack_bottom [of S1 r "x_x X" X0 gs] g(5) Cons by simp
      then show ?thesis using S1(1) g XS_DONE by (simp add: x_chosen_def onX_def x Cons search_inv_def)
    qed
  qed (use S1(1) in \<open>simp add: x_chosen_def onX_def x\<close>)
qed

lemma x_bound_ok:
  assumes x: "xs c = X # fs" and i: "frame_inv S r (M_costS c) betaS X fs X_bound"
  shows "step_ok r (x_bound c S)"
proof -
  have b: "frame_base S r X fs" "works S X" "sgood S" "\<not> f32_nan (M_costS c)" using i by (simp_all add: busy_def frame_base_def)
  have m: "midx (s_G S) (x_mi X)" "fle (m_k (mod_of S X)) (x_mbeta X)" "m_k (mod_of S X) \<noteq> INFINITY" using b(2) by (simp_all add: works_def)
  define cost where "cost = m_costf (m_of S X) (M_costS c)"
  have "fle cost (x_mbeta X) \<or> is_cost cost \<and> m_k (mod_of S X) \<le> cost"
  proof (cases "is_cost (M_costS c)")
    case True
    then show ?thesis using model_cost [OF b(3) m(1)] by (simp add: cost_def m_of_def)
  next
    case False
    then have "f32_neg (M_costS c)" using not_nan_cases [OF b(4)] by simp
    moreover have "cost_par (m_k (mod_of S X)) (m_c (mod_of S X))" using b(3) m(1) by (simp add: sgood_def graph_computed_def)
    ultimately have "fle cost (m_k (mod_of S X))" using costf_neg_le b(4) m(3) by (simp add: cost_def m_of_def m_costf_def)
    then show ?thesis using fle_trans m(2) by blast
  qed
  then show ?thesis unfolding x_bound_def onX_def x list.case Let_def cost_def [symmetric]
    using base_set_mcost [OF b(1,2)] by (auto simp: search_inv_def x intro!: step_ok_then)
qed

section \<open>Starting a variable\<close>

lemma mark_marked: "sp_cost sp = SP_MARK \<Longrightarrow> SP_MARKED sp"
  by (simp add: SP_MARKED_def SP_MARK_def flt_def f32_key_def f32_defs)

lemma var_inst_lt:
  assumes "sgood S" "vidx (s_G S) xi" "sp_at S xi i = Inr sp"
  shows "i < 65536"
proof -
  obtain sps where sps: "s_xstate S xi = XSsp sps" "i < length sps"
    using assms(3) by (auto simp: sp_at_def ssp_get_def checked_def split: xslot.splits if_splits)
  have "slot_ok S xi" using assms(1) solver_okD(3) by (simp add: sgood_def)
  then have "shape_of S (int (v_group (gvar (s_G S) xi))) = Some (length sps)" using assms(2) sps(1) by (simp add: slot_ok_def Let_def)
  then show ?thesis using shape_lt sps(2) by fastforce
qed

lemma candidates_ok:
  assumes "sgood S" "i < 65536" "\<forall>e \<in> set (v_models (gvar (s_G S) xi)). known S (e_map e) i" "x_x X = (xi, i)"
  shows "candidates S i n es = Inr cs \<Longrightarrow> es = drop n (v_models (gvar (s_G S) xi)) \<Longrightarrow> list_all (cand_ok S X) cs"
proof (induction es arbitrary: n cs)
  case (Cons e es)
  from Cons.prems(1) obtain osi cs' where c: "mapE_ssiter S (e_map e) i = Inr osi" "candidates S i (Suc n) es = Inr cs'"
    "cs = (case osi of None \<Rightarrow> cs' | Some it \<Rightarrow> \<lparr>c_si = it, c_i = e_idx e, c_ei = n\<rparr> # cs')" by (auto simp: andThen_Inr)
  have n: "n < length (v_models (gvar (s_G S) xi))" "e = v_models (gvar (s_G S) xi) ! n" "es = drop (Suc n) (v_models (gvar (s_G S) xi))"
    using Cons.prems(2) by (metis drop_all linorder_not_le list.discI, metis Cons_nth_drop_Suc drop_all linorder_not_le list.discI list.inject,
      metis drop_Suc list.sel(3) tl_drop)
  have k: "known S (e_map e) i" using assms(3) n by simp
  have "list_all (cand_ok S X) cs'" by (rule Cons.IH [OF c(2) n(3)])
  moreover have "cand_ok S X \<lparr>c_si = it, c_i = e_idx e, c_ei = n\<rparr>" if "osi = Some it" for it
    using mapE_iter [OF assms(1) k assms(2) c(1)] n k assms(4) that by (simp add: cand_ok_def)
  ultimately show ?case by (cases osi) (simp_all add: c(3))
qed simp

text \<open>Expanding the variable leaves the stack alone and makes its maps known.\<close>

lemma solve_expand:
  assumes cg: "caller_good E" and ok: "sgood S" "clean S" and sp: "sp_at S xi i = Inr sp" "\<not> chained sp"
    and st: "linked S r x fs" "\<And>F. F \<in> set (butlast fs) \<Longrightarrow> x_x F \<noteq> (xi, i)"
    and run: "(if \<not> sp_has (sp_state sp) SP_EXPANDED then S_vexpandbe E (set_sp S xi i (sp\<lparr>sp_state := SP_EXPANDED\<rparr>)) xi i else Inr S) = Inr S1"
  shows "sgood S1" "clean S1" "linked S1 r x fs" "\<forall>e \<in> set (v_models (gvar (s_G S1) xi)). known S1 (e_map e) i"
    "sp_at S1 xi i = Inr sp' \<Longrightarrow> \<not> chained sp'" "ckeeps S S1"
proof -
  define T where "T = set_sp S xi i (sp\<lparr>sp_state := SP_EXPANDED\<rparr>)"
  have "sgood S1 \<and> clean S1 \<and> linked S1 r x fs \<and> (\<forall>e \<in> set (v_models (gvar (s_G S1) xi)). known S1 (e_map e) i) \<and> (sp_at S1 xi i = Inr sp' \<longrightarrow> \<not> chained sp') \<and> ckeeps S S1"
  proof (cases "sp_has (sp_state sp) SP_EXPANDED")
    case True
    have "clean_sp S xi i sp" using ok(2) sp(1) by (simp add: clean_def)
    then show ?thesis using True run ok st(1) sp by (auto simp: clean_sp_def expanded_def)
  next
    case False
    then have r: "S_vexpandbe E T xi i = Inr S1" using run by (simp add: T_def)
    have okT: "sgood T" using ok(1) by (simp add: T_def)
    have n: "sgood S1" "near T S1" using nr.presD [OF pres_vexpandbe [OF cg] okT r] by auto
    have G: "s_G S1 = s_G S" "s_G T = s_G S" using n(2) by (simp_all add: near_def T_def)
    have kn: "\<forall>e \<in> set (v_models (gvar (s_G S) xi)). known S1 (e_map e) i" using vexpandbe_known [OF cg okT r] by (simp add: G)
    note c = clean_expanded [OF ok sp n(2) [unfolded T_def] kn]
    have "linked T r x fs" using linked_holds [OF neutral_keeps [OF set_sp_neutral [OF sp]] ok(1) st(1)] holds_set_sp [OF sp(1) st(2)] by (simp add: T_def)
    then have l: "linked S1 r x fs" using linked_holds [OF near_keeps [OF n(2)] okT] holds_near [OF n(2) okT] by simp
    have "\<not> is_chained T xi i" by (simp add: T_def is_chained_def sp_at_set [OF sp(1)])
    then have "\<not> is_chained S1 xi i" using chained_near(1) [OF n(2)] by simp
    then show ?thesis using n(1) c l kn by (simp add: G is_chained_def)
  qed
  then show "sgood S1" "clean S1" "linked S1 r x fs" "\<forall>e \<in> set (v_models (gvar (s_G S1) xi)). known S1 (e_map e) i"
    "sp_at S1 xi i = Inr sp' \<Longrightarrow> \<not> chained sp'" "ckeeps S S1" by blast+
qed

lemma x_solve_ok:
  assumes cg: "caller_good E" and x: "xs c = X # fs" and i: "frame_inv S r (M_costS c) (M_betaS c) X fs (X_solve xi inst beta)"
  shows "step_ok r (x_solve E xi inst beta c S)"
proof -
  have ok: "sgood S" "clean S" "ckeeps (snd r) S" using i by simp_all
  define X0 where "X0 = X\<lparr>x_costS := M_costS c, x_betaS := M_betaS c\<rparr>"
  have "search_inv r (c', S')" if run: "x_solve E xi inst beta c S = Inr (c', S')" for c' S'
  proof -
    obtain sp S1 sp1 where a: "sp_at S xi inst = Inr sp" "\<not> SP_MARKED sp"
      "(if \<not> sp_has (sp_state sp) SP_EXPANDED then S_vexpandbe E (set_sp S xi inst (sp\<lparr>sp_state := SP_EXPANDED\<rparr>)) xi inst else Inr S) = Inr S1"
      "sp_at S1 xi inst = Inr sp1" and S': "S' = set_sp S1 xi inst (sp1\<lparr>sp_cost := SP_MARK\<rparr>)"
      and vi: "vidx (s_G S') xi" "\<not> (x_cands X0 + length (x_cand X0)) + length (v_models (gvar (s_G S') xi)) \<ge> MAX_CANDSTK"
      and cs: "\<exists>cs. candidates S' inst 0 (v_models (gvar (s_G S') xi)) = Inr cs \<and>
         c' = c\<lparr>xs := frame0\<lparr>x_x := (xi, inst), x_beta := beta, x_cands := x_cands X0 + length (x_cand X0), x_cand := cs\<rparr> # X0 # fs,
                pc := (if cs \<noteq> [] then Candidate else X_failed INFINITY)\<rparr>"
      using run unfolding x_solve_def onX_def x list.case Let_def X0_def [symmetric] var_at_def checked_def
      by (auto simp: andThen_Inr split: if_splits)
    obtain cs where cs: "candidates S' inst 0 (v_models (gvar (s_G S') xi)) = Inr cs"
      "c' = c\<lparr>xs := frame0\<lparr>x_x := (xi, inst), x_beta := beta, x_cands := x_cands X0 + length (x_cand X0), x_cand := cs\<rparr> # X0 # fs,
                pc := (if cs \<noteq> [] then Candidate else X_failed INFINITY)\<rparr>" using cs by blast
    have l: "\<not> chained sp" "linked S r (xi, inst) (X0 # fs)" "sorted_wrt ahead (X # fs)" "distinct (map x_x (butlast (X # fs)))"
      using i a(1,2) by (simp_all add: X0_def)
    have ne: "x_x F \<noteq> (xi, inst)" if "F \<in> set (butlast (X0 # fs))" for F
      using linked_waits [OF l(2) that] frame_marked [of S F] a(1,2) mark_marked by (auto simp: is_marked_def)
    note e = solve_expand [OF cg ok(1,2) a(1) l(1,2) ne a(3)]
    have n1: "\<not> chained sp1" using e(5) a(4) by blast
    have k: "ckeeps S1 S'" using neutral_keeps [OF set_sp_neutral [OF a(4) n1]] by (simp add: S')
    have c2: "clean S'" "sgood S'" using clean_set_cost [OF e(1,2) a(4) n1] e(1) by (simp_all add: S')
    have l2: "linked S' r (xi, inst) (X0 # fs)" using linked_holds [OF k e(1,3)] holds_set_sp [OF a(4) ne] by (simp add: S')
    have kn: "\<forall>e \<in> set (v_models (gvar (s_G S') xi)). known S' (e_map e) inst" using e(4) by (simp add: S')
    have sp': "sp_at S' xi inst = Inr (sp1\<lparr>sp_cost := SP_MARK\<rparr>)" by (simp add: S' sp_at_set [OF a(4)])
    define Y where "Y = frame0\<lparr>x_x := (xi, inst), x_beta := beta, x_cands := x_cands X0 + length (x_cand X0), x_cand := cs\<rparr>"
    have "list_all (cand_ok S' Y) cs" using candidates_ok [OF c2(2) var_inst_lt [OF c2(2) vi(1) sp'] kn _ cs(1), of Y] by (simp add: Y_def)
    then have "frame_ok S' Y" using vi kn sp' n1 by (simp add: frame_ok_def Y_def MAX_CANDSTK_def)
    moreover have "stack_ok S' r (x_x Y) (X0 # fs)"
    proof -
      have "sorted_wrt ahead (X0 # fs)" using l(3) by (simp add: X0_def ahead_def rival_def)
      moreover have "map x_x (butlast (X0 # fs)) = map x_x (butlast (X # fs))" by (cases fs) (simp_all add: X0_def)
      moreover have "(xi, inst) \<notin> set (map x_x (butlast (X0 # fs)))" using ne by (metis (no_types, lifting) imageE list.set_map)
      ultimately show ?thesis using l2 l(4) by (simp add: stack_ok_def Y_def)
    qed
    moreover have "ckeeps (snd r) S'" using ckeeps_trans [OF ckeeps_trans [OF ok(3) e(6)] k] .
    ultimately show ?thesis using c2 by (simp add: cs(2) search_inv_def Y_def [symmetric] frame_base_def)
  qed
  then show ?thesis by (auto simp: step_ok_def)
qed


section \<open>Choosing a candidate\<close>

definition cand_inst :: "solver \<Rightarrow> xstate \<Rightarrow> xcand \<Rightarrow> nat \<Rightarrow> bool" where
  "cand_inst S X cand i \<longleftrightarrow> cand \<in> set (x_cand X) \<and> i \<in> set (insts S (e_map (models_of S X ! c_ei cand)) (snd (x_x X)))"

definition scan_ok :: "solver \<Rightarrow> xstate \<Rightarrow> cscan \<Rightarrow> bool" where
  "scan_ok S X k \<longleftrightarrow> is_cost (k_cost k) \<and>
     (k_beta k = x_beta X \<and> (\<not> f32_nan (x_beta X) \<or> k_cand k = None) \<or> is_cost (k_beta k) \<and> k_cost k \<le> k_beta k) \<and>
     (\<forall>cand i. k_cand k = Some (cand, i) \<longrightarrow> cand_inst S X cand i \<and> k_cost k < INFINITY \<and> (\<exists>sp. msp_at S (c_i cand) i = Inr sp \<and> sp_cost sp = k_cost k))"

lemma flt_not_nan: "flt a b \<Longrightarrow> \<not> f32_nan a" by (simp add: flt_def)

lemma scan_one_ok:
  assumes "scan_ok S X k" "msp_at S (c_i cand) i = Inr sp" "is_cost (sp_cost sp)" "cand_inst S X cand i"
  shows "scan_ok S X (scan_one cand i (sp_cost sp) k)"
proof -
  have kc: "is_cost (k_cost k)" "k_cost k \<le> INFINITY" using assms(1) by (simp_all add: scan_ok_def is_cost_def)
  define c where "c = sp_cost sp"
  have mn: "fmin (k_cost k) c = min (k_cost k) c" "fmax (k_cost k) c = max (k_cost k) c" "flt c (k_cost k) \<longleftrightarrow> c < k_cost k"
    using flt_cost [OF kc(1)] flt_cost [OF _ kc(1)] assms(3) by (auto simp: fmin_def fmax_def c_def min_def max_def)
  have cc: "is_cost (min (k_cost k) c)" "is_cost (max (k_cost k) c)" using kc(1) assms(3) by (simp_all add: c_def min_def max_def)
  let ?k = "scan_one cand i c k"
  have b: "k_beta ?k = x_beta X \<and> (\<not> f32_nan (x_beta X) \<or> k_cand ?k = None) \<or> is_cost (k_beta ?k) \<and> k_cost ?k \<le> k_beta ?k"
  proof (cases "flt (k_beta k) (max (k_cost k) c)")
    case True
    then have "k_beta ?k = k_beta k" "\<not> f32_nan (k_beta k)" using flt_not_nan by (simp_all add: scan_one_def mn fmin_def)
    then show ?thesis using assms(1) by (auto simp: scan_ok_def scan_one_def mn min_le_iff_disj)
  next
    case False
    then have "k_beta ?k = max (k_cost k) c" by (simp add: scan_one_def mn fmin_def)
    then show ?thesis using cc by (auto simp: scan_one_def mn)
  qed
  have s: "k_cost ?k < INFINITY \<and> cand_inst S X ca ia \<and> (\<exists>sp. msp_at S (c_i ca) ia = Inr sp \<and> sp_cost sp = k_cost ?k)" if "k_cand ?k = Some (ca, ia)" for ca ia
  proof (cases "c < k_cost k")
    case True
    then have "c < INFINITY" using kc(2) by (rule order.strict_trans2)
    moreover have "k_cost ?k = c" "k_cand ?k = Some (cand, i)" using True by (auto simp: scan_one_def mn min_def)
    ultimately show ?thesis using that assms(2,4) by (auto simp: c_def)
  next
    case False
    then have "k_cost ?k = k_cost k" "k_cand ?k = k_cand k" by (auto simp: scan_one_def mn min_def)
    moreover from this have "k_cand k = Some (ca, ia)" using that by simp
    ultimately show ?thesis using assms(1) by (auto simp: scan_ok_def)
  qed
  have "is_cost (k_cost ?k)" using cc(1) by (simp add: scan_one_def mn)
  then show ?thesis using b s unfolding scan_ok_def c_def by blast
qed

lemma cand_iter_ok:
  assumes cl: "clean S"
  shows "scan_ok S X k \<Longrightarrow> iter it js \<Longrightarrow> \<forall>j \<in> set js. cand_inst S X cand j \<Longrightarrow> cand_iter fuel S cand it k = Inr k' \<Longrightarrow> scan_ok S X k'"
proof (induction fuel arbitrary: it js k)
  case (Suc fuel)
  obtain j js' where js: "js = j # js'" "unat (SI_INST it) = j" using Suc.prems(2) by (cases js) auto
  obtain sp nx where run: "msp_at S (c_i cand) j = Inr sp" "S_next S it = Inr nx"
    "(case nx of None \<Rightarrow> Inr (scan_one cand j (sp_cost sp) k) | Some it1 \<Rightarrow> cand_iter fuel S cand it1 (scan_one cand j (sp_cost sp) k)) = Inr k'"
    using Suc.prems(4) by (auto simp: andThen_Inr js(2) Let_def)
  have "is_cost (sp_cost sp)" using cl run(1) by (simp add: clean_def clean_msp_def)
  then have 1: "scan_ok S X (scan_one cand j (sp_cost sp) k)" using scan_one_ok [OF Suc.prems(1) run(1)] Suc.prems(3) js(1) by simp
  show ?case using iter_next [of it j js' S] Suc.prems(2,3) run(2,3) 1 Suc.IH [OF 1] by (auto simp: js(1))
qed simp

lemma cand_scan_ok:
  assumes cl: "clean S" and f: "frame_ok S X"
  shows "scan_ok S X k \<Longrightarrow> set cs \<subseteq> set (x_cand X) \<Longrightarrow> cand_scan fuel S cs k = Inr k' \<Longrightarrow> scan_ok S X k'"
proof (induction cs arbitrary: k)
  case (Cons c cs)
  obtain k1 where k1: "cand_iter fuel S c (c_si c) k = Inr k1" "cand_scan fuel S cs k1 = Inr k'" using Cons.prems(3) by (auto simp: andThen_Inr)
  have "cand_ok S X c" using f Cons.prems(2) by (auto simp: frame_ok_def list_all_iff)
  then have "scan_ok S X k1" using cand_iter_ok [OF cl Cons.prems(1) _ _ k1(1)] Cons.prems(2) by (auto simp: cand_ok_def cand_inst_def)
  then show ?case using Cons.IH [OF _ _ k1(2)] Cons.prems(2) by simp
qed simp

text \<open>The bound of the chosen candidate is not below its cost.\<close>

lemma scan_bound:
  assumes "scan_ok S X k" "k_cand k = Some (cand, i)" "\<not> flt (x_beta X) (k_cost k)"
  shows "fle (k_cost k) (k_beta k)"
proof -
  have c: "is_cost (k_cost k)" using assms(1) by (simp add: scan_ok_def)
  consider "k_beta k = x_beta X" "\<not> f32_nan (x_beta X)" | "is_cost (k_beta k)" "k_cost k \<le> k_beta k"
    using assms(1,2) by (auto simp: scan_ok_def)
  then show ?thesis
  proof cases
    case 1
    then show ?thesis using assms(3) cost_simps(3) [OF c] by (auto simp: flt_def fle_def)
  next
    case 2
    then show ?thesis by (simp add: fle_cost [OF c])
  qed
qed


lemma set_sp_twice [simp]: "set_sp (set_sp S xi i v) xi i w = set_sp S xi i w"
  by (auto simp: set_sp_def split: xslot.split)

lemma ssp_fields: "(sp :: ssp)\<lparr>sp_state := a, sp_cost := b\<rparr> = \<lparr>sp_cost = b, sp_state = a\<rparr>"
  by (cases sp) simp

lemma choose_var:
  assumes b: "frame_base S r X fs" and e: "ei < length (models_of S X)" "e = models_of S X ! ei" "i \<in> set (insts S (e_map e) (snd (x_x X)))" "i < 65536"
    and m: "is_mchained S (e_idx e) i" "chain_mcost S (e_idx e) i = cost" "is_cost cost"
  shows "chosen (set_sp S (fst (x_x X)) (snd (x_x X)) \<lparr>sp_cost = cost, sp_state = SP_CHAIN_V ei i\<rparr>) r (x_x X) cost fs"
proof -
  let ?xi = "fst (x_x X)" and ?j = "snd (x_x X)"
  define v where "v = \<lparr>sp_cost = cost, sp_state = SP_CHAIN_V ei i\<rparr>"
  define T where "T = set_sp S ?xi ?j v"
  have g: "sgood S" "clean S" "frame_ok S X" "stack_ok S r (x_x X) fs" using b by (simp_all add: frame_base_def)
  obtain sp where sp: "sp_at S ?xi ?j = Inr sp" "\<not> chained sp" using g(3) by (auto simp: frame_ok_def)
  have f: "vidx (s_G S) ?xi" "length (models_of S X) < 256" "\<forall>e \<in> set (models_of S X). known S (e_map e) ?j" using g(3) by (simp_all add: frame_ok_def)
  have w: "chained v" "\<not> valued v" "SP_CHAIN_EI v = ei" "SP_CHAIN_INSTANCE v = i" "sp_cost v = cost"
    using chain_word [of ei i v] e(1,4) f(2) by (simp_all add: v_def)
  have k: "ckeeps S T" using neutral_keeps [OF set_sp_neutral [OF sp]] by (simp add: T_def)
  have spT: "sp_at T ?xi ?j = Inr v" by (simp add: T_def sp_at_set [OF sp(1)])
  have ms: "midx (s_G S) (e_idx e)" "solved T (e_idx e) i" using clean_mchained [OF g(2) m(1)] solved_keeps [OF k g(1)] by simp_all
  have "solved T ?xi ?j"
    by (rule solved.var [OF _ spT w(1), of e]) (use e f w ms m(2) in \<open>simp_all add: T_def\<close>)
  then have "clean_sp T ?xi ?j v" using f w m(3) by (simp add: clean_sp_def T_def)
  then have c: "clean T" using clean_set_sp [OF g(1,2) sp] by (simp add: T_def)
  have "x_x F \<noteq> x_x X" if "F \<in> set (butlast fs)" for F using g(4) imageI [OF that, of x_x] by (auto simp: stack_ok_def)
  then have st: "stack_ok T r (x_x X) fs" using stack_step [OF k g(1,4)] holds_set_sp [OF sp(1)] by (simp add: T_def)
  show ?thesis using g(1) c st spT w ckeeps_trans [OF _ k] b unfolding frame_base_def v_def [symmetric] T_def [symmetric]
    by (auto simp: chosen_def is_chained_def vcost_def T_def)
qed

lemma cand_expand:
  assumes cg: "caller_good E" and b: "frame_base S r X fs" and sp: "msp_at S mi i = Inr sp" "\<not> chained sp"
    and run: "(if \<not> sp_has (sp_state sp) SP_EXPANDED then S_mexpandbe E (set_msp S mi i (sp\<lparr>sp_state := SP_EXPANDED\<rparr>)) mi i else Inr S) = Inr S1"
  shows "frame_base S1 r X fs" "maps_known S1 mi i" "\<not> is_mchained S1 mi i" "ckeeps S S1"
proof -
  have g: "sgood S" "clean S" "frame_ok S X" "stack_ok S r (x_x X) fs" using b by (simp_all add: frame_base_def)
  define T where "T = set_msp S mi i (sp\<lparr>sp_state := SP_EXPANDED\<rparr>)"
  have "frame_base S1 r X fs \<and> maps_known S1 mi i \<and> \<not> is_mchained S1 mi i \<and> ckeeps S S1"
  proof (cases "sp_has (sp_state sp) SP_EXPANDED")
    case True
    have "clean_msp S mi i sp" using g(2) sp(1) by (simp add: clean_def)
    then show ?thesis using True run b sp by (auto simp: clean_msp_def expanded_def is_mchained_def)
  next
    case False
    then have r: "S_mexpandbe E T mi i = Inr S1" using run by (simp add: T_def)
    have okT: "sgood T" using g(1) by (simp add: T_def)
    note n = mexpandbe_spec [OF cg okT r]
    have G: "s_G S1 = s_G S" "s_G T = s_G S" using n(2) by (simp_all add: near_def T_def)
    have kn: "maps_known S1 mi i" using n(3,4) by (simp add: maps_known_def comp_params_def G)
    note c = clean_mexpanded [OF g(1,2) sp n(2) [unfolded T_def] kn]
    have kT: "ckeeps S T" using set_msp_keeps [OF sp] by (simp add: T_def)
    have hT: "holds S T F" for F using holds_set_msp [OF sp(1)] by (simp add: T_def)
    have kS: "ckeeps T S1" by (rule near_keeps [OF n(2)])
    have hS: "holds T S1 F" for F by (rule holds_near [OF n(2) okT])
    have "frame_ok S1 X" using frame_ok_holds [OF kS hS frame_ok_holds [OF kT hT g(3)]] .
    moreover have "stack_ok S1 r (x_x X) fs" using stack_step [OF kS okT stack_step [OF kT g(1,4) hT] hS] .
    moreover have "\<not> is_mchained S1 mi i" using chained_near(2) [OF n(2)] by (simp add: T_def is_mchained_def msp_at_set [OF sp(1)])
    ultimately show ?thesis using n(1) c kn b ckeeps_trans [OF _ c(2)] by (simp add: frame_base_def)
  qed
  then show "frame_base S1 r X fs" "maps_known S1 mi i" "\<not> is_mchained S1 mi i" "ckeeps S S1" by blast+
qed

lemma candidate_ok:
  assumes cg: "caller_good E" and x: "xs c = X # fs" and b: "frame_base S r X fs"
  shows "step_ok r (candidate E fuel c S)"
  unfolding candidate_def onX_def x list.case
proof (rule step_ok_then)
  fix k assume run: "cand_scan fuel S (x_cand X) \<lparr>k_cost = INFINITY, k_beta = x_beta X, k_cand = None\<rparr> = Inr k"
  have g: "sgood S" "clean S" "frame_ok S X" "stack_ok S r (x_x X) fs" using b by (simp_all add: frame_base_def)
  have ok: "scan_ok S X k" by (rule cand_scan_ok [OF g(2,3) _ _ run]) (simp_all add: scan_ok_def)
  have kc: "is_cost (k_cost k)" using ok by (simp add: scan_ok_def)
  show "step_ok r (if flt (x_beta X) (k_cost k) then Inr (c\<lparr>pc := X_failed (k_cost k)\<rparr>, S)
       else (case k_cand k of
               None \<Rightarrow> Inl Fault
             | Some (cand, inst) \<Rightarrow> let mi = c_i cand in
                 andThen (model_at S mi) (\<lambda>m. andThen (msp_at S mi inst) (\<lambda>sp.
                   let X1 = X\<lparr>x_mi := mi, x_ei := c_ei cand, x_inst := inst, x_mbeta := k_beta k\<rparr>;
                       c1 = c\<lparr>xs := X1 # fs, M_betaS := m_costf_invS m (k_beta k), M_costS := 0\<rparr> in
                   if sp_has (sp_state sp) SP_CHAIN
                   then andThen (sp_at S (fst (x_x X)) (snd (x_x X))) (\<lambda>xsp.
                     Inr (c1\<lparr>pc := X_chosen (k_cost k)\<rparr>,
                       set_sp S (fst (x_x X)) (snd (x_x X)) (xsp\<lparr>sp_state := SP_CHAIN_V (c_ei cand) inst\<rparr>)))
                   else andThen (if \<not> sp_has (sp_state sp) SP_EXPANDED
                                 then S_mexpandbe E (set_msp S mi inst (sp\<lparr>sp_state := SP_EXPANDED\<rparr>)) mi inst else Inr S) (\<lambda>S1.
                     Inr (c1\<lparr>pc := Shadow 0\<rparr>, S1))))))"
  proof (cases "flt (x_beta X) (k_cost k) \<or> k_cand k = None")
    case True
    then show ?thesis using b kc by (auto simp: search_inv_def x)
  next
    case False
    then obtain cand i where ca: "k_cand k = Some (cand, i)" "\<not> flt (x_beta X) (k_cost k)" by auto
    then obtain sp where ci: "cand_inst S X cand i" "k_cost k < INFINITY" "msp_at S (c_i cand) i = Inr sp" "sp_cost sp = k_cost k"
      using ok by (auto simp: scan_ok_def)
    have co: "c_ei cand < length (models_of S X)" "c_i cand = e_idx (models_of S X ! c_ei cand)" "i \<in> set (insts S (e_map (models_of S X ! c_ei cand)) (snd (x_x X)))"
      using ci(1) g(3) by (auto simp: cand_inst_def frame_ok_def list_all_iff cand_ok_def)
    have "clean_msp S (c_i cand) i sp" using g(2) ci(3) by (simp add: clean_def)
    then have mk: "m_k (gmodel (s_G S) (c_i cand)) \<le> k_cost k" using ci(4) by (simp add: clean_msp_def)
    then have ik: "is_cost (m_k (gmodel (s_G S) (c_i cand)))" "m_k (gmodel (s_G S) (c_i cand)) \<noteq> INFINITY" using ci(2) by (auto simp: is_cost_def)
    have fl: "fle (m_k (gmodel (s_G S) (c_i cand))) (k_beta k)" using fle_trans [OF _ scan_bound [OF ok ca]] fle_cost [OF ik(1) kc] mk by simp
    define X1 where "X1 = X\<lparr>x_mi := c_i cand, x_ei := c_ei cand, x_inst := i, x_mbeta := k_beta k\<rparr>"
    have b1: "frame_base T r X1 fs = frame_base T r X fs" for T by (rule base_same) (simp add: same_var_def X1_def)
    show ?thesis unfolding ca option.case prod.case Let_def if_not_P [OF ca(2)] ci(3) X1_def [symmetric]
    proof (rule step_ok_then)
      fix m assume m: "model_at S (c_i cand) = Inr m"
      then have mi: "midx (s_G S) (c_i cand)" by (auto simp: model_at_def checked_def split: if_splits)
      have lt: "i < 65536" by (rule mchained_lt [OF g(1) ci(3) mi])
      show "step_ok r (andThen (Inr sp) (\<lambda>sp. if sp_has (sp_state sp) SP_CHAIN
                   then andThen (sp_at S (fst (x_x X)) (snd (x_x X))) (\<lambda>xsp.
                     Inr (c\<lparr>xs := X1 # fs, M_betaS := m_costf_invS m (k_beta k), M_costS := 0\<rparr>\<lparr>pc := X_chosen (k_cost k)\<rparr>,
                       set_sp S (fst (x_x X)) (snd (x_x X)) (xsp\<lparr>sp_state := SP_CHAIN_V (c_ei cand) i\<rparr>)))
                   else andThen (if \<not> sp_has (sp_state sp) SP_EXPANDED
                                 then S_mexpandbe E (set_msp S (c_i cand) i (sp\<lparr>sp_state := SP_EXPANDED\<rparr>)) (c_i cand) i else Inr S) (\<lambda>S1.
                     Inr (c\<lparr>xs := X1 # fs, M_betaS := m_costf_invS m (k_beta k), M_costS := 0\<rparr>\<lparr>pc := Shadow 0\<rparr>, S1))))"
      proof (cases "chained sp")
        case True
        then have ch: "chosen (set_sp S (fst (x_x X)) (snd (x_x X)) \<lparr>sp_cost = k_cost k, sp_state = SP_CHAIN_V (c_ei cand) i\<rparr>) r (x_x X) (k_cost k) fs"
          using ci co kc by (intro choose_var [OF b co(1) refl co(3) lt]) (simp_all add: is_mchained_def chain_mcost_def)
        obtain xsp where xsp: "sp_at S (fst (x_x X)) (snd (x_x X)) = Inr xsp" using g(3) by (auto simp: frame_ok_def)
        show ?thesis using True ch xsp
          by (simp add: chained_def search_inv_def set_cost_def sp_at_set [OF xsp] X1_def ssp_fields)
      next
        case False
        show ?thesis unfolding andThen_simps if_not_P [OF False [unfolded chained_def]]
        proof (rule step_ok_then)
          fix S1 assume run: "(if \<not> sp_has (sp_state sp) SP_EXPANDED
            then S_mexpandbe E (set_msp S (c_i cand) i (sp\<lparr>sp_state := SP_EXPANDED\<rparr>)) (c_i cand) i else Inr S) = Inr S1"
          note e = cand_expand [OF cg b ci(3) False run]
          have G: "s_G S1 = s_G S" by (rule ckeepsD(1) [OF e(4)])
          have "known S (e_map (models_of S X ! c_ei cand)) (snd (x_x X))" using g(3) co(1) by (simp add: frame_ok_def)
          then have "works S1 X1" using mi lt fl ik(2) e(2,3) co ckeeps_known [OF e(4)] by (simp add: works_def X1_def G)
          moreover have "checks_at S1 X1 0 0" by (simp add: checks_at_def penalties_def)
          ultimately show "step_ok r (Inr (c\<lparr>xs := X1 # fs, M_betaS := m_costf_invS m (k_beta k), M_costS := 0\<rparr>\<lparr>pc := Shadow 0\<rparr>, S1))"
            using e(1) by (simp add: search_inv_def busy_def b1 checks_from_def)
        qed
      qed
    qed
  qed
qed


section \<open>Parameters\<close>

lemma works_fields [simp]:
  "works S (X\<lparr>x_where := a\<rparr>) = works S X" "works S (X\<lparr>w_edge := k\<rparr>) = works S X" "works S (X\<lparr>w_si := it\<rparr>) = works S X"
  "works S (X\<lparr>p_edge := k\<rparr>) = works S X" "works S (X\<lparr>p_si := it\<rparr>) = works S X" "works S (X\<lparr>p_ssmax := f\<rparr>) = works S X"
  "works S (X\<lparr>x_costS := f\<rparr>) = works S X" "works S (X\<lparr>x_betaS := f\<rparr>) = works S X"
  by (simp_all add: works_def)

lemma base_fields [simp]:
  "frame_base S r (X\<lparr>x_where := a\<rparr>) fs = frame_base S r X fs" "frame_base S r (X\<lparr>w_edge := k\<rparr>) fs = frame_base S r X fs" "frame_base S r (X\<lparr>w_si := it\<rparr>) fs = frame_base S r X fs"
  "frame_base S r (X\<lparr>p_edge := k\<rparr>) fs = frame_base S r X fs" "frame_base S r (X\<lparr>p_si := it\<rparr>) fs = frame_base S r X fs" "frame_base S r (X\<lparr>p_ssmax := f\<rparr>) fs = frame_base S r X fs"
  "frame_base S r (X\<lparr>x_costS := f\<rparr>) fs = frame_base S r X fs" "frame_base S r (X\<lparr>x_betaS := f\<rparr>) fs = frame_base S r X fs"
  by (auto intro!: base_same simp: same_var_def)

lemma rival_fields [simp]:
  "rival (X\<lparr>x_where := a\<rparr>) F = rival X F" "rival (X\<lparr>w_edge := k\<rparr>) F = rival X F" "rival (X\<lparr>w_si := it\<rparr>) F = rival X F"
  "rival (X\<lparr>p_edge := k\<rparr>) F = rival X F" "rival (X\<lparr>p_si := it\<rparr>) F = rival X F" "rival (X\<lparr>p_ssmax := f\<rparr>) F = rival X F"
  "rival (X\<lparr>x_costS := f\<rparr>) F = rival X F" "rival (X\<lparr>x_betaS := f\<rparr>) F = rival X F"
  by (simp_all add: rival_def)

lemma checks_at_fields [simp]:
  "checks_at S (X\<lparr>x_where := a\<rparr>) n acc = checks_at S X n acc" "checks_at S (X\<lparr>w_edge := k\<rparr>) n acc = checks_at S X n acc" "checks_at S (X\<lparr>w_si := it\<rparr>) n acc = checks_at S X n acc"
  "checks_at S (X\<lparr>p_edge := k\<rparr>) n acc = checks_at S X n acc" "checks_at S (X\<lparr>p_si := it\<rparr>) n acc = checks_at S X n acc" "checks_at S (X\<lparr>p_ssmax := f\<rparr>) n acc = checks_at S X n acc"
  "checks_at S (X\<lparr>x_costS := f\<rparr>) n acc = checks_at S X n acc" "checks_at S (X\<lparr>x_betaS := f\<rparr>) n acc = checks_at S X n acc"
  by (simp_all add: checks_at_def)

lemma params_at_fields [simp]:
  "params_at S (X\<lparr>x_where := a\<rparr>) n acc = params_at S X n acc" "params_at S (X\<lparr>w_edge := k\<rparr>) n acc = params_at S X n acc" "params_at S (X\<lparr>w_si := it\<rparr>) n acc = params_at S X n acc"
  "params_at S (X\<lparr>p_edge := k\<rparr>) n acc = params_at S X n acc" "params_at S (X\<lparr>p_si := it\<rparr>) n acc = params_at S X n acc" "params_at S (X\<lparr>p_ssmax := f\<rparr>) n acc = params_at S X n acc"
  "params_at S (X\<lparr>x_costS := f\<rparr>) n acc = params_at S X n acc" "params_at S (X\<lparr>x_betaS := f\<rparr>) n acc = params_at S X n acc"
  by (simp_all add: params_at_def)

lemma in_check_fields [simp]:
  "in_check S (X\<lparr>x_where := a\<rparr>) n ds js = in_check S X n ds js" "in_check S (X\<lparr>w_edge := k\<rparr>) n ds js = in_check S X n ds js" "in_check S (X\<lparr>w_si := it\<rparr>) n ds js = in_check S X n ds js"
  "in_check S (X\<lparr>p_edge := k\<rparr>) n ds js = in_check S X n ds js" "in_check S (X\<lparr>p_si := it\<rparr>) n ds js = in_check S X n ds js" "in_check S (X\<lparr>p_ssmax := f\<rparr>) n ds js = in_check S X n ds js"
  "in_check S (X\<lparr>x_costS := f\<rparr>) n ds js = in_check S X n ds js" "in_check S (X\<lparr>x_betaS := f\<rparr>) n ds js = in_check S X n ds js"
  by (simp_all add: in_check_def)

lemma in_param_fields [simp]:
  "in_param S (X\<lparr>x_where := a\<rparr>) n mx ds js = in_param S X n mx ds js" "in_param S (X\<lparr>w_edge := k\<rparr>) n mx ds js = in_param S X n mx ds js" "in_param S (X\<lparr>w_si := it\<rparr>) n mx ds js = in_param S X n mx ds js"
  "in_param S (X\<lparr>p_edge := k\<rparr>) n mx ds js = in_param S X n mx ds js" "in_param S (X\<lparr>p_si := it\<rparr>) n mx ds js = in_param S X n mx ds js" "in_param S (X\<lparr>p_ssmax := f\<rparr>) n mx ds js = in_param S X n mx ds js"
  "in_param S (X\<lparr>x_costS := f\<rparr>) n mx ds js = in_param S X n mx ds js" "in_param S (X\<lparr>x_betaS := f\<rparr>) n mx ds js = in_param S X n mx ds js"
  by (simp_all add: in_param_def)

lemma from_fields [simp]:
  "checks_from (X\<lparr>x_where := a\<rparr>) n fs = checks_from X n fs" "checks_from (X\<lparr>w_edge := k\<rparr>) n fs = checks_from X n fs" "checks_from (X\<lparr>w_si := it\<rparr>) n fs = checks_from X n fs"
  "checks_from (X\<lparr>p_edge := k\<rparr>) n fs = checks_from X n fs" "checks_from (X\<lparr>p_si := it\<rparr>) n fs = checks_from X n fs" "checks_from (X\<lparr>p_ssmax := f\<rparr>) n fs = checks_from X n fs"
  "checks_from (X\<lparr>x_costS := f\<rparr>) n fs = checks_from X n fs" "checks_from (X\<lparr>x_betaS := f\<rparr>) n fs = checks_from X n fs"
  by (simp_all add: checks_from_def)

lemma insts_from_fields [simp]:
  "insts_from (X\<lparr>x_where := a\<rparr>) n j fs = insts_from X n j fs" "insts_from (X\<lparr>w_edge := k\<rparr>) n j fs = insts_from X n j fs" "insts_from (X\<lparr>w_si := it\<rparr>) n j fs = insts_from X n j fs"
  "insts_from (X\<lparr>p_edge := k\<rparr>) n j fs = insts_from X n j fs" "insts_from (X\<lparr>p_si := it\<rparr>) n j fs = insts_from X n j fs" "insts_from (X\<lparr>p_ssmax := f\<rparr>) n j fs = insts_from X n j fs"
  "insts_from (X\<lparr>x_costS := f\<rparr>) n j fs = insts_from X n j fs" "insts_from (X\<lparr>x_betaS := f\<rparr>) n j fs = insts_from X n j fs"
  by (simp_all add: insts_from_def)

lemma alone_fields [simp]:
  "alone (X\<lparr>x_where := a\<rparr>) fs = alone X fs" "alone (X\<lparr>w_edge := k\<rparr>) fs = alone X fs" "alone (X\<lparr>w_si := it\<rparr>) fs = alone X fs"
  "alone (X\<lparr>p_edge := k\<rparr>) fs = alone X fs" "alone (X\<lparr>p_si := it\<rparr>) fs = alone X fs" "alone (X\<lparr>p_ssmax := f\<rparr>) fs = alone X fs"
  "alone (X\<lparr>x_costS := f\<rparr>) fs = alone X fs" "alone (X\<lparr>x_betaS := f\<rparr>) fs = alone X fs"
  by (simp_all add: alone_def)

lemma busy_fields [simp]:
  "busy S r (X\<lparr>x_where := a\<rparr>) fs = busy S r X fs" "busy S r (X\<lparr>w_edge := k\<rparr>) fs = busy S r X fs" "busy S r (X\<lparr>w_si := it\<rparr>) fs = busy S r X fs"
  "busy S r (X\<lparr>p_edge := k\<rparr>) fs = busy S r X fs" "busy S r (X\<lparr>p_si := it\<rparr>) fs = busy S r X fs" "busy S r (X\<lparr>p_ssmax := f\<rparr>) fs = busy S r X fs"
  "busy S r (X\<lparr>x_costS := f\<rparr>) fs = busy S r X fs" "busy S r (X\<lparr>x_betaS := f\<rparr>) fs = busy S r X fs"
  by (simp_all add: busy_def)

lemma params_at_step:
  assumes "k < length (params_of S X)" "params_at S X (Suc k) acc"
    "\<forall>j \<in> set (insts S (e_map (params_of S X ! k)) (x_inst X)). is_chained S (e_idx (params_of S X ! k)) j"
  shows "params_at S X k (add_param S (x_inst X) (params_of S X ! k) acc)"
  using assms by (auto simp: params_at_def Cons_nth_drop_Suc [symmetric])

lemma next_param_inv:
  assumes "busy S r X fs" "alone X fs" "x_where X = XS_PARAM" "k \<le> m_cparam (mod_of S X)" "params_at S X k costS"
  shows "frame_inv S r costS betaS X fs (next_param k)"
  using assms by (cases k) (simp_all add: next_param_def)

lemma sel_params_ok:
  assumes x: "xs c = X # fs" and i: "frame_inv S r (M_costS c) betaS X fs Params"
  shows "step_ok r (sel_params c S)"
  unfolding sel_params_def onX_def x list.case
proof (rule step_ok_then)
  fix m assume m: "model_at S (x_mi X) = Inr m"
  have m: "m = mod_of S X" using m by (auto simp: model_at_def checked_def split: if_splits)
  have i: "busy S r X fs" "checks_at S X (length (checks_of S X)) (M_costS c)" "alone X fs" using i by simp_all
  have d: "drop (m_cparam m) (params_of S X) = []" by (simp add: comp_params_def m)
  have p: "params_at S X (m_cparam m) (M_costS c)" using i(2) by (simp add: params_at_def d)
  show "step_ok r (Inr (if m_cparam m \<noteq> 0 then c\<lparr>xs := X\<lparr>x_where := XS_PARAM\<rparr> # fs, pc := Param (m_cparam m - 1)\<rparr> else c\<lparr>pc := Chain_solved\<rparr>, S))"
    using i(1,3) p by (cases "m_cparam m") (simp_all add: search_inv_def x m)
qed

lemma pedge_param:
  assumes "pedge_at S X k = Inr e" "k < m_cparam (mod_of S X)"
  shows "k < length (params_of S X)" "e = params_of S X ! k"
  using assms by (auto simp: pedge_at_def checked_def m_of_def comp_params_def split: if_splits)

lemma param_ok:
  assumes x: "xs c = X # fs" and i: "frame_inv S r (M_costS c) betaS X fs (Param k)"
  shows "step_ok r (param k c S)"
  unfolding param_def onX_def x list.case
proof (rule step_ok_then, rule step_ok_then)
  fix e osi assume e: "pedge_at S X k = Inr e" and o: "mapE_ssiter S (e_map e) (x_inst X) = Inr osi"
  have i: "busy S r X fs" "alone X fs" "x_where X = XS_PARAM" "k < m_cparam (mod_of S X)" "params_at S X (Suc k) (M_costS c)" using i by simp_all
  note k = pedge_param [OF e i(4)]
  have w: "works S X" "sgood S" "x_inst X < 65536" using i(1) by (simp_all add: busy_def frame_base_def works_def)
  have it: "case osi of None \<Rightarrow> insts S (e_map e) (x_inst X) = [] | Some it \<Rightarrow> iter it (insts S (e_map e) (x_inst X))"
    using mapE_iter [OF w(2) known_param [OF w(1)] w(3) o] k by simp
  show "step_ok r (case osi of None \<Rightarrow> Inr (c\<lparr>pc := next_param k\<rparr>, S)
      | Some it \<Rightarrow> Inr (c\<lparr>xs := X\<lparr>p_edge := k\<rparr> # fs, pc := Param_si k it 0\<rparr>, S))"
  proof (cases osi)
    case None
    then have "params_at S X k (M_costS c)" using params_at_step [OF k(1) i(5)] it by (simp add: k(2) [symmetric] add_param_def)
    then show ?thesis using None next_param_inv [OF i(1-3)] i(4) by (simp add: search_inv_def x)
  next
    case (Some it)
    then have "in_param S X k 0 [] (insts S (e_map e) (x_inst X))" using k by (simp add: in_param_def max_cost_def)
    then show ?thesis using Some it i by (auto simp: search_inv_def)
  qed
qed

lemma waiting_solve:
  assumes b: "frame_base S r X fs" and w: "waits S (X\<lparr>x_costS := costS, x_betaS := betaS\<rparr>) (xi, inst)" "\<And>F. F \<in> set fs \<Longrightarrow> ahead X F"
    and sp: "\<And>sp. sp_at S xi inst = Inr sp \<Longrightarrow> \<not> SP_MARKED sp \<Longrightarrow> \<not> chained sp"
  shows "frame_inv S r costS betaS X fs (X_solve xi inst beta)"
proof -
  have g: "sgood S" "clean S" "frame_ok S X" "linked S r (x_x X) fs" "sorted_wrt ahead fs" "distinct (x_x X # map x_x (butlast fs))" "ckeeps (snd r) S"
    using b by (simp_all add: frame_base_def stack_ok_def)
  have f: "frame_ok S (X\<lparr>x_costS := costS, x_betaS := betaS\<rparr>)" using g(3) by (simp add: frame_ok_def cand_ok_def list_all_iff)
  obtain G gs where fs: "fs = G # gs" using linked_last [OF g(4)] by (cases fs) auto
  show ?thesis using g f w sp by (auto simp: fs)
qed


lemma param_si_ok:
  assumes x: "xs c = X # fs" and i: "frame_inv S r (M_costS c) (M_betaS c) X fs (Param_si k it mx)"
  shows "step_ok r (param_si k it mx c S)"
  unfolding param_si_def onX_def x list.case Let_def
proof (rule step_ok_then, rule step_ok_then)
  fix e sp assume e: "pedge_at S X k = Inr e" and sp: "sp_at S (e_idx e) (unat (SI_INST it)) = Inr sp"
  obtain ds js where i: "busy S r X fs" "alone X fs" "x_where X = XS_PARAM" "p_edge X = k" "params_at S X (Suc k) (M_costS c)"
    "in_param S X k mx ds js" "iter it js" using i by auto
  have k: "k < length (params_of S X)" using i(6) by (simp add: in_param_def)
  then have e: "e = params_of S X ! k" using pedge_param(2) [OF e] by (simp add: comp_params_def)
  obtain j js' where js: "js = j # js'" "unat (SI_INST it) = j" using i(7) by (cases js) auto
  have g: "frame_base S r X fs" "sgood S" "clean S" "works S X" using i(1) by (simp_all add: busy_def frame_base_def)
  let ?cost = "fadd (M_costS c) (sp_cost sp)"
  consider "flt (M_betaS c) ?cost" | "\<not> flt (M_betaS c) ?cost" "chained sp" | "\<not> flt (M_betaS c) ?cost" "\<not> chained sp" by blast
  then show "step_ok r (if flt (M_betaS c) ?cost then Inr (c\<lparr>M_costS := ?cost, pc := X_bound\<rparr>, S)
         else if sp_has (sp_state sp) SP_CHAIN then Inr (c\<lparr>pc := Param_next k it (fmax mx (sp_cost sp))\<rparr>, S)
         else Inr (c\<lparr>xs := X\<lparr>p_ssmax := mx, p_si := it\<rparr> # fs, pc := X_solve (e_idx e) (unat (SI_INST it)) (fsub (M_betaS c) (M_costS c))\<rparr>, S))"
  proof cases
    case 1
    moreover have "\<not> f32_nan ?cost"
    proof -
      have c: "is_cost (M_costS c)" by (rule params_at_cost [OF g(2-4) i(5)])
      have "clean_sp S (e_idx e) j sp" using g(3) sp js(2) by (simp add: clean_def)
      then consider "is_cost (sp_cost sp)" | "sp_cost sp = SP_MARK" by (auto simp: clean_sp_def)
      then show ?thesis
      proof cases
        case 1
        then show ?thesis using c cost_simps(3) [OF fadd_cost] by simp
      next
        case 2
        then show ?thesis using cost_simps(3) [OF c] by (intro fadd_not_nan) (simp_all add: SP_MARK_def f32_defs)
      qed
    qed
    ultimately show ?thesis using i(1) by (simp add: search_inv_def x)
  next
    case a: 2
    have "in_param S X k (fmax mx (sp_cost sp)) (ds @ [j]) js'" using i(6) a(2) sp
      by (auto simp: in_param_def e js max_cost_def is_chained_def vcost_def)
    then show ?thesis using a i(1-5,7) by (auto simp: search_inv_def x chained_def js(1))
  next
    case a: 3
    let ?X = "X\<lparr>p_ssmax := mx, p_si := it\<rparr>"
    have "waits S (?X\<lparr>x_costS := M_costS c, x_betaS := M_betaS c\<rparr>) (e_idx e, j)"
      using i(3-5) g(4) exI [of "\<lambda>js. in_param S X k mx ds js \<and> iter it js \<and> j = hd js" js] i(6,7) js(1)
      by (auto simp: waits_def waits_param_def e)
    moreover have "ahead ?X F" if "F \<in> set fs" for F using i(2) that by (simp add: ahead_def alone_def)
    ultimately have "frame_inv S r (M_costS c) (M_betaS c) ?X fs (X_solve (e_idx e) j (fsub (M_betaS c) (M_costS c)))"
      using g(1) a(2) sp js(2) by (intro waiting_solve) auto
    then show ?thesis using a by (simp add: search_inv_def chained_def js(2) del: frame_inv.simps)
  qed
qed

lemma param_next_ok:
  assumes x: "xs c = X # fs" and i: "frame_inv S r (M_costS c) betaS X fs (Param_next k it mx)"
  shows "step_ok r (param_next k it mx c S)"
proof -
  obtain ds j js where i: "busy S r X fs" "alone X fs" "x_where X = XS_PARAM" "p_edge X = k" "params_at S X (Suc k) (M_costS c)"
    "in_param S X k mx (ds @ [j]) js" "iter it (j # js)" using i by auto
  consider "js = []" "S_next S it = Inr None" | it1 where "S_next S it = Inr (Some it1)" "iter it1 js" using iter_next [OF i(7), of S] by blast
  then show ?thesis
  proof cases
    case 1
    have k: "k < length (params_of S X)" using i(6) by (simp add: in_param_def)
    then have "k \<le> m_cparam (mod_of S X)" by (simp add: comp_params_def)
    moreover have "params_at S X k (fadd (M_costS c) mx)"
      using params_at_step [OF k i(5)] i(6) by (simp add: in_param_def 1(1) add_param_def)
    ultimately show ?thesis using next_param_inv [OF i(1-3)] by (simp add: param_next_def 1(2) search_inv_def x)
  next
    case 2
    then show ?thesis using i by (auto simp: param_next_def search_inv_def x)
  qed
qed

section \<open>Solved models\<close>

lemma frame_ok_keeps:
  assumes k: "ckeeps S S'" and f: "frame_ok S X" and sp: "sp_at S' (fst (x_x X)) (snd (x_x X)) = sp_at S (fst (x_x X)) (snd (x_x X))"
  shows "frame_ok S' X"
proof -
  have "list_all (cand_ok S' X) (x_cand X)" using f cand_ok_keeps [OF k] by (auto simp: frame_ok_def list_all_iff)
  then show ?thesis using f sp ckeeps_known [OF k] ckeepsD(1) [OF k] by (auto simp: frame_ok_def)
qed

text \<open>No frame that waits is busy with a model all of whose parameters are solved.\<close>

lemma solved_alone:
  assumes b: "frame_base S r X fs" and a: "alone X fs" and p: "params_at S X 0 acc" and F: "F \<in> set (butlast fs)"
  shows "(x_mi F, x_inst F) \<noteq> (x_mi X, x_inst X)"
proof
  assume eq: "(x_mi F, x_inst F) = (x_mi X, x_inst X)"
  have l: "linked S r (x_x X) fs" "is_marked S (x_x X)" using b frame_marked by (simp_all add: frame_base_def stack_ok_def)
  obtain y where y: "waits S F y" "is_marked S y" using linked_marked [OF l(1) F l(2)] by blast
  have "x_where F \<noteq> XS_SHADOW" using a eq in_set_butlastD [OF F] by (auto simp: alone_def rival_def)
  then have "waits_param S F y" using y(1) by (cases "x_where F") (simp_all add: waits_def)
  then obtain ds js where d: "in_param S F (p_edge F) (p_ssmax F) ds js" "iter (p_si F) js" "y = (e_idx (params_of S F ! p_edge F), hd js)"
    by (auto simp: waits_param_def)
  then have "hd js \<in> set (insts S (e_map (params_of S F ! p_edge F)) (x_inst F))" "params_of S F ! p_edge F \<in> set (params_of S F)"
    using iter_inst [OF d(2)] by (simp_all add: in_param_def)
  then have "is_chained S (fst y) (snd y)" using p eq by (simp add: params_at_def d(3))
  then show False using y(2) by (auto simp: is_marked_def is_chained_def)
qed

lemma solve_model:
  assumes b: "busy S r X fs" and a: "alone X fs" and p: "params_at S X 0 acc"
    and sp: "msp_at S (x_mi X) (x_inst X) = Inr sp" and c: "cost = m_costf (mod_of S X) acc"
  defines "T \<equiv> set_msp S (x_mi X) (x_inst X) \<lparr>sp_cost = cost, sp_state = SP_CHAIN\<rparr>"
  shows "frame_base T r X fs" "is_mchained T (x_mi X) (x_inst X)" "chain_mcost T (x_mi X) (x_inst X) = cost" "is_cost cost"
proof -
  have g: "sgood S" "clean S" "frame_ok S X" "stack_ok S r (x_x X) fs" "works S X" "frame_base S r X fs" using b by (simp_all add: busy_def frame_base_def)
  have n: "\<not> chained sp" "midx (s_G S) (x_mi X)" "maps_known S (x_mi X) (x_inst X)" using g(5) sp by (simp_all add: works_def is_mchained_def)
  define v where "v = \<lparr>sp_cost = cost, sp_state = SP_CHAIN\<rparr>"
  have v: "chained v" "sp_cost v = cost" by (simp_all add: v_def chained_def sp_has_def SP_CHAIN_def)
  have k: "ckeeps S T" using set_msp_keeps [OF sp n(1)] by (simp add: T_def)
  have G: "s_G T = s_G S" by (simp add: T_def)
  have spT: "msp_at T (x_mi X) (x_inst X) = Inr v" by (simp add: T_def v_def msp_at_set [OF sp])
  show m: "is_mchained T (x_mi X) (x_inst X)" "chain_mcost T (x_mi X) (x_inst X) = cost" using spT v by (simp_all add: is_mchained_def chain_mcost_def)
  have ac: "is_cost acc" by (rule params_at_cost [OF g(1,2,5) p])
  show ic: "is_cost cost" using model_cost(1) [OF g(1) n(2) ac] by (simp add: c)
  have pT: "params_at T X 0 acc" by (rule params_at_keeps [OF k g(1,5) p])
  obtain bs where bs: "list_all2 (decided T (x_inst X)) (checks_of T X) bs" "acc = foldr (add_param T (x_inst X)) (params_of T X) (penalties bs (checks_of T X))"
    using pT by (auto simp: params_at_def checks_at_def)
  have kn: "maps_known T (x_mi X) (x_inst X)" by (rule maps_known_keeps [OF k n(3)])
  have ch: "is_chained T (e_idx e) j \<and> solved T (e_idx e) j" if "e \<in> set (params_of T X)" "j \<in> set (insts T (e_map e) (x_inst X))" for e j
  proof -
    have "is_chained S (e_idx e) j" using p that by (simp add: params_at_def T_def)
    then show ?thesis using clean_chained(2) [OF g(2)] solved_keeps [OF k g(1)] ckeeps_chained [OF k] by blast
  qed
  have "solved T (x_mi X) (x_inst X)"
    by (rule solved.model [OF _ m(1) _ _ bs(1)]) (use n(2) kn ch m(2) c bs(2) in \<open>simp_all add: G maps_known_def\<close>)
  then have "clean_msp T (x_mi X) (x_inst X) v" using v ic n(2) kn model_cost(2) [OF g(1) n(2) ac] by (simp add: clean_msp_def G c)
  then have cT: "clean T" using clean_set_msp [OF g(1,2) sp n(1), of v] by (simp add: T_def v_def)
  have "holds S T F" if "F \<in> set (butlast fs)" for F using holds_set_msp [OF sp] solved_alone [OF g(6) a p that] by (simp add: T_def)
  then have "stack_ok T r (x_x X) fs" using stack_step [OF k g(1,4)] by simp
  moreover have "frame_ok T X" using frame_ok_keeps [OF k g(3)] by (simp add: T_def)
  ultimately show "frame_base T r X fs" using g(1,6) cT ckeeps_trans [OF _ k] by (simp add: frame_base_def T_def)
qed

lemma chain_solved_ok:
  assumes x: "xs c = X # fs" and i: "frame_inv S r (M_costS c) betaS X fs Chain_solved"
  shows "step_ok r (chain_solved c S)"
proof -
  have i: "busy S r X fs" "alone X fs" "params_at S X 0 (M_costS c)" using i by simp_all
  have w: "x_ei X < length (models_of S X)" "e_idx (models_of S X ! x_ei X) = x_mi X" "x_inst X < 65536"
    "x_inst X \<in> set (insts S (e_map (models_of S X ! x_ei X)) (snd (x_x X)))" using i(1) by (simp_all add: busy_def works_def)
  define cost where "cost = m_costf (m_of S X) (M_costS c)"
  define T where "T = set_msp S (x_mi X) (x_inst X) \<lparr>sp_cost = cost, sp_state = SP_CHAIN\<rparr>"
  have "search_inv r (c', S')" if run: "chain_solved c S = Inr (c', S')" for c' S'
  proof -
    obtain sp xsp where a: "msp_at S (x_mi X) (x_inst X) = Inr sp" "sp_at S (fst (x_x X)) (snd (x_x X)) = Inr xsp" "c' = c\<lparr>pc := X_chosen cost\<rparr>"
      "S' = set_sp T (fst (x_x X)) (snd (x_x X)) (xsp\<lparr>sp_state := SP_CHAIN_V (x_ei X) (x_inst X)\<rparr>)"
      using run by (auto simp: chain_solved_def onX_def x Let_def andThen_Inr cost_def T_def split: prod.splits)
    note m = solve_model [OF i a(1), of cost, folded T_def]
    have ch: "chosen (set_sp T (fst (x_x X)) (snd (x_x X)) \<lparr>sp_cost = cost, sp_state = SP_CHAIN_V (x_ei X) (x_inst X)\<rparr>) r (x_x X) cost fs"
      by (rule choose_var [OF m(1), of _ "models_of T X ! x_ei X"]) (use m w in \<open>simp_all add: T_def cost_def m_of_def\<close>)
    have "sp_at T (fst (x_x X)) (snd (x_x X)) = Inr xsp" using a(2) by (simp add: T_def)
    then show ?thesis using ch by (simp add: a(3,4) search_inv_def x set_cost_def sp_at_set ssp_fields)
  qed
  then show ?thesis by (auto simp: step_ok_def)
qed


section \<open>Checks\<close>

lemma insts_sorted: "sorted_wrt (<) (insts S m i)"
  by (auto simp: insts_def ss_span_def split: option.split)

lemma checks_at_step:
  assumes "k < length (checks_of S X)" "checks_at S X k acc" "decided S (x_inst X) (checks_of S X ! k) b"
  shows "checks_at S X (Suc k) (if b then fadd acc (se_penalty (checks_of S X ! k)) else acc)"
proof -
  obtain bs where bs: "list_all2 (decided S (x_inst X)) (take k (checks_of S X)) bs" "acc = penalties bs (take k (checks_of S X))"
    using assms(2) by (auto simp: checks_at_def)
  have t: "take (Suc k) (checks_of S X) = take k (checks_of S X) @ [checks_of S X ! k]" using assms(1) by (rule take_Suc_conv_app_nth)
  have "list_all2 (decided S (x_inst X)) (take (Suc k) (checks_of S X)) (bs @ [b])" using bs(1) assms(3) by (simp add: t list_all2_appendI)
  moreover have "penalties (bs @ [b]) (take (Suc k) (checks_of S X)) = (if b then fadd acc (se_penalty (checks_of S X ! k)) else acc)"
    using list_all2_lengthD [OF bs(1)] by (simp add: t penalties_def bs(2))
  ultimately show ?thesis using assms(1) unfolding checks_at_def by (metis Suc_leI)
qed

text \<open>What a rival waits for.\<close>

lemma rival_cell:
  assumes b: "frame_base S r X fs" and F: "F \<in> set fs" "rival X F"
  obtains ds js where "in_check S X (w_edge F) ds js" "js \<noteq> []" "hd js = cell_inst F" "is_marked S (check_var S X (w_edge F), cell_inst F)"
    "\<not> passed S (se_idx (checks_of S X ! w_edge F)) (cell_inst F)" "\<not> evald S (se_idx (checks_of S X ! w_edge F)) (cell_inst F)"
    "se_flags (checks_of S X ! w_edge F) AND W_COMPUTED \<noteq> 0"
proof -
  have l: "linked S r (x_x X) fs" "is_marked S (x_x X)" using b frame_marked by (simp_all add: frame_base_def stack_ok_def)
  have F': "x_where F = XS_SHADOW" "x_mi F = x_mi X" "x_inst F = x_inst X" using F(2) by (simp_all add: rival_def)
  have "F \<in> set (butlast fs)" using in_stack [OF l(1) F(1)] F'(1) by simp
  then obtain y where y: "waits S F y" "is_marked S y" using linked_marked [OF l(1) _ l(2)] by blast
  then have w: "waits_check S F y" using F'(1) by (simp add: waits_def)
  then obtain ds js where d: "in_check S F (w_edge F) ds js" "iter (w_si F) js" "snd y = hd js" by (auto simp: waits_check_def)
  have j: "js \<noteq> []" "hd js = cell_inst F" using iter_inst [OF d(2)] by (simp_all add: cell_inst_def)
  have "y = (check_var S X (w_edge F), cell_inst F)" using w d(3) j(2) F' by (simp add: waits_check_def check_var_def prod_eq_iff)
  then show thesis using that [of ds js] d j w y(2) F' by (simp add: waits_check_def in_check_def)
qed

lemma shadow_ok:
  assumes x: "xs c = X # fs" and i: "frame_inv S r (M_costS c) betaS X fs (Shadow k)"
  shows "step_ok r (shadow k c S)"
  unfolding shadow_def onX_def x list.case
proof (rule step_ok_then)
  fix m assume "model_at S (x_mi X) = Inr m"
  then have m: "m = mod_of S X" by (auto simp: model_at_def checked_def split: if_splits)
  have i: "busy S r X fs" "checks_at S X k (M_costS c)" "checks_from X k fs" using i by simp_all
  have g: "frame_base S r X fs" "works S X" "sgood S" "x_inst X < 65536" using i(1) by (simp_all add: busy_def frame_base_def works_def)
  show "step_ok r (if k < length (m_shadows m)
       then andThen (mapE_ssiter S (se_map (m_shadows m ! k)) (x_inst X)) (\<lambda>osi.
         Inr (c\<lparr>xs := X\<lparr>x_where := XS_SHADOW\<rparr> # fs, pc := (case osi of None \<Rightarrow> Shadow (k + 1) | Some it \<Rightarrow> Shadow_si k it)\<rparr>, S))
       else Inr (c\<lparr>pc := Params\<rparr>, S))"
  proof (cases "k < length (m_shadows m)")
    case k: True
    let ?e = "checks_of S X ! k"
    have kn: "known S (se_map ?e) (x_inst X)" using known_check [OF g(2)] k m by simp
    show ?thesis unfolding if_P [OF k] unfolding m
    proof (rule step_ok_then)
      fix osi assume "mapE_ssiter S (se_map ?e) (x_inst X) = Inr osi"
      note it = mapE_iter [OF g(3) kn g(4) this]
      show "step_ok r (Inr (c\<lparr>xs := X\<lparr>x_where := XS_SHADOW\<rparr> # fs, pc := (case osi of None \<Rightarrow> Shadow (k + 1) | Some it \<Rightarrow> Shadow_si k it)\<rparr>, S))"
      proof (cases osi)
        case None
        then have e: "insts S (se_map ?e) (x_inst X) = []" using it by simp
        then have "checks_at S X (Suc k) (M_costS c)" using checks_at_step [of k S X "M_costS c" False] k m i(2) kn by (simp add: decided_def)
        moreover have "Suc k \<le> w_edge F" if "F \<in> set fs" "rival X F" for F
        proof -
          have "k \<noteq> w_edge F" by (rule rival_cell [OF g(1) that]) (use e in \<open>auto simp: in_check_def\<close>)
          then show ?thesis using i(3) that by (force simp: checks_from_def)
        qed
        ultimately show ?thesis using None i(1) by (simp add: search_inv_def checks_from_def)
      next
        case (Some it)
        then have it: "iter it (insts S (se_map ?e) (x_inst X))" using it by simp
        have "in_check S X k [] (insts S (se_map ?e) (x_inst X))" using k m by (simp add: in_check_def)
        moreover have "k < w_edge F \<or> k = w_edge F \<and> unat (SI_INST it) \<le> cell_inst F" if "F \<in> set fs" "rival X F" for F
        proof (cases "k = w_edge F")
          case True
          have "cell_inst F \<in> set (insts S (se_map ?e) (x_inst X))"
            by (rule rival_cell [OF g(1) that]) (use True in \<open>auto simp: in_check_def dest: hd_in_set\<close>)
          then show ?thesis using True iter_inst [OF it] insts_sorted [of S "se_map ?e" "x_inst X"]
            by (cases "insts S (se_map ?e) (x_inst X)") auto
        next
          case False
          then show ?thesis using i(3) that by (force simp: checks_from_def)
        qed
        ultimately show ?thesis using Some it i(1,2) by (auto simp: search_inv_def insts_from_def)
      qed
    qed
  next
    case False
    then have k: "k = length (checks_of S X)" using i(2) m by (simp add: checks_at_def)
    have "\<not> rival X F" if "F \<in> set fs" for F
    proof
      assume ri: "rival X F"
      have "w_edge F < length (checks_of S X)" by (rule rival_cell [OF g(1) that ri]) (simp add: in_check_def)
      then show False using i(3) that ri k by (auto simp: checks_from_def)
    qed
    then show ?thesis using False i(1,2) k by (simp add: search_inv_def x alone_def)
  qed
qed


lemma shadow_next_ok:
  assumes x: "xs c = X # fs" and b: "busy S r X fs" "x_where X = XS_SHADOW" "checks_at S X k (M_costS c)"
    and d: "in_check S X k ds (j # js)" "iter it (j # js)" "passed S (se_idx (checks_of S X ! k)) j" "insts_from X k j fs"
  shows "step_ok r (shadow_next k it c S)"
proof -
  let ?e = "checks_of S X ! k"
  have g: "frame_base S r X fs" "works S X" using b(1) by (simp_all add: busy_def)
  have ins: "insts S (se_map ?e) (x_inst X) = ds @ j # js" "k < length (checks_of S X)" "\<forall>d \<in> set ds. passed S (se_idx ?e) d"
    using d(1) by (simp_all add: in_check_def)
  have so: "sorted_wrt (<) (ds @ j # js)" using insts_sorted [of S "se_map ?e" "x_inst X"] ins(1) by simp
  have riv: "k < w_edge F \<or> k = w_edge F \<and> cell_inst F \<in> set js" if F: "F \<in> set fs" "rival X F" for F
  proof (cases "k = w_edge F")
    case True
    then have "j \<le> cell_inst F" using d(4) F by (auto simp: insts_from_def)
    moreover obtain ds' js' where r: "in_check S X (w_edge F) ds' js'" "js' \<noteq> []" "hd js' = cell_inst F" "\<not> passed S (se_idx ?e) (cell_inst F)"
      using rival_cell [OF g(1) F] True by metis
    have "ds @ j # js = ds' @ js'" using r(1) ins(1) True by (simp add: in_check_def)
    then have "cell_inst F \<in> set (ds @ j # js)" using hd_in_set [OF r(2)] r(3) by (metis Un_iff set_append)
    ultimately show ?thesis using True so d(3) r(4) by (auto simp: sorted_wrt_append)
  qed (use d(4) F in \<open>auto simp: insts_from_def\<close>)
  consider "js = []" "S_next S it = Inr None" | it1 where "S_next S it = Inr (Some it1)" "iter it1 js" using iter_next [OF d(2), of S] by blast
  then show ?thesis
  proof cases
    case 1
    have "decided S (x_inst X) ?e False" using ins 1(1) d(3) known_check [OF g(2) ins(2)] by (simp add: decided_def)
    then have "checks_at S X (Suc k) (M_costS c)" using checks_at_step [OF ins(2) b(3)] by fastforce
    moreover have "checks_from X (Suc k) fs" using riv 1(1) by (force simp: checks_from_def)
    ultimately show ?thesis using b(1) 1(2) by (simp add: shadow_next_def search_inv_def x)
  next
    case 2
    have "in_check S X k (ds @ [j]) js" using d(1,3) by (auto simp: in_check_def)
    moreover have "insts_from X k (unat (SI_INST it1)) fs"
    proof -
      have "unat (SI_INST it1) \<le> c" if "c \<in> set js" for c
        using that so iter_inst [OF 2(2)] by (cases js) (auto simp: sorted_wrt_append)
      then show ?thesis using riv unfolding insts_from_def by blast
    qed
    ultimately show ?thesis using b 2 by (auto simp: shadow_next_def search_inv_def x)
  qed
qed

lemma checkscan_length: "length (S_checkscan st value g arg bm inst e) = length bm"
proof -
  have "length (checkscan_loop ok stride bm w off state vp n) = length bm" for ok stride bm w off state vp n
    by (induction ok stride bm w off state vp n rule: checkscan_loop.induct) (simp_all add: Let_def)
  then show ?thesis by (simp add: S_checkscan_def)
qed

lemma checkscan_step:
  assumes bm: "vm_at S wi = Inr bm" and s: "inst < scanto" "SW_BMIDX (scanto - 1) < length bm"
    and bm1: "bm1 = S_checkscan (s_mem S) v g arg bm inst scanto"
  shows "marks S wi {inst ..< scanto} (S\<lparr>s_xstate := (s_xstate S)(wi := XBm bm1)\<rparr>)" "sw_eval bm1 inst" "SW_BMIDX inst < length bm1"
proof -
  have le: "scanto \<le> 32 * length bm" using s by (simp add: SW_BMIDX_def div_less_iff_less_mult)
  have lt: "SW_BMIDX j < length bm \<longleftrightarrow> j < 32 * length bm" for j by (simp add: SW_BMIDX_def div_less_iff_less_mult mult.commute)
  note mk = checkscan_marks [of inst scanto bm _ "s_mem S" v g arg, OF s(1) le, folded bm1]
  have l: "length bm1 = length bm" by (simp add: bm1 checkscan_length)
  show "sw_eval bm1 inst" "SW_BMIDX inst < length bm1" using mk [of inst] s(1) le l lt by simp_all
  show "marks S wi {inst ..< scanto} (S\<lparr>s_xstate := (s_xstate S)(wi := XBm bm1)\<rparr>)" unfolding marks_def
    by (intro exI [of _ bm] exI [of _ bm1]) (use bm l mk lt in auto)
qed

text \<open>Evaluating the check over the values that are there: no variable of the current search has one.\<close>

lemma shadow_check_ok:
  assumes x: "xs c = X # fs" and b: "busy S r X fs" "x_where X = XS_SHADOW" "checks_at S X k (M_costS c)"
    and d: "in_check S X k ds js" "iter it js" "checks_from X (Suc k) fs"
    and e: "e = checks_of S X ! k" "w = gshadow (s_G S) (se_idx e)" and m: "\<And>y. is_marked S y \<Longrightarrow> fst y = w_xi w \<Longrightarrow> snd y \<notin> {unat (SI_INST it) ..< scanto}"
  shows "step_ok r (shadow_check k it e w scanto c S)"
  unfolding shadow_check_def Let_def
proof (rule step_ok_then, rule step_ok_then, rule step_ok_then)
  fix bm g bm1 assume bm: "vm_at S (se_idx e) = Inr bm"
    and sc: "checked (unat (SI_INST it) < scanto \<and> SW_BMIDX (scanto - 1) < length bm)
                 (S_checkscan (s_mem S) (s_value S (w_xi w)) g (w_arg w) bm (unat (SI_INST it)) scanto) = Inr bm1"
  obtain j js' where js: "js = j # js'" "unat (SI_INST it) = j" using d(2) by (cases js) auto
  define S1 where "S1 = S\<lparr>s_xstate := (s_xstate S)(se_idx e := XBm bm1)\<rparr>"
  have s: "j < scanto" "SW_BMIDX (scanto - 1) < length bm" "bm1 = S_checkscan (s_mem S) (s_value S (w_xi w)) g (w_arg w) bm j scanto"
    using sc js(2) by (auto simp: checked_def split: if_splits)
  note ck = checkscan_step [OF bm s, folded S1_def]
  have g: "frame_base S r X fs" "works S X" "sgood S" using b(1) by (simp_all add: busy_def frame_base_def)
  have cells: "x_where F = XS_SHADOW \<longrightarrow> cell_idx S F \<noteq> se_idx e \<or> cell_inst F \<notin> {j ..< scanto}" if F: "F \<in> set (butlast fs)" for F
  proof (intro impI)
    assume "x_where F = XS_SHADOW"
    moreover obtain y where y: "waits S F y" "is_marked S y" using linked_marked [OF _ F] g(1) frame_marked unfolding frame_base_def stack_ok_def by blast
    ultimately have "waits_check S F y" by (simp add: waits_def)
    then have "fst y = w_xi (gshadow (s_G S) (cell_idx S F))" "snd y = cell_inst F" using iter_inst by (auto simp: waits_check_def cell_idx_def cell_inst_def)
    then show "cell_idx S F \<noteq> se_idx e \<or> cell_inst F \<notin> {j ..< scanto}" using m [OF y(2)] e(2) js(2) by auto
  qed
  note b1 = base_marks [OF g(1) ck(1) cells]
  note k = marks_keeps [OF ck(1)]
  have G: "s_G S1 = s_G S" by (simp add: S1_def)
  have c1: "busy S1 r X fs" "checks_at S1 X k (M_costS c)" "in_check S1 X k ds (j # js')"
    using b1 g checks_at_keeps [OF k g(3,2) b(3)] in_check_keeps [OF k g(3,2) d(1)] js(1) by (simp_all add: busy_def)
  have ps: "passed S1 (se_idx e) j = sw_pass bm1 j" "evald S1 (se_idx e) j" using ck(2,3) by (simp_all add: passed_def evald_def S1_def vm_at_def)
  show "step_ok r (if drop_bit (SW_BMOFF (unat (SI_INST it))) (bm1 ! SW_BMIDX (unat (SI_INST it))) AND SW_PASS = 0
        then Inr (c\<lparr>pc := Shadow_penalty k\<rparr>, S\<lparr>s_xstate := (s_xstate S)(se_idx e := XBm bm1)\<rparr>)
        else shadow_next k it c (S\<lparr>s_xstate := (s_xstate S)(se_idx e := XBm bm1)\<rparr>))"
    unfolding S1_def [symmetric] js(2)
  proof (cases "sw_pass bm1 j")
    case True
    have "step_ok r (shadow_next k it c S1)"
      by (rule shadow_next_ok [OF x c1(1) b(2) c1(2,3)]) (use d js True ps e G in \<open>auto simp: checks_from_def insts_from_def\<close>)
    then show "step_ok r (if drop_bit (SW_BMOFF j) (bm1 ! SW_BMIDX j) AND SW_PASS = 0 then Inr (c\<lparr>pc := Shadow_penalty k\<rparr>, S1) else shadow_next k it c S1)"
      using True by (simp add: sw_pass_def)
  next
    case False
    have kl: "k < length (checks_of S1 X)" using c1(3) by (simp add: in_check_def)
    have "decided S1 (x_inst X) (checks_of S1 X ! k) True"
      using known_check [OF b1(2) [OF _ g(2)] kl] c1(3) ps(2) by (auto simp: decided_def in_check_def G e)
    then have "search_inv r (c\<lparr>pc := Shadow_penalty k\<rparr>, S1)" using c1 kl d(3) by (simp add: search_inv_def x)
    then show "step_ok r (if drop_bit (SW_BMOFF j) (bm1 ! SW_BMIDX j) AND SW_PASS = 0 then Inr (c\<lparr>pc := Shadow_penalty k\<rparr>, S1) else shadow_next k it c S1)"
      using False by (simp add: sw_pass_def)
  qed
qed


lemma scan_computed_valued:
  "scan_computed sps n i = Inr e \<Longrightarrow> i \<le> j \<Longrightarrow> j < e \<Longrightarrow> j < length sps \<and> sp_has (sp_state (sps ! j)) SP_VALUE"
  by (induction sps n i rule: scan_computed.induct) (force simp: le_less split: if_splits)+

lemma scanv_valued:
  assumes "scanv_computed S xi grp (Suc i) = Inr e" "i < j" "j < e"
  shows "\<exists>sp. sp_at S xi j = Inr sp \<and> valued sp"
  using assms scan_computed_valued
  by (fastforce simp: scanv_computed_def andThen_Inr sp_at_def ssp_get_def checked_def valued_def split: xslot.splits)

lemma clean_marked: "clean S \<Longrightarrow> is_marked S y \<Longrightarrow> sp_at S (fst y) (snd y) = Inr sp \<Longrightarrow> \<not> valued sp \<and> \<not> chained sp"
  by (auto simp: clean_def clean_sp_def is_marked_def)

lemma shadow_scan_ok:
  assumes x: "xs c = X # fs" and b: "busy S r X fs" "x_where X = XS_SHADOW" "checks_at S X k (M_costS c)"
    and d: "in_check S X k ds js" "iter it js" "checks_from X (Suc k) fs" and ch: "is_chained S (check_var S X k) (unat (SI_INST it))"
    and e: "e = checks_of S X ! k"
  shows "step_ok r (shadow_scan k it e c S)"
  unfolding shadow_scan_def
proof (rule step_ok_then, rule step_ok_then)
  fix w scanto assume w: "shadow_at S (se_idx e) = Inr w" and s: "scanv_computed S (w_xi w) (w_group w) (unat (SI_INST it) + 1) = Inr scanto"
  have w: "w = gshadow (s_G S) (se_idx e)" using w by (auto simp: shadow_at_def checked_def split: if_splits)
  have cl: "clean S" using b(1) by (simp add: busy_def frame_base_def)
  have "snd y \<notin> {unat (SI_INST it) ..< scanto}" if y: "is_marked S y" "fst y = w_xi w" for y
  proof
    assume in_: "snd y \<in> {unat (SI_INST it) ..< scanto}"
    show False
    proof (cases "snd y = unat (SI_INST it)")
      case True
      then show False using ch y clean_marked [OF cl y(1)] w e by (auto simp: is_chained_def check_var_def)
    next
      case False
      then show False using scanv_valued [of S "w_xi w" "w_group w" "unat (SI_INST it)" scanto "snd y"] s in_ y(2) clean_marked [OF cl y(1)] by auto
    qed
  qed
  then show "step_ok r (shadow_check k it e w scanto c S)" by (rule shadow_check_ok [OF x b d e w])
qed

lemma shedge_check: "shedge_at S X k = Inr e \<Longrightarrow> k < length (checks_of S X) \<and> e = checks_of S X ! k"
  by (auto simp: shedge_at_def checked_def m_of_def split: if_splits)

lemma shadow_compute_ok:
  assumes cg: "caller_good E" and x: "xs c = X # fs" and i: "frame_inv S r (M_costS c) betaS X fs (Shadow_compute k it)"
  shows "step_ok r (shadow_compute E fuel k it c S)"
  unfolding shadow_compute_def onX_def x list.case
proof (rule step_ok_then, rule step_ok_then, rule step_ok_then)
  fix e w S1 assume e: "shedge_at S X k = Inr e" and w: "shadow_at S (se_idx e) = Inr w"
    and run: "S_compute_value E fuel S (w_xi w) (unat (SI_INST it)) = Inr S1"
  have e: "e = checks_of S X ! k" using shedge_check [OF e] by simp
  have w: "w = gshadow (s_G S) (se_idx e)" using w by (auto simp: shadow_at_def checked_def split: if_splits)
  obtain ds js where i: "busy S r X fs" "x_where X = XS_SHADOW" "checks_at S X k (M_costS c)" "in_check S X k ds js" "iter it js"
    "checks_from X (Suc k) fs" "is_chained S (w_xi w) (unat (SI_INST it))" using i by (auto simp: check_var_def w e)
  have g: "frame_base S r X fs" "works S X" "sgood S" "clean S" "frame_ok S X" using i(1) by (simp_all add: busy_def frame_base_def)
  have n: "sgood S1" "near S S1" using cl.presD [OF compute_value_pres [OF cg i(7)] _ run] g(3) clean_closed [OF g(4)] by auto
  have G: "s_G S1 = s_G S" using n(2) by (simp add: near_def)
  note k = near_keeps [OF n(2)]
  have "busy S1 r X fs" using base_near [OF n(2) g(1) n(1)] works_near [OF n(2) g(2,5)] by (simp add: busy_def)
  then show "step_ok r (shadow_scan k it e c S1)"
    by (rule shadow_scan_ok [OF x _ i(2) checks_at_keeps [OF k g(3,2) i(3)] in_check_keeps [OF k g(3,2) i(4)] i(5,6)])
      (use i(7) chained_near(1) [OF n(2)] in \<open>simp_all add: check_var_def G w e\<close>)
qed

lemma shadow_penalty_ok:
  assumes x: "xs c = X # fs" and i: "frame_inv S r (M_costS c) (M_betaS c) X fs (Shadow_penalty k)"
  shows "step_ok r (shadow_penalty k c S)"
  unfolding shadow_penalty_def onX_def x list.case Let_def
proof (rule step_ok_then)
  fix e assume "shedge_at S X k = Inr e"
  then have e: "k < length (checks_of S X)" "e = checks_of S X ! k" using shedge_check by blast+
  have i: "busy S r X fs" "checks_at S X k (M_costS c)" "decided S (x_inst X) (checks_of S X ! k) True" "checks_from X (Suc k) fs" using i by simp_all
  have c: "checks_at S X (Suc k) (fadd (M_costS c) (se_penalty e))" using checks_at_step [OF e(1) i(2,3)] e(2) by simp
  have "\<not> f32_nan (fadd (M_costS c) (se_penalty e))" using checks_at_cost [OF _ _ c] i(1) cost_simps(3) by (auto simp: busy_def frame_base_def)
  then show "step_ok r (Inr (c\<lparr>M_costS := fadd (M_costS c) (se_penalty e),
      pc := (if flt (M_betaS c) (fadd (M_costS c) (se_penalty e)) then X_bound else Shadow (k + 1))\<rparr>, S))"
    using i(1,4) c by (simp add: search_inv_def x)
qed


lemma rival_at:
  assumes b: "frame_base S r X fs" and d: "in_check S X k ds (j # js)" "insts_from X k j fs" "\<not> passed S (se_idx (checks_of S X ! k)) j"
  shows "checks_from X (Suc k) fs \<or>
    is_marked S (check_var S X k, j) \<and> \<not> evald S (se_idx (checks_of S X ! k)) j \<and> se_flags (checks_of S X ! k) AND W_COMPUTED \<noteq> 0"
proof (rule disjCI)
  assume n: "\<not> (is_marked S (check_var S X k, j) \<and> \<not> evald S (se_idx (checks_of S X ! k)) j \<and> se_flags (checks_of S X ! k) AND W_COMPUTED \<noteq> 0)"
  have "Suc k \<le> w_edge F" if F: "F \<in> set fs" "rival X F" for F
  proof (rule ccontr)
    assume "\<not> Suc k \<le> w_edge F"
    then have k: "w_edge F = k" "j \<le> cell_inst F" using d(2) F by (auto simp: insts_from_def)
    obtain ds' js' where r: "in_check S X (w_edge F) ds' js'" "js' \<noteq> []" "hd js' = cell_inst F" "is_marked S (check_var S X (w_edge F), cell_inst F)"
      "\<not> evald S (se_idx (checks_of S X ! w_edge F)) (cell_inst F)" "se_flags (checks_of S X ! w_edge F) AND W_COMPUTED \<noteq> 0"
      by (rule rival_cell [OF b F]) (rule that)
    have ins: "insts S (se_map (checks_of S X ! k)) (x_inst X) = ds' @ js'" "ds' @ js' = ds @ j # js" "\<forall>d \<in> set ds'. passed S (se_idx (checks_of S X ! k)) d"
      using r(1) d(1) by (simp_all add: in_check_def k(1))
    have "j \<in> set (ds' @ js')" "sorted_wrt (<) (ds' @ js')" using insts_sorted [of S "se_map (checks_of S X ! k)" "x_inst X"] ins by simp_all
    then have "cell_inst F \<le> j" using ins(3) d(3) r(2,3) by (cases js') (auto simp: sorted_wrt_append)
    then show False using k r n by simp
  qed
  then show "checks_from X (Suc k) fs" by (simp add: checks_from_def)
qed

lemma check_solve:
  assumes b: "busy S r X fs" "x_where X = XS_SHADOW" "checks_at S X k costS" and d: "in_check S X k ds js" "iter it js"
    and e: "se_flags (checks_of S X ! k) AND W_COMPUTED \<noteq> 0" "vm_at S (se_idx (checks_of S X ! k)) = Inr bm"
      "\<not> passed S (se_idx (checks_of S X ! k)) (unat (SI_INST it))" "\<not> evald S (se_idx (checks_of S X ! k)) (unat (SI_INST it))"
    and r: "checks_from X (Suc k) fs \<or> is_marked S (check_var S X k, unat (SI_INST it))" and n: "\<not> is_chained S (check_var S X k) (unat (SI_INST it))"
  shows "frame_inv S r costS betaS (X\<lparr>w_edge := k, w_si := it\<rparr>) fs (X_solve (check_var S X k) (unat (SI_INST it)) beta)"
  using r
proof
  assume from_: "checks_from X (Suc k) fs"
  let ?X = "X\<lparr>w_edge := k, w_si := it\<rparr>"
  have i: "unat (SI_INST it) = hd js" using iter_inst [OF d(2)] by simp
  have "\<exists>ds js. in_check S X k ds js \<and> iter it js \<and> unat (SI_INST it) = hd js" using d i by blast
  then have "waits S (?X\<lparr>x_costS := costS, x_betaS := betaS\<rparr>) (check_var S X k, unat (SI_INST it))"
    using b e by (simp add: waits_def waits_check_def busy_def check_var_def)
  moreover have "ahead ?X F" if "F \<in> set fs" for F using from_ that b(2) by (auto simp: ahead_def checks_from_def)
  moreover have "frame_base S r ?X fs" using b(1) by (simp add: busy_def)
  ultimately show ?thesis using n by (intro waiting_solve) (auto simp: is_chained_def)
next
  assume "is_marked S (check_var S X k, unat (SI_INST it))"
  then show ?thesis using b(1) mark_marked by (auto simp: is_marked_def busy_def frame_base_def)
qed

text \<open>The caller may give values and shapes between the test of the instance and the next step.\<close>

lemma check_near:
  assumes n: "near S S1" "sgood S1" and b: "busy S r X fs" "checks_at S X k costS" "in_check S X k ds js"
  shows "busy S1 r X fs" "checks_at S1 X k costS" "in_check S1 X k ds js"
proof -
  have g: "frame_base S r X fs" "works S X" "sgood S" "frame_ok S X" using b(1) by (simp_all add: busy_def frame_base_def)
  note k = near_keeps [OF n(1)]
  show "busy S1 r X fs" using base_near [OF n(1) g(1) n(2)] works_near [OF n(1) g(2,4)] by (simp add: busy_def)
  show "checks_at S1 X k costS" "in_check S1 X k ds js" using checks_at_keeps [OF k g(3,2) b(2)] in_check_keeps [OF k g(3,2) b(3)] by simp_all
qed

lemma given_slot: "scanv_given S xi grp i = Inr e \<Longrightarrow> \<not> is_marked S (xi, j)"
  by (auto simp: scanv_given_def andThen_Inr vm_at_def is_marked_def sp_at_def split: xslot.splits)

lemma shadow_given_ok:
  assumes cg: "caller_good E" and x: "xs c = X # fs" and i: "busy S r X fs" "x_where X = XS_SHADOW" "checks_at S X k (M_costS c)"
    "in_check S X k ds js" "iter it js" "checks_from X (Suc k) fs" and e: "e = checks_of S X ! k" "w = gshadow (s_G S) (se_idx e)"
  shows "step_ok r (shadow_given E k it e w c S)"
  unfolding shadow_given_def Let_def
proof (rule step_ok_then, rule step_ok_then)
  fix S1 scanto assume S1: "S_get_given1 E S (w_xi w) (unat (SI_INST it)) = Inr S1" "scanv_given S1 (w_xi w) (w_group w) (unat (SI_INST it) + 1) = Inr scanto"
  have g: "sgood S" using i(1) by (simp add: busy_def frame_base_def)
  have n: "sgood S1" "near S S1" using nr.presD [OF pres_given1 [OF cg] g S1(1)] by auto
  have G: "s_G S1 = s_G S" using n(2) by (simp add: near_def)
  note c1 = check_near [OF n(2,1) i(1,3,4)]
  show "step_ok r (shadow_check k it e w scanto c S1)"
    by (rule shadow_check_ok [OF x c1(1) i(2) c1(2,3) i(5,6)]) (use given_slot [OF S1(2)] in \<open>auto simp: G e\<close>)
qed

lemma shadow_computed_ok:
  assumes cg: "caller_good E" and x: "xs c = X # fs" and i: "busy S r X fs" "x_where X = XS_SHADOW" "checks_at S X k (M_costS c)" "in_check S X k ds js" "iter it js"
    and r: "checks_from X (Suc k) fs \<or> is_marked S (check_var S X k, unat (SI_INST it))"
    and e: "e = checks_of S X ! k" "w = gshadow (s_G S) (se_idx e)" "se_flags e AND W_COMPUTED \<noteq> 0"
    and bm: "vm_at S (se_idx e) = Inr bm" "\<not> passed S (se_idx e) (unat (SI_INST it))" "\<not> evald S (se_idx e) (unat (SI_INST it))"
  shows "step_ok r (shadow_computed E k it e w c S)"
proof -
  let ?j = "unat (SI_INST it)" and ?X = "X\<lparr>w_edge := k, w_si := it\<rparr>"
  have g: "works S X" "sgood S" "midx (s_G S) (x_mi X)" "k < length (checks_of S X)" using i(1,4) by (simp_all add: busy_def frame_base_def works_def in_check_def)
  have cv: "check_var S X k = w_xi w" by (simp add: check_var_def e)
  have new: "search_inv r (c\<lparr>xs := ?X # fs, pc := X_solve (w_xi w) ?j MAX_COST\<rparr>, S1)"
    if xn: "s_xstate S (w_xi w) = XNull" and S1: "S_vexpandsp E S (w_xi w) = Inr S1" for S1
  proof -
    have "\<not> V_GIVEN (gvar (s_G S) (w_xi w))" using g e unfolding sgood_def graph_computed_def by (metis nth_mem)
    then have n: "sgood S1" "near S S1" using nr.presD [OF pres_vexpandsp [OF cg] g(2) S1] by auto
    have G: "s_G S1 = s_G S" using n(2) by (simp add: near_def)
    note c1 = check_near [OF n(2,1) i(1,3,4)]
    have nvi: "nv (s_G S) \<le> se_idx e" using idx_check [OF g(2,1,4)] e(1) by simp
    have bm1: "vm_at S1 (se_idx e) = Inr bm" using n(2) nvi bm(1) by (simp add: near_def)
    have "\<not> is_marked S (w_xi w, ?j)" "\<not> is_chained S (w_xi w) ?j" using xn by (auto simp: is_marked_def is_chained_def sp_at_def)
    then have "checks_from X (Suc k) fs" "\<not> is_chained S1 (w_xi w) ?j" using r cv chained_near(1) [OF n(2)] by auto
    then have "frame_inv S1 r (M_costS c) (M_betaS c) ?X fs (X_solve (check_var S1 X k) ?j MAX_COST)"
      using bm near_bits [OF n(2) nvi bm(1)] e(3)
      by (intro check_solve [OF c1(1) i(2) c1(2,3) i(5)]) (simp_all add: G check_var_def e(1,2) bm1 [unfolded e(1)] del: frame_inv.simps)
    then show ?thesis by (simp add: search_inv_def check_var_def G e(1,2) del: frame_inv.simps)
  qed
  have old: "step_ok r (if \<not> sp_has (sp_state sp) SP_CHAIN then Inr (c\<lparr>xs := ?X # fs, pc := X_solve (w_xi w) ?j MAX_COST\<rparr>, S)
       else if \<not> sp_has (sp_state sp) SP_VALUE then Inr (c\<lparr>pc := Shadow_compute k it\<rparr>, S) else shadow_scan k it e c S)"
    if sp: "sp_at S (w_xi w) ?j = Inr sp" for sp
  proof (cases "chained sp")
    case True
    then have ch: "is_chained S (check_var S X k) ?j" using sp by (simp add: is_chained_def cv)
    then have fr: "checks_from X (Suc k) fs" using r sp True cv by (auto simp: is_marked_def)
    show ?thesis using True ch fr i shadow_scan_ok [OF x i fr ch e(1)] by (auto simp: chained_def search_inv_def x)
  next
    case False
    then have "frame_inv S r (M_costS c) (M_betaS c) ?X fs (X_solve (check_var S X k) ?j MAX_COST)"
      using bm e(3) r sp by (intro check_solve [OF i]) (simp_all add: e(1) cv is_chained_def del: frame_inv.simps)
    then show ?thesis using False by (simp add: search_inv_def chained_def cv del: frame_inv.simps)
  qed
  show ?thesis using new old by (auto simp: shadow_computed_def onX_def x Let_def intro!: step_ok_then)
qed

lemma shadow_si_ok:
  assumes cg: "caller_good E" and x: "xs c = X # fs" and i: "frame_inv S r (M_costS c) (M_betaS c) X fs (Shadow_si k it)"
  shows "step_ok r (shadow_si E k it c S)"
  unfolding shadow_si_def onX_def x list.case Let_def
proof (rule step_ok_then, rule step_ok_then, rule step_ok_then)
  fix e bm state assume e: "shedge_at S X k = Inr e" and bm: "vm_at S (se_idx e) = Inr bm"
    and st: "checked (SW_BMIDX (unat (SI_INST it)) < length bm) (drop_bit (SW_BMOFF (unat (SI_INST it))) (bm ! SW_BMIDX (unat (SI_INST it)))) = Inr state"
  have e: "e = checks_of S X ! k" "k < length (checks_of S X)" using shedge_check [OF e] by simp_all
  obtain ds js where i: "busy S r X fs" "x_where X = XS_SHADOW" "checks_at S X k (M_costS c)" "in_check S X k ds js" "iter it js"
    "insts_from X k (unat (SI_INST it)) fs" using i by auto
  obtain j js' where js: "js = j # js'" "unat (SI_INST it) = j" using i(5) by (cases js) auto
  have g: "frame_base S r X fs" "works S X" using i(1) by (simp_all add: busy_def)
  have pe: "passed S (se_idx e) j \<longleftrightarrow> state AND SW_PASS \<noteq> 0" "evald S (se_idx e) j \<longleftrightarrow> state AND SW_EVAL \<noteq> 0"
    using st bm js(2) by (auto simp: passed_def evald_def sw_pass_def sw_eval_def checked_def split: if_splits)
  note ra = rival_at [OF g(1) i(4) [unfolded js] i(6) [unfolded js], folded e(1)]
  show "step_ok r (if state AND SW_PASS \<noteq> 0 then shadow_next k it c S
         else if state AND SW_EVAL \<noteq> 0 then Inr (c\<lparr>pc := Shadow_penalty k\<rparr>, S)
         else andThen (shadow_at S (se_idx e)) (\<lambda>w.
           if se_flags e AND W_COMPUTED \<noteq> 0 then shadow_computed E k it e w c S else shadow_given E k it e w c S))"
  proof (cases "passed S (se_idx e) j")
    case True
    then show ?thesis using pe shadow_next_ok [OF x i(1-3) i(4,5) [unfolded js(1)]] i(6) e js(2) by simp
  next
    case np: False
    show ?thesis
    proof (cases "evald S (se_idx e) j")
      case True
      have "decided S (x_inst X) e True"
        using True known_check [OF g(2) e(2)] i(4) by (auto simp: decided_def in_check_def js(1) e(1))
      then show ?thesis using True np pe i(1,3) e ra by (simp add: search_inv_def x)
    next
      case ne: False
      have "step_ok r (if se_flags e AND W_COMPUTED \<noteq> 0 then shadow_computed E k it e w c S else shadow_given E k it e w c S)"
        if "shadow_at S (se_idx e) = Inr w" for w
      proof -
        have w: "w = gshadow (s_G S) (se_idx e)" using that by (auto simp: shadow_at_def checked_def split: if_splits)
        show ?thesis using shadow_computed_ok [OF cg x i(1-5) _ e(1) w _ bm] shadow_given_ok [OF cg x i(1-5) _ e(1) w] ra np ne js(2) by auto
      qed
      then show ?thesis using np ne pe by (auto intro!: step_ok_then)
    qed
  qed
qed

section \<open>The search is sound\<close>

lemma select_step_ok:
  assumes "caller_good E" "search_inv r (c, S)"
  shows "step_ok r (select_step E fuel root c S)"
proof -
  obtain X fs where x: "xs c = X # fs" and i: "frame_inv S r (M_costS c) (M_betaS c) X fs (pc c)"
    using assms(2) by (auto simp: search_inv_def split: list.splits)
  show ?thesis unfolding select_step_def using i
    by (cases "pc c") (simp_all add: x_solve_ok [OF assms(1) x] x_chosen_ok [OF x] x_failed_ok [OF x] x_bound_ok [OF x] candidate_ok [OF assms(1) x]
      shadow_ok [OF x] shadow_si_ok [OF assms(1) x] shadow_compute_ok [OF assms(1) x] shadow_penalty_ok [OF x] sel_params_ok [OF x]
      param_ok [OF x] param_si_ok [OF x] param_next_ok [OF x] chain_solved_ok [OF x] search_inv_def x
      del: frame_inv.simps add: frame_inv.simps(3,5))
qed

lemma select_run_ok:
  assumes cg: "caller_good E"
  shows "search_inv r (c, S) \<Longrightarrow> select_run E fuel root n c S = Inr S' \<Longrightarrow>
    sgood S' \<and> clean S' \<and> ckeeps (snd r) S' \<and> is_chained S' (fst (fst r)) (snd (fst r))"
proof (induction n arbitrary: c S)
  case 0
  then show ?case by (auto simp: select_run.simps [of E fuel root 0] search_inv_def split: if_splits list.splits)
next
  case (Suc n)
  show ?case
  proof (cases "pc c = Return")
    case True
    then have "S' = S" using Suc.prems(2) by (simp add: select_run.simps)
    then show ?thesis using Suc.prems(1) True by (auto simp: search_inv_def split: list.splits)
  next
    case False
    then obtain c1 S1 where s: "select_step E fuel root c S = Inr (c1, S1)" "select_run E fuel root n c1 S1 = Inr S'"
      using Suc.prems(2) by (subst (asm) select_run.simps) (auto simp: andThen_Inr)
    have "search_inv r (c1, S1)" using select_step_ok [OF cg Suc.prems(1), of fuel root] s(1) by (simp add: step_ok_def)
    then show ?thesis by (rule Suc.IH [OF _ s(2)])
  qed
qed

lemma select_chain_ok:
  assumes "caller_good E" "sgood S" "clean S" "\<not> is_chained S xi inst" "S_select_chain E fuel S xi inst = Inr S'"
  shows "sgood S'" "clean S'" "ckeeps S S'" "is_chained S' xi inst"
proof -
  have "search_inv ((xi, inst), S) (\<lparr>pc = X_solve xi inst MAX_COST, xs = [frame0], M_costS = 0, M_betaS = 0\<rparr>, S)"
    using assms(2-4) by (auto simp: search_inv_def frame0_def is_chained_def)
  from select_run_ok [OF assms(1) this assms(5) [unfolded S_select_chain_def]]
  show "sgood S'" "clean S'" "ckeeps S S'" "is_chained S' xi inst" by simp_all
qed

end
