(* ===== verification/Fhk_Roots.thy ===== *)
theory Fhk_Roots
  imports Fhk_Search
begin

text \<open>
  The roots of a request: what the main loop \<^verbatim>\<open>S_solve\<close> of \<^verbatim>\<open>src/src/fhk/solve.c\<close> gets from the search and from the computation of values. The locale
  \<open>preserved\<close> is interpreted for states between searches and the relation that keeps all chains, so that the loop over the
  instances of a root follows from its rules.
\<close>


section \<open>Variables that are done\<close>

definition is_failed :: "solver \<Rightarrow> int \<Rightarrow> nat \<Rightarrow> bool" where
  "is_failed S xi i \<longleftrightarrow> (\<exists>sp. sp_at S xi i = Inr sp \<and> \<not> chained sp \<and> MAX_COST \<le> sp_cost sp AND 0x7fffffff)"

lemma done_mask: "bit SP_DONEMASK n \<longleftrightarrow> n = 63 \<or> n < 31"
proof -
  have l: "(0x7fffffff :: u64) = mask 31" by (simp add: mask_eq_exp_minus_1)
  have h: "ucast SP_CHAIN = (2 ^ 31 :: u64)" by (simp add: SP_CHAIN_def)
  have "bit (push_bit 32 (2 ^ 31 :: u64)) n \<longleftrightarrow> n = 63" using bit_exp_iff_u64 [of 63 n] by (auto simp: push_bit_eq_mult)
  then show ?thesis unfolding SP_DONEMASK_def h l by (auto simp: bit_or_iff bit_mask_iff)
qed

lemma done_word:
  assumes "\<not> chained sp"
  shows "sp_u64 sp AND SP_DONEMASK = ucast (sp_cost sp AND 0x7fffffff)"
proof (rule bit_word_eqI)
  have l: "(0x7fffffff :: u32) = mask 31" by (simp add: mask_eq_exp_minus_1)
  fix n assume "n < LENGTH(64)"
  then show "bit (sp_u64 sp AND SP_DONEMASK) n = bit (ucast (sp_cost sp AND 0x7fffffff) :: u64) n"
    using assms by (auto simp: sp_flag_bits sp_u64_def bit_and_iff bit_or_iff done_mask bit_push_bit_iff bit_ucast_iff l bit_mask_iff dest: bit_imp_le_length)
qed

lemma done_cases: "SP_DONE sp \<longleftrightarrow> chained sp \<or> MAX_COST \<le> sp_cost sp AND 0x7fffffff"
proof (cases "chained sp")
  case True
  then have "bit (sp_u64 sp AND SP_DONEMASK) 63"
    by (simp add: sp_flag_bits sp_u64_def bit_and_iff bit_or_iff done_mask bit_push_bit_iff bit_ucast_iff)
  then have "bit (unat (sp_u64 sp AND SP_DONEMASK)) 63" by (simp add: bit_unsigned_iff)
  then have "odd (unat (sp_u64 sp AND SP_DONEMASK) div 2 ^ 63)" unfolding bit_iff_odd .
  then have "2 ^ 63 \<le> unat (sp_u64 sp AND SP_DONEMASK)" by (metis div_less even_zero not_le_imp_less)
  moreover have "unat SP_UMAXCOST \<le> 2 ^ 63" by (simp add: SP_UMAXCOST_def MAX_COST_def)
  ultimately show ?thesis using True by (simp add: SP_DONE_def word_le_nat_alt)
next
  case False
  show ?thesis using False by (simp add: SP_DONE_def done_word [OF False] SP_UMAXCOST_def word_le_nat_alt unsigned_ucast_eq)
qed

section \<open>Roots\<close>

interpretation ck: preserved "\<lambda>S. sgood S \<and> clean S" ckeeps
  by unfold_locales (auto intro: ckeeps_trans)

lemma near_ck: "nr.pres st S r \<Longrightarrow> ck.pres st S r"
  using near_keeps clean_near by (auto simp: nr.pres_def ck.pres_def)

lemma root_chain_pres:
  assumes "caller_good E"
  shows "ck.pres (\<lambda>S. S) S (andThen (sp_at S xi inst) (\<lambda>sp. if \<not> SP_DONE sp then S_select_chain E fuel S xi inst else Inr S))"
proof (rule ck.pres_then)
  fix sp assume sp: "sp_at S xi inst = Inr sp"
  show "ck.pres (\<lambda>S. S) S (if \<not> SP_DONE sp then S_select_chain E fuel S xi inst else Inr S)"
  proof (cases "SP_DONE sp")
    case False
    then have "\<not> is_chained S xi inst" using sp done_cases [of sp] by (simp add: is_chained_def)
    then have "ck.pres (\<lambda>S. S) S (S_select_chain E fuel S xi inst)" using select_chain_ok [OF assms] by (intro ck.presI) blast
    then show ?thesis using False by simp
  qed simp
qed

definition handled :: "solver \<Rightarrow> int \<Rightarrow> nat \<Rightarrow> bool" where
  "handled S xi i \<longleftrightarrow> is_chained S xi i \<or> (\<exists>T. ckeeps T S \<and> is_failed T xi i)"

lemma root_chain_done:
  assumes "caller_good E" "sgood S" "clean S"
    "andThen (sp_at S xi inst) (\<lambda>sp. if \<not> SP_DONE sp then S_select_chain E fuel S xi inst else Inr S) = Inr S'"
  shows "handled S' xi inst"
proof -
  obtain sp where sp: "sp_at S xi inst = Inr sp" "(if \<not> SP_DONE sp then S_select_chain E fuel S xi inst else Inr S) = Inr S'"
    using assms(4) by (auto simp: andThen_Inr)
  show ?thesis
  proof (cases "SP_DONE sp")
    case True
    then have "S' = S" "is_chained S xi inst \<or> is_failed S xi inst" using sp done_cases [of sp] by (auto simp: is_chained_def is_failed_def)
    then show ?thesis using ckeeps_refl by (auto simp: handled_def)
  next
    case False
    then have "\<not> is_chained S xi inst" using sp(1) done_cases [of sp] by (simp add: is_chained_def)
    then show ?thesis using select_chain_ok(4) [OF assms(1-3)] sp(2) False by (auto simp: handled_def)
  qed
qed

lemma handled_keeps: "handled S xi i \<Longrightarrow> ckeeps S S' \<Longrightarrow> handled S' xi i"
  using ckeeps_chained ckeeps_trans unfolding handled_def by blast

lemma solve_chain_ok:
  assumes cg: "caller_good E" and ok: "sgood S" "clean S" and r: "r_flags r AND ROOT_GIVEN = 0" "\<not> V_GIVEN (gvar (s_G S) (r_xi r))"
    and run: "solve_chain E fuel r S = Inr S'"
  shows "sgood S'" "clean S'" "ckeeps S S'" "\<forall>i \<in> set (root_insts r). handled S' (r_xi r) i"
proof -
  let ?f = "\<lambda>inst S. andThen (sp_at S (r_xi r) inst) (\<lambda>sp. if \<not> SP_DONE sp then S_select_chain E fuel S (r_xi r) inst else Inr S)"
  obtain S1 where S1: "S_vexpandsp E S (r_xi r) = Inr S1" "each ?f (root_insts r) S1 = Inr S'"
    using run r(1) by (auto simp: solve_chain_def andThen_Inr)
  have n: "sgood S1" "near S S1" using nr.presD [OF pres_vexpandsp [OF cg r(2)] ok(1) S1(1)] by auto
  have c: "clean S1" by (rule clean_near [OF n(2) ok])
  have p: "sgood S' \<and> clean S'" "ckeeps S1 S'" using ck.presD [OF ck.pres_each _ S1(2)] root_chain_pres [OF cg] n(1) c by blast+
  then show "sgood S'" "clean S'" "ckeeps S S'" using ckeeps_trans [OF near_keeps [OF n(2)]] by blast+
  show "\<forall>i \<in> set (root_insts r). handled S' (r_xi r) i"
    by (rule ck.each_all [OF _ _ _ _ S1(2)]) (use root_chain_pres [OF cg] root_chain_done [OF cg] handled_keeps n(1) c in blast)+
qed

lemma solve_value_ok:
  assumes cg: "caller_good E" and ok: "sgood S" "clean S" and r: "r_flags r AND ROOT_GIVEN = 0" "\<forall>i \<in> set (root_insts r). is_chained S (r_xi r) i"
    and run: "solve_value E fuel r S = Inr S'"
  shows "sgood S'" "clean S'" "near S S'" "\<forall>i \<in> set (root_insts r). \<exists>sp. sp_at S' (r_xi r) i = Inr sp \<and> valued sp"
proof -
  let ?f = "\<lambda>inst S. andThen (sp_at S (r_xi r) inst) (\<lambda>sp. if \<not> sp_has (sp_state sp) SP_VALUE then S_compute_value E fuel S (r_xi r) inst else Inr S)"
  have run: "each ?f (root_insts r) S = Inr S'" using run r(1) by (simp add: solve_value_def)
  have okc: "sgood S \<and> closed S" using ok clean_closed by blast
  have ch: "is_chained T (r_xi r) i" if "i \<in> set (root_insts r)" "near S T" for T i using r(2) that chained_near(1) [OF that(2)] by simp
  have p: "cl.pres (\<lambda>S. S) T (?f i T)" if "i \<in> set (root_insts r)" "near S T" for T i
    using compute_value_pres [OF cg ch [OF that]] by (intro cl.pres_then) simp
  show n: "sgood S'" "near S S'" using cl.presD [OF cl.pres_each okc run] p by blast+
  then show "clean S'" using clean_near ok by blast
  show "\<forall>i \<in> set (root_insts r). \<exists>sp. sp_at S' (r_xi r) i = Inr sp \<and> valued sp"
  proof (rule cl.each_all [OF _ _ _ okc run])
    fix i T T' assume i: "i \<in> set (root_insts r)" and T: "sgood T \<and> closed T" "near S T" "?f i T = Inr T'"
    show "\<exists>sp. sp_at T' (r_xi r) i = Inr sp \<and> valued sp"
      using T(1,3) compute_value_valued [OF cg _ _ ch [OF i T(2)]] by (auto simp: andThen_Inr valued_def split: if_splits)
  next
    fix i T T' assume "\<exists>sp. sp_at T (r_xi r) i = Inr sp \<and> valued sp" "near T T'"
    then show "\<exists>sp. sp_at T' (r_xi r) i = Inr sp \<and> valued sp" using near_sp(1) sp_nearD by blast
  qed (use p in blast)
qed


section \<open>Properties\<close>




text \<open>
  C26. A variable whose search failed earlier, as the variable of a check for instance, counts as done: when it is requested as a root, no chain is searched,
  no error is raised, and it reaches the computation of its value without a chain.
\<close>

theorem failed_root_skipped:
  assumes "is_failed S (r_xi r) (unat (r_inst r))" "r_flags r AND ROOT_GIVEN = 0" "unat (r_end r) \<le> unat (r_inst r) + 1"
  shows "solve_chain E fuel r S = Inr S \<and> \<not> is_chained S (r_xi r) (unat (r_inst r))"
proof -
  obtain sp where sp: "sp_at S (r_xi r) (unat (r_inst r)) = Inr sp" "\<not> chained sp" "MAX_COST \<le> sp_cost sp AND 0x7fffffff"
    using assms(1) by (auto simp: is_failed_def)
  have "S_vexpandsp E S (r_xi r) = Inr S" using sp(1) by (auto simp: S_vexpandsp_def sp_at_def)
  moreover have "root_insts r = [unat (r_inst r)]" using assms(3) by (simp add: root_insts_def max_def)
  moreover have "SP_DONE sp" using sp(3) by (simp add: done_cases)
  ultimately show ?thesis using sp assms(2) by (simp add: solve_chain_def is_chained_def)
qed

section \<open>Witnesses\<close>

lemma fadd_neg0: "is_cost x \<Longrightarrow> fadd 0x80000000 x = x" "is_cost x \<Longrightarrow> fadd x 0x80000000 = x"
proof -
  assume c: "is_cost x"
  have z: "\<not> f32_nan 0x80000000" "\<not> f32_inf 0x80000000" "f32_sval 0x80000000 = 0" by (simp_all add: f32_sval_def f32_val_def f32_defs)
  have x: "f32_sval x = int (f32_val (unat x))" "\<not> f32_nan x" "\<not> f32_neg x" "f32_inf x \<longleftrightarrow> x = INFINITY" using c by (simp_all add: f32_sval_def cost_simps)
  have r: "rnd (f32_val (unat x)) 1 = unat x" by (rule rnd_val)
  have 0: "x = 0" if "f32_val (unat x) = 0" using r that by (simp add: unat_eq_zero)
  have "f32_round False (f32_val (unat x)) 1 = x" using f32_round_pos(2) [of "f32_val (unat x)" 1] r c by (simp add: word_unat_eq_iff is_cost_unat)
  then show "fadd 0x80000000 x = x" "fadd x 0x80000000 = x" using z x 0 by (auto simp: fadd_def f32_make_def)
qed

text \<open>Two variables in one group with one instance; the model of the first has the second as its parameter.\<close>

definition chain_graph :: fhk_graph where
  "chain_graph = \<lparr>g_models = [
       \<lparr>m_params = [\<lparr>e_idx = 1, e_map = MAP_IDENT, e_ex = 0\<rparr>], m_shadows = [], m_returns = [\<lparr>e_idx = 0, e_map = MAP_IDENT, e_ex = 1\<rparr>],
        m_group = 0, m_cparam = 1, m_flags = 0, m_k = 0, m_c = ONE, m_ki = 0x80000000, m_ci = ONE, m_cmin = 0\<rparr>,
       \<lparr>m_params = [], m_shadows = [], m_returns = [\<lparr>e_idx = 1, e_map = MAP_IDENT, e_ex = 0\<rparr>],
        m_group = 0, m_cparam = 0, m_flags = 0, m_k = 0, m_c = ONE, m_ki = 0x80000000, m_ci = ONE, m_cmin = 0\<rparr>],
     g_vars = [\<lparr>v_models = [\<lparr>e_idx = - 1, e_map = MAP_IDENT, e_ex = 0\<rparr>], v_fwds = [], v_group = 0, v_size = 4\<rparr>,
               \<lparr>v_models = [\<lparr>e_idx = - 2, e_map = MAP_IDENT, e_ex = 0\<rparr>], v_fwds = [], v_group = 0, v_size = 4\<rparr>],
     g_shadows = [], g_ng = 1, g_nkmap = 1, g_nimap = 0, g_umap_assoc = []\<rparr>"

definition chain_at :: "ssp \<Rightarrow> ssp \<Rightarrow> ssp \<Rightarrow> ssp \<Rightarrow> solver" where
  "chain_at a b p q = \<lparr>s_G = chain_graph,
     s_mstate = (\<lambda>_. None)(- 1 \<mapsto> [p], - 2 \<mapsto> [q]),
     s_xstate = (\<lambda>_. XNull)(0 := XSsp [a], 1 := XSsp [b]),
     s_value = (\<lambda>_. 0), s_mapstate = (\<lambda>_. KMap SS_UNDEF)(0 := KMap (SS_PKIVAL 0 1)), b_off = 0, b_mem = [], s_arena = api_arena,
     r_size = 0, r_buf = [], bm0_size = 0, bm0_intern = [], e_status = None, s_mem = (\<lambda>_. 0)\<rparr>"

abbreviation sp0 :: ssp where "sp0 \<equiv> \<lparr>sp_cost = 0, sp_state = 0\<rparr>"

lemma chain_at_simps [simp]:
  "s_G (chain_at a b p q) = chain_graph"
  "sp_at (chain_at a b p q) 0 0 = Inr a" "sp_at (chain_at a b p q) 1 0 = Inr b" "sp_at (chain_at a b p q) 0 (Suc i) = Inl Fault"
  "sp_at (chain_at a b p q) 1 (Suc i) = Inl Fault" "x \<noteq> 0 \<Longrightarrow> x \<noteq> 1 \<Longrightarrow> sp_at (chain_at a b p q) x i = Inl Fault"
  "msp_at (chain_at a b p q) (- 1) 0 = Inr p" "msp_at (chain_at a b p q) (- 2) 0 = Inr q"
  "set_sp (chain_at a b p q) 0 0 v = chain_at v b p q" "set_sp (chain_at a b p q) 1 0 v = chain_at a v p q"
  "set_msp (chain_at a b p q) (- 1) 0 v = chain_at a b v q" "set_msp (chain_at a b p q) (- 2) 0 v = chain_at a b p v"
  by (auto simp: chain_at_def sp_at_def msp_at_def ssp_get_def checked_def set_sp_def set_msp_def)

lemma chain_graph_simps [simp]:
  "var_at (chain_at a b p q) 0 = Inr (gvar chain_graph 0)" "var_at (chain_at a b p q) 1 = Inr (gvar chain_graph 1)"
  "model_at (chain_at a b p q) (- 1) = Inr (gmodel chain_graph (- 1))" "model_at (chain_at a b p q) (- 2) = Inr (gmodel chain_graph (- 2))"
  "v_models (gvar chain_graph 0) = [\<lparr>e_idx = - 1, e_map = MAP_IDENT, e_ex = 0\<rparr>]" "v_models (gvar chain_graph 1) = [\<lparr>e_idx = - 2, e_map = MAP_IDENT, e_ex = 0\<rparr>]"
  "m_params (gmodel chain_graph (- 1)) = [\<lparr>e_idx = 1, e_map = MAP_IDENT, e_ex = 0\<rparr>]" "m_params (gmodel chain_graph (- 2)) = []"
  "m_cparam (gmodel chain_graph (- 1)) = 1" "m_cparam (gmodel chain_graph (- 2)) = 0"
  "m_shadows (gmodel chain_graph (- 1)) = []" "m_shadows (gmodel chain_graph (- 2)) = []" "midx chain_graph (- 1)" "midx chain_graph (- 2)"
  by (simp_all add: var_at_def model_at_def checked_def chain_graph_def vidx_def midx_def gvar_def gmodel_def)

lemma max_is_cost [simp]: "is_cost MAX_COST" by (simp add: is_cost_def MAX_COST_def INFINITY_def)

lemma chain_costs [simp]:
  "m_costf (gmodel chain_graph (- 1)) 0 = 0" "m_costf (gmodel chain_graph (- 2)) 0 = 0"
  "m_costf_invS (gmodel chain_graph (- 1)) MAX_COST = MAX_COST" "m_costf_invS (gmodel chain_graph (- 2)) MAX_COST = MAX_COST"
  "fsub MAX_COST 0 = MAX_COST" "flt 0 0 = False" "flt MAX_COST 0 = False" "fmin MAX_COST INFINITY = MAX_COST" "fmin INFINITY 0 = 0" "fmax INFINITY 0 = INFINITY" "flt 0 INFINITY"
  "fmax 0 0 = 0"
  by (simp_all add: m_costf_def m_costf_invS_def costf_def chain_graph_def gmodel_def fmul_ONE fadd_neg0 fsub_def fneg_def flt_cost fmin_def fmax_def
      MAX_COST_def INFINITY_def is_cost_def)

lemma chain_expand [simp]:
  "S_vexpandbe E (chain_at a b p q) 0 0 = Inr (chain_at a b p q)" "S_vexpandbe E (chain_at a b p q) 1 0 = Inr (chain_at a b p q)"
  "S_mexpandbe E (chain_at a b p q) (- 1) 0 = Inr (chain_at a b p q)" "S_mexpandbe E (chain_at a b p q) (- 2) 0 = Inr (chain_at a b p q)"
proof -
  have m: "S_expandmap E S MAP_IDENT i = Inr S" for S i by (simp add: S_expandmap_def)
  have x: "S_mexpandsp E (chain_at a b p q) (- 1) = Inr (chain_at a b p q)" "S_mexpandsp E (chain_at a b p q) (- 2) = Inr (chain_at a b p q)"
    "S_vexpandsp E (chain_at a b p q) 1 = Inr (chain_at a b p q)" by (simp_all add: S_mexpandsp_def S_vexpandsp_def chain_at_def)
  show "S_vexpandbe E (chain_at a b p q) 0 0 = Inr (chain_at a b p q)" "S_vexpandbe E (chain_at a b p q) 1 0 = Inr (chain_at a b p q)"
    "S_mexpandbe E (chain_at a b p q) (- 1) 0 = Inr (chain_at a b p q)" "S_mexpandbe E (chain_at a b p q) (- 2) 0 = Inr (chain_at a b p q)"
    by (simp_all add: S_vexpandbe_def S_mexpandbe_def m x checked_def)
qed

lemma chain_iter [simp]: "mapE_ssiter S MAP_IDENT 0 = Inr (Some 0)" "S_next S 0 = Inr None" "SI_INST 0 = 0"
  by (simp_all add: mapE_ssiter_def S_next_def SI_NEXT_def SI_INST_def)

lemma chain_flags [simp]:
  "\<not> sp_has 0 SP_EXPANDED" "\<not> sp_has 0 SP_CHAIN" "sp_has SP_EXPANDED SP_EXPANDED" "\<not> sp_has SP_EXPANDED SP_CHAIN" "\<not> SP_MARKED sp0"
  by (simp_all add: sp_has_def SP_EXPANDED_def SP_CHAIN_def SP_MARKED_def)

lemmas select_defs = select_step_def x_solve_def x_chosen_def candidate_def shadow_def sel_params_def param_def param_si_def param_next_def chain_solved_def
  onX_def frame0_def MAX_STK_def MAX_CANDSTK_def scan_one_def pedge_at_def m_of_def next_param_def set_cost_def Let_def checked_def

lemma run_step:
  "select_run E f root (Suc n) c S = (if pc c = Return then Inr S else case select_step E f root c S of Inl e \<Rightarrow> Inl e | Inr (c1, S1) \<Rightarrow> select_run E f root n c1 S1)"
  by (subst select_run.simps) (auto simp: andThen_def split: sum.split)

lemma chain_runs: "\<exists>S'. select_run api_env (Suc f) (0, 0) 20 \<lparr>pc = X_solve 0 0 MAX_COST, xs = [frame0], M_costS = 0, M_betaS = 0\<rparr> (chain_at sp0 sp0 sp0 sp0) = Inr S'"
  by (simp add: eval_nat_numeral run_step select_defs)


lemma chain_sgood: "sgood (chain_at a b p q)"
proof -
  let ?S = "chain_at a b p q"
  have sh: "shape_of ?S 0 = Some 1" "SS_PKIVAL 0 1 \<noteq> SS_UNDEF" using pkival_unpack [of 1 0] by (simp_all add: shape_of_def chain_at_def)
  have "space_word (SS_PKIVAL 0 1)" unfolding space_word_def by (intro disjI2 exI [of _ "1 :: nat"]) simp
  then have "smap_ok ?S 0" by (simp add: smap_ok_def chain_at_def)
  then have "smap_ok ?S m" if "0 \<le> m" "m < 1" for m using that by (cases "m = 0") simp_all
  moreover have "slot_ok ?S xi" for xi
  proof -
    have f: "vidx chain_graph 0" "vidx chain_graph 1" "v_group (gvar chain_graph 0) = 0" "v_group (gvar chain_graph 1) = 0"
      by (simp_all add: vidx_def chain_graph_def gvar_def)
    have t: "s_xstate ?S 0 = XSsp [a]" "s_xstate ?S 1 = XSsp [b]" by (simp_all add: chain_at_def)
    consider "xi = 0" | "xi = 1" | "\<not> vidx chain_graph xi" "s_xstate ?S xi = XNull" by (cases "xi = 0"; cases "xi = 1") (auto simp: vidx_def chain_graph_def chain_at_def)
    then show ?thesis by cases (simp_all add: slot_ok_def f t sh(1) V_GIVEN_def)
  qed
  moreover have "mslot_ok ?S mi" for mi
  proof -
    have f: "m_group (gmodel chain_graph (- 1)) = 0" "m_group (gmodel chain_graph (- 2)) = 0" by (simp_all add: chain_graph_def gmodel_def)
    have t: "s_mstate ?S (- 1) = Some [p]" "s_mstate ?S (- 2) = Some [q]" by (simp_all add: chain_at_def)
    consider "mi = - 1" | "mi = - 2" | "s_mstate ?S mi = None" by (cases "mi = - 1"; cases "mi = - 2") (auto simp: chain_at_def)
    then show ?thesis by cases (auto simp: mslot_ok_def f t sh(1))
  qed
  moreover have "graph_maps_ok chain_graph" by (simp add: graph_maps_ok_def chain_graph_def)
  moreover have "g_nimap chain_graph = 0" "g_nkmap chain_graph = 1" by (simp_all add: chain_graph_def)
  moreover have "r_buf ?S = []" "bm0_size ?S = 0" by (simp_all add: chain_at_def)
  ultimately have "solver_ok ?S" by (simp add: solver_ok_def)
  moreover have "plain ?S"
  proof -
    have "plain_ss (SS_PKIVAL 0 1)" unfolding plain_ss_def by (intro disjI2 exI [of _ "0 :: nat"] exI [of _ "1 :: nat"]) simp
    then show ?thesis by (auto simp: plain_def map_val_def chain_at_def split: if_splits)
  qed
  moreover have "graph_computed chain_graph"
  proof -
    have p: "cost_par 0 ONE" by (simp add: cost_par_def ONE_def INFINITY_def)
    have f: "m_k (gmodel chain_graph mi) = 0" "m_c (gmodel chain_graph mi) = ONE" "m_cmin (gmodel chain_graph mi) = 0" if "mi = - 1 \<or> mi = - 2" for mi
      using that by (auto simp: chain_graph_def gmodel_def)
    have mi: "mi = - 1 \<or> mi = - 2" if "midx chain_graph mi" for mi using that by (auto simp: midx_def chain_graph_def)
    show ?thesis unfolding graph_computed_def
    proof (intro allI impI)
      fix mi assume "midx chain_graph mi"
      then have "mi = - 1 \<or> mi = - 2" by (rule mi)
      then show "cost_par (m_k (gmodel chain_graph mi)) (m_c (gmodel chain_graph mi)) \<and> is_cost (m_cmin (gmodel chain_graph mi)) \<and>
        m_k (gmodel chain_graph mi) \<le> m_cmin (gmodel chain_graph mi) \<and> (\<forall>e \<in> set (m_shadows (gmodel chain_graph mi)). is_cost (se_penalty e)) \<and>
        (\<forall>e \<in> set (take (m_cparam (gmodel chain_graph mi)) (m_params (gmodel chain_graph mi))). \<not> V_GIVEN (gvar chain_graph (e_idx e))) \<and>
        (\<forall>e \<in> set (m_shadows (gmodel chain_graph mi)). nv chain_graph \<le> se_idx e \<and>
          (se_flags e AND W_COMPUTED \<noteq> 0 \<longrightarrow> \<not> V_GIVEN (gvar chain_graph (w_xi (gshadow chain_graph (se_idx e))))))"
        using p f by (elim disjE) (simp_all add: V_GIVEN_def)
    qed
  qed
  ultimately show ?thesis by (simp add: sgood_def)
qed

lemma chain_clean:
  assumes "sp_state a = 0" "sp_state b = 0" "is_cost (sp_cost a)" "is_cost (sp_cost b)"
  shows "clean (chain_at a b sp0 sp0)"
proof -
  have k: "m_k (gmodel chain_graph (- 1)) = 0" "m_k (gmodel chain_graph (- 2)) = 0" by (simp_all add: chain_graph_def gmodel_def)
  have "clean_sp S xi i sp" if "sp = a \<or> sp = b" for S xi i sp using assms that by (auto simp: clean_sp_def)
  moreover have "sp = a \<or> sp = b" if "sp_at (chain_at a b sp0 sp0) xi i = Inr sp" for xi i sp
    using that by (auto simp: sp_at_def chain_at_def ssp_get_def checked_def split: if_splits)
  moreover have "clean_msp (chain_at a b sp0 sp0) mi i sp" if "msp_at (chain_at a b sp0 sp0) mi i = Inr sp" for mi i sp
  proof -
    have "(mi = - 1 \<or> mi = - 2) \<and> sp = sp0" using that by (auto simp: msp_at_def chain_at_def ssp_get_def checked_def split: if_splits)
    then show ?thesis using k by (auto simp: clean_msp_def)
  qed
  ultimately show ?thesis by (simp add: clean_def)
qed

lemma api_caller_good: "caller_good api_env"
  by (simp add: caller_good_def caller_ok_def api_env_def calls.start)

text \<open>The first variable as a root.\<close>

definition chain_root :: rootv where
  "chain_root = \<lparr>r_out = 0, r_xi = 0, r_inst = 0, r_end = 1, r_flags = 0\<rparr>"

lemma chain_root_simps [simp]: "r_xi chain_root = 0" "unat (r_inst chain_root) = 0" "r_flags chain_root AND ROOT_GIVEN = 0" "unat (r_end chain_root) = 1" "root_insts chain_root = [0]"
  by (simp_all add: chain_root_def root_insts_def)

abbreviation chain0 :: solver where "chain0 \<equiv> chain_at sp0 sp0 sp0 sp0"

lemma chain_unsolved: "clean chain0" "\<not> is_chained chain0 0 0"
  by (simp_all add: chain_clean is_chained_def chained_def)


lemma chain_root_runs: "\<exists>S'. solve_chain api_env 20 chain_root chain0 = Inr S' \<and> S_select_chain api_env 20 chain0 0 0 = Inr S'"
proof -
  obtain S' where S': "S_select_chain api_env 20 chain0 0 0 = Inr S'" using chain_runs [of 19] by (auto simp: S_select_chain_def)
  have "\<not> SP_DONE sp0" by (simp add: done_cases chained_def MAX_COST_def)
  moreover have "S_vexpandsp api_env chain0 0 = Inr chain0" by (simp add: S_vexpandsp_def) (simp add: chain_at_def)
  ultimately show ?thesis using S' by (simp add: solve_chain_def)
qed



theorem failed_root_skipped_witness:
  "solve_chain api_env 20 chain_root (chain_at \<lparr>sp_cost = INFINITY, sp_state = SP_EXPANDED\<rparr> sp0 sp0 sp0) =
     Inr (chain_at \<lparr>sp_cost = INFINITY, sp_state = SP_EXPANDED\<rparr> sp0 sp0 sp0)"
proof -
  have "is_failed (chain_at \<lparr>sp_cost = INFINITY, sp_state = SP_EXPANDED\<rparr> sp0 sp0 sp0) (r_xi chain_root) (unat (r_inst chain_root))"
    by (simp add: is_failed_def chained_def MAX_COST_def INFINITY_def)
  from failed_root_skipped [OF this] show ?thesis by simp
qed

end
