(* ===== verification/Fff_Signature.thy ===== *)
theory Fff_Signature
  imports Fhk_Def "HOL-Library.Sublist"
begin

text \<open>
  Signatures of foreign functions, \<^verbatim>\<open>src/src/fff/signature.c\<close>: the types of the parameters and of the returns of a model, written as
  names of tokens, are parsed into indices of a table of tokens. The grammar of signatures is an inductive predicate; the
  parser accepts exactly the texts of the grammar that fit, and reads back what the frontend prints.
\<close>


section \<open>Tokens and signatures\<close>

text \<open>A token is the four characters of \<^verbatim>\<open>fff_sigtoken\<close>, padded with zeros; a table of tokens ends with the token whose
  characters are all zero.\<close>

type_synonym fff_sigtoken = "char list"

definition NUL :: char where
  "NUL = CHR 0x00"

definition tok_u32_zero :: "fff_sigtoken \<Rightarrow> bool" where
  "tok_u32_zero tok \<longleftrightarrow> (\<forall>c \<in> set tok. c = NUL)"

record fff_signature =
  sg_np :: u8
  sg_nr :: u8
  sg_types :: "u8 list"

definition sizeof_types :: nat where
  "sizeof_types = nat (2 * G_MAXEDGE)"

section \<open>The parser\<close>

text \<open>The comparison of a token with the text, \<^verbatim>\<open>for(uint32_t i=0;i<sizeof(*tok);i++,t++,ss++)\<close>. The end of the text is its zero
  character, which no character of a token that the loop compares is equal to.\<close>

fun match_tok :: "fff_sigtoken \<Rightarrow> string \<Rightarrow> string option" where
  "match_tok [] ss = Some ss"
| "match_tok (t # ts) ss =
     (if t = NUL then Some ss
      else case ss of [] \<Rightarrow> None | c # cs \<Rightarrow> if t \<noteq> c then None else match_tok ts cs)"

fun find_tok :: "fff_sigtoken list \<Rightarrow> nat \<Rightarrow> string \<Rightarrow> (nat \<times> string) option" where
  "find_tok [] i ss = None"
| "find_tok (tok # def) i ss =
     (if tok_u32_zero tok then None
      else case match_tok tok ss of Some ss' \<Rightarrow> Some (i, ss') | None \<Rightarrow> find_tok def (Suc i) ss)"

definition is_sep :: "char \<Rightarrow> bool" where
  "is_sep c \<longleftrightarrow> c = CHR '' '' \<or> c = CHR '','' \<or> c = CHR 0x09 \<or> c = CHR 0x0A"

text \<open>\<open>ret\<close> tells whether \<^verbatim>\<open>n\<close> points to \<^verbatim>\<open>nr\<close>; \<^verbatim>\<open>ep\<close> is the number of types stored so far.
  The test \<^verbatim>\<open>ep == sizeof(s->types)\<close> is written with \<open>\<ge>\<close>: \<^verbatim>\<open>ep\<close> starts at 0 and grows by one behind the test.\<close>

definition incr :: "bool \<Rightarrow> fff_signature \<Rightarrow> fff_signature" where
  "incr ret s = (if ret then s\<lparr>sg_nr := sg_nr s + 1\<rparr> else s\<lparr>sg_np := sg_np s + 1\<rparr>)"

definition counter :: "bool \<Rightarrow> fff_signature \<Rightarrow> u8" where
  "counter ret s = (if ret then sg_nr s else sg_np s)"

lemma match_tok_length: "match_tok tok ss = Some ss' \<Longrightarrow> length ss' \<le> length ss"
  by (induction tok ss rule: match_tok.induct) (force split: if_splits list.splits)+

lemma find_tok_length: "find_tok def i ss = Some (j, ss') \<Longrightarrow> length ss' \<le> length ss"
  by (induction def i ss rule: find_tok.induct) (auto split: if_splits option.splits dest: match_tok_length)

function parse_loop :: "fff_sigtoken list \<Rightarrow> bool \<Rightarrow> fff_signature \<Rightarrow> string \<Rightarrow> int \<times> fff_signature" where
  "parse_loop def ret s [] = (0, s)"
| "parse_loop def ret s (c # sig) =
     (if is_sep c then parse_loop def ret s sig
      else if c = CHR ''>'' then (if ret then (-1, s) else parse_loop def True s sig)
      else case find_tok def 0 (c # sig) of
          None \<Rightarrow> (-1, s)
        | Some (j, ss) \<Rightarrow>
            if length (sg_types s) \<ge> sizeof_types then (-1, s)
            else if counter ret (incr ret s) = 0 then (-1, incr ret s)
            else parse_loop def ret ((incr ret s)\<lparr>sg_types := sg_types s @ [of_nat j]\<rparr>) ss)"
  by pat_completeness auto
termination
proof (relation "measure (\<lambda>(def, ret, s, sig). length sig + (sizeof_types - length (sg_types s)))", goal_cases)
  case (4 def ret s c sig x2 j ss)
  then show ?case by (auto simp: incr_def dest: find_tok_length)
qed auto

definition fff_parse_signature :: "string \<Rightarrow> fff_sigtoken list \<Rightarrow> int \<times> fff_signature" where
  "fff_parse_signature sig def = parse_loop def False \<lparr>sg_np = 0, sg_nr = 0, sg_types = []\<rparr> sig"

section \<open>The table of R and the text of a signature\<close>

definition sigtok :: "fff_sigtoken list" where
  "sigtok = [''f64'' @ [NUL], ''F64'' @ [NUL], ''i32'' @ [NUL], ''I32'' @ [NUL],
     ''z'' @ replicate 3 NUL, ''Z'' @ replicate 3 NUL, replicate 4 NUL]"

definition tok_name :: "fff_sigtoken \<Rightarrow> string" where
  "tok_name tok = takeWhile (\<lambda>c. c \<noteq> NUL) tok"

text \<open>The text that \<^verbatim>\<open>frontend/fff.lua\<close> makes of the types of the parameters and the returns: the names of the tokens and the
  mark \<^verbatim>\<open>>\<close>, joined by blanks (\<^verbatim>\<open>table.concat(out, " ")\<close>).\<close>

fun join_blank :: "string list \<Rightarrow> string" where
  "join_blank [] = []"
| "join_blank [w] = w"
| "join_blank (w # v # ws) = w @ CHR '' '' # join_blank (v # ws)"

definition signature_text :: "string list \<Rightarrow> string list \<Rightarrow> string" where
  "signature_text ps rs = join_blank (ps @ [''>''] @ rs)"


section \<open>The grammar\<close>

definition tok_names :: "fff_sigtoken list \<Rightarrow> string list" where
  "tok_names def = map tok_name (takeWhile (\<lambda>tok. \<not> tok_u32_zero tok) def)"

definition table_ok :: "fff_sigtoken list \<Rightarrow> bool" where
  "table_ok def \<longleftrightarrow> length (tok_names def) \<le> 256 \<and>
     list_all (\<lambda>w. w \<noteq> [] \<and> \<not> is_sep (hd w) \<and> hd w \<noteq> CHR ''>'') (tok_names def) \<and>
     (\<forall>j < length (tok_names def). \<forall>i < j. \<not> prefix (tok_names def ! i) (tok_names def ! j) \<and>
        \<not> prefix (tok_names def ! j) (tok_names def ! i))"

text \<open>What a signature may look like: names of tokens and separators in any order, with at most one mark between the types of the
  parameters and the types of the returns. The flag tells that the mark has been read.\<close>

inductive sig_of :: "fff_sigtoken list \<Rightarrow> bool \<Rightarrow> string \<Rightarrow> nat list \<Rightarrow> nat list \<Rightarrow> bool" for def where
  sig_end: "sig_of def ret [] [] []"
| sig_sep: "is_sep c \<Longrightarrow> sig_of def ret sig ps rs \<Longrightarrow> sig_of def ret (c # sig) ps rs"
| sig_mark: "sig_of def True sig [] rs \<Longrightarrow> sig_of def False (CHR ''>'' # sig) [] rs"
| sig_param: "j < length (tok_names def) \<Longrightarrow> sig_of def False sig ps rs \<Longrightarrow> sig_of def False (tok_names def ! j @ sig) (j # ps) rs"
| sig_ret: "j < length (tok_names def) \<Longrightarrow> sig_of def True sig [] rs \<Longrightarrow> sig_of def True (tok_names def ! j @ sig) [] (j # rs)"

lemma match_tok_prefix:
  "match_tok tok ss = (if prefix (tok_name tok) ss then Some (drop (length (tok_name tok)) ss) else None)"
  by (induction tok ss rule: match_tok.induct) (auto simp: tok_name_def split: list.splits)

lemma find_tok_Some:
  "find_tok def i ss = Some (j, ss') \<Longrightarrow> i \<le> j \<and> j - i < length (tok_names def) \<and> ss = tok_names def ! (j - i) @ ss'"
proof (induction def i ss rule: find_tok.induct)
  case (2 tok def i ss)
  show ?case
  proof (cases "prefix (tok_name tok) ss")
    case True
    then show ?thesis using 2(2) by (auto simp: match_tok_prefix tok_names_def prefix_def split: if_splits)
  next
    case False
    then have f: "\<not> tok_u32_zero tok" "find_tok def (Suc i) ss = Some (j, ss')"
      using 2(2) by (auto simp: match_tok_prefix split: if_splits)
    have ih: "Suc i \<le> j" "j - Suc i < length (tok_names def)" "ss = tok_names def ! (j - Suc i) @ ss'"
      using 2(1) [OF f(1) _ f(2)] False by (auto simp: match_tok_prefix)
    moreover have "j - i = Suc (j - Suc i)" using ih(1) by simp
    ultimately show ?thesis using f(1) by (simp add: tok_names_def)
  qed
qed simp

lemma find_tok_nth:
  "j < length (tok_names def) \<Longrightarrow> \<forall>k < j. \<not> prefix (tok_names def ! k) (tok_names def ! j @ ss) \<Longrightarrow>
   find_tok def i (tok_names def ! j @ ss) = Some (i + j, ss)"
proof (induction def arbitrary: i j)
  case (Cons tok def)
  show ?case
  proof (cases j)
    case 0
    then show ?thesis using Cons.prems by (auto simp: tok_names_def match_tok_prefix split: if_splits)
  next
    case (Suc k)
    then have nz: "\<not> tok_u32_zero tok" using Cons.prems(1) by (auto simp: tok_names_def split: if_splits)
    then have c: "tok_names (tok # def) = tok_name tok # tok_names def" by (simp add: tok_names_def)
    have "\<forall>l < k. \<not> prefix (tok_names def ! l) (tok_names def ! k @ ss)"
      using Cons.prems(2) Suc unfolding c by (metis Suc_less_eq nth_Cons_Suc)
    then have "find_tok def (Suc i) (tok_names def ! k @ ss) = Some (Suc i + k, ss)"
      using Cons.prems(1) Suc c by (intro Cons.IH) auto
    moreover have "\<not> prefix (tok_name tok) (tok_names def ! k @ ss)" using Cons.prems(2) Suc unfolding c by fastforce
    ultimately show ?thesis using nz Suc c by (simp add: match_tok_prefix)
  qed
qed (simp add: tok_names_def)

lemma table_first:
  assumes "table_ok def" "j < length (tok_names def)"
  shows "find_tok def 0 (tok_names def ! j @ ss) = Some (j, ss)"
proof -
  have "\<forall>k < j. \<not> prefix (tok_names def ! k) (tok_names def ! j @ ss)"
    using assms unfolding table_ok_def by (metis append_prefixD prefix_append prefix_order.refl prefix_same_cases prefixI)
  then show ?thesis using find_tok_nth [OF assms(2), of ss 0] by simp
qed

lemma table_name:
  assumes "table_ok def" "j < length (tok_names def)"
  obtains c cs where "tok_names def ! j = c # cs" "\<not> is_sep c" "c \<noteq> CHR ''>''"
  using assms unfolding table_ok_def list_all_length by (metis list.exhaust_sel)

section \<open>The parser accepts the grammar\<close>

definition sig_inv :: "fff_signature \<Rightarrow> bool" where
  "sig_inv s \<longleftrightarrow> unat (sg_np s) + unat (sg_nr s) = length (sg_types s) \<and> length (sg_types s) \<le> sizeof_types"

definition sig_add :: "fff_signature \<Rightarrow> nat list \<Rightarrow> nat list \<Rightarrow> fff_signature" where
  "sig_add s ps rs = \<lparr>sg_np = sg_np s + of_nat (length ps), sg_nr = sg_nr s + of_nat (length rs),
     sg_types = sg_types s @ map of_nat (ps @ rs)\<rparr>"

definition sig_push :: "bool \<Rightarrow> nat \<Rightarrow> fff_signature \<Rightarrow> fff_signature" where
  "sig_push ret j s = (incr ret s)\<lparr>sg_types := sg_types s @ [of_nat j]\<rparr>"

lemma sizeof_types_val: "sizeof_types = 254"
  by (simp add: sizeof_types_def G_MAXEDGE_def)

lemma unat_Suc8: "unat (x :: u8) < 255 \<Longrightarrow> unat (x + 1) = unat x + 1"
  by (subst unat_add_small) auto

lemma counter_incr_nonzero:
  assumes "sig_inv s"
  shows "counter ret (incr ret s) \<noteq> 0"
proof -
  have "unat (counter ret s) < 255" using assms by (auto simp: sig_inv_def sizeof_types_val counter_def)
  then have "unat (counter ret s + 1) \<noteq> 0" by (simp add: unat_Suc8)
  then show ?thesis by (auto simp: counter_def incr_def)
qed

lemma sig_inv_push:
  "sig_inv s \<Longrightarrow> length (sg_types s) < sizeof_types \<Longrightarrow> sig_inv (sig_push ret j s)"
  by (auto simp: sig_inv_def sig_push_def incr_def sizeof_types_val unat_Suc8)

lemma parse_token:
  assumes "table_ok def" "sig_inv s" "j < length (tok_names def)"
  shows "parse_loop def ret s (tok_names def ! j @ sig) =
     (if length (sg_types s) < sizeof_types then parse_loop def ret (sig_push ret j s) sig else (-1, s))"
proof -
  obtain c cs where c: "tok_names def ! j = c # cs" "\<not> is_sep c" "c \<noteq> CHR ''>''" by (rule table_name [OF assms(1,3)])
  have "find_tok def 0 (c # cs @ sig) = Some (j, sig)" using table_first [OF assms(1,3), of sig] c(1) by simp
  then show ?thesis using c counter_incr_nonzero [OF assms(2), of ret] by (simp add: sig_push_def)
qed

lemma sig_add_push:
  "sig_add (sig_push False j s) ps rs = sig_add s (j # ps) rs"
  "sig_add (sig_push True j s) [] rs = sig_add s [] (j # rs)"
  by (simp_all add: sig_add_def sig_push_def incr_def algebra_simps)

lemma length_push [simp]: "length (sg_types (sig_push ret j s)) = Suc (length (sg_types s))"
  by (simp add: sig_push_def)

lemma parse_accepts:
  assumes "table_ok def" "sig_of def ret sig ps rs" "sig_inv s"
  shows "if length (sg_types s) + length ps + length rs \<le> sizeof_types
     then parse_loop def ret s sig = (0, sig_add s ps rs) else fst (parse_loop def ret s sig) = -1"
  using assms(2,3)
proof (induction arbitrary: s)
  case (sig_end ret)
  then show ?case by (simp add: sig_add_def sig_inv_def)
next
  case (sig_param j sig ps rs)
  then show ?case using sig_param.IH [OF sig_inv_push [OF sig_param.prems, of False j]]
    by (simp add: parse_token [OF assms(1)] sig_add_push)
next
  case (sig_ret j sig rs)
  then show ?case using sig_ret.IH [OF sig_inv_push [OF sig_ret.prems, of True j]]
    by (simp add: parse_token [OF assms(1)] sig_add_push)
qed (simp_all add: is_sep_def)

lemma sig_of_ret: "sig_of def ret sig ps rs \<Longrightarrow> ret \<Longrightarrow> ps = []"
  by (induction rule: sig_of.induct) auto

lemma sig_of_token:
  assumes "sig_of def ret sig ps rs" "j < length (tok_names def)"
  shows "\<exists>ps rs. sig_of def ret (tok_names def ! j @ sig) ps rs"
proof (cases ret)
  case True
  then have "sig_of def True sig [] rs" using assms sig_of_ret [OF assms(1)] by simp
  then show ?thesis using True assms(2) by (auto intro: sig_ret)
next
  case False
  then show ?thesis using assms by (auto intro: sig_param)
qed

lemma parse_sound: "parse_loop def ret s sig = (0, s') \<Longrightarrow> \<exists>ps rs. sig_of def ret sig ps rs"
proof (induction def ret s sig arbitrary: s' rule: parse_loop.induct)
  case (2 def ret s c sig)
  consider "is_sep c" | "\<not> is_sep c" "c = CHR ''>''" | j ss where "\<not> is_sep c" "c \<noteq> CHR ''>''" "find_tok def 0 (c # sig) = Some (j, ss)"
    using "2.prems" by (auto split: if_splits option.splits)
  then show ?case
  proof cases
    case 1
    then show ?thesis using 2(1) "2.prems" by (fastforce intro: sig_sep)
  next
    case 2
    then have "\<not> ret" "parse_loop def True s sig = (0, s')" using "2.prems" by (auto split: if_splits)
    then obtain ps rs where "sig_of def True sig ps rs" using "2.IH"(2) 2 by blast
    then have "sig_of def True sig [] rs" using sig_of_ret [OF _ TrueI] by auto
    then show ?thesis using \<open>\<not> ret\<close> 2 by (auto intro: sig_mark)
  next
    case 3
    then obtain s1 where "parse_loop def ret s1 ss = (0, s')" "\<exists>ps rs. sig_of def ret ss ps rs"
      using "2.prems" "2.IH"(3) [OF 3 refl] by (auto split: if_splits)
    then show ?thesis using sig_of_token find_tok_Some [OF 3(3)] by force
  qed
qed (auto intro: sig_of.intros)

lemma parse_rc: "fst (parse_loop def ret s sig) \<in> {0, -1}"
  by (induction def ret s sig rule: parse_loop.induct) (auto split: option.splits)

text \<open>
  C13. The parser of signatures accepts exactly the grammar. For a table of tokens where no name is a prefix of
  another, a text of the grammar with at most 254 types is parsed into the number of parameters, the number of returns and the
  indices of the tokens, in order; a longer text of the grammar and a text outside of the grammar give -1. The counters of 8 bits never wrap.
\<close>

theorem parse_signature_iff:
  assumes "table_ok def"
  shows "(fff_parse_signature sig def = (0, s) \<longleftrightarrow>
     (\<exists>ps rs. sig_of def False sig ps rs \<and> length ps + length rs \<le> 254 \<and>
        unat (sg_np s) = length ps \<and> unat (sg_nr s) = length rs \<and> sg_types s = map of_nat (ps @ rs))) \<and>
     (fst (fff_parse_signature sig def) = 0 \<or> fst (fff_parse_signature sig def) = -1)"
proof -
  let ?s = "\<lparr>sg_np = 0, sg_nr = 0, sg_types = []\<rparr>"
  have i: "sig_inv ?s" by (simp add: sig_inv_def)
  have small: "unat (of_nat n :: u8) = n" if "n \<le> 254" for n using that by (intro unat_of_nat_small) simp
  have p: "fff_parse_signature sig def = (0, s) \<longleftrightarrow> length ps + length rs \<le> 254 \<and>
        unat (sg_np s) = length ps \<and> unat (sg_nr s) = length rs \<and> sg_types s = map of_nat (ps @ rs)"
    if "sig_of def False sig ps rs" for ps rs
    using parse_accepts [OF assms that i]
    by (cases s) (auto simp: fff_parse_signature_def sizeof_types_val sig_add_def small word_unat_eq_iff split: if_splits)
  have "\<exists>ps rs. sig_of def False sig ps rs" if "fff_parse_signature sig def = (0, s)"
    using that parse_sound unfolding fff_parse_signature_def by blast
  moreover have "fst (fff_parse_signature sig def) = 0 \<or> fst (fff_parse_signature sig def) = -1"
    using parse_rc [of def False ?s sig] by (auto simp: fff_parse_signature_def)
  ultimately show ?thesis using p by blast
qed

lemma sigtok_names: "tok_names sigtok = [''f64'', ''F64'', ''i32'', ''I32'', ''z'', ''Z'']"
  by code_simp

lemma sigtok_ok: "table_ok sigtok"
  unfolding table_ok_def sigtok_names by code_simp

lemma demo_sig: "sig_of sigtok False ''f64,Z > i32'' [0, 5] [2]"
proof -
  have "sig_of sigtok True ''i32'' [] [2]" using sig_ret [of 2 sigtok "[]", OF _ sig_end] by (simp add: sigtok_names)
  then have "sig_of sigtok False '' > i32'' [] [2]" by (simp add: sig_sep sig_mark is_sep_def)
  then have "sig_of sigtok False ''Z > i32'' [5] [2]" using sig_param [of 5 sigtok "'' > i32''"] by (simp add: sigtok_names)
  then have "sig_of sigtok False '',Z > i32'' [5] [2]" by (simp add: sig_sep is_sep_def)
  then show ?thesis using sig_param [of 0 sigtok "'',Z > i32''"] by (simp add: sigtok_names)
qed

theorem parse_signature_iff_witness:
  "fff_parse_signature ''f64,Z > i32'' sigtok = (0, \<lparr>sg_np = 2, sg_nr = 1, sg_types = [0, 5, 2]\<rparr>)"
  unfolding parse_signature_iff [OF sigtok_ok, THEN conjunct1] by (intro exI conjI, rule demo_sig) simp_all

section \<open>Print and parse\<close>

lemma join_blank_Cons: "join_blank (w # ws) = w @ (if ws = [] then [] else CHR '' '' # join_blank ws)"
  by (cases ws) auto

lemma sig_of_returns:
  "list_all (\<lambda>j. j < length (tok_names def)) rs \<Longrightarrow> sig_of def True (join_blank (map ((!) (tok_names def)) rs)) [] rs"
proof (induction rs)
  case (Cons j rs)
  then show ?case by (auto simp: join_blank_Cons is_sep_def intro: sig_ret [of j def "[]", simplified] sig_end intro!: sig_ret sig_sep)
qed (auto intro: sig_end)

lemma sig_of_text:
  assumes "list_all (\<lambda>j. j < length (tok_names def)) ps" "list_all (\<lambda>j. j < length (tok_names def)) rs"
  shows "sig_of def False (signature_text (map ((!) (tok_names def)) ps) (map ((!) (tok_names def)) rs)) ps rs"
  using assms(1)
proof (induction ps)
  case Nil
  then show ?case using sig_of_returns [OF assms(2)]
    by (auto simp: signature_text_def join_blank_Cons is_sep_def intro!: sig_mark intro: sig_end sig_sep)
next
  case (Cons j ps)
  then show ?case by (auto simp: signature_text_def join_blank_Cons is_sep_def intro!: sig_param sig_sep)
qed

text \<open>
  C30. Round trip. The text that the frontend makes of lists of types is parsed back into these types, as long as there are at most
  254 of them; a longer list is refused.
\<close>

theorem signature_roundtrip:
  assumes "table_ok def" "list_all (\<lambda>j. j < length (tok_names def)) (ps @ rs)"
  shows "if length ps + length rs \<le> 254
     then fff_parse_signature (signature_text (map ((!) (tok_names def)) ps) (map ((!) (tok_names def)) rs)) def =
       (0, \<lparr>sg_np = of_nat (length ps), sg_nr = of_nat (length rs), sg_types = map of_nat (ps @ rs)\<rparr>)
     else fst (fff_parse_signature (signature_text (map ((!) (tok_names def)) ps) (map ((!) (tok_names def)) rs)) def) = -1"
  using parse_accepts [OF assms(1) sig_of_text, of ps rs "\<lparr>sg_np = 0, sg_nr = 0, sg_types = []\<rparr>"] assms(2)
  by (auto simp: fff_parse_signature_def sig_inv_def sig_add_def sizeof_types_val)

theorem signature_roundtrip_witness:
  "fff_parse_signature ''f64 Z > i32'' sigtok = (0, \<lparr>sg_np = 2, sg_nr = 1, sg_types = [0, 5, 2]\<rparr>)"
  using signature_roundtrip [OF sigtok_ok, of "[0, 5]" "[2]"] by (simp add: sigtok_names signature_text_def)

end
