(* ===== verification/Fff_R.thy ===== *)
theory Fff_R
  imports Fff_Signature M2_Mem
begin

text \<open>
  Foreign functions in R, \<^verbatim>\<open>src/src/fff/ff_R.c\<close>, with the state and the errors of \<^verbatim>\<open>src/src/fff/state.c\<close> and
  \<^verbatim>\<open>src/src/fff/err.c\<close>. The interpreter is a parameter. An undefined access and \<^verbatim>\<open>UNREACHABLE\<close> are \<open>None\<close>; assertions are compiled out.
  R is the only language of the build: the sources have no functions for Lua. The protection of values from R's collector is not modelled.
\<close>


section \<open>Errors and state\<close>

definition FFF_OK :: int where "FFF_OK = 0"
definition FFF_ERR_MEM :: int where "FFF_ERR_MEM = 1"
definition FFF_ERR_SIGNATURE :: int where "FFF_ERR_SIGNATURE = 2"
definition FFF_ERR_CRASH :: int where "FFF_ERR_CRASH = 3"

text \<open>Values of R, as far as the code looks into them: vectors of numbers with their type and their bytes, lists, vectors of strings, calls, and
  objects that are only passed on.\<close>

datatype sexp = RNil | RVec nat "u8 list" | RList "sexp list" | RStrings "string list" | RLang "sexp list" | RObj u64

datatype ret_mode = RET_VEC_SCALAR | RET_VEC_VEC | RET_LIST_VEC

record ff_R =
  ff_wrapper :: sexp
  ff_deanchor :: sexp
  ff_fail :: sexp
  ff_mode :: ret_mode
  ff_cv :: "u8 list"

text \<open>The functions of a state are chained by \<^verbatim>\<open>prev\<close>, the newest first; each is listed with its address, which is its handle.\<close>

record fff_state =
  ecode :: int
  emsg :: "string option"
  vm_R :: "(uptr \<times> ff_R) list"

definition fff_create :: "(usize \<Rightarrow> uptr) \<Rightarrow> usize \<Rightarrow> (uptr \<times> fff_state) option" where
  "fff_create calloc sz = (let p = calloc sz in if p = NULL then None else Some (p, \<lparr>ecode = 0, emsg = None, vm_R = []\<rparr>))"

definition fff_ecode :: "fff_state \<Rightarrow> int" where
  "fff_ecode F = ecode F"

definition fff_errmsg :: "fff_state \<Rightarrow> string option" where
  "fff_errmsg F = emsg F"

definition fff_clear_error :: "fff_state \<Rightarrow> fff_state" where
  "fff_clear_error F = F\<lparr>ecode := 0, emsg := None\<rparr>"

text \<open>\<open>vas msg\<close> tells whether \<^verbatim>\<open>vasprintf\<close> finds memory for the formatted message.\<close>

definition fff_errprintf :: "(string \<Rightarrow> bool) \<Rightarrow> fff_state \<Rightarrow> string \<Rightarrow> fff_state" where
  "fff_errprintf vas F msg = (if vas msg then F\<lparr>emsg := Some msg\<rparr> else F\<lparr>emsg := None, ecode := FFF_ERR_MEM\<rparr>)"

definition fff_errsig :: "(string \<Rightarrow> bool) \<Rightarrow> fff_state \<Rightarrow> string \<Rightarrow> fff_state" where
  "fff_errsig vas F sig = fff_errprintf vas (F\<lparr>ecode := FFF_ERR_SIGNATURE\<rparr>) (''invalid signature: '' @ sig)"

definition fff_errmem :: "(string \<Rightarrow> bool) \<Rightarrow> fff_state \<Rightarrow> fff_state" where
  "fff_errmem vas F = fff_errprintf vas (F\<lparr>ecode := FFF_ERR_MEM\<rparr>) ''failed to allocate memory''"

text \<open>\<^verbatim>\<open>%zu\<close>\<close>

fun fmt_zu :: "nat \<Rightarrow> string" where
  "fmt_zu n = (if n < 10 then [] else fmt_zu (n div 10)) @ [char_of (48 + n mod 10)]"

section \<open>The interpreter\<close>

text \<open>The C interface of R is a parameter: the numbers of its types, the evaluation of a call (\<^verbatim>\<open>R_tryEvalSilent\<close>, \<open>None\<close> when it sets
  the error flag), the evaluation of a text, the buffer of the last error, the start of the interpreter with its home and arguments, and the
  address of a value. \<open>'w\<close> is the state of the interpreter.\<close>

record 'w R_api =
  REALSXP :: nat
  INTSXP :: nat
  LGLSXP :: nat
  R_tryEval :: "'w \<Rightarrow> sexp \<Rightarrow> sexp option \<times> 'w"
  R_ParseEvalString :: "'w \<Rightarrow> string \<Rightarrow> sexp \<times> 'w"
  R_curErrorBuf :: "'w \<Rightarrow> string"
  Rf_initEmbeddedR :: "'w \<Rightarrow> string \<Rightarrow> string list \<Rightarrow> 'w"
  sexp_addr :: "sexp \<Rightarrow> u64"

text \<open>The static variables \<^verbatim>\<open>_init\<close> and \<^verbatim>\<open>r_wfunc\<close>, the variable \<^verbatim>\<open>R_HOME\<close> of the environment and the interpreter.\<close>

record 'w r_proc =
  rp_init :: bool
  rp_home :: "string option"
  rp_wfunc :: "sexp option"
  rp_world :: 'w

definition FFF_R_HOME :: string where
  "FFF_R_HOME = ''/usr/lib/R''"

definition r_init :: "'w R_api \<Rightarrow> 'w r_proc \<Rightarrow> 'w r_proc" where
  "r_init A P =
     (if rp_init P then P
      else let home = (case rp_home P of None \<Rightarrow> FFF_R_HOME | Some h \<Rightarrow> h) in
        P\<lparr>rp_init := True, rp_home := Some home,
          rp_world := Rf_initEmbeddedR A (rp_world P) home [''R'', ''--silent'', ''--slave'', ''--vanilla'', ''--gui=none'']\<rparr>)"

definition r_eval :: "'w R_api \<Rightarrow> 'w r_proc \<Rightarrow> sexp \<Rightarrow> sexp option \<times> 'w r_proc" where
  "r_eval A P call = (let (r, w) = R_tryEval A (rp_world P) call in (r, P\<lparr>rp_world := w\<rparr>))"

definition r_error :: "'w R_api \<Rightarrow> (string \<Rightarrow> bool) \<Rightarrow> 'w r_proc \<Rightarrow> fff_state \<Rightarrow> fff_state" where
  "r_error A vas P F = fff_errprintf vas F (''R error: '' @ R_curErrorBuf A (rp_world P))"

definition r_fail :: "'w R_api \<Rightarrow> 'w r_proc \<Rightarrow> ff_R \<Rightarrow> string \<Rightarrow> 'w r_proc" where
  "r_fail A P ff mes = snd (r_eval A P (RLang [ff_fail ff, RStrings [mes]]))"

text \<open>\<^verbatim>\<open>Rf_length\<close>, \<^verbatim>\<open>VECTOR_ELT\<close>, and \<^verbatim>\<open>DATAPTR\<close> as a function from offsets to bytes. A real has 8 bytes, an integer and a logical 4,
  and a list is an array of the addresses of its elements.\<close>

definition elt_size :: "'w R_api \<Rightarrow> nat \<Rightarrow> nat" where
  "elt_size A ty = (if ty = REALSXP A then 8 else 4)"

fun Rf_length :: "'w R_api \<Rightarrow> sexp \<Rightarrow> nat" where
  "Rf_length A (RVec ty bs) = length bs div elt_size A ty"
| "Rf_length A (RList xs) = length xs"
| "Rf_length A (RStrings xs) = length xs"
| "Rf_length A (RLang xs) = length xs"
| "Rf_length A RNil = 0"
| "Rf_length A (RObj _) = 1"

definition VECTOR_ELT :: "sexp \<Rightarrow> nat \<Rightarrow> sexp option" where
  "VECTOR_ELT s i = (case s of RList xs \<Rightarrow> (if i < length xs then Some (xs ! i) else None) | _ \<Rightarrow> None)"

definition le_byte :: "u64 \<Rightarrow> nat \<Rightarrow> u8" where
  "le_byte v i = ucast (drop_bit (8 * i) v)"

definition DATAPTR :: "'w R_api \<Rightarrow> sexp \<Rightarrow> nat \<Rightarrow> u8 option" where
  "DATAPTR A s i =
     (case s of
        RVec ty bs \<Rightarrow> (if i < length bs then Some (bs ! i) else None)
      | RList xs \<Rightarrow> (if i < 8 * length xs then Some (le_byte (sexp_addr A (xs ! (i div 8))) (i mod 8)) else None)
      | _ \<Rightarrow> None)"

section \<open>Conversions\<close>

definition SIG_BASE :: "u8 \<Rightarrow> u8" where "SIG_BASE s = drop_bit 1 s"
definition SIG_VECTOR :: u8 where "SIG_VECTOR = 0x1"
definition SIG_REAL :: u8 where "SIG_REAL = 0"
definition SIG_INT :: u8 where "SIG_INT = 1"
definition SIG_LGL :: u8 where "SIG_LGL = 2"

definition CV_SXP :: "nat \<Rightarrow> u8" where "CV_SXP typ = push_bit 3 (of_nat typ)"
definition CV_RAW :: "u8 \<Rightarrow> u8" where
  "CV_RAW sz = (if sz AND 0xa \<noteq> 0 then 1 else 0) OR push_bit 1 (if sz AND 0xc \<noteq> 0 then 1 else 0)"
definition CV_LGL2BOOL :: u8 where "CV_LGL2BOOL = 0x4"
definition CV_BOOL2LGL :: u8 where "CV_BOOL2LGL = 0x5"
definition CV_SEXPTYPE :: "u8 \<Rightarrow> nat" where "CV_SEXPTYPE cv = unat (drop_bit 3 cv)"
definition CV_CONV :: "u8 \<Rightarrow> u8" where "CV_CONV cv = cv AND 0x7"
definition CV_ISCONV :: "u8 \<Rightarrow> bool" where "CV_ISCONV cv \<longleftrightarrow> cv AND 0x4 \<noteq> 0"

text \<open>The copies read a source, a function from offsets to bytes that is \<open>None\<close> outside of the object, and give the bytes
  that are written from the destination on.\<close>

definition int_at :: "(nat \<Rightarrow> u8 option) \<Rightarrow> nat \<Rightarrow> u32 option" where
  "int_at src i =
     do { b0 \<leftarrow> src i; b1 \<leftarrow> src (i + 1); b2 \<leftarrow> src (i + 2); b3 \<leftarrow> src (i + 3);
          Some (ucast b0 OR push_bit 8 (ucast b1) OR push_bit 16 (ucast b2) OR push_bit 24 (ucast b3)) }"

definition r_lgl2bool :: "(nat \<Rightarrow> u8 option) \<Rightarrow> usize \<Rightarrow> u8 list option" where
  "r_lgl2bool src n = those (map (\<lambda>i. map_option (\<lambda>x. if x \<noteq> 0 then 1 else 0) (int_at src (4 * i))) [0 ..< unat n])"

definition r_bool2lgl :: "(nat \<Rightarrow> u8 option) \<Rightarrow> usize \<Rightarrow> u8 list option" where
  "r_bool2lgl src n = map_option concat (those (map (\<lambda>i. map_option (\<lambda>b. [b, 0, 0, 0]) (src i)) [0 ..< unat n]))"

definition r_copyvec :: "(nat \<Rightarrow> u8 option) \<Rightarrow> usize \<Rightarrow> u8 \<Rightarrow> u8 list option" where
  "r_copyvec src n cv =
     (if CV_ISCONV cv
      then if CV_CONV cv = CV_LGL2BOOL then r_lgl2bool src n
        else if CV_CONV cv = CV_BOOL2LGL then r_bool2lgl src n
        else None
      else those (map src [0 ..< unat (push_bit (unat (CV_CONV cv)) n)]))"

section \<open>Creating a function\<close>

text \<open>The letter of a return type for the loader; other types do not come from the table (\<^verbatim>\<open>UNREACHABLE\<close>).\<close>

definition r_letter :: "u8 \<Rightarrow> string option" where
  "r_letter t =
     do { c \<leftarrow> (if SIG_BASE t = SIG_REAL then Some CHR ''d''
               else if SIG_BASE t = SIG_INT then Some CHR ''i''
               else if SIG_BASE t = SIG_LGL then Some CHR ''z'' else None);
          Some [if t AND SIG_VECTOR \<noteq> 0 then char_of (unat ((of_char c :: u8) AND NOT 32)) else c] }"

text \<open>The function that the text of the loader evaluates to is kept in \<^verbatim>\<open>r_wfunc\<close>.\<close>

definition r_load :: "'w R_api \<Rightarrow> string \<Rightarrow> 'w r_proc \<Rightarrow> sexp \<times> 'w r_proc" where
  "r_load A LOADER P =
     (case rp_wfunc P of
        Some f \<Rightarrow> (f, P)
      | None \<Rightarrow> let (f, w) = R_ParseEvalString A (rp_world P) LOADER in (f, P\<lparr>rp_wfunc := Some f, rp_world := w\<rparr>))"

definition r_wrapper :: "'w R_api \<Rightarrow> string \<Rightarrow> 'w r_proc \<Rightarrow> string \<Rightarrow> string \<Rightarrow> fff_signature \<Rightarrow> (sexp \<times> 'w r_proc) option" where
  "r_wrapper A LOADER P file func sig =
     (let (wfunc, P1) = r_load A LOADER P in
      do { r_sig \<leftarrow> those (map r_letter (drop (unat (sg_np sig)) (sg_types sig)));
           let (wda, P2) = r_eval A P1 (RLang [wfunc, RStrings [file], RStrings [func], RStrings r_sig]);
           Some (case wda of None \<Rightarrow> RNil | Some v \<Rightarrow> v, P2) })"

definition cv_of :: "'w R_api \<Rightarrow> bool \<Rightarrow> u8 \<Rightarrow> u8 option" where
  "cv_of A is_param t =
     (if SIG_BASE t = SIG_REAL then Some (CV_SXP (REALSXP A) OR CV_RAW 8)
      else if SIG_BASE t = SIG_INT then Some (CV_SXP (INTSXP A) OR CV_RAW 4)
      else if SIG_BASE t = SIG_LGL then Some (CV_SXP (LGLSXP A) OR (if is_param then CV_BOOL2LGL else CV_LGL2BOOL))
      else None)"

definition ret_mode_of :: "u8 list \<Rightarrow> ret_mode" where
  "ret_mode_of rets =
     (if length rets = 1 then RET_VEC_VEC
      else if list_ex (\<lambda>t. t AND SIG_VECTOR \<noteq> 0) rets then RET_LIST_VEC
      else RET_VEC_SCALAR)"

definition sizeof_ff_R :: usize where
  "sizeof_ff_R = 40"

definition fffR_create ::
  "'w R_api \<Rightarrow> string \<Rightarrow> (usize \<Rightarrow> uptr) \<Rightarrow> (string \<Rightarrow> bool) \<Rightarrow> fff_state \<Rightarrow> 'w r_proc \<Rightarrow> string \<Rightarrow> string \<Rightarrow> string \<Rightarrow>
     (uptr \<times> fff_state \<times> 'w r_proc) option" where
  "fffR_create A LOADER malloc vas F P file func signature =
     (let (rc, sig) = fff_parse_signature signature sigtok;
          np = unat (sg_np sig)
      in if rc \<noteq> 0 then Some (NULL, fff_errsig vas F signature, P)
         else do {
           (wda, P1) \<leftarrow> r_wrapper A LOADER (r_init A P) file func sig;
           if wda = RNil then Some (NULL, (r_error A vas P1 F)\<lparr>ecode := FFF_ERR_CRASH\<rparr>, P1)
           else let h = malloc (sizeof_ff_R + of_nat (np + unat (sg_nr sig))) in
             if h = NULL then Some (NULL, fff_errmem vas F, P1)
             else do {
               wr \<leftarrow> VECTOR_ELT wda 0;
               de \<leftarrow> VECTOR_ELT wda 1;
               fl \<leftarrow> VECTOR_ELT wda 2;
               cv \<leftarrow> those (map (\<lambda>(i, t). cv_of A (i < np) t) (enumerate 0 (sg_types sig)));
               let ff = \<lparr>ff_wrapper = wr, ff_deanchor = de, ff_fail = fl, ff_mode = ret_mode_of (drop np (sg_types sig)), ff_cv = cv\<rparr>;
               Some (h, F\<lparr>vm_R := (h, ff) # vm_R F\<rparr>, P1)
             } })"

section \<open>Calling a function\<close>

text \<open>The description of a model call, \<^verbatim>\<open>fhk_modcall\<close>: the edges of the parameters, then those of the returns.\<close>

record mcedge =
  mc_p :: uptr
  mc_n :: usize

record modcall =
  mc_np :: u8
  mc_nr :: u8
  mc_edges :: "mcedge list"

definition at :: "'a list \<Rightarrow> nat \<Rightarrow> 'a option" where
  "at xs i = (if i < length xs then Some (xs ! i) else None)"

definition mem_at :: "(uptr \<Rightarrow> u8) \<Rightarrow> uptr \<Rightarrow> nat \<Rightarrow> u8 option" where
  "mem_at st p i = Some (st (p + of_nat i))"

definition write_bytes :: "(uptr \<Rightarrow> u8) \<Rightarrow> uptr \<Rightarrow> u8 list \<Rightarrow> uptr \<Rightarrow> u8" where
  "write_bytes st p bs = (\<lambda>a. if unat (a - p) < length bs then bs ! unat (a - p) else st a)"

text \<open>A parameter: a new vector of the type, filled by \<^verbatim>\<open>r_copyvec\<close>. Writing behind the vector is undefined.\<close>

definition call_param :: "'w R_api \<Rightarrow> (uptr \<Rightarrow> u8) \<Rightarrow> u8 \<Rightarrow> mcedge \<Rightarrow> sexp option" where
  "call_param A st cv e =
     do { bs \<leftarrow> r_copyvec (mem_at st (mc_p e)) (mc_n e) cv;
          let sz = elt_size A (CV_SEXPTYPE cv) * unat (mc_n e);
          if length bs \<le> sz then Some (RVec (CV_SEXPTYPE cv) (bs @ replicate (sz - length bs) 0)) else None }"

definition call_params :: "'w R_api \<Rightarrow> (uptr \<Rightarrow> u8) \<Rightarrow> ff_R \<Rightarrow> modcall \<Rightarrow> sexp list option" where
  "call_params A st ff mc =
     those (map (\<lambda>i. do { cv \<leftarrow> at (ff_cv ff) i; e \<leftarrow> at (mc_edges mc) i; call_param A st cv e }) [0 ..< unat (mc_np mc)])"

definition copy_return :: "(nat \<Rightarrow> u8 option) \<Rightarrow> mcedge \<Rightarrow> usize \<Rightarrow> u8 \<Rightarrow> (uptr \<Rightarrow> u8) \<Rightarrow> (uptr \<Rightarrow> u8) option" where
  "copy_return src e n cv st = do { bs \<leftarrow> r_copyvec src n cv; Some (write_bytes st (mc_p e) bs) }"

text \<open>The three ways to take the returns. \<open>i\<close> counts the returns from the one given on.\<close>

function ret_vec_scalar :: "'w R_api \<Rightarrow> sexp \<Rightarrow> u8 \<Rightarrow> modcall \<Rightarrow> nat \<Rightarrow> (uptr \<Rightarrow> u8) \<Rightarrow> (uptr \<Rightarrow> u8) option" where
  "ret_vec_scalar A rv cv mc i st =
     (if i < unat (mc_nr mc)
      then do { e \<leftarrow> at (mc_edges mc) (unat (mc_np mc) + i);
                st1 \<leftarrow> copy_return (\<lambda>o'. DATAPTR A rv (i * elt_size A (CV_SEXPTYPE cv) + o')) e 1 cv st;
                ret_vec_scalar A rv cv mc (Suc i) st1 }
      else Some st)"
  by pat_completeness auto
termination
  by (relation "measure (\<lambda>(A, rv, cv, mc, i, st). unat (mc_nr mc) - i)") auto

definition wrong_number :: "'w R_api \<Rightarrow> (string \<Rightarrow> bool) \<Rightarrow> ff_R \<Rightarrow> fff_state \<Rightarrow> 'w r_proc \<Rightarrow> string \<Rightarrow> fff_state \<times> 'w r_proc" where
  "wrong_number A vas ff F P tail =
     (let P1 = r_fail A P ff ''Wrong number of values'';
          F1 = fff_errprintf vas F (R_curErrorBuf A (rp_world P1) @ tail)
      in (F1\<lparr>ecode := FFF_ERR_SIGNATURE\<rparr>, P1))"

definition ret_vec_vec ::
  "'w R_api \<Rightarrow> (string \<Rightarrow> bool) \<Rightarrow> ff_R \<Rightarrow> sexp \<Rightarrow> modcall \<Rightarrow> fff_state \<times> 'w r_proc \<times> (uptr \<Rightarrow> u8) \<Rightarrow>
     (int \<times> fff_state \<times> 'w r_proc \<times> (uptr \<Rightarrow> u8)) option" where
  "ret_vec_vec A vas ff rv mc = (\<lambda>(F, P, st).
     do { cv \<leftarrow> at (ff_cv ff) (unat (mc_np mc));
          e \<leftarrow> at (mc_edges mc) (unat (mc_np mc));
          let vlen = Rf_length A rv;
          if vlen \<noteq> unat (mc_n e)
          then let (F1, P1) = wrong_number A vas ff F P
                 ('' (expected a vector of length '' @ fmt_zu (unat (mc_n e)) @ '', got '' @ fmt_zu vlen @ '')'')
               in Some (FFF_ERR_SIGNATURE, F1, P1, st)
          else do { st1 \<leftarrow> copy_return (DATAPTR A rv) e (mc_n e) cv st; Some (FFF_OK, F, P, st1) } })"

function ret_list_vec ::
  "'w R_api \<Rightarrow> (string \<Rightarrow> bool) \<Rightarrow> ff_R \<Rightarrow> sexp \<Rightarrow> modcall \<Rightarrow> nat \<Rightarrow> fff_state \<times> 'w r_proc \<times> (uptr \<Rightarrow> u8) \<Rightarrow>
     (int \<times> fff_state \<times> 'w r_proc \<times> (uptr \<Rightarrow> u8)) option" where
  "ret_list_vec A vas ff rv mc i (F, P, st) =
     (if i < unat (mc_nr mc)
      then do { v \<leftarrow> VECTOR_ELT rv i;
                cv \<leftarrow> at (ff_cv ff) (unat (mc_np mc) + i);
                e \<leftarrow> at (mc_edges mc) (unat (mc_np mc) + i);
                let vlen = Rf_length A v;
                if vlen \<noteq> unat (mc_n e)
                then let (F1, P1) = wrong_number A vas ff F P
                       ('' (return #'' @ fmt_zu i @ '', expected '' @ fmt_zu (unat (mc_n e)) @ '', got '' @ fmt_zu vlen @ '')'')
                     in Some (FFF_ERR_SIGNATURE, F1, P1, st)
                else do { st1 \<leftarrow> copy_return (DATAPTR A v) e (mc_n e) cv st;
                          ret_list_vec A vas ff rv mc (Suc i) (F, P, st1) } }
      else Some (FFF_OK, F, P, st))"
  by pat_completeness auto
termination
  by (relation "measure (\<lambda>(A, vas, ff, rv, mc, i, x). unat (mc_nr mc) - i)") auto

definition fffR_call ::
  "'w R_api \<Rightarrow> (string \<Rightarrow> bool) \<Rightarrow> fff_state \<Rightarrow> 'w r_proc \<Rightarrow> uptr \<Rightarrow> modcall \<Rightarrow> (uptr \<Rightarrow> u8) \<Rightarrow>
     (int \<times> fff_state \<times> 'w r_proc \<times> (uptr \<Rightarrow> u8)) option" where
  "fffR_call A vas F P func mc st =
     do { ff \<leftarrow> map_of (vm_R F) func;
          args \<leftarrow> call_params A st ff mc;
          let (r, P1) = r_eval A P (RLang (ff_wrapper ff # args));
          case r of
            None \<Rightarrow> Some (FFF_ERR_CRASH, (r_error A vas P1 F)\<lparr>ecode := FFF_ERR_CRASH\<rparr>, P1, st)
          | Some rv \<Rightarrow>
              (case ff_mode ff of
                 RET_VEC_SCALAR \<Rightarrow>
                   if mc_nr mc = 0 then Some (FFF_OK, F, P1, st)
                   else do { cv \<leftarrow> at (ff_cv ff) (unat (mc_np mc));
                             st1 \<leftarrow> ret_vec_scalar A rv cv mc 0 st;
                             Some (FFF_OK, F, P1, st1) }
               | RET_VEC_VEC \<Rightarrow> ret_vec_vec A vas ff rv mc (F, P1, st)
               | RET_LIST_VEC \<Rightarrow> ret_list_vec A vas ff rv mc 0 (F, P1, st)) }"

section \<open>Destroying\<close>

definition fffR_destroy :: "'w R_api \<Rightarrow> fff_state \<Rightarrow> 'w r_proc \<Rightarrow> uptr list \<times> 'w r_proc" where
  "fffR_destroy A F P = (map fst (vm_R F), fold (\<lambda>(h, ff) P. snd (r_eval A P (RLang [ff_deanchor ff]))) (vm_R F) P)"

text \<open>The addresses that are freed, in order: the functions, then the state itself. The message is freed as well.\<close>

definition fff_destroy :: "'w R_api \<Rightarrow> uptr \<Rightarrow> fff_state \<Rightarrow> 'w r_proc \<Rightarrow> uptr list \<times> 'w r_proc" where
  "fff_destroy A p F P = (let (freed, P1) = fffR_destroy A F P in (freed @ [p], P1))"

end
