(* ===== verification/Fff_Call.thy ===== *)
theory Fff_Call
  imports Fff_R
begin

text \<open>
  What a function in R does for its caller: the conversions keep the values, creation prepares what a call expects, a call passes the
  parameters on and stores the returns, failures are reported, and scalar returns of mixed types go wrong.
\<close>

section \<open>Values and their bytes\<close>

text \<open>A value of a signature type, its bytes in the memory of fhk (\<open>cval\<close>) and in a vector of R (\<open>rval\<close>). Reals and integers are the same
  in both, a truth value is one byte on the one side and an integer of four bytes on the other.\<close>

datatype sval = VReal u64 | VInt u32 | VLgl bool

primrec val_base :: "sval \<Rightarrow> u8" where
  "val_base (VReal _) = SIG_REAL"
| "val_base (VInt _) = SIG_INT"
| "val_base (VLgl _) = SIG_LGL"

primrec cval :: "sval \<Rightarrow> u8 list" where
  "cval (VReal x) = map (le_byte x) [0 ..< 8]"
| "cval (VInt x) = map (le_byte (ucast x)) [0 ..< 4]"
| "cval (VLgl b) = [of_bool b]"

primrec rval :: "sval \<Rightarrow> u8 list" where
  "rval (VReal x) = map (le_byte x) [0 ..< 8]"
| "rval (VInt x) = map (le_byte (ucast x)) [0 ..< 4]"
| "rval (VLgl b) = [of_bool b, 0, 0, 0]"

definition cbytes :: "sval list \<Rightarrow> u8 list" where
  "cbytes vs = concat (map cval vs)"

definition rbytes :: "sval list \<Rightarrow> u8 list" where
  "rbytes vs = concat (map rval vs)"

definition typed :: "u8 \<Rightarrow> sval list \<Rightarrow> bool" where
  "typed t vs \<longleftrightarrow> list_all (\<lambda>v. val_base v = SIG_BASE t) vs"

definition sxp_of :: "'w R_api \<Rightarrow> u8 \<Rightarrow> nat" where
  "sxp_of A t = (if SIG_BASE t = SIG_REAL then REALSXP A else if SIG_BASE t = SIG_INT then INTSXP A else LGLSXP A)"

text \<open>What the code relies on: the numbers of the types of R fit into five bits and reals have a number of their own.\<close>

definition sxp_ok :: "'w R_api \<Rightarrow> bool" where
  "sxp_ok A \<longleftrightarrow> REALSXP A < 32 \<and> INTSXP A < 32 \<and> LGLSXP A < 32 \<and> REALSXP A \<noteq> INTSXP A \<and> REALSXP A \<noteq> LGLSXP A"

lemmas sig_bases = SIG_REAL_def SIG_INT_def SIG_LGL_def

lemma cv_fields:
  assumes "ty < 32" "c \<in> {2, 3, 4, 5}"
  shows "CV_SEXPTYPE (CV_SXP ty OR c) = ty \<and> CV_CONV (CV_SXP ty OR c) = c \<and> (CV_ISCONV (CV_SXP ty OR c) \<longleftrightarrow> c AND 4 \<noteq> 0)"
proof -
  have "list_all (\<lambda>ty. list_all (\<lambda>c. CV_SEXPTYPE (CV_SXP ty OR c) = ty \<and> CV_CONV (CV_SXP ty OR c) = c \<and>
      (CV_ISCONV (CV_SXP ty OR c) \<longleftrightarrow> c AND 4 \<noteq> 0)) [2, 3, 4, 5]) [0 ..< 32]"
    by code_simp
  then show ?thesis using assms unfolding list_all_iff by auto
qed

lemma CV_RAW_sizes: "CV_RAW 8 = 3" "CV_RAW 4 = 2"
  by (simp_all add: CV_RAW_def)

lemma cv_of_fields:
  assumes "sxp_ok A" "cv_of A par t = Some cv"
  shows "CV_SEXPTYPE cv = sxp_of A t"
    "SIG_BASE t = SIG_REAL \<Longrightarrow> \<not> CV_ISCONV cv \<and> CV_CONV cv = 3"
    "SIG_BASE t = SIG_INT \<Longrightarrow> \<not> CV_ISCONV cv \<and> CV_CONV cv = 2"
    "SIG_BASE t = SIG_LGL \<Longrightarrow> CV_ISCONV cv \<and> CV_CONV cv = (if par then CV_BOOL2LGL else CV_LGL2BOOL)"
  using assms cv_fields [of "REALSXP A" 3] cv_fields [of "INTSXP A" 2] cv_fields [of "LGLSXP A" 4] cv_fields [of "LGLSXP A" 5]
  by (auto simp: cv_of_def sxp_of_def sxp_ok_def sig_bases CV_RAW_sizes CV_BOOL2LGL_def CV_LGL2BOOL_def split: if_splits)

lemma those_upt: "(\<And>i. i < n \<Longrightarrow> f i = Some (xs ! i)) \<Longrightarrow> length xs = n \<Longrightarrow> those (map f [0 ..< n]) = Some xs"
proof (induction n arbitrary: f xs)
  case (Suc n)
  then obtain x ys where xs: "xs = x # ys" by (cases xs) auto
  have "those (map (\<lambda>i. f (Suc i)) [0 ..< n]) = Some ys" using Suc.prems xs by (intro Suc.IH) fastforce+
  moreover have "f 0 = Some x" using Suc.prems(1) [of 0] xs by simp
  moreover have "[0 ..< Suc n] = 0 # map Suc [0 ..< n]" using map_Suc_upt upt_conv_Cons [of 0 "Suc n"] by simp
  ultimately show ?case using xs by (simp add: comp_def del: upt_Suc)
qed simp

lemma concat_uniform:
  "list_all (\<lambda>x. length x = k) xss \<Longrightarrow> i < length xss \<Longrightarrow> j < k \<Longrightarrow> concat xss ! (k * i + j) = xss ! i ! j"
proof (induction xss arbitrary: i)
  case (Cons x xss)
  then show ?case by (cases i) (auto simp: nth_append algebra_simps)
qed simp

lemma length_concat_uniform: "list_all (\<lambda>x. length x = k) xss \<Longrightarrow> length (concat xss) = k * length xss"
  by (induction xss) auto

lemma word_size_small:
  assumes "length xs < 2 ^ 60" "n = of_nat (length xs)" "k \<le> 3"
  shows "unat (n :: usize) = length xs" "unat (push_bit k n) = 2 ^ k * length xs"
proof -
  show n: "unat n = length xs" using assms by (simp add: unat_of_nat_small)
  have "(2::nat) ^ k \<le> 2 ^ 3" using assms(3) by (rule power_increasing) simp
  then have "2 ^ k * length xs < 2 ^ 3 * 2 ^ 60" using assms(1) by (intro mult_le_less_imp_less) auto
  also have "(2::nat) ^ 3 * 2 ^ 60 < 2 ^ 64" by simp
  finally have b: "2 ^ k * length xs < 2 ^ 64" .
  have "unat (push_bit k n) = take_bit 64 (push_bit k (length xs))"
    by (simp only: unsigned_push_bit_eq n) simp
  also have "push_bit k (length xs) = 2 ^ k * length xs" by (simp add: push_bit_eq_mult)
  also have "take_bit 64 (2 ^ k * length xs) = 2 ^ k * length xs" using b by (rule take_bit_nat_eq_self)
  finally show "unat (push_bit k n) = 2 ^ k * length xs" .
qed

lemma raw_copy:
  assumes "\<And>i. i < length bs \<Longrightarrow> src i = Some (bs ! i)" "length bs = 2 ^ k * length vs" "k \<le> 3"
    and "length vs < 2 ^ 60" "n = of_nat (length vs)" "\<not> CV_ISCONV cv" "unat (CV_CONV cv) = k"
  shows "r_copyvec src n cv = Some bs"
  using assms word_size_small(2) [OF assms(4,5,3)] by (simp add: r_copyvec_def those_upt)

lemma typed_Cons: "typed t (v # vs) \<longleftrightarrow> val_base v = SIG_BASE t \<and> typed t vs"
  by (simp add: typed_def)

lemma typed_cases:
  assumes "typed t vs" "SIG_BASE t \<in> {SIG_REAL, SIG_INT, SIG_LGL}"
  obtains (real) xs where "SIG_BASE t = SIG_REAL" "vs = map VReal xs"
    | (int) ys where "SIG_BASE t = SIG_INT" "vs = map VInt ys"
    | (lgl) bs where "SIG_BASE t = SIG_LGL" "vs = map VLgl bs"
proof -
  have *: "(SIG_BASE t = SIG_REAL \<longrightarrow> (\<exists>xs. vs = map VReal xs)) \<and> (SIG_BASE t = SIG_INT \<longrightarrow> (\<exists>xs. vs = map VInt xs)) \<and>
      (SIG_BASE t = SIG_LGL \<longrightarrow> (\<exists>xs. vs = map VLgl xs))"
    using assms(1)
  proof (induction vs)
    case (Cons v vs)
    then show ?case by (cases v) (auto simp: typed_Cons sig_bases Cons_eq_map_conv)
  qed simp
  then show thesis using assms(2) real int lgl by blast
qed

lemma length_bytes [simp]:
  "length (cval (VReal x)) = 8" "length (cval (VInt y)) = 4" "length (cval (VLgl b)) = 1"
  "length (rval (VReal x)) = 8" "length (rval (VInt y)) = 4" "length (rval (VLgl b)) = 4"
  by simp_all

lemma length_cbytes:
  "length (cbytes (map VReal xs)) = 8 * length xs" "length (cbytes (map VInt ys)) = 4 * length ys" "length (cbytes (map VLgl bs)) = length bs"
  by (simp_all add: cbytes_def length_concat comp_def sum_list_triv)

lemma length_rbytes:
  "length (rbytes (map VReal xs)) = 8 * length xs" "length (rbytes (map VInt ys)) = 4 * length ys" "length (rbytes (map VLgl bs)) = 4 * length bs"
  by (simp_all add: rbytes_def length_concat comp_def sum_list_triv)

lemma raw_bytes: "rbytes (map VReal xs) = cbytes (map VReal xs)" "rbytes (map VInt ys) = cbytes (map VInt ys)"
  by (simp_all add: rbytes_def cbytes_def comp_def)

lemma bool_bytes: "cbytes (map VLgl bs) = map of_bool bs" "rbytes (map VLgl bs) = concat (map (\<lambda>b. [b, 0, 0, 0]) (map of_bool bs))"
  by (induction bs) (simp_all add: cbytes_def rbytes_def)

lemma bool2lgl:
  assumes "\<And>i. i < length bs \<Longrightarrow> src i = Some (bs ! i)" "unat n = length bs"
  shows "r_bool2lgl src n = Some (concat (map (\<lambda>b. [b, 0, 0, 0]) bs))"
proof -
  have "those (map (\<lambda>i. map_option (\<lambda>b. [b, 0, 0, 0]) (src i)) [0 ..< length bs]) = Some (map (\<lambda>b. [b, 0, 0, 0]) bs)"
    using assms(1) by (intro those_upt) auto
  then show ?thesis by (simp add: r_bool2lgl_def assms(2))
qed

lemma lgl2bool:
  assumes "\<And>i. i < length (rbytes (map VLgl bs)) \<Longrightarrow> src i = Some (rbytes (map VLgl bs) ! i)" "unat n = length bs"
  shows "r_lgl2bool src n = Some (cbytes (map VLgl bs))"
proof -
  have at: "src (4 * i + j) = Some ([of_bool (bs ! i), 0, 0, 0] ! j)" if "i < length bs" "j < 4" for i j
  proof -
    have "4 * i + j < length (rbytes (map VLgl bs))" using that by (simp add: length_rbytes)
    moreover have "rbytes (map VLgl bs) ! (4 * i + j) = [of_bool (bs ! i), 0, 0, 0] ! j"
      using that concat_uniform [of 4 "map rval (map VLgl bs)" i j] by (simp add: rbytes_def list_all_iff)
    ultimately show ?thesis using assms(1) by simp
  qed
  have "int_at src (4 * i) = Some (of_bool (bs ! i))" if "i < length bs" for i
    using at [OF that, of 0] at [OF that, of 1] at [OF that, of 2] at [OF that, of 3] by (simp add: int_at_def)
  then show ?thesis unfolding r_lgl2bool_def assms(2) bool_bytes by (intro those_upt) auto
qed

definition base_ok :: "u8 \<Rightarrow> bool" where
  "base_ok t \<longleftrightarrow> SIG_BASE t \<in> {SIG_REAL, SIG_INT, SIG_LGL}"

lemma copy_in:
  assumes "sxp_ok A" "cv_of A True t = Some cv" "typed t vs" "base_ok t" "length vs < 2 ^ 60" "n = of_nat (length vs)"
    and src: "\<And>i. i < length (cbytes vs) \<Longrightarrow> src i = Some (cbytes vs ! i)"
  shows "r_copyvec src n cv = Some (rbytes vs)"
  using assms(3) assms(4) [unfolded base_ok_def]
proof (cases rule: typed_cases)
  case (real xs)
  then show ?thesis using raw_copy [OF src, of 3 vs n cv] assms(5,6) cv_of_fields(2) [OF assms(1,2)] by (simp add: raw_bytes length_cbytes)
next
  case (int ys)
  then show ?thesis using raw_copy [OF src, of 2 vs n cv] assms(5,6) cv_of_fields(3) [OF assms(1,2)] by (simp add: raw_bytes length_cbytes)
next
  case (lgl bs)
  then show ?thesis using bool2lgl [OF src, of n] word_size_small(1) [OF assms(5,6), of 0] cv_of_fields(4) [OF assms(1,2)]
    by (simp add: r_copyvec_def bool_bytes CV_BOOL2LGL_def CV_LGL2BOOL_def)
qed

lemma copy_out:
  assumes "sxp_ok A" "cv_of A False t = Some cv" "typed t vs" "base_ok t" "length vs < 2 ^ 60" "n = of_nat (length vs)"
    and src: "\<And>i. i < length (rbytes vs) \<Longrightarrow> src i = Some (rbytes vs ! i)"
  shows "r_copyvec src n cv = Some (cbytes vs)"
  using assms(3) assms(4) [unfolded base_ok_def]
proof (cases rule: typed_cases)
  case (real xs)
  then show ?thesis using raw_copy [OF src, of 3 vs n cv] assms(5,6) cv_of_fields(2) [OF assms(1,2)] by (simp add: raw_bytes length_cbytes)
next
  case (int ys)
  then show ?thesis using raw_copy [OF src, of 2 vs n cv] assms(5,6) cv_of_fields(3) [OF assms(1,2)] by (simp add: raw_bytes length_cbytes)
next
  case (lgl bs)
  then show ?thesis using lgl2bool [of bs src n] src word_size_small(1) [OF assms(5,6), of 0] cv_of_fields(4) [OF assms(1,2)]
    by (simp add: r_copyvec_def CV_BOOL2LGL_def CV_LGL2BOOL_def)
qed

section \<open>Writing the returns\<close>

definition mem_holds :: "(uptr \<Rightarrow> u8) \<Rightarrow> uptr \<Rightarrow> u8 list \<Rightarrow> bool" where
  "mem_holds st p bs \<longleftrightarrow> (\<forall>i < length bs. st (p + of_nat i) = bs ! i)"

definition edge_for :: "mcedge \<Rightarrow> sval list \<Rightarrow> bool" where
  "edge_for e vs \<longleftrightarrow> mc_n e = of_nat (length vs) \<and> length vs < 2 ^ 60"

definition edge_blk :: "mcedge \<Rightarrow> sval list \<Rightarrow> nat set" where
  "edge_blk e vs = {unat (mc_p e) ..< unat (mc_p e) + length (cbytes vs)}"

definition write_all :: "mcedge list \<Rightarrow> sval list list \<Rightarrow> (uptr \<Rightarrow> u8) \<Rightarrow> uptr \<Rightarrow> u8" where
  "write_all es vss st = fold (\<lambda>(e, vs) st. write_bytes st (mc_p e) (cbytes vs)) (zip es vss) st"

text \<open>The blocks of the edges do not wrap around and are pairwise disjoint.\<close>

fun edges_apart :: "mcedge list \<Rightarrow> sval list list \<Rightarrow> bool" where
  "edges_apart (e # es) (vs # vss) \<longleftrightarrow> unat (mc_p e) + length (cbytes vs) \<le> 2 ^ 64 \<and>
     list_all (\<lambda>(f, ws). edge_blk e vs \<inter> edge_blk f ws = {}) (zip es vss) \<and> edges_apart es vss"
| "edges_apart _ _ = True"

lemma write_bytes_at:
  assumes "unat p + length bs \<le> 2 ^ 64"
  shows "write_bytes st p bs a = (if unat p \<le> unat a \<and> unat a < unat p + length bs then bs ! (unat a - unat p) else st a)"
proof -
  have "unat (a - p) < length bs \<longleftrightarrow> unat p \<le> unat a \<and> unat a < unat p + length bs"
    using assms unat_lt64 [of a] unat_lt64 [of p] by (auto simp: unat_sub_if')
  moreover have "unat (a - p) = unat a - unat p" if "unat p \<le> unat a" using that by (simp add: unat_sub_if')
  ultimately show ?thesis by (auto simp: write_bytes_def)
qed

lemma write_all_outside:
  "edges_apart es vss \<Longrightarrow> length es = length vss \<Longrightarrow> list_all (\<lambda>(e, vs). unat a \<notin> edge_blk e vs) (zip es vss) \<Longrightarrow> write_all es vss st a = st a"
  by (induction es vss arbitrary: st rule: edges_apart.induct) (auto simp: write_all_def write_bytes_at edge_blk_def)

lemma write_all_holds:
  "edges_apart es vss \<Longrightarrow> length es = length vss \<Longrightarrow> i < length es \<Longrightarrow> mem_holds (write_all es vss st) (mc_p (es ! i)) (cbytes (vss ! i))"
proof (induction es vss arbitrary: st i rule: edges_apart.induct)
  case (1 e es vs vss)
  show ?case
  proof (cases i)
    case 0
    have u: "unat (mc_p e + of_nat k) = unat (mc_p e) + k" if "k < length (cbytes vs)" for k
      using "1.prems"(1) that by (subst unat_add64) (auto simp: unat_of_nat_small)
    have "write_all es vss st1 (mc_p e + of_nat k) = st1 (mc_p e + of_nat k)" if "k < length (cbytes vs)" for k st1
      using "1.prems"(1,2) that by (intro write_all_outside) (auto simp: list_all_iff u edge_blk_def)
    then show ?thesis using 0 "1.prems"(1) by (auto simp: mem_holds_def write_all_def write_bytes_at u)
  next
    case (Suc j)
    then show ?thesis using "1.IH" [of j "write_bytes st (mc_p e) (cbytes vs)"] "1.prems" by (simp add: write_all_def)
  qed
qed simp_all

section \<open>Calls\<close>

definition made :: "'w R_api \<Rightarrow> u8 list \<Rightarrow> u8 list \<Rightarrow> ff_R \<Rightarrow> bool" where
  "made A ps rs ff \<longleftrightarrow> those (map (cv_of A True) ps @ map (cv_of A False) rs) = Some (ff_cv ff) \<and> ff_mode ff = ret_mode_of rs"

lemma those_nth: "those xs = Some ys \<Longrightarrow> length ys = length xs \<and> (\<forall>i < length xs. xs ! i = Some (ys ! i))"
proof (induction xs arbitrary: ys)
  case (Cons x xs)
  then show ?case by (auto simp: nth_Cons split: option.splits nat.splits)
qed simp

lemma made_cv:
  assumes "made A ps rs ff"
  shows "i < length ps \<Longrightarrow> \<exists>cv. at (ff_cv ff) i = Some cv \<and> cv_of A True (ps ! i) = Some cv"
    "i < length rs \<Longrightarrow> \<exists>cv. at (ff_cv ff) (length ps + i) = Some cv \<and> cv_of A False (rs ! i) = Some cv"
proof -
  let ?xs = "map (cv_of A True) ps @ map (cv_of A False) rs"
  have n: "length (ff_cv ff) = length ps + length rs" "\<And>k. k < length ps + length rs \<Longrightarrow> ?xs ! k = Some (ff_cv ff ! k)"
    using those_nth [of ?xs "ff_cv ff"] assms by (auto simp: made_def)
  show "i < length ps \<Longrightarrow> \<exists>cv. at (ff_cv ff) i = Some cv \<and> cv_of A True (ps ! i) = Some cv"
    using n(1) n(2) [of i] by (simp add: at_def nth_append)
  show "i < length rs \<Longrightarrow> \<exists>cv. at (ff_cv ff) (length ps + i) = Some cv \<and> cv_of A False (rs ! i) = Some cv"
    using n(1) n(2) [of "length ps + i"] by (simp add: at_def nth_append)
qed

lemma length_rbytes_elt:
  assumes "sxp_ok A" "typed t vs" "base_ok t"
  shows "length (rbytes vs) = elt_size A (sxp_of A t) * length vs"
  using assms(2) assms(3) [unfolded base_ok_def]
  by (cases rule: typed_cases) (use assms(1) in \<open>auto simp: length_rbytes elt_size_def sxp_of_def sig_bases sxp_ok_def\<close>)

definition r_arg :: "'w R_api \<Rightarrow> u8 \<Rightarrow> sval list \<Rightarrow> sexp" where
  "r_arg A t vs = RVec (sxp_of A t) (rbytes vs)"

lemma edge_for_unat: "edge_for e vs \<Longrightarrow> unat (mc_n e) = length vs"
  unfolding edge_for_def by (auto simp: unat_of_nat_small)

lemma call_param_ok:
  assumes "sxp_ok A" "cv_of A True t = Some cv" "typed t vs" "base_ok t" "edge_for e vs" "mem_holds st (mc_p e) (cbytes vs)"
  shows "call_param A st cv e = Some (r_arg A t vs)"
proof -
  have "r_copyvec (mem_at st (mc_p e)) (mc_n e) cv = Some (rbytes vs)"
    using assms by (intro copy_in [of A t]) (auto simp: edge_for_def mem_holds_def mem_at_def)
  then show ?thesis using assms length_rbytes_elt [OF assms(1,3,4)]
    by (simp add: call_param_def r_arg_def cv_of_fields(1) [OF assms(1,2)] edge_for_unat)
qed

lemma call_params_ok:
  assumes "sxp_ok A" "made A ps rs ff" "unat (mc_np mc) = length ps" "length ps \<le> length (mc_edges mc)" "length ins = length ps"
    and "\<And>i. i < length ps \<Longrightarrow> typed (ps ! i) (ins ! i) \<and> base_ok (ps ! i) \<and> edge_for (mc_edges mc ! i) (ins ! i) \<and>
        mem_holds st (mc_p (mc_edges mc ! i)) (cbytes (ins ! i))"
  shows "call_params A st ff mc = Some (map2 (r_arg A) ps ins)"
  unfolding call_params_def assms(3)
proof (rule those_upt, goal_cases)
  case (1 i)
  obtain cv where cv: "at (ff_cv ff) i = Some cv" "cv_of A True (ps ! i) = Some cv" using made_cv(1) [OF assms(2) 1] by blast
  have "call_param A st cv (mc_edges mc ! i) = Some (r_arg A (ps ! i) (ins ! i))"
    using assms(6) [OF 1] cv(2) by (intro call_param_ok assms(1)) auto
  then show ?case using 1 cv(1) assms(4,5) by (simp add: at_def [of "mc_edges mc"])
qed (use assms in simp)

text \<open>The returns \<open>outs\<close> of a call fit the signature and the edges.\<close>

definition returns_fit :: "u8 list \<Rightarrow> u8 list \<Rightarrow> modcall \<Rightarrow> sval list list \<Rightarrow> bool" where
  "returns_fit ps rs mc outs \<longleftrightarrow> unat (mc_np mc) = length ps \<and> unat (mc_nr mc) = length rs \<and>
     length (mc_edges mc) = length ps + length rs \<and> length outs = length rs \<and>
     (\<forall>i < length rs. typed (rs ! i) (outs ! i) \<and> base_ok (rs ! i) \<and> edge_for (mc_edges mc ! (length ps + i)) (outs ! i))"

lemma Rf_length_arg:
  assumes "sxp_ok A" "typed t vs" "base_ok t"
  shows "Rf_length A (r_arg A t vs) = length vs"
  using length_rbytes_elt [OF assms] by (simp add: r_arg_def elt_size_def)

lemma copy_return_ok:
  assumes "sxp_ok A" "cv_of A False t = Some cv" "typed t vs" "base_ok t" "edge_for e vs"
    and "\<And>k. k < length (rbytes vs) \<Longrightarrow> src k = Some (rbytes vs ! k)"
  shows "copy_return src e (mc_n e) cv st = Some (write_bytes st (mc_p e) (cbytes vs))"
proof -
  have "r_copyvec src (mc_n e) cv = Some (cbytes vs)" using assms by (intro copy_out [of A t]) (auto simp: edge_for_def)
  then show ?thesis by (simp add: copy_return_def)
qed

lemma DATAPTR_arg: "k < length (rbytes vs) \<Longrightarrow> DATAPTR A (r_arg A t vs) k = Some (rbytes vs ! k)"
  by (simp add: DATAPTR_def r_arg_def)

lemma write_all_drop:
  "i < length vss \<Longrightarrow> n + i < length es \<Longrightarrow> write_all (drop (n + i) es) (drop i vss) st =
     write_all (drop (n + Suc i) es) (drop (Suc i) vss) (write_bytes st (mc_p (es ! (n + i))) (cbytes (vss ! i)))"
  by (simp add: write_all_def Cons_nth_drop_Suc [symmetric])

lemma ret_list_vec_ok:
  assumes "sxp_ok A" "made A ps rs ff" "returns_fit ps rs mc outs" "i \<le> length rs"
  shows "ret_list_vec A vas ff (RList (map2 (r_arg A) rs outs)) mc i (F, P, st) =
     Some (FFF_OK, F, P, write_all (drop (length ps + i) (mc_edges mc)) (drop i outs) st)"
  using assms(4)
proof (induction "length rs - i" arbitrary: i st)
  case 0
  then show ?case using assms(3) by (simp add: returns_fit_def write_all_def)
next
  case (Suc k)
  then have i: "i < length rs" by simp
  obtain cv where cv: "at (ff_cv ff) (length ps + i) = Some cv" "cv_of A False (rs ! i) = Some cv" using made_cv(2) [OF assms(2) i] by blast
  have f: "typed (rs ! i) (outs ! i)" "base_ok (rs ! i)" "edge_for (mc_edges mc ! (length ps + i)) (outs ! i)"
    "unat (mc_np mc) = length ps" "unat (mc_nr mc) = length rs" "length outs = length rs" "length (mc_edges mc) = length ps + length rs"
    using assms(3) i by (auto simp: returns_fit_def)
  have c: "copy_return (DATAPTR A (r_arg A (rs ! i) (outs ! i))) (mc_edges mc ! (length ps + i)) (mc_n (mc_edges mc ! (length ps + i))) cv st =
      Some (write_bytes st (mc_p (mc_edges mc ! (length ps + i))) (cbytes (outs ! i)))"
    using f by (intro copy_return_ok [OF assms(1) cv(2)] DATAPTR_arg) auto
  have "k = length rs - Suc i" "Suc i \<le> length rs" using Suc.hyps(2) i by auto
  then show ?case using i f cv(1) c Suc.hyps(1) [of "Suc i"] edge_for_unat [OF f(3)] Rf_length_arg [OF assms(1) f(1,2)]
    by (subst ret_list_vec.simps) (simp add: VECTOR_ELT_def at_def [of "mc_edges mc"] write_all_drop del: ret_list_vec.simps)
qed

lemma ret_vec_vec_ok:
  assumes "sxp_ok A" "made A ps [t] ff" "returns_fit ps [t] mc [vs]"
  shows "ret_vec_vec A vas ff (r_arg A t vs) mc (F, P, st) = Some (FFF_OK, F, P, write_all (drop (length ps) (mc_edges mc)) [vs] st)"
proof -
  obtain cv where cv: "at (ff_cv ff) (length ps) = Some cv" "cv_of A False t = Some cv" using made_cv(2) [OF assms(2), of 0] by auto
  define e where "e = mc_edges mc ! length ps"
  have l: "length (mc_edges mc) = Suc (length ps)" using assms(3) by (simp add: returns_fit_def)
  then have e: "drop (length ps) (mc_edges mc) = [e]" using Cons_nth_drop_Suc [of "length ps" "mc_edges mc"] by (simp add: e_def)
  have f: "typed t vs" "base_ok t" "edge_for e vs" "unat (mc_np mc) = length ps" using assms(3) by (auto simp: returns_fit_def e_def)
  have "copy_return (DATAPTR A (r_arg A t vs)) e (mc_n e) cv st = Some (write_bytes st (mc_p e) (cbytes vs))"
    using f by (intro copy_return_ok [OF assms(1) cv(2)] DATAPTR_arg) auto
  then show ?thesis using f e l cv(1) edge_for_unat [OF f(3)] Rf_length_arg [OF assms(1) f(1,2)]
    by (simp add: ret_vec_vec_def at_def [of "mc_edges mc"] write_all_def flip: e_def)
qed

lemma ret_vec_scalar_ok:
  assumes "sxp_ok A" "cv_of A False t = Some cv" "returns_fit ps (replicate k t) mc outs" "list_all (\<lambda>vs. length vs = 1) outs" "i \<le> k"
  shows "ret_vec_scalar A (RVec (sxp_of A t) (concat (map rbytes outs))) cv mc i st =
     Some (write_all (drop (length ps + i) (mc_edges mc)) (drop i outs) st)"
  using assms(5)
proof (induction "k - i" arbitrary: i st)
  case 0
  then show ?case using assms(3) by (simp add: returns_fit_def write_all_def)
next
  case (Suc j)
  then have i: "i < k" by simp
  let ?e = "mc_edges mc ! (length ps + i)" and ?sz = "elt_size A (sxp_of A t)"
  have f: "typed t (outs ! i)" "base_ok t" "edge_for ?e (outs ! i)" "unat (mc_np mc) = length ps" "unat (mc_nr mc) = k" "length outs = k"
    "length (mc_edges mc) = length ps + k" "length (outs ! i) = 1"
    using assms(3,4) i by (auto simp: returns_fit_def list_all_length)
  have len: "list_all (\<lambda>bs. length bs = ?sz) (map rbytes outs)"
    using assms(3,4) length_rbytes_elt [OF assms(1)] by (auto simp: returns_fit_def list_all_length)
  have "DATAPTR A (RVec (sxp_of A t) (concat (map rbytes outs))) (i * ?sz + o') = Some (rbytes (outs ! i) ! o')"
    if "o' < length (rbytes (outs ! i))" for o'
  proof -
    have o': "o' < ?sz" using that len f(6) i by (simp add: list_all_length)
    have "i * ?sz + o' < Suc i * ?sz" using o' by simp
    also have "\<dots> \<le> k * ?sz" using i by (intro mult_le_mono1) simp
    finally have "i * ?sz + o' < length (concat (map rbytes outs))" using length_concat_uniform [OF len] f(6) by (simp add: mult.commute)
    then show ?thesis using concat_uniform [OF len, of i o'] o' f(6) i by (simp add: DATAPTR_def mult.commute)
  qed
  then have c: "copy_return (\<lambda>o'. DATAPTR A (RVec (sxp_of A t) (concat (map rbytes outs))) (i * ?sz + o')) ?e (mc_n ?e) cv st =
      Some (write_bytes st (mc_p ?e) (cbytes (outs ! i)))"
    using f by (intro copy_return_ok [OF assms(1,2)]) auto
  have "mc_n ?e = 1" using f(3,8) by (simp add: edge_for_def)
  then show ?case using i f c Suc.hyps(1) [of "Suc i"] Suc.hyps(2)
    by (subst ret_vec_scalar.simps)
      (simp add: at_def [of "mc_edges mc"] cv_of_fields(1) [OF assms(1,2)] write_all_drop del: ret_vec_scalar.simps)
qed

section \<open>What the loader returns\<close>

text \<open>The wrapper that \<^verbatim>\<open>loader.r\<close> makes coerces the result of the model. With one return, or with returns that all have the same scalar
  type, the result is a vector of this type; otherwise it is a list with one vector for each return. The loader decides by the
  letters of the return types.\<close>

definition tolower :: "char \<Rightarrow> char" where
  "tolower c = (let n = of_char c :: nat in if 65 \<le> n \<and> n \<le> 90 then char_of (n + 32) else c)"

definition loader_vector :: "string list \<Rightarrow> bool" where
  "loader_vector ls \<longleftrightarrow> length ls = 1 \<or> (hd ls = map tolower (hd ls) \<and> list_all (\<lambda>l. l = hd ls) ls)"

definition loader_result :: "'w R_api \<Rightarrow> u8 list \<Rightarrow> sval list list \<Rightarrow> sexp" where
  "loader_result A rs outs =
     (if loader_vector (map (\<lambda>t. the (r_letter t)) rs) then RVec (sxp_of A (hd rs)) (concat (map rbytes outs))
      else RList (map2 (r_arg A) rs outs))"

definition scalar :: "u8 \<Rightarrow> bool" where
  "scalar t \<longleftrightarrow> t AND SIG_VECTOR = 0"

definition mixed_scalars :: "u8 list \<Rightarrow> bool" where
  "mixed_scalars rs \<longleftrightarrow> list_all scalar rs \<and> \<not> list_all (\<lambda>t. t = hd rs) rs"

lemma sig_types:
  fixes t :: u8
  assumes "t < 6"
  shows "t \<in> {0, 1, 2, 3, 4, 5}"
proof -
  have "unat t < 6" using assms by (simp add: word_less_nat_alt)
  then have "unat t \<in> {0, 1, 2, 3, 4, 5}" by auto
  then show ?thesis by (auto simp: word_unat_eq_iff)
qed

lemma base_ok_types: "t < 6 \<Longrightarrow> base_ok t"
  using sig_types [of t] by (auto simp: base_ok_def SIG_BASE_def sig_bases drop_bit_eq_div)

lemma r_letter_types:
  "r_letter 0 = Some ''d''" "r_letter 1 = Some ''D''" "r_letter 2 = Some ''i''" "r_letter 3 = Some ''I''" "r_letter 4 = Some ''z''" "r_letter 5 = Some ''Z''"
  by code_simp+

lemma r_letter_inj: "t < 6 \<Longrightarrow> u < 6 \<Longrightarrow> the (r_letter t) = the (r_letter u) \<longleftrightarrow> t = u"
  using sig_types [of t] sig_types [of u] by (auto simp: r_letter_types)

lemma tolower_letters:
  "tolower CHR ''d'' = CHR ''d''" "tolower CHR ''D'' = CHR ''d''" "tolower CHR ''i'' = CHR ''i''" "tolower CHR ''I'' = CHR ''i''"
  "tolower CHR ''z'' = CHR ''z''" "tolower CHR ''Z'' = CHR ''z''"
  by code_simp+

lemma r_letter_lower: "t < 6 \<Longrightarrow> the (r_letter t) = map tolower (the (r_letter t)) \<longleftrightarrow> scalar t"
  using sig_types [of t] by (auto simp: r_letter_types tolower_letters scalar_def SIG_VECTOR_def)

lemma loader_vector_types:
  assumes "list_all (\<lambda>t. t < 6) rs" "rs \<noteq> []"
  shows "loader_vector (map (\<lambda>t. the (r_letter t)) rs) \<longleftrightarrow> length rs = 1 \<or> (scalar (hd rs) \<and> list_all (\<lambda>t. t = hd rs) rs)"
proof -
  have "hd rs < 6" using assms by (simp add: list_all_iff)
  then have "list_all (\<lambda>l. l = the (r_letter (hd rs))) (map (\<lambda>t. the (r_letter t)) rs) \<longleftrightarrow> list_all (\<lambda>t. t = hd rs) rs"
    using assms(1) by (auto simp: list_all_iff r_letter_inj)
  then show ?thesis using \<open>hd rs < 6\<close> assms(2) by (simp add: loader_vector_def hd_map r_letter_lower)
qed

lemma ret_mode_vec: "ret_mode_of rs = RET_VEC_SCALAR \<longleftrightarrow> length rs \<noteq> 1 \<and> list_all scalar rs"
  by (auto simp: ret_mode_of_def scalar_def list_all_iff list_ex_iff)

lemma ret_mode_list: "ret_mode_of rs = RET_LIST_VEC \<longleftrightarrow> length rs \<noteq> 1 \<and> \<not> list_all scalar rs"
  by (auto simp: ret_mode_of_def scalar_def list_all_iff list_ex_iff)

lemma loader_mode:
  assumes "list_all (\<lambda>t. t < 6) rs" "rs \<noteq> []"
  shows "loader_vector (map (\<lambda>t. the (r_letter t)) rs) \<longleftrightarrow> ret_mode_of rs \<noteq> RET_LIST_VEC \<and> \<not> mixed_scalars rs"
proof -
  have "length rs = 1 \<Longrightarrow> list_all (\<lambda>t. t = hd rs) rs" by (cases rs) auto
  moreover have "list_all (\<lambda>t. t = hd rs) rs \<Longrightarrow> list_all scalar rs \<longleftrightarrow> scalar (hd rs)" using assms(2) by (cases rs) (auto simp: list_all_iff)
  ultimately show ?thesis unfolding loader_vector_types [OF assms] ret_mode_list mixed_scalars_def by blast
qed

lemma all_equal: "list_all (\<lambda>t. t = x) ts \<Longrightarrow> ts = replicate (length ts) x"
  by (induction ts) auto

lemma loader_result_shape:
  assumes "list_all (\<lambda>t. t < 6) rs" "rs \<noteq> []" "\<not> mixed_scalars rs" "length outs = length rs"
  shows "ret_mode_of rs = RET_VEC_SCALAR \<Longrightarrow> rs = replicate (length rs) (hd rs) \<and> loader_result A rs outs = RVec (sxp_of A (hd rs)) (concat (map rbytes outs))"
    "ret_mode_of rs = RET_VEC_VEC \<Longrightarrow> rs = [hd rs] \<and> outs = [hd outs] \<and> loader_result A rs outs = r_arg A (hd rs) (hd outs)"
    "ret_mode_of rs = RET_LIST_VEC \<Longrightarrow> loader_result A rs outs = RList (map2 (r_arg A) rs outs)"
proof -
  note m = loader_mode [OF assms(1,2)]
  have "list_all (\<lambda>t. t = hd rs) rs" if "ret_mode_of rs = RET_VEC_SCALAR"
    using that assms(3) by (simp add: ret_mode_vec mixed_scalars_def)
  then show "ret_mode_of rs = RET_VEC_SCALAR \<Longrightarrow> rs = replicate (length rs) (hd rs) \<and> loader_result A rs outs = RVec (sxp_of A (hd rs)) (concat (map rbytes outs))"
    using m assms(3) all_equal by (simp add: loader_result_def)
  show "ret_mode_of rs = RET_LIST_VEC \<Longrightarrow> loader_result A rs outs = RList (map2 (r_arg A) rs outs)" using m by (simp add: loader_result_def)
  assume v: "ret_mode_of rs = RET_VEC_VEC"
  then have l: "length rs = 1" by (auto simp: ret_mode_of_def split: if_splits)
  then have "rs = [hd rs]" "outs = [hd outs]" using assms(4) by (cases rs; cases outs; simp)+
  moreover have "loader_result A rs outs = RVec (sxp_of A (hd rs)) (concat (map rbytes outs))" using m v assms(3) by (simp add: loader_result_def)
  ultimately show "rs = [hd rs] \<and> outs = [hd outs] \<and> loader_result A rs outs = r_arg A (hd rs) (hd outs)"
    by (metis append_Nil2 concat.simps list.map r_arg_def)
qed

text \<open>The parameters \<open>ins\<close> of a call lie at the edges, in the bytes of fhk.\<close>

definition params_fit :: "u8 list \<Rightarrow> modcall \<Rightarrow> sval list list \<Rightarrow> (uptr \<Rightarrow> u8) \<Rightarrow> bool" where
  "params_fit ps mc ins st \<longleftrightarrow> length ins = length ps \<and> (\<forall>i < length ps. typed (ps ! i) (ins ! i) \<and>
     edge_for (mc_edges mc ! i) (ins ! i) \<and> mem_holds st (mc_p (mc_edges mc ! i)) (cbytes (ins ! i)))"

lemma call_evaluates:
  assumes "sxp_ok A" "map_of (vm_R F) h = Some ff" "made A ps rs ff" "list_all (\<lambda>t. t < 6) ps"
    and "params_fit ps mc ins st" "returns_fit ps rs mc outs"
    and "r_eval A P (RLang (ff_wrapper ff # map2 (r_arg A) ps ins)) = (Some rv, P1)"
  shows "fffR_call A vas F P h mc st =
     (case ff_mode ff of
        RET_VEC_SCALAR \<Rightarrow>
          if mc_nr mc = 0 then Some (FFF_OK, F, P1, st)
          else Option.bind (at (ff_cv ff) (unat (mc_np mc))) (\<lambda>cv.
            Option.bind (ret_vec_scalar A rv cv mc 0 st) (\<lambda>st1. Some (FFF_OK, F, P1, st1)))
      | RET_VEC_VEC \<Rightarrow> ret_vec_vec A vas ff rv mc (F, P1, st)
      | RET_LIST_VEC \<Rightarrow> ret_list_vec A vas ff rv mc 0 (F, P1, st))"
proof -
  have "call_params A st ff mc = Some (map2 (r_arg A) ps ins)"
    using assms(4,5,6) by (intro call_params_ok [OF assms(1,3)]) (auto simp: params_fit_def returns_fit_def list_all_length base_ok_types)
  then show ?thesis using assms(2,7) by (simp add: fffR_call_def del: ret_list_vec.simps ret_vec_scalar.simps)
qed

lemma call_writes:
  assumes "sxp_ok A" "map_of (vm_R F) h = Some ff" "made A ps rs ff" "list_all (\<lambda>t. t < 6) (ps @ rs)" "rs \<noteq> []" "\<not> mixed_scalars rs"
    and "params_fit ps mc ins st" "returns_fit ps rs mc outs" "\<forall>i < length rs. scalar (rs ! i) \<longrightarrow> length (outs ! i) = 1"
    and "r_eval A P (RLang (ff_wrapper ff # map2 (r_arg A) ps ins)) = (Some (loader_result A rs outs), P1)"
  shows "fffR_call A vas F P h mc st = Some (FFF_OK, F, P1, write_all (drop (length ps) (mc_edges mc)) outs st)"
proof -
  have l: "length outs = length rs" "unat (mc_np mc) = length ps" "mc_nr mc \<noteq> 0" using assms(5,8) by (auto simp: returns_fit_def)
  have t: "list_all (\<lambda>t. t < 6) rs" "list_all (\<lambda>t. t < 6) ps" using assms(4) by auto
  note ev = call_evaluates [OF assms(1-3) t(2) assms(7,8,10), of vas]
  note sh = loader_result_shape [OF t(1) assms(5,6) l(1), of A]
  have m: "ff_mode ff = ret_mode_of rs" using assms(3) by (simp add: made_def)
  show ?thesis
  proof (cases "ret_mode_of rs")
    case RET_VEC_SCALAR
    then have r: "replicate (length rs) (hd rs) = rs" using sh(1) by metis
    have fit: "returns_fit ps (replicate (length rs) (hd rs)) mc outs" using assms(8) by (simp only: r)
    have rv: "loader_result A rs outs = RVec (sxp_of A (hd rs)) (concat (map rbytes outs))" using sh(1) RET_VEC_SCALAR by blast
    obtain cv where cv: "at (ff_cv ff) (length ps) = Some cv" "cv_of A False (hd rs) = Some cv"
      using made_cv(2) [OF assms(3), of 0] assms(5) by (auto simp: hd_conv_nth)
    have "list_all (\<lambda>vs. length vs = 1) outs"
      using assms(9) RET_VEC_SCALAR l(1) by (auto simp: ret_mode_vec list_all_length)
    then show ?thesis using ret_vec_scalar_ok [OF assms(1) cv(2) fit, of 0] ev m RET_VEC_SCALAR rv cv(1) l(2,3)
      by (simp del: ret_vec_scalar.simps)
  next
    case RET_VEC_VEC
    then have r: "[hd rs] = rs" "[hd outs] = outs" and rv: "loader_result A rs outs = r_arg A (hd rs) (hd outs)" using sh(2) by auto
    have "made A ps [hd rs] ff" "returns_fit ps [hd rs] mc [hd outs]" using assms(3,8) by (simp_all only: r)
    then show ?thesis using ret_vec_vec_ok [OF assms(1)] ev m RET_VEC_VEC rv r by simp
  next
    case RET_LIST_VEC
    then show ?thesis using sh(3) [OF RET_LIST_VEC] ret_list_vec_ok [OF assms(1,3,8), of 0] ev m by (simp del: ret_list_vec.simps)
  qed
qed

text \<open>
  C9. A call of a function in R passes the values on. When the parameters lie at their edges in the bytes of fhk, the wrapper is called with
  the vectors of these values, and when it returns the values \<open>outs\<close> in the form the loader gives them, \<^verbatim>\<open>fffR_call\<close>
  succeeds, each return edge holds its values in the bytes of fhk, and no other byte of memory has changed. The types of
  scalar returns must not be mixed.
\<close>

theorem call_marshals:
  assumes "sxp_ok A" "map_of (vm_R F) h = Some ff" "made A ps rs ff" "list_all (\<lambda>t. t < 6) (ps @ rs)" "rs \<noteq> []" "\<not> mixed_scalars rs"
    and "params_fit ps mc ins st" "returns_fit ps rs mc outs" "\<forall>i < length rs. scalar (rs ! i) \<longrightarrow> length (outs ! i) = 1"
    and "edges_apart (drop (length ps) (mc_edges mc)) outs"
    and "r_eval A P (RLang (ff_wrapper ff # map2 (r_arg A) ps ins)) = (Some (loader_result A rs outs), P1)"
  shows "\<exists>st1. fffR_call A vas F P h mc st = Some (FFF_OK, F, P1, st1) \<and>
     (\<forall>i < length rs. mem_holds st1 (mc_p (mc_edges mc ! (length ps + i))) (cbytes (outs ! i))) \<and>
     (\<forall>a. (\<forall>i < length rs. unat a \<notin> edge_blk (mc_edges mc ! (length ps + i)) (outs ! i)) \<longrightarrow> st1 a = st a)"
proof -
  let ?es = "drop (length ps) (mc_edges mc)"
  have l: "length ?es = length outs" "length outs = length rs" using assms(8) by (auto simp: returns_fit_def)
  have "write_all ?es outs st a = st a" if "\<forall>i < length rs. unat a \<notin> edge_blk (mc_edges mc ! (length ps + i)) (outs ! i)" for a
    using that l assms(8) by (intro write_all_outside [OF assms(10) l(1)]) (auto simp: list_all_length returns_fit_def)
  then show ?thesis using call_writes [OF assms(1-9) assms(11)] write_all_holds [OF assms(10) l(1)] l assms(8) by (auto simp: returns_fit_def)
qed

section \<open>Creation\<close>

lemma those_map_Some: "list_all (\<lambda>x. f x \<noteq> None) xs \<Longrightarrow> those (map f xs) = Some (map (\<lambda>x. the (f x)) xs)"
  by (induction xs) auto

lemma sig_types_of_nat: "list_all (\<lambda>j. j < 6) js \<Longrightarrow> list_all (\<lambda>t :: u8. t < 6) (map of_nat js)"
  by (auto simp: list_all_iff word_less_nat_alt unat_of_nat_small)

lemma r_letter_defined: "t < 6 \<Longrightarrow> r_letter t \<noteq> None"
  using sig_types [of t] by (auto simp: r_letter_types)

lemma cv_of_defined: "t < 6 \<Longrightarrow> cv_of A par t \<noteq> None"
  using base_ok_types [of t] by (auto simp: cv_of_def base_ok_def)

lemma enumerate_cv:
  "map (\<lambda>(i, t). f (i < length ps) t) (enumerate 0 (ps @ rs)) = map (f True) ps @ map (f False) rs"
  by (rule nth_equalityI) (auto simp: nth_enumerate_eq nth_append)

lemma parse_text:
  assumes "list_all (\<lambda>j. j < 6) (ps @ rs)" "length ps + length rs \<le> 254"
  shows "fff_parse_signature (signature_text (map ((!) (tok_names sigtok)) ps) (map ((!) (tok_names sigtok)) rs)) sigtok =
     (0, \<lparr>sg_np = of_nat (length ps), sg_nr = of_nat (length rs), sg_types = map of_nat (ps @ rs)\<rparr>)"
proof -
  have s: "sig_of sigtok False (signature_text (map ((!) (tok_names sigtok)) ps) (map ((!) (tok_names sigtok)) rs)) ps rs"
    using assms(1) by (intro sig_of_text) (auto simp: sigtok_names eval_nat_numeral)
  show ?thesis using parse_accepts [OF sigtok_ok s, of "\<lparr>sg_np = 0, sg_nr = 0, sg_types = []\<rparr>"] assms(2)
    by (simp add: fff_parse_signature_def sig_inv_def sig_add_def sizeof_types_val)
qed

text \<open>
  C28. Creating a function. For the signature text of at most 254 types the loader is called with the file, the name and the letters of the
  return types; when it gives its list of three and memory is found, the handle is the new block, its functions are those of the list and its
  conversions and mode are those of the signature, as a call expects them. The state is otherwise unchanged.
\<close>

theorem create_makes:
  assumes "list_all (\<lambda>j. j < 6) (ps @ rs)" "length ps + length rs \<le> 254"
    and "r_load A LOADER (r_init A P) = (ld, P1)"
    and "r_eval A P1 (RLang [ld, RStrings [file], RStrings [func], RStrings (map (\<lambda>j. the (r_letter (of_nat j))) rs)]) = (Some (RList [w, d, f]), P2)"
    and "malloc (sizeof_ff_R + of_nat (length ps + length rs)) = h" "h \<noteq> NULL"
  shows "\<exists>ff. fffR_create A LOADER malloc vas F P file func
       (signature_text (map ((!) (tok_names sigtok)) ps) (map ((!) (tok_names sigtok)) rs)) = Some (h, F\<lparr>vm_R := (h, ff) # vm_R F\<rparr>, P2) \<and>
     made A (map of_nat ps) (map of_nat rs) ff \<and> ff_wrapper ff = w \<and> ff_deanchor ff = d \<and> ff_fail ff = f"
proof -
  let ?ps = "map of_nat ps :: u8 list" and ?rs = "map of_nat rs :: u8 list"
  have t: "list_all (\<lambda>t. t < 6) ?ps" "list_all (\<lambda>t. t < 6) ?rs" using assms(1) sig_types_of_nat by auto
  have n: "unat (of_nat (length ps) :: u8) = length ps" "unat (of_nat (length rs) :: u8) = length rs"
    using assms(2) by (auto simp: unat_of_nat_small)
  have l: "those (map r_letter ?rs) = Some (map (\<lambda>j. the (r_letter (of_nat j))) rs)"
    using those_map_Some [of r_letter ?rs] t(2) r_letter_defined by (auto simp: list_all_iff comp_def)
  have w: "r_wrapper A LOADER (r_init A P) file func \<lparr>sg_np = of_nat (length ps), sg_nr = of_nat (length rs), sg_types = map of_nat (ps @ rs)\<rparr> =
      Some (RList [w, d, f], P2)"
    using assms(3,4) l n by (simp add: r_wrapper_def)
  obtain cv where cv: "those (map (cv_of A True) ?ps @ map (cv_of A False) ?rs) = Some cv"
  proof -
    have "list_all (\<lambda>x. x \<noteq> None) (map (cv_of A True) ?ps @ map (cv_of A False) ?rs)"
      using t cv_of_defined [of _ A True] cv_of_defined [of _ A False] unfolding list_all_iff by auto
    then show ?thesis using that those_map_Some [of "\<lambda>x. x"] by (metis map_ident)
  qed
  have e: "map (\<lambda>(i, t). cv_of A (i < length ps) t) (enumerate 0 (?ps @ ?rs)) = map (cv_of A True) ?ps @ map (cv_of A False) ?rs"
    using enumerate_cv [of "cv_of A" ?ps ?rs] by simp
  show ?thesis using w cv e assms(5,6) n
    by (intro exI [of _ "\<lparr>ff_wrapper = w, ff_deanchor = d, ff_fail = f, ff_mode = ret_mode_of ?rs, ff_cv = cv\<rparr>"])
      (simp add: fffR_create_def parse_text [OF assms(1,2)] VECTOR_ELT_def made_def)
qed

section \<open>Failures\<close>

lemma errprintf_keeps: "vm_R (fff_errprintf vas F msg) = vm_R F"
  by (simp add: fff_errprintf_def)

lemma wrong_number_state:
  "wrong_number A vas ff F P tail = (F1, P1) \<Longrightarrow> ecode F1 = FFF_ERR_SIGNATURE \<and> vm_R F1 = vm_R F"
  by (auto simp: wrong_number_def errprintf_keeps)

lemma ret_list_vec_state:
  "ret_list_vec A vas ff rv mc i (F, P, st) = Some (rc, F1, P1, st1) \<Longrightarrow>
     (rc = FFF_OK \<and> F1 = F) \<or> (rc = FFF_ERR_SIGNATURE \<and> ecode F1 = rc \<and> vm_R F1 = vm_R F)"
proof (induction A vas ff rv mc i "(F, P, st)" arbitrary: F P st rule: ret_list_vec.induct)
  case (1 A vas ff rv mc i F P st)
  show ?case
  proof (cases "i < unat (mc_nr mc)")
    case True
    then obtain v cv e where v: "VECTOR_ELT rv i = Some v" "at (ff_cv ff) (unat (mc_np mc) + i) = Some cv" "at (mc_edges mc) (unat (mc_np mc) + i) = Some e"
      using "1.prems" by (auto simp del: ret_list_vec.simps simp: ret_list_vec.simps [of A vas ff rv mc i] bind_eq_Some_conv)
    show ?thesis
    proof (cases "Rf_length A v = unat (mc_n e)")
      case len: True
      then obtain st2 where c: "copy_return (DATAPTR A v) e (mc_n e) cv st = Some st2" "ret_list_vec A vas ff rv mc (Suc i) (F, P, st2) = Some (rc, F1, P1, st1)"
        using "1.prems" True v by (auto simp del: ret_list_vec.simps simp: ret_list_vec.simps [of A vas ff rv mc i] bind_eq_Some_conv)
      show ?thesis using "1.hyps" [OF True v refl _ c(1) c(2)] len by simp
    next
      case False
      obtain F2 P2 where w: "wrong_number A vas ff F P ('' (return #'' @ fmt_zu i @ '', expected '' @ fmt_zu (unat (mc_n e)) @ '', got '' @
          fmt_zu (Rf_length A v) @ '')'') = (F2, P2)" by (rule prod.exhaust)
      have "(rc, F1) = (FFF_ERR_SIGNATURE, F2)" using "1.prems" True v False w
        by (simp del: ret_list_vec.simps fmt_zu.simps add: ret_list_vec.simps [of A vas ff rv mc i])
      then show ?thesis using wrong_number_state [OF w] by simp
    qed
  qed (use "1.prems" in \<open>simp add: ret_list_vec.simps [of A vas ff rv mc i]\<close>)
qed

lemma ret_vec_vec_state:
  assumes "ret_vec_vec A vas ff rv mc (F, P, st) = Some (rc, F1, P1, st1)"
  shows "(rc = FFF_OK \<and> F1 = F) \<or> (rc = FFF_ERR_SIGNATURE \<and> ecode F1 = rc \<and> vm_R F1 = vm_R F)"
proof -
  obtain cv e where c: "at (ff_cv ff) (unat (mc_np mc)) = Some cv" "at (mc_edges mc) (unat (mc_np mc)) = Some e"
    using assms by (auto simp: ret_vec_vec_def bind_eq_Some_conv simp del: fmt_zu.simps)
  obtain F2 P2 where w: "wrong_number A vas ff F P ('' (expected a vector of length '' @ fmt_zu (unat (mc_n e)) @ '', got '' @
      fmt_zu (Rf_length A rv) @ '')'') = (F2, P2)" by (rule prod.exhaust)
  show ?thesis using assms c w wrong_number_state [OF w]
    by (auto simp: ret_vec_vec_def bind_eq_Some_conv simp del: fmt_zu.simps split: if_splits)
qed

lemma call_state:
  assumes "fffR_call A vas F P h mc st = Some (rc, F1, P1, st1)"
  shows "(rc = FFF_OK \<and> F1 = F) \<or> ((rc = FFF_ERR_SIGNATURE \<or> rc = FFF_ERR_CRASH) \<and> ecode F1 = rc \<and> vm_R F1 = vm_R F)"
proof -
  obtain ff args r P0 where e: "map_of (vm_R F) h = Some ff" "call_params A st ff mc = Some args"
    "r_eval A P (RLang (ff_wrapper ff # args)) = (r, P0)"
    using assms by (fastforce simp: fffR_call_def bind_eq_Some_conv)
  show ?thesis
  proof (cases r)
    case None
    then show ?thesis using assms e by (auto simp: fffR_call_def r_error_def errprintf_keeps)
  next
    case (Some rv)
    show ?thesis
    proof (cases "ff_mode ff")
      case RET_VEC_SCALAR
      then show ?thesis using assms e Some by (auto simp: fffR_call_def bind_eq_Some_conv simp del: ret_vec_scalar.simps split: if_splits)
    next
      case RET_VEC_VEC
      then have "ret_vec_vec A vas ff rv mc (F, P0, st) = Some (rc, F1, P1, st1)" using assms e Some by (simp add: fffR_call_def)
      then show ?thesis by (rule ret_vec_vec_state [THEN disj_forward]) auto
    next
      case RET_LIST_VEC
      then show ?thesis using assms e Some ret_list_vec_state [of A vas ff rv mc 0 F P0 st rc F1 P1 st1]
        by (auto simp: fffR_call_def simp del: ret_list_vec.simps)
    qed
  qed
qed

lemma create_state:
  assumes "fffR_create A LOADER malloc vas F P file func sig = Some (h, F1, P1)"
  shows "if h = NULL then ecode F1 \<in> {FFF_ERR_MEM, FFF_ERR_SIGNATURE, FFF_ERR_CRASH} \<and> vm_R F1 = vm_R F
     else \<exists>ff. F1 = F\<lparr>vm_R := (h, ff) # vm_R F\<rparr>"
proof (cases "fst (fff_parse_signature sig sigtok) = 0")
  case False
  then show ?thesis using assms by (auto simp: fffR_create_def fff_errsig_def fff_errprintf_def split: prod.splits)
next
  case True
  then obtain s where s: "fff_parse_signature sig sigtok = (0, s)" by (cases "fff_parse_signature sig sigtok") auto
  then obtain wda P2 where w: "r_wrapper A LOADER (r_init A P) file func s = Some (wda, P2)"
    using assms by (auto simp: fffR_create_def bind_eq_Some_conv)
  show ?thesis using assms s w
    by (auto simp: fffR_create_def bind_eq_Some_conv fff_errmem_def r_error_def errprintf_keeps fff_errprintf_def split: if_splits)
qed

text \<open>
  C29. Every failure is reported, whatever the interpreter does. A call that does not return \<^verbatim>\<open>FFF_OK\<close> has stored the returned code, and a
  call that returns \<^verbatim>\<open>FFF_OK\<close> leaves the state as it was; a creation without a handle has stored one of the error codes. No failure changes
  the list of functions.
\<close>

theorem failures_reported:
  "(fffR_call A vas F P h mc st = Some (rc, F1, P1, st1) \<longrightarrow>
      (if rc = FFF_OK then F1 = F else fff_ecode F1 = rc \<and> rc \<in> {FFF_ERR_SIGNATURE, FFF_ERR_CRASH} \<and> vm_R F1 = vm_R F)) \<and>
   (fffR_create A LOADER malloc vas F P file func sig = Some (h2, F2, P2) \<longrightarrow>
      (if h2 = NULL then fff_ecode F2 \<in> {FFF_ERR_MEM, FFF_ERR_SIGNATURE, FFF_ERR_CRASH} \<and> vm_R F2 = vm_R F
       else \<exists>ff. F2 = F\<lparr>vm_R := (h2, ff) # vm_R F\<rparr>))"
proof (intro conjI impI, goal_cases)
  case 1
  then show ?case using call_state [OF 1] by (auto simp: fff_ecode_def FFF_OK_def FFF_ERR_SIGNATURE_def FFF_ERR_CRASH_def)
next
  case 2
  then show ?case using create_state [OF 2] by (auto simp: fff_ecode_def split: if_splits)
qed

section \<open>Mixed scalar returns\<close>

definition addr_bytes :: "'w R_api \<Rightarrow> sexp \<Rightarrow> u8 list" where
  "addr_bytes A x = map (le_byte (sexp_addr A x)) [0 ..< 8]"

definition write_addrs :: "'w R_api \<Rightarrow> mcedge list \<Rightarrow> sexp list \<Rightarrow> (uptr \<Rightarrow> u8) \<Rightarrow> uptr \<Rightarrow> u8" where
  "write_addrs A es xs st = fold (\<lambda>(e, x) st. write_bytes st (mc_p e) (addr_bytes A x)) (zip es xs) st"

lemma write_addrs_drop:
  "i < length xs \<Longrightarrow> n + i < length es \<Longrightarrow> write_addrs A (drop (n + i) es) (drop i xs) st =
     write_addrs A (drop (n + Suc i) es) (drop (Suc i) xs) (write_bytes st (mc_p (es ! (n + i))) (addr_bytes A (xs ! i)))"
  by (simp add: write_addrs_def Cons_nth_drop_Suc [symmetric])

lemma copy_address:
  assumes "sxp_ok A" "cv_of A False 0 = Some cv" "i < length xs"
  shows "copy_return (\<lambda>o'. DATAPTR A (RList xs) (i * 8 + o')) e 1 cv st = Some (write_bytes st (mc_p e) (addr_bytes A (xs ! i)))"
proof -
  have "those (map (\<lambda>o'. DATAPTR A (RList xs) (i * 8 + o')) [0 ..< 8]) = Some (addr_bytes A (xs ! i))"
    using assms(3) by (intro those_upt) (auto simp: DATAPTR_def addr_bytes_def)
  moreover have "\<not> CV_ISCONV cv" "CV_CONV cv = 3" using cv_of_fields(2) [OF assms(1,2)] by (auto simp: SIG_BASE_def sig_bases)
  ultimately show ?thesis by (simp add: copy_return_def r_copyvec_def push_bit_eq_mult)
qed

lemma ret_vec_scalar_addresses:
  assumes "sxp_ok A" "cv_of A False 0 = Some cv" "unat (mc_np mc) = n" "unat (mc_nr mc) = length xs" "length (mc_edges mc) = n + length xs" "i \<le> length xs"
  shows "ret_vec_scalar A (RList xs) cv mc i st = Some (write_addrs A (drop (n + i) (mc_edges mc)) (drop i xs) st)"
  using assms(6)
proof (induction "length xs - i" arbitrary: i st)
  case 0
  then show ?case using assms(4) by (simp add: write_addrs_def)
next
  case (Suc k)
  then have i: "i < length xs" by simp
  have "elt_size A (CV_SEXPTYPE cv) = 8"
    using cv_of_fields(1) [OF assms(1,2)] by (simp add: elt_size_def sxp_of_def SIG_BASE_def sig_bases)
  then show ?case using i assms(3-5) Suc.hyps copy_address [OF assms(1,2) i]
    by (subst ret_vec_scalar.simps) (simp add: at_def write_addrs_drop del: ret_vec_scalar.simps)
qed


section \<open>Examples\<close>

text \<open>An interpreter that gives the same result to every call, and a function with one parameter and the given returns.\<close>

definition demo_R :: "sexp \<Rightarrow> unit R_api" where
  "demo_R rv = \<lparr>REALSXP = 14, INTSXP = 13, LGLSXP = 10, R_tryEval = (\<lambda>w c. (Some rv, w)), R_ParseEvalString = (\<lambda>w s. (RObj 1, w)),
     R_curErrorBuf = (\<lambda>w. []), Rf_initEmbeddedR = (\<lambda>w h a. w), sexp_addr = (\<lambda>s. 0x7000)\<rparr>"

definition demo_P :: "unit r_proc" where
  "demo_P = \<lparr>rp_init = True, rp_home = None, rp_wfunc = Some (RObj 1), rp_world = ()\<rparr>"

definition demo_F :: "u8 list \<Rightarrow> fff_state" where
  "demo_F rs = \<lparr>ecode = 0, emsg = None, vm_R = [(0x500, \<lparr>ff_wrapper = RObj 2, ff_deanchor = RObj 3, ff_fail = RObj 4,
     ff_mode = ret_mode_of rs, ff_cv = the (those (map (cv_of (demo_R RNil) True) [4] @ map (cv_of (demo_R RNil) False) rs))\<rparr>)]\<rparr>"

definition demo_mc :: "usize list \<Rightarrow> modcall" where
  "demo_mc ns = \<lparr>mc_np = 1, mc_nr = of_nat (length ns), mc_edges = map2 (\<lambda>p n. \<lparr>mc_p = p, mc_n = n\<rparr>) [0x100, 0x200, 0x300] (1 # ns)\<rparr>"

lemma demo_sxp: "sxp_ok (demo_R rv)"
  by (simp add: sxp_ok_def demo_R_def)

lemma demo_R_eval: "r_eval (demo_R rv) demo_P c = (Some rv, demo_P)"
  by (simp add: r_eval_def demo_R_def demo_P_def)

lemma demo_cv: "cv_of (demo_R rv) = cv_of (demo_R RNil)"
  by (intro ext) (simp add: cv_of_def demo_R_def)

lemma demo_made:
  assumes "list_all (\<lambda>t. t < 6) rs"
  shows "\<exists>ff. map_of (vm_R (demo_F rs)) 0x500 = Some ff \<and> made (demo_R rv) [4] rs ff"
proof -
  have "list_all (\<lambda>x. x \<noteq> None) (map (cv_of (demo_R RNil) True) [4] @ map (cv_of (demo_R RNil) False) rs)"
    using assms cv_of_defined [of 4 "demo_R RNil" True] cv_of_defined [of _ "demo_R RNil" False] by (auto simp: list_all_iff)
  then have "those (map (cv_of (demo_R RNil) True) [4] @ map (cv_of (demo_R RNil) False) rs) \<noteq> None"
    using those_map_Some [of "\<lambda>x. x"] by (metis map_ident option.distinct(1))
  then show ?thesis by (auto simp: demo_F_def made_def demo_cv [of rv])
qed

lemmas demo_simps = cbytes_def rbytes_def typed_def edge_for_def mem_holds_def SIG_BASE_def sig_bases base_ok_def drop_bit_eq_div

lemma demo_params: "params_fit [4] (demo_mc ns) [[VLgl True]] (\<lambda>_. 1)"
  by (simp add: params_fit_def demo_mc_def demo_simps)

theorem call_marshals_witness:
  "\<exists>st1. fffR_call (demo_R (loader_result (demo_R RNil) [4] [[VLgl True]])) (\<lambda>_. True) (demo_F [4]) demo_P 0x500 (demo_mc [1]) (\<lambda>_. 1) =
     Some (FFF_OK, demo_F [4], demo_P, st1) \<and> st1 0x200 = 1"
proof -
  let ?A = "demo_R (loader_result (demo_R RNil) [4] [[VLgl True]])"
  obtain ff where ff: "map_of (vm_R (demo_F [4])) 0x500 = Some ff" "made ?A [4] [4] ff" using demo_made [of "[4]"] by auto
  have r: "returns_fit [4] [4] (demo_mc [1]) [[VLgl True]]" by (simp add: returns_fit_def demo_mc_def demo_simps)
  have e: "r_eval ?A demo_P (RLang (ff_wrapper ff # map2 (r_arg ?A) [4] [[VLgl True]])) = (Some (loader_result ?A [4] [[VLgl True]]), demo_P)"
    unfolding demo_R_eval by (simp add: loader_result_def sxp_of_def r_arg_def demo_R_def)
  have a: "edges_apart (drop (length [4 :: u8]) (mc_edges (demo_mc [1]))) [[VLgl True]]" by (simp add: demo_mc_def demo_simps)
  show ?thesis
    using call_marshals [OF demo_sxp ff _ _ _ demo_params r _ a e, of "\<lambda>_. True"]
    by (auto simp: mixed_scalars_def demo_mc_def demo_simps)
qed


theorem create_makes_witness:
  "\<exists>ff. fffR_create (demo_R (RList [RObj 2, RObj 3, RObj 4])) [] (\<lambda>_. 0x600) (\<lambda>_. True) (demo_F []) demo_P ''m.r'' ''f'' ''f64 > z'' =
     Some (0x600, demo_F []\<lparr>vm_R := (0x600, ff) # vm_R (demo_F [])\<rparr>, demo_P) \<and> ff_mode ff = RET_VEC_VEC"
proof -
  let ?A = "demo_R (RList [RObj 2, RObj 3, RObj 4])"
  have l: "r_load ?A [] (r_init ?A demo_P) = (RObj 1, demo_P)" by (simp add: r_load_def r_init_def demo_P_def)
  show ?thesis
    using create_makes [OF _ _ l demo_R_eval, of "[0]" "[4]" "\<lambda>_. 0x600" "0x600" "\<lambda>_. True" "demo_F []" "''m.r''" "''f''"]
    by (auto simp: sigtok_names signature_text_def made_def ret_mode_of_def)
qed

theorem failures_reported_witness:
  "fffR_create (demo_R RNil) [] (\<lambda>_. 0x600) (\<lambda>_. True) (demo_F []) demo_P ''m.r'' ''f'' ''f64 > u8'' =
     Some (NULL, fff_errsig (\<lambda>_. True) (demo_F []) ''f64 > u8'', demo_P) \<and>
   fff_ecode (fff_errsig (\<lambda>_. True) (demo_F []) ''f64 > u8'') \<in> {FFF_ERR_MEM, FFF_ERR_SIGNATURE, FFF_ERR_CRASH}"
proof -
  have "fst (fff_parse_signature ''f64 > u8'' sigtok) = -1" by code_simp
  then have "fffR_create (demo_R RNil) [] (\<lambda>_. 0x600) (\<lambda>_. True) (demo_F []) demo_P ''m.r'' ''f'' ''f64 > u8'' =
      Some (NULL, fff_errsig (\<lambda>_. True) (demo_F []) ''f64 > u8'', demo_P)" by (auto simp: fffR_create_def split: prod.splits)
  then show ?thesis using failures_reported by fastforce
qed

end
