(* ===== verification/Spec2Isabelle.thy ===== *)
theory Spec2Isabelle
  imports M2_Vec Fhk_PruneRun Fhk_BuildWf Fhk_Roots Fff_Call
begin

text \<open>
  Verification of the C code of m2, a simulator with a computation engine called fhk: \<^verbatim>\<open>src/src\<close>.

  \<^bold>\<open>The program.\<close> \<^verbatim>\<open>mem.c\<close> provides bump allocation from regions and from arenas of growing chunks. \<^verbatim>\<open>sim.c\<close> keeps the memory of
  a simulation: a static region, a stack of frames with a region each, and a region (the vstack) whose contents
  can be saved at a frame and restored when a branch is left. \<^verbatim>\<open>vec.c\<close> stores vectors of
  objects as one array per attribute in that memory. \<^verbatim>\<open>fhk\<close> computes variables from models: \<^verbatim>\<open>build.c\<close> collects a definition
  (groups, models, variables, checks, maps) and builds a compact graph, \<^verbatim>\<open>prune.c\<close> bounds the cost of every
  variable and selects a subgraph, \<^verbatim>\<open>solve.c\<close> is a coroutine that selects for each instance of
  a variable the cheapest chain of models, asks its caller for shapes, maps, given values and model calls, and
  collects the values. \<^verbatim>\<open>fff\<close> answers model calls with functions written in R: a signature names the types of parameters and
  returns, and the bytes of the edges of a call are converted to values of R and back.

  \<^bold>\<open>The theories.\<close>
  \<^item> \<^verbatim>\<open>M2_Prelude\<close>: the names of the C types, \<^verbatim>\<open>ALIGN\<close>, facts on words, blocks of memory, \<^verbatim>\<open>memcpy\<close>, searches in lists.
  \<^item> \<^verbatim>\<open>M2_Mem\<close> (\<^verbatim>\<open>mem.c\<close>): regions, arenas, the probing \<^verbatim>\<open>mmap\<close>. The locale \<open>block_allocator\<close> states what a client may
    rely on; regions and arenas are its two interpretations, from which the separation of blocks follows for both.
    Termination of the size loop, reset, and the range of probed mappings are shown as well.
  \<^item> \<^verbatim>\<open>M2_Sim\<close> (\<^verbatim>\<open>sim.c\<close>): frames, savepoints, branches. Invariant of the layout over all sequences of calls; a savepoint
    survives every run below its frame and loading restores each byte; status codes.
  \<^item> \<^verbatim>\<open>M2_Vec\<close> (\<^verbatim>\<open>vec.c\<close>): vectors on simulator memory. Deleting keeps exactly the other elements; growing keeps all.
  \<^item> \<^verbatim>\<open>Fhk_Float\<close>: single precision arithmetic on bit patterns, with rounding, as the cost functions use it.
  \<^item> \<^verbatim>\<open>Fhk_Graph\<close> (\<^verbatim>\<open>fhk.h\<close>, \<^verbatim>\<open>def.h\<close>): the graph, its index and map macros, error words.
  \<^item> \<^verbatim>\<open>Fhk_Heap\<close>, \<^verbatim>\<open>Fhk_Prune\<close>, \<^verbatim>\<open>Fhk_Bounds\<close>, \<^verbatim>\<open>Fhk_PruneRun\<close> (\<^verbatim>\<open>prune.c\<close>): the binary heap refines a priority queue (locale
    \<open>priority_queue\<close>); the propagation gives each variable the least cost of a derivation; a run always
    returns; the selection is closed.
  \<^item> \<^verbatim>\<open>Fhk_Def\<close>, \<^verbatim>\<open>Fhk_DefInv\<close>, \<^verbatim>\<open>Fhk_Build\<close>, \<^verbatim>\<open>Fhk_Layout\<close>, \<^verbatim>\<open>Fhk_BuildWf\<close> (\<^verbatim>\<open>build.c\<close>): the definition object and its invariant,
    the builder, the layout of the buffer it fills, and the well-formedness of its result.
  \<^item> \<^verbatim>\<open>Fhk_Bitmap\<close>, \<^verbatim>\<open>Fhk_Subset\<close> (\<^verbatim>\<open>solve.c\<close>): the bitmaps of instances, and the packed subsets with their iterators,
    compared with lists of instances.
  \<^item> \<^verbatim>\<open>Fhk_Solver\<close>, \<^verbatim>\<open>Fhk_SolverApi\<close> (\<^verbatim>\<open>solve.c\<close>): the state of the solver and the functions of its caller; the invariant over
    all sequences of calls; what was set is read back and is set once.
  \<^item> \<^verbatim>\<open>Fhk_Expand\<close> (\<^verbatim>\<open>solve.c\<close>): arrays made on demand, maps and given values asked from the caller.
  \<^item> \<^verbatim>\<open>Fhk_Compute\<close> (\<^verbatim>\<open>solve.c\<close>): scratch buffers, calls of models, the recursion \<^verbatim>\<open>S_compute_value\<close>.
  \<^item> \<^verbatim>\<open>Fhk_Select\<close> (\<^verbatim>\<open>solve.c\<close>): the search \<^verbatim>\<open>S_select_chain\<close>, one definition per label, and the main loop \<^verbatim>\<open>S_solve\<close>.
  \<^item> \<^verbatim>\<open>Fhk_Keep\<close>: what the operations keep of the search states. The locale \<open>preserved\<close> holds the rules for sequences and
    loops of operations; it is interpreted for search states, for memory, for closed chains, and in \<^verbatim>\<open>Fhk_Roots\<close> for complete chains.
  \<^item> \<^verbatim>\<open>Fhk_Chain\<close>: the specification of the search. \<open>solved\<close> is the inductive notion of a complete chain with its cost; solved
    states stay solved under everything that keeps chains.
  \<^item> \<^verbatim>\<open>Fhk_Frames\<close>, \<^verbatim>\<open>Fhk_Search\<close>: what the frames of the work stack stand for, the invariant of the labels, and one lemma for each
    label; together the search is sound.
  \<^item> \<^verbatim>\<open>Fhk_Roots\<close>: the chains and the values of the roots of a request.
  \<^item> \<^verbatim>\<open>Fff_Signature\<close> (\<^verbatim>\<open>fff/signature.c\<close>): the parser of signatures accepts exactly an inductive grammar and reads back what the frontend prints.
  \<^item> \<^verbatim>\<open>Fff_R\<close>, \<^verbatim>\<open>Fff_Call\<close> (\<^verbatim>\<open>fff/ff_R.c\<close>, \<^verbatim>\<open>fff/state.c\<close>, \<^verbatim>\<open>fff/err.c\<close>): creation, call and destruction of functions in R; a call passes the values
    of its parameters on and stores the returned values at the return edges, every failure is reported, and scalar
    returns of different types are shown to be stored as addresses.
  The last section of this theory joins definition, builder and pruner.

  \<^bold>\<open>Modelling.\<close> A struct is a record, an enumeration a datatype, an integer whose width matters a word. Memory that the code
  addresses by pointers is a function from addresses to bytes; arrays that only one component reads are
  lists or functions of an index. Variables have indices from 0, models from -1 downwards, as in the code.
  A failing call returns \<open>None\<close>, an error word, or a value of the type \<open>stop\<close>: the coroutine has ended
  with a status, the code would access memory outside an object (\<open>Fault\<close>), or the fuel is used up. Loops whose end is
  not evident are \<^verbatim>\<open>partial_function\<close> or take fuel; the fuel of the pruner and of \<^verbatim>\<open>S_get_missingi\<close> is shown to be
  enough, that of the chain search is an argument, because the search need not end: when a
  bound rounds down, \<^verbatim>\<open>x_failed\<close> chooses the same candidate again. The theorems on the search therefore speak of the runs that return.

  \<^bold>\<open>Scope of the search theorems.\<close> The costs of the graph are nonnegative, as the builder checks, the constant part of the cost of a model is not
  above its lower bound, and maps give the empty set or one interval of at most 32767 instances: for
  longer intervals, and for complex sets under every map but number 0, the iterators are shown to go wrong in \<^verbatim>\<open>Fhk_Subset\<close>.

  \<^bold>\<open>Parameters.\<close> \<^verbatim>\<open>malloc\<close>, \<^verbatim>\<open>realloc\<close> and \<^verbatim>\<open>mmap\<close> are arguments of the definitions that use them; what they promise (a fresh
  block or \<^verbatim>\<open>NULL\<close>) is a hypothesis of the theorems. \<^verbatim>\<open>qsort\<close> is a sort by the comparison function. The
  caller of the solver is a function from status and solver to solver, restricted, where a theorem needs it, to sequences of
  calls of the solver's functions and writes to memory. Padding that the builder does not write is a parameter (\<open>junk\<close>), and
  so is the size of \<^verbatim>\<open>struct fhk_solver\<close>. The interpreter of R is a record of functions on an unspecified state; of \<^verbatim>\<open>loader.r\<close> only
  the form of the results of its wrappers is used.

  \<^bold>\<open>Not modelled.\<close> The switching of stacks (\<^verbatim>\<open>fhk/co_*\<close>) is assembly or libco; a yield is modelled by its effect.
  \<^verbatim>\<open>fhk/debug.c\<close> and the debug prints have no effect on the state. \<^verbatim>\<open>frontend\<close> starts LuaJIT
  and is mostly Lua. \<^verbatim>\<open>vmath.c\<close> has simd loops over arrays of doubles, whose sums are taken in
  an order that the compiler chooses, so the source does not determine their results.
\<close>

section \<open>From a definition to the bounds\<close>

text \<open>
  C2. The parts of fhk fit together. Whatever calls made a definition, when its maps fit and its numbers are
  costs, the graph built from it can be given to a fresh pruner: the run returns, and if it
  succeeds every bound is the least cost of a derivation, or infinity when there is none.
\<close>

theorem define_build_prune:
  assumes "def_reach D" "maps_fit D" "emaps_known D" "numbers_ok D" "fhk_build_graph junk D p = Some (G, L, q)" "fresh P"
  shows "\<exists>r. fhk_prune_run (bounded ralloc) G P = Some r \<and>
     (\<forall>P'. r = Inr P' \<longrightarrow> (\<forall>x c. vidx G x \<longrightarrow> c < 2 \<longrightarrow>
        (\<forall>s. derives G (skipped G P) (given_var P) c x s \<longrightarrow> bound P' x c \<le> s) \<and>
        (derives G (skipped G P) (given_var P) c x (bound P' x c) \<or> bound P' x c = INFINITY)))"
proof -
  have wf: "graph_wf G" by (rule graph_wf_built [OF reach_ok [OF assms(1)] assms(2-5)])
  obtain r where r: "fhk_prune_run (bounded ralloc) G P = Some r" using prune_run_phases [OF wf assms(6)] by blast
  moreover have "(\<forall>s. derives G (skipped G P) (given_var P) c x s \<longrightarrow> bound P' x c \<le> s) \<and>
        (derives G (skipped G P) (given_var P) c x (bound P' x c) \<or> bound P' x c = INFINITY)"
    if "r = Inr P'" "vidx G x" "c < 2" for P' x c
    using run_bounds_least [OF wf assms(6) _ that(2,3)] r that(1) by blast
  ultimately show ?thesis by blast
qed

theorem define_build_prune_witness:
  "\<exists>G L q r. fhk_build_graph 0 demo_def 0 = Some (G, L, q) \<and> fhk_prune_run (bounded (\<lambda>_. True)) G demo_prune = Some r"
proof -
  obtain G L q where b: "fhk_build_graph 0 demo_def 0 = Some (G, L, q)"
    using build_defined [of demo_def 0 0] by (auto simp: demo_def_def vec_null_def)
  show ?thesis using define_build_prune [OF demo_reach demo_fits b demo_fresh] b by blast
qed

end
